(* ===== verification/SDK_Prelude.thy ===== *)
theory SDK_Prelude
  imports Main "HOL-Library.Word" "HOL-Library.Monad_Syntax"
begin

text \<open>
  What the component theories share: the names of the C integer types, the two memory
  primitives (reading and overwriting a block of an object) with the out-of-bounds case
  made explicit, and the generic facts on lists, rotations and machine words that the
  component proofs use.

  Conventions of the whole development.  A C object (a buffer, an array) is a list of its
  elements.  An operation that the C standard leaves undefined when it leaves its object
  returns \<open>None\<close>; an error the code itself reports is a return value of the model, as it
  is in the code.  So a lemma that an operation is \<open>Some _\<close> is a memory-safety lemma.
\<close>

unbundle bit_operations_syntax

type_synonym u8 = "8 word"
type_synonym u16 = "16 word"
type_synonym u32 = "32 word"
type_synonym u64 = "64 word"
type_synonym bytes = "u8 list"

named_theorems mem_simps \<open>facts about the memory primitives\<close>
named_theorems inv_intros \<open>preservation of the component invariants\<close>

section \<open>Blocks of memory\<close>

definition mem_read :: "'a list \<Rightarrow> nat \<Rightarrow> nat \<Rightarrow> 'a list option" where
  "mem_read m i n = (if i + n \<le> length m then Some (take n (drop i m)) else None)"

definition mem_write :: "'a list \<Rightarrow> nat \<Rightarrow> 'a list \<Rightarrow> 'a list option" where
  "mem_write m i xs =
     (if i + length xs \<le> length m then Some (take i m @ xs @ drop (i + length xs) m) else None)"

definition mem_get :: "'a list \<Rightarrow> nat \<Rightarrow> 'a option" where
  "mem_get m i = (if i < length m then Some (m ! i) else None)"

definition mem_set :: "'a list \<Rightarrow> nat \<Rightarrow> 'a \<Rightarrow> 'a list option" where
  "mem_set m i x = (if i < length m then Some (m[i := x]) else None)"

lemma mem_read_in [mem_simps]: "i + n \<le> length m \<Longrightarrow> mem_read m i n = Some (take n (drop i m))"
  by (simp add: mem_read_def)

lemma mem_read_length: "mem_read m i n = Some xs \<Longrightarrow> length xs = n"
  by (auto simp: mem_read_def split: if_splits)

lemma mem_write_in [mem_simps]:
  "i + length xs \<le> length m \<Longrightarrow>
   mem_write m i xs = Some (take i m @ xs @ drop (i + length xs) m)"
  by (simp add: mem_write_def)

lemma mem_write_length: "mem_write m i xs = Some m' \<Longrightarrow> length m' = length m"
  by (auto simp: mem_write_def split: if_splits)

lemma mem_get_in [mem_simps]: "i < length m \<Longrightarrow> mem_get m i = Some (m ! i)"
  by (simp add: mem_get_def)

lemma mem_set_in [mem_simps]: "i < length m \<Longrightarrow> mem_set m i x = Some (m[i := x])"
  by (simp add: mem_set_def)

lemma mem_set_eq_write: "mem_set m i x = mem_write m i [x]"
  by (simp add: mem_set_def mem_write_def upd_conv_take_nth_drop)

lemma two_updates: "Suc i < length m \<Longrightarrow> m[i := a, Suc i := b] = take i m @ [a, b] @ drop (i + 2) m"
  by (simp add: upd_conv_take_nth_drop [of i] list_update_append Cons_nth_drop_Suc [symmetric])

lemma drop_eq_Cons: "drop i xs = y # ys \<Longrightarrow> i < length xs \<and> xs ! i = y \<and> drop (Suc i) xs = ys"
  by (metis Cons_nth_drop_Suc drop_eq_Nil2 linorder_not_less list.discI list.sel(1,3))

lemma mem_read_write_same: "mem_write m i xs = Some m' \<Longrightarrow> mem_read m' i (length xs) = Some xs"
  by (auto simp: mem_write_def mem_read_def split: if_splits)

section \<open>Rotations: the memory of a ring\<close>

text \<open>
  \<open>ring_read buf r n\<close> and \<open>ring_store buf w xs\<close> are the two-part copies that a circular buffer
  makes; seen through \<open>rotate\<close> they are a prefix and a replacement of a prefix.
\<close>

definition ring_read :: "'a list \<Rightarrow> nat \<Rightarrow> nat \<Rightarrow> 'a list" where
  "ring_read buf r n =
     (if r + n < length buf then take n (drop r buf)
      else drop r buf @ take (n - (length buf - r)) buf)"

definition ring_store :: "'a list \<Rightarrow> nat \<Rightarrow> 'a list \<Rightarrow> 'a list" where
  "ring_store buf w xs =
     (if w + length xs < length buf then take w buf @ xs @ drop (w + length xs) buf
      else (let k = length buf - w in
            drop k xs @ take (w - (length xs - k)) (drop (length xs - k) buf) @ take k xs))"

lemma ring_read_rotate:
  assumes "r < length buf" and "n \<le> length buf"
  shows "ring_read buf r n = take n (rotate r buf)"
  using assms by (auto simp: ring_read_def rotate_drop_take)

lemma length_ring_store [simp]:
  assumes "w < length buf" and "length xs \<le> length buf"
  shows "length (ring_store buf w xs) = length buf"
  using assms by (auto simp: ring_store_def Let_def)

lemma rotate_ring_store:
  assumes "w < length buf" and "length xs \<le> length buf"
  shows "rotate w (ring_store buf w xs) = xs @ drop (length xs) (rotate w buf)"
proof (cases "w + length xs < length buf")
  case True
  with assms show ?thesis by (simp add: ring_store_def rotate_drop_take add.commute)
next
  case False
  define k where "k = length buf - w"
  define n where "n = length xs - k"
  from False assms have k: "k \<le> length xs" "k + n = length xs" "n \<le> w"
    by (auto simp: k_def n_def)
  have "rotate w buf = drop w buf @ take w buf"
    using assms by (simp add: rotate_drop_take)
  moreover have "length xs - length (drop w buf) = n"
    using assms by (simp add: k_def n_def)
  ultimately have "drop (length xs) (rotate w buf) = drop n (take w buf)"
    using assms False by simp
  moreover have st: "ring_store buf w xs = drop k xs @ drop n (take w buf) @ take k xs"
    using False by (simp add: ring_store_def Let_def k_def n_def drop_take)
  moreover have "rotate w (ring_store buf w xs) = take k xs @ drop k xs @ drop n (take w buf)"
  proof -
    have "length (drop k xs @ drop n (take w buf)) = w"
      using k assms by simp
    then have "rotate w (ring_store buf w xs) = rotate (length (drop k xs @ drop n (take w buf)))
        ((drop k xs @ drop n (take w buf)) @ take k xs)"
      by (simp add: st)
    also have "\<dots> = take k xs @ drop k xs @ drop n (take w buf)"
      by (simp only: rotate_append)
    finally show ?thesis .
  qed
  ultimately show ?thesis by simp
qed

lemma length_ring_read [simp]:
  "r < length buf \<Longrightarrow> n \<le> length buf \<Longrightarrow> length (ring_read buf r n) = n"
  by (simp add: ring_read_rotate)

lemma ring_store_read:
  assumes "i < length buf" and "n \<le> length buf"
  shows "ring_store buf i (ring_read buf i n) = buf"
proof (cases "i + n < length buf")
  case True
  have "take n (drop i buf) @ drop (i + n) buf = drop i buf"
    by (metis add.commute append_take_drop_id drop_drop)
  with True show ?thesis by (simp add: ring_store_def ring_read_def)
next
  case False
  define k where "k = length buf - i"
  have k: "length buf - i = k" "n - k \<le> i" "k \<le> n" "n - k \<le> length buf"
    using False assms by (auto simp: k_def)
  have "take (n - k) buf @ take (i - (n - k)) (drop (n - k) buf) = take i buf"
    using k(2) by (metis le_add_diff_inverse take_add)
  with False k assms show ?thesis
    by (simp add: ring_store_def ring_read_def Let_def flip: append_assoc)
qed

text \<open>
  Storing \<open>xs\<close> right behind the \<open>n\<close> elements that start at \<open>r\<close> appends \<open>xs\<close> to them.
\<close>

lemma ring_store_append:
  assumes "r < length buf" and "n + length xs \<le> length buf" and "0 < length buf"
  shows "take (n + length xs) (rotate r (ring_store buf ((r + n) mod length buf) xs)) =
         take n (rotate r buf) @ xs"
proof (cases "n = length buf")
  case True
  then have "xs = []" using assms by simp
  with True assms show ?thesis by (simp add: ring_store_def Let_def)
next
  case False
  let ?S = "length buf"
  define w where "w = (r + n) mod ?S"
  define buf' where "buf' = ring_store buf w xs"
  have n: "n < ?S" using False assms by simp
  have w: "w < ?S" using assms by (simp add: w_def)
  have len: "length buf' = ?S" using assms w by (simp add: buf'_def)
  have rot: "rotate w b = rotate n (rotate r b)" if "length b = ?S" for b :: "'a list"
    using that by (metis w_def add.commute rotate_conv_mod rotate_rotate)
  have "rotate n (rotate r buf') = xs @ drop (length xs) (rotate n (rotate r buf))"
    using rotate_ring_store [of w buf xs] assms w rot len by (simp add: buf'_def)
  then have eq: "drop n (rotate r buf') @ take n (rotate r buf') =
      xs @ drop (length xs) (drop n (rotate r buf) @ take n (rotate r buf))"
    using n len by (simp add: rotate_drop_take)
  have "drop (length xs) (drop n (rotate r buf) @ take n (rotate r buf)) =
      drop (n + length xs) (rotate r buf) @ take n (rotate r buf)"
    using assms by (simp add: add.commute)
  with eq have "drop n (rotate r buf') @ take n (rotate r buf') =
      (xs @ drop (n + length xs) (rotate r buf)) @ take n (rotate r buf)"
    by simp
  then have parts: "drop n (rotate r buf') = xs @ drop (n + length xs) (rotate r buf)"
      "take n (rotate r buf') = take n (rotate r buf)"
    using append_eq_append_conv [of "drop n (rotate r buf')"
        "xs @ drop (n + length xs) (rotate r buf)" "take n (rotate r buf')"] len n assms
    by auto
  have "take (n + length xs) (rotate r buf') =
      take n (rotate r buf') @ take (length xs) (drop n (rotate r buf'))"
    by (simp add: take_add)
  with parts show ?thesis by (simp add: buf'_def w_def)
qed

section \<open>Machine words\<close>

lemma unat_sub_le: "(b :: 'a::len word) \<le> a \<Longrightarrow> unat (a - b) = unat a - unat b"
  by (simp add: unat_sub)

lemma unat_plus_small:
  "unat a + unat b < 2 ^ LENGTH('a) \<Longrightarrow> unat ((a :: 'a::len word) + b) = unat a + unat b"
  by (simp add: unat_add_lem [symmetric])

lemma unat_of_nat_small: "n < 2 ^ LENGTH('a) \<Longrightarrow> unat (of_nat n :: 'a::len word) = n"
  by (simp add: unat_of_nat take_bit_nat_eq_self)

lemma word_of_unat: "unat w = n \<Longrightarrow> w = of_nat n"
  by auto

lemma unat_min: "unat (min a b) = min (unat a) (unat (b :: 'a::len word))"
  by (simp add: min_def word_le_nat_alt)

lemma unat_u32_less [simp]: "unat (x :: u32) < 4294967296"
  using unsigned_less [of x] by simp

lemma below_u32:
  "n < unat (x :: u32) \<Longrightarrow> n < 4294967296" "n \<le> unat x \<Longrightarrow> n < 4294967296"
  by (erule less_trans le_less_trans, rule unat_u32_less)+

lemma unat_less_iff: "(a < b) = (unat a < unat (b :: 'a::len word))"
  by (rule word_less_nat_alt)

lemma unat_le_iff: "(a \<le> b) = (unat a \<le> unat (b :: 'a::len word))"
  by (rule word_le_nat_alt)

lemma unat_Suc_below: "i < n \<Longrightarrow> unat (i + 1) = Suc (unat i)" for i n :: "'a::len word"
proof -
  assume "i < n"
  then have "unat i + 1 < 2 ^ LENGTH('a)"
    using unsigned_less [of n, where ?'a = nat] unfolding unat_less_iff by linarith
  then show ?thesis using unat_plus_small [of i 1] by simp
qed

lemma unat_u8_less: "unat (x :: u8) < 256"
  using unsigned_less [of x] by simp

lemma unat_ucast_u8 [simp]: "unat (ucast (x :: u8) :: u32) = unat x"
proof -
  have "unat x < 4294967296" by (rule less_trans [OF unat_u8_less]) simp
  then show ?thesis by (simp add: unsigned_ucast_eq take_bit_nat_eq_self_iff)
qed

lemma unat_bits: "unat (drop_bit s t AND mask n) = unat (t :: 'a::len word) div 2 ^ s mod 2 ^ n"
proof -
  have "take_bit LENGTH('a) (unat t) = unat t" by (simp add: take_bit_nat_eq_self)
  then show ?thesis
    by (simp only: flip: take_bit_eq_mask)
      (simp add: unsigned_take_bit_eq unsigned_drop_bit_eq flip: take_bit_eq_mod drop_bit_eq_div)
qed

end
