(* ===== verification/Byte_Fifo.thy ===== *)
theory Byte_Fifo
  imports SDK_Prelude
begin

text \<open>
  The contract of a bounded byte queue, as the drivers and the log that use one rely on it:
  a put stores what fits, a get delivers the oldest bytes.  \<open>fifo_run\<close> is a client's history of
  puts and gets; it returns the bytes accepted and the bytes delivered, in order.
\<close>

datatype fifo_op = Put bytes | Get nat

fun fifo_run ::
  "('q \<Rightarrow> bytes \<Rightarrow> (nat \<times> 'q) option) \<Rightarrow> ('q \<Rightarrow> nat \<Rightarrow> (bytes \<times> 'q) option) \<Rightarrow> 'q \<Rightarrow> fifo_op list \<Rightarrow>
   (bytes \<times> bytes \<times> 'q) option" where
  "fifo_run put get q [] = Some ([], [], q)"
| "fifo_run put get q (Put xs # ops) = do {
     (n, q) \<leftarrow> put q xs;
     (accepted, delivered, q) \<leftarrow> fifo_run put get q ops;
     Some (take n xs @ accepted, delivered, q)
   }"
| "fifo_run put get q (Get n # ops) = do {
     (ys, q) \<leftarrow> get q n;
     (accepted, delivered, q) \<leftarrow> fifo_run put get q ops;
     Some (accepted, ys @ delivered, q)
   }"

fun op_within :: "nat \<Rightarrow> fifo_op \<Rightarrow> bool" where
  "op_within limit (Put xs) = (length xs < limit)"
| "op_within limit (Get n) = (n < limit)"

locale byte_fifo =
  fixes inv :: "'q \<Rightarrow> bool" and contents :: "'q \<Rightarrow> bytes" and capacity :: "'q \<Rightarrow> nat"
    and put :: "'q \<Rightarrow> bytes \<Rightarrow> (nat \<times> 'q) option" and get :: "'q \<Rightarrow> nat \<Rightarrow> (bytes \<times> 'q) option"
    and limit :: nat
  assumes bounded: "inv q \<Longrightarrow> length (contents q) \<le> capacity q"
    and put: "inv q \<Longrightarrow> length xs < limit \<Longrightarrow>
      \<exists>n q'. put q xs = Some (n, q') \<and> n = min (length xs) (capacity q - length (contents q)) \<and>
        inv q' \<and> capacity q' = capacity q \<and> contents q' = contents q @ take n xs"
    and get: "inv q \<Longrightarrow> n < limit \<Longrightarrow>
      \<exists>q'. get q n = Some (take n (contents q), q') \<and>
        inv q' \<and> capacity q' = capacity q \<and> contents q' = drop n (contents q)"
begin

lemma run_total:
  assumes "inv q" and "list_all (op_within limit) ops"
  shows "\<exists>accepted delivered q'. fifo_run put get q ops = Some (accepted, delivered, q') \<and>
    inv q' \<and> capacity q' = capacity q \<and> contents q @ accepted = delivered @ contents q'"
  using assms
proof (induction ops arbitrary: q)
  case Nil
  then show ?case by simp
next
  case (Cons a ops)
  show ?case
  proof (cases a)
    case (Put xs)
    with put [OF Cons.prems(1), of xs] Cons.prems(2) obtain n q1 where
      p: "put q xs = Some (n, q1)" "inv q1" "capacity q1 = capacity q"
        "contents q1 = contents q @ take n xs"
      by auto
    with Cons.IH [OF p(2)] Cons.prems(2) obtain acc del q2 where
      "fifo_run put get q1 ops = Some (acc, del, q2)" "inv q2" "capacity q2 = capacity q1"
      "contents q1 @ acc = del @ contents q2"
      by auto
    with Put p show ?thesis by simp
  next
    case (Get n)
    with get [OF Cons.prems(1), of n] Cons.prems(2) obtain q1 where
      g: "get q n = Some (take n (contents q), q1)" "inv q1" "capacity q1 = capacity q"
        "contents q1 = drop n (contents q)"
      by auto
    with Cons.IH [OF g(2)] Cons.prems(2) obtain acc del q2 where
      r: "fifo_run put get q1 ops = Some (acc, del, q2)" "inv q2" "capacity q2 = capacity q1"
        "contents q1 @ acc = del @ contents q2"
      by auto
    have "contents q @ acc = (take n (contents q) @ del) @ contents q2"
      using r(4) g(4) by (metis append.assoc append_take_drop_id)
    with Get g r show ?thesis by simp
  qed
qed

lemma delivered_prefix:
  assumes "inv q" and "contents q = []" and "list_all (op_within limit) ops"
  shows "\<exists>accepted delivered q'. fifo_run put get q ops = Some (accepted, delivered, q') \<and>
    accepted = delivered @ contents q' \<and> length accepted \<le> length delivered + capacity q"
  using run_total [OF assms(1,3)] assms(2) bounded by fastforce

end

end
