(* ===== verification/Ring_Buffer.thy ===== *)
theory Ring_Buffer
  imports Byte_Fifo
begin

text \<open>
  The byte ring buffer of \<^verbatim>\<open>components/utils/ring_buffer/ring_buffer.c\<close>.  A mirror bit
  per index (a byte that is 0 or, after \<open>~\<close>, 255) tells an empty ring from a full one.

  \<open>pointer\<close> holds the bytes of the buffer object, \<open>rb_size\<close> is the C field \<open>sz\<close>.  The
  fields \<open>lock\<close> and \<open>unlock\<close> say whether the callback is not NULL, and \<open>calls\<close> records the
  callbacks made, in order, so that the critical sections of the code are visible.  All
  index arithmetic is on \<open>32 word\<close>, as in the code.
\<close>

section \<open>State and operations\<close>

datatype Ring_Buffer_Status_Type = RING_BUFFER_EMPTY | RING_BUFFER_PARTIAL | RING_BUFFER_FULL

datatype lock_call = Lock | Unlock

record Ring_Buffer_Type =
  pointer :: bytes
  readMirror :: u8
  readIndex :: u32
  writeMirror :: u8
  writeIndex :: u32
  rb_size :: u32
  lock :: bool
  unlock :: bool
  calls :: "lock_call list"

text \<open>
  A read or write callback gets its parameter and a region of the ring, and returns the new
  parameter and the new contents of that region; \<open>None\<close> is undefined behaviour in it.
\<close>

type_synonym 'p ringBuffer_Callback = "'p \<Rightarrow> bytes \<Rightarrow> ('p \<times> bytes) option"

definition rb_lock :: "Ring_Buffer_Type \<Rightarrow> Ring_Buffer_Type" where
  "rb_lock rb = (if lock rb then rb\<lparr>calls := calls rb @ [Lock]\<rparr> else rb)"

definition rb_unlock :: "Ring_Buffer_Type \<Rightarrow> Ring_Buffer_Type" where
  "rb_unlock rb = (if unlock rb then rb\<lparr>calls := calls rb @ [Unlock]\<rparr> else rb)"

definition Ring_Buffer_Init :: "bytes \<Rightarrow> u32 \<Rightarrow> bool \<Rightarrow> bool \<Rightarrow> Ring_Buffer_Type" where
  "Ring_Buffer_Init buffer sz lockCb unlockCb =
     \<lparr>pointer = buffer, readMirror = 0, readIndex = 0, writeMirror = 0, writeIndex = 0,
      rb_size = sz, lock = lockCb, unlock = unlockCb, calls = []\<rparr>"

definition Ring_Buffer_Reset :: "Ring_Buffer_Type \<Rightarrow> Ring_Buffer_Type" where
  "Ring_Buffer_Reset rb =
     rb_unlock ((rb_lock rb)\<lparr>readMirror := 0, readIndex := 0, writeMirror := 0, writeIndex := 0\<rparr>)"

definition Ring_Buffer_Get_Length :: "Ring_Buffer_Type \<Rightarrow> u32 \<times> Ring_Buffer_Type" where
  "Ring_Buffer_Get_Length rb =
     (let rb = rb_lock rb;
          rM = readMirror rb; wM = writeMirror rb; rI = readIndex rb; wI = writeIndex rb;
          sz = rb_size rb;
          rb = rb_unlock rb
      in (if rM = wM then wI - rI else sz - (rI - wI), rb))"

definition Ring_Buffer_Get_Empty_Length :: "Ring_Buffer_Type \<Rightarrow> u32 \<times> Ring_Buffer_Type" where
  "Ring_Buffer_Get_Empty_Length rb =
     (let (n, rb') = Ring_Buffer_Get_Length rb in (rb_size rb - n, rb'))"

definition Ring_Buffer_Get_Status ::
  "Ring_Buffer_Type \<Rightarrow> Ring_Buffer_Status_Type \<times> Ring_Buffer_Type" where
  "Ring_Buffer_Get_Status rb =
     (let rb = rb_lock rb in
      if readIndex rb = writeIndex rb then
        (if readMirror rb = writeMirror rb then (RING_BUFFER_EMPTY, rb_unlock rb)
         else (RING_BUFFER_FULL, rb_unlock rb))
      else (RING_BUFFER_PARTIAL, rb_unlock rb))"

text \<open>One call of a callback on \<open>n\<close> bytes of the ring from \<open>off\<close>.\<close>

definition rb_region ::
  "'p ringBuffer_Callback \<Rightarrow> 'p \<Rightarrow> u32 \<Rightarrow> u32 \<Rightarrow> Ring_Buffer_Type \<Rightarrow> ('p \<times> Ring_Buffer_Type) option"
where
  "rb_region cb p off n rb = do {
     s \<leftarrow> mem_read (pointer rb) (unat off) (unat n);
     (p', s') \<leftarrow> cb p s;
     if length s' = length s then do {
       m \<leftarrow> mem_write (pointer rb) (unat off) s';
       Some (p', rb\<lparr>pointer := m\<rparr>)
     } else None
   }"

text \<open>
  \<open>Ring_Buffer_Write_Callback\<close> reads the free space first and takes the lock afterwards; the
  part from the second lock on is a definition of its own, so that what happens between the
  two critical sections can be stated.
\<close>

definition rb_write_section ::
  "u32 \<Rightarrow> 'p ringBuffer_Callback \<Rightarrow> u32 \<Rightarrow> 'p \<Rightarrow> Ring_Buffer_Type \<Rightarrow>
   (u32 \<times> 'p \<times> Ring_Buffer_Type) option" where
  "rb_write_section sizeRemained writeCb len parameter rb =
     (let rb = rb_lock rb in
      if sizeRemained = 0 then Some (0, parameter, rb_unlock rb)
      else
        let len = (if len > sizeRemained then sizeRemained else len);
            sizeRemained = rb_size rb - writeIndex rb
        in
        if sizeRemained > len then do {
          (p, rb) \<leftarrow> rb_region writeCb parameter (writeIndex rb) len rb;
          let rb = rb\<lparr>writeIndex := writeIndex rb + len\<rparr>;
          Some (len, p, rb_unlock rb)
        } else do {
          (p, rb) \<leftarrow> rb_region writeCb parameter (writeIndex rb) sizeRemained rb;
          (p, rb) \<leftarrow> rb_region writeCb p 0 (len - sizeRemained) rb;
          let rb = rb\<lparr>writeIndex := len - sizeRemained, writeMirror := NOT (writeMirror rb)\<rparr>;
          Some (len, p, rb_unlock rb)
        })"

definition Ring_Buffer_Write_Callback ::
  "Ring_Buffer_Type \<Rightarrow> u32 \<Rightarrow> 'p ringBuffer_Callback option \<Rightarrow> 'p \<Rightarrow>
   (u32 \<times> 'p \<times> Ring_Buffer_Type) option" where
  "Ring_Buffer_Write_Callback rb len writeCb parameter =
     (let (sizeRemained, rb) = Ring_Buffer_Get_Empty_Length rb in
      case writeCb of
        None \<Rightarrow> Some (0, parameter, rb)
      | Some cb \<Rightarrow> rb_write_section sizeRemained cb len parameter rb)"

text \<open>The parameter of the copying callbacks is the source pointer: the bytes still to copy.\<close>

definition Ring_Buffer_Write_Copy :: "bytes ringBuffer_Callback" where
  "Ring_Buffer_Write_Copy src dest = do {
     s \<leftarrow> mem_read src 0 (length dest);
     Some (drop (length dest) src, s)
   }"

definition Ring_Buffer_Write ::
  "Ring_Buffer_Type \<Rightarrow> bytes \<Rightarrow> u32 \<Rightarrow> (u32 \<times> Ring_Buffer_Type) option" where
  "Ring_Buffer_Write rb data len = do {
     (n, _, rb) \<leftarrow> Ring_Buffer_Write_Callback rb len (Some Ring_Buffer_Write_Copy) data;
     Some (n, rb)
   }"

definition Ring_Buffer_Write_Byte ::
  "Ring_Buffer_Type \<Rightarrow> u8 \<Rightarrow> (u32 \<times> Ring_Buffer_Type) option" where
  "Ring_Buffer_Write_Byte rb data =
     (let rb = rb_lock rb; (n, rb) = Ring_Buffer_Get_Empty_Length rb in
      if n = 0 then Some (0, rb_unlock rb)
      else do {
        m \<leftarrow> mem_set (pointer rb) (unat (writeIndex rb)) data;
        let rb = rb\<lparr>pointer := m\<rparr>;
        let rb = (if writeIndex rb \<noteq> rb_size rb - 1 then rb\<lparr>writeIndex := writeIndex rb + 1\<rparr>
                  else rb\<lparr>writeIndex := 0, writeMirror := NOT (writeMirror rb)\<rparr>);
        Some (1, rb_unlock rb)
      })"

text \<open>
  \<open>Ring_Buffer_Write_Force\<close> first drops what cannot fit a whole ring; the copy and the index
  updates that follow are \<open>rb_force_section\<close>.
\<close>

definition rb_force_section ::
  "u32 \<Rightarrow> u32 \<Rightarrow> bytes \<Rightarrow> u32 \<Rightarrow> Ring_Buffer_Type \<Rightarrow> (u32 \<times> Ring_Buffer_Type) option" where
  "rb_force_section sizeRemained indexRemained data len rb =
     (if indexRemained > len then do {
        s \<leftarrow> mem_read data 0 (unat len);
        m \<leftarrow> mem_write (pointer rb) (unat (writeIndex rb)) s;
        let rb = rb\<lparr>pointer := m, writeIndex := writeIndex rb + len\<rparr>;
        let rb = (if len > sizeRemained then rb\<lparr>readIndex := writeIndex rb\<rparr> else rb);
        Some (len, rb_unlock rb)
      } else do {
        s \<leftarrow> mem_read data 0 (unat indexRemained);
        m \<leftarrow> mem_write (pointer rb) (unat (writeIndex rb)) s;
        s \<leftarrow> mem_read data (unat indexRemained) (unat (len - indexRemained));
        m \<leftarrow> mem_write m 0 s;
        let rb = rb\<lparr>pointer := m, writeIndex := len - indexRemained,
                    writeMirror := NOT (writeMirror rb)\<rparr>;
        let rb = (if len > sizeRemained
                  then rb\<lparr>readIndex := writeIndex rb, readMirror := NOT (readMirror rb)\<rparr>
                  else rb);
        Some (len, rb_unlock rb)
      })"

definition Ring_Buffer_Write_Force ::
  "Ring_Buffer_Type \<Rightarrow> bytes \<Rightarrow> u32 \<Rightarrow> (u32 \<times> Ring_Buffer_Type) option" where
  "Ring_Buffer_Write_Force rb data len =
     (let (sizeRemained, rb) = Ring_Buffer_Get_Empty_Length rb;
          indexRemained = rb_size rb - writeIndex rb;
          rb = rb_lock rb
      in
      if len > rb_size rb
      then rb_force_section sizeRemained indexRemained
             (drop (unat (len - rb_size rb)) data) (rb_size rb) rb
      else rb_force_section sizeRemained indexRemained data len rb)"

definition Ring_Buffer_Write_Byte_Force ::
  "Ring_Buffer_Type \<Rightarrow> u8 \<Rightarrow> (u32 \<times> Ring_Buffer_Type) option" where
  "Ring_Buffer_Write_Byte_Force rb data =
     (let (status, rb) = Ring_Buffer_Get_Status rb; rb = rb_lock rb in do {
        m \<leftarrow> mem_set (pointer rb) (unat (writeIndex rb)) data;
        let rb = rb\<lparr>pointer := m\<rparr>;
        let rb =
          (if writeIndex rb = rb_size rb - 1 then
             let rb = rb\<lparr>writeIndex := 0, writeMirror := NOT (writeMirror rb)\<rparr> in
             if status = RING_BUFFER_FULL
             then rb\<lparr>readIndex := writeIndex rb, readMirror := NOT (readMirror rb)\<rparr> else rb
           else
             let rb = rb\<lparr>writeIndex := writeIndex rb + 1\<rparr> in
             if status = RING_BUFFER_FULL then rb\<lparr>readIndex := writeIndex rb\<rparr> else rb);
        Some (1, rb_unlock rb)
      })"

definition rb_read_section ::
  "u32 \<Rightarrow> 'p ringBuffer_Callback \<Rightarrow> u32 \<Rightarrow> 'p \<Rightarrow> Ring_Buffer_Type \<Rightarrow>
   (u32 \<times> 'p \<times> Ring_Buffer_Type) option" where
  "rb_read_section sz readCb len parameter rb =
     (let rb = rb_lock rb in
      if sz = 0 then Some (0, parameter, rb_unlock rb)
      else
        let len = (if sz < len then sz else len);
            sz = rb_size rb - readIndex rb
        in
        if sz > len then do {
          (p, rb) \<leftarrow> rb_region readCb parameter (readIndex rb) len rb;
          let rb = rb\<lparr>readIndex := readIndex rb + len\<rparr>;
          Some (len, p, rb_unlock rb)
        } else do {
          (p, rb) \<leftarrow> rb_region readCb parameter (readIndex rb) sz rb;
          (p, rb) \<leftarrow> rb_region readCb p 0 (len - sz) rb;
          let rb = rb\<lparr>readIndex := len - sz, readMirror := NOT (readMirror rb)\<rparr>;
          Some (len, p, rb_unlock rb)
        })"

definition Ring_Buffer_Read_Callback ::
  "Ring_Buffer_Type \<Rightarrow> u32 \<Rightarrow> 'p ringBuffer_Callback option \<Rightarrow> 'p \<Rightarrow>
   (u32 \<times> 'p \<times> Ring_Buffer_Type) option" where
  "Ring_Buffer_Read_Callback rb len readCb parameter =
     (let (sz, rb) = Ring_Buffer_Get_Length rb in
      case readCb of
        None \<Rightarrow> Some (0, parameter, rb)
      | Some cb \<Rightarrow> rb_read_section sz cb len parameter rb)"

text \<open>
  The parameter of \<open>Ring_Buffer_Read_Copy\<close> is the destination pointer: the destination
  object with the offset reached in it.
\<close>

definition Ring_Buffer_Read_Copy :: "(bytes \<times> nat) ringBuffer_Callback" where
  "Ring_Buffer_Read_Copy = (\<lambda>(dest, i) data. do {
     dest \<leftarrow> mem_write dest i data;
     Some ((dest, i + length data), data)
   })"

definition Ring_Buffer_Read ::
  "Ring_Buffer_Type \<Rightarrow> bytes \<Rightarrow> u32 \<Rightarrow> (u32 \<times> bytes \<times> Ring_Buffer_Type) option" where
  "Ring_Buffer_Read rb data len = do {
     (n, (data, _), rb) \<leftarrow>
       Ring_Buffer_Read_Callback rb len (Some Ring_Buffer_Read_Copy) (data, 0);
     Some (n, data, rb)
   }"

text \<open>The single-byte readers store through \<open>uint8_t *data\<close>; \<open>None\<close> as data: not stored.\<close>

definition Ring_Buffer_Read_Byte ::
  "Ring_Buffer_Type \<Rightarrow> (u32 \<times> u8 option \<times> Ring_Buffer_Type) option" where
  "Ring_Buffer_Read_Byte rb =
     (let rb = rb_lock rb; (n, rb) = Ring_Buffer_Get_Length rb in
      if n = 0 then Some (0, None, rb_unlock rb)
      else do {
        data \<leftarrow> mem_get (pointer rb) (unat (readIndex rb));
        let rb = (if readIndex rb = rb_size rb - 1
                  then rb\<lparr>readIndex := 0, readMirror := NOT (readMirror rb)\<rparr>
                  else rb\<lparr>readIndex := readIndex rb + 1\<rparr>);
        Some (1, Some data, rb_unlock rb)
      })"

definition Ring_Buffer_Peek ::
  "Ring_Buffer_Type \<Rightarrow> bytes \<Rightarrow> u32 \<Rightarrow> (u32 \<times> bytes \<times> Ring_Buffer_Type) option" where
  "Ring_Buffer_Peek rb data len =
     (let (sz, rb) = Ring_Buffer_Get_Length rb; rb = rb_lock rb in
      if sz = 0 then Some (0, data, rb_unlock rb)
      else
        let len = (if sz < len then sz else len);
            sz = rb_size rb - readIndex rb
        in
        if sz > len then do {
          s \<leftarrow> mem_read (pointer rb) (unat (readIndex rb)) (unat len);
          data \<leftarrow> mem_write data 0 s;
          Some (len, data, rb_unlock rb)
        } else do {
          s \<leftarrow> mem_read (pointer rb) (unat (readIndex rb)) (unat sz);
          data \<leftarrow> mem_write data 0 s;
          s \<leftarrow> mem_read (pointer rb) 0 (unat (len - sz));
          data \<leftarrow> mem_write data (unat sz) s;
          Some (len, data, rb_unlock rb)
        })"

definition Ring_Buffer_Peek_Byte ::
  "Ring_Buffer_Type \<Rightarrow> (u32 \<times> u8 option \<times> Ring_Buffer_Type) option" where
  "Ring_Buffer_Peek_Byte rb =
     (let rb = rb_lock rb; (n, rb) = Ring_Buffer_Get_Length rb in
      if n = 0 then Some (0, None, rb_unlock rb)
      else do {
        data \<leftarrow> mem_get (pointer rb) (unat (readIndex rb));
        Some (1, Some data, rb_unlock rb)
      })"


section \<open>Invariant and abstract contents\<close>

text \<open>
  \<open>rb_list\<close> is what a ring promises: the bytes written and not yet read, oldest first.
\<close>

definition rb_inv :: "Ring_Buffer_Type \<Rightarrow> bool" where
  "rb_inv rb \<longleftrightarrow>
     0 < rb_size rb \<and> length (pointer rb) = unat (rb_size rb) \<and>
     readIndex rb < rb_size rb \<and> writeIndex rb < rb_size rb \<and>
     (readMirror rb = 0 \<or> readMirror rb = 255) \<and> (writeMirror rb = 0 \<or> writeMirror rb = 255) \<and>
     (if readMirror rb = writeMirror rb then readIndex rb \<le> writeIndex rb
      else writeIndex rb \<le> readIndex rb)"

definition rb_count :: "Ring_Buffer_Type \<Rightarrow> nat" where
  "rb_count rb =
     (if readMirror rb = writeMirror rb then unat (writeIndex rb) - unat (readIndex rb)
      else unat (rb_size rb) - (unat (readIndex rb) - unat (writeIndex rb)))"

definition rb_free :: "Ring_Buffer_Type \<Rightarrow> nat" where
  "rb_free rb = unat (rb_size rb) - rb_count rb"

definition rb_list :: "Ring_Buffer_Type \<Rightarrow> bytes" where
  "rb_list rb = take (rb_count rb) (rotate (unat (readIndex rb)) (pointer rb))"

text \<open>Two rings that differ in the recorded lock calls only.\<close>

definition same_ring :: "Ring_Buffer_Type \<Rightarrow> Ring_Buffer_Type \<Rightarrow> bool" where
  "same_ring a b \<longleftrightarrow> a\<lparr>calls := []\<rparr> = b\<lparr>calls := []\<rparr>"

lemma not_mirror [simp]: "NOT (0 :: u8) = 255" "NOT (255 :: u8) = 0"
  by simp_all

lemma rb_lock_sel [simp]:
  "pointer (rb_lock rb) = pointer rb" "readMirror (rb_lock rb) = readMirror rb"
  "readIndex (rb_lock rb) = readIndex rb" "writeMirror (rb_lock rb) = writeMirror rb"
  "writeIndex (rb_lock rb) = writeIndex rb" "rb_size (rb_lock rb) = rb_size rb"
  "lock (rb_lock rb) = lock rb" "unlock (rb_lock rb) = unlock rb"
  by (simp_all add: rb_lock_def)

lemma rb_unlock_sel [simp]:
  "pointer (rb_unlock rb) = pointer rb" "readMirror (rb_unlock rb) = readMirror rb"
  "readIndex (rb_unlock rb) = readIndex rb" "writeMirror (rb_unlock rb) = writeMirror rb"
  "writeIndex (rb_unlock rb) = writeIndex rb" "rb_size (rb_unlock rb) = rb_size rb"
  "lock (rb_unlock rb) = lock rb" "unlock (rb_unlock rb) = unlock rb"
  by (simp_all add: rb_unlock_def)

lemma rb_view_lock [simp]:
  "rb_inv (rb_lock rb) = rb_inv rb" "rb_inv (rb_unlock rb) = rb_inv rb"
  "rb_count (rb_lock rb) = rb_count rb" "rb_count (rb_unlock rb) = rb_count rb"
  "rb_list (rb_lock rb) = rb_list rb" "rb_list (rb_unlock rb) = rb_list rb"
  "rb_free (rb_lock rb) = rb_free rb" "rb_free (rb_unlock rb) = rb_free rb"
  by (simp_all add: rb_inv_def rb_count_def rb_list_def rb_free_def)

text \<open>The invariant, read in natural numbers.\<close>

lemma rb_invD:
  assumes "rb_inv rb"
  shows "0 < unat (rb_size rb)" "length (pointer rb) = unat (rb_size rb)"
    "unat (readIndex rb) < unat (rb_size rb)" "unat (writeIndex rb) < unat (rb_size rb)"
    "readMirror rb = writeMirror rb \<Longrightarrow> unat (readIndex rb) \<le> unat (writeIndex rb)"
    "readMirror rb \<noteq> writeMirror rb \<Longrightarrow> unat (writeIndex rb) \<le> unat (readIndex rb)"
  using assms by (auto simp: rb_inv_def word_less_nat_alt word_le_nat_alt split: if_splits)

lemma rb_count_le: "rb_inv rb \<Longrightarrow> rb_count rb \<le> unat (rb_size rb)"
  using rb_invD [of rb] by (auto simp: rb_count_def)

lemma length_rb_list: "rb_inv rb \<Longrightarrow> length (rb_list rb) = rb_count rb"
  using rb_count_le [of rb] rb_invD [of rb] by (simp add: rb_list_def)

lemma rb_write_pos:
  assumes "rb_inv rb"
  shows "unat (writeIndex rb) = (unat (readIndex rb) + rb_count rb) mod unat (rb_size rb)"
proof (cases "readMirror rb = writeMirror rb")
  case True
  with rb_invD [OF assms] show ?thesis by (simp add: rb_count_def)
next
  case False
  with rb_invD [OF assms] have "unat (readIndex rb) + rb_count rb =
      unat (rb_size rb) + unat (writeIndex rb)"
    by (simp add: rb_count_def)
  then show ?thesis using rb_invD(4) [OF assms] by simp
qed

lemma Get_Length_eq:
  "Ring_Buffer_Get_Length rb =
     (if readMirror rb = writeMirror rb then writeIndex rb - readIndex rb
      else rb_size rb - (readIndex rb - writeIndex rb), rb_unlock (rb_lock rb))"
  by (simp add: Ring_Buffer_Get_Length_def Let_def)

lemma Get_Length_count:
  assumes "rb_inv rb"
  shows "unat (fst (Ring_Buffer_Get_Length rb)) = rb_count rb"
proof (cases "readMirror rb = writeMirror rb")
  case True
  with rb_invD [OF assms] show ?thesis
    by (simp add: Get_Length_eq rb_count_def unat_sub_le word_le_nat_alt)
next
  case False
  with rb_invD [OF assms] show ?thesis
    by (simp add: Get_Length_eq rb_count_def unat_sub_le word_le_nat_alt)
qed

lemma Get_Length_word: "rb_inv rb \<Longrightarrow> fst (Ring_Buffer_Get_Length rb) = of_nat (rb_count rb)"
  by (simp flip: Get_Length_count)

lemma Get_Length_state [simp]: "snd (Ring_Buffer_Get_Length rb) = rb_unlock (rb_lock rb)"
  by (simp add: Get_Length_eq)

lemma Get_Length_pair:
  "Ring_Buffer_Get_Length rb = (fst (Ring_Buffer_Get_Length rb), rb_unlock (rb_lock rb))"
  by (metis Get_Length_state prod.collapse)

lemma Get_Empty_Length_free:
  assumes "rb_inv rb"
  shows "unat (fst (Ring_Buffer_Get_Empty_Length rb)) = rb_free rb"
proof -
  have "fst (Ring_Buffer_Get_Length rb) \<le> rb_size rb"
    using Get_Length_count [OF assms] rb_count_le [OF assms] by (simp add: word_le_nat_alt)
  then show ?thesis
    using Get_Length_count [OF assms]
    by (simp add: Ring_Buffer_Get_Empty_Length_def rb_free_def split_beta unat_sub_le)
qed

lemma Get_Empty_Length_pair:
  "Ring_Buffer_Get_Empty_Length rb =
   (fst (Ring_Buffer_Get_Empty_Length rb), rb_unlock (rb_lock rb))"
  by (simp add: Ring_Buffer_Get_Empty_Length_def split_beta)

lemma Get_Status_state [simp]: "snd (Ring_Buffer_Get_Status rb) = rb_unlock (rb_lock rb)"
  by (simp add: Ring_Buffer_Get_Status_def Let_def)

lemma Get_Status_cases:
  assumes "rb_inv rb"
  shows "fst (Ring_Buffer_Get_Status rb) =
    (if rb_count rb = 0 then RING_BUFFER_EMPTY
     else if rb_free rb = 0 then RING_BUFFER_FULL else RING_BUFFER_PARTIAL)"
  using rb_invD [OF assms]
  by (auto simp: Ring_Buffer_Get_Status_def Let_def rb_count_def rb_free_def
      word_unat_eq_iff)


section \<open>Moving the indices\<close>

text \<open>
  All operations move an index by \<open>n\<close> and flip its mirror when it passes the end; these two
  functions are that move, and the operations are shown to make it.
\<close>

definition rb_push :: "u32 \<Rightarrow> Ring_Buffer_Type \<Rightarrow> Ring_Buffer_Type" where
  "rb_push n rb =
     (if n < rb_size rb - writeIndex rb then rb\<lparr>writeIndex := writeIndex rb + n\<rparr>
      else rb\<lparr>writeIndex := n - (rb_size rb - writeIndex rb), writeMirror := NOT (writeMirror rb)\<rparr>)"

definition rb_pop :: "u32 \<Rightarrow> Ring_Buffer_Type \<Rightarrow> Ring_Buffer_Type" where
  "rb_pop n rb =
     (if n < rb_size rb - readIndex rb then rb\<lparr>readIndex := readIndex rb + n\<rparr>
      else rb\<lparr>readIndex := n - (rb_size rb - readIndex rb), readMirror := NOT (readMirror rb)\<rparr>)"

lemma word_room:
  assumes "(i :: u32) < sz"
  shows "unat (sz - i) = unat sz - unat i" and "n < sz - i \<longleftrightarrow> unat i + unat n < unat sz"
    and "n < sz - i \<Longrightarrow> unat (i + n) = unat i + unat n"
    and "\<not> n < sz - i \<Longrightarrow> unat (n - (sz - i)) = unat i + unat n - unat sz"
proof -
  have i: "unat i < unat sz" using assms by (simp add: word_less_nat_alt)
  show sub: "unat (sz - i) = unat sz - unat i"
    using assms by (simp add: unat_sub_le)
  show room: "n < sz - i \<longleftrightarrow> unat i + unat n < unat sz"
    using sub i by (auto simp: word_less_nat_alt)
  show "n < sz - i \<Longrightarrow> unat (i + n) = unat i + unat n"
    using room by (intro unat_plus_small) (auto dest: below_u32)
  show "\<not> n < sz - i \<Longrightarrow> unat (n - (sz - i)) = unat i + unat n - unat sz"
    using sub i by (simp add: unat_sub_le)
qed

lemma rb_push_spec:
  assumes inv: "rb_inv rb" and n: "unat n \<le> rb_free rb"
  shows "rb_inv (rb_push n rb)" and "rb_count (rb_push n rb) = rb_count rb + unat n"
proof -
  note D = rb_invD [OF inv]
  have lt: "writeIndex rb < rb_size rb" using inv by (simp add: rb_inv_def)
  note W = word_room [OF lt]
  have mir: "readMirror rb = 0 \<or> readMirror rb = 255" "writeMirror rb = 0 \<or> writeMirror rb = 255"
    using inv by (auto simp: rb_inv_def)
  show "rb_inv (rb_push n rb)"
    using inv n D W(2,3) [of n] W(4) [of n] mir
    by (auto simp: rb_push_def rb_inv_def rb_free_def rb_count_def word_less_nat_alt
        word_le_nat_alt split: if_splits)
  show "rb_count (rb_push n rb) = rb_count rb + unat n"
    using n D W(2,3) [of n] W(4) [of n] mir
    by (auto simp: rb_push_def rb_free_def rb_count_def split: if_splits)
qed

lemma rb_pop_spec:
  assumes inv: "rb_inv rb" and n: "unat n \<le> rb_count rb"
  shows "rb_inv (rb_pop n rb)" and "rb_count (rb_pop n rb) = rb_count rb - unat n"
    and "unat (readIndex (rb_pop n rb)) = (unat (readIndex rb) + unat n) mod unat (rb_size rb)"
proof -
  note D = rb_invD [OF inv]
  have lt: "readIndex rb < rb_size rb" using inv by (simp add: rb_inv_def)
  note W = word_room [OF lt]
  have mir: "readMirror rb = 0 \<or> readMirror rb = 255" "writeMirror rb = 0 \<or> writeMirror rb = 255"
    using inv by (auto simp: rb_inv_def)
  show "rb_inv (rb_pop n rb)"
    using inv n D W(2,3) [of n] W(4) [of n] mir
    by (auto simp: rb_pop_def rb_inv_def rb_count_def word_less_nat_alt
        word_le_nat_alt split: if_splits)
  show "rb_count (rb_pop n rb) = rb_count rb - unat n"
    using n D W(2,3) [of n] W(4) [of n] mir
    by (auto simp: rb_pop_def rb_count_def split: if_splits)
  have "unat n \<le> unat (rb_size rb)" using n rb_count_le [OF inv] by simp
  then show "unat (readIndex (rb_pop n rb)) = (unat (readIndex rb) + unat n) mod unat (rb_size rb)"
    using D W(2,3) [of n] W(4) [of n] by (auto simp: rb_pop_def mod_if)
qed

lemma rb_push_sel [simp]:
  "pointer (rb_push n rb) = pointer rb" "readIndex (rb_push n rb) = readIndex rb"
  "readMirror (rb_push n rb) = readMirror rb" "rb_size (rb_push n rb) = rb_size rb"
  by (simp_all add: rb_push_def)

lemma rb_pop_sel [simp]:
  "pointer (rb_pop n rb) = pointer rb" "writeIndex (rb_pop n rb) = writeIndex rb"
  "writeMirror (rb_pop n rb) = writeMirror rb" "rb_size (rb_pop n rb) = rb_size rb"
  by (simp_all add: rb_pop_def)

text \<open>Storing and pushing appends; popping drops a prefix.\<close>

lemma rb_inv_pointer:
  "rb_inv rb \<Longrightarrow> length m = length (pointer rb) \<Longrightarrow> rb_inv (rb\<lparr>pointer := m\<rparr>)"
  by (simp add: rb_inv_def)

lemma rb_count_pointer [simp]: "rb_count (rb\<lparr>pointer := m\<rparr>) = rb_count rb"
  "rb_free (rb\<lparr>pointer := m\<rparr>) = rb_free rb"
  by (simp_all add: rb_count_def rb_free_def)

definition rb_append :: "bytes \<Rightarrow> Ring_Buffer_Type \<Rightarrow> Ring_Buffer_Type" where
  "rb_append xs rb = rb_push (of_nat (length xs))
     (rb\<lparr>pointer := ring_store (pointer rb) (unat (writeIndex rb)) xs\<rparr>)"

lemma rb_append_spec:
  assumes inv: "rb_inv rb" and n: "length xs \<le> rb_free rb"
  shows "rb_inv (rb_append xs rb)" and "rb_list (rb_append xs rb) = rb_list rb @ xs"
    and "rb_count (rb_append xs rb) = rb_count rb + length xs"
    and "rb_size (rb_append xs rb) = rb_size rb"
proof -
  note D = rb_invD [OF inv]
  let ?rb = "rb\<lparr>pointer := ring_store (pointer rb) (unat (writeIndex rb)) xs\<rparr>"
  have len: "length xs \<le> unat (rb_size rb)" using n by (simp add: rb_free_def)
  then have un: "unat (of_nat (length xs) :: u32) = length xs"
    using below_u32(2) by (intro unat_of_nat_small) simp
  have inv': "rb_inv ?rb" using inv D len by (intro rb_inv_pointer) simp_all
  note P = rb_push_spec [OF inv', of "of_nat (length xs)"]
  show "rb_inv (rb_append xs rb)" using P(1) n un by (simp add: rb_append_def)
  show count: "rb_count (rb_append xs rb) = rb_count rb + length xs"
    using P(2) n un by (simp add: rb_append_def)
  show "rb_size (rb_append xs rb) = rb_size rb" by (simp add: rb_append_def)
  have "rb_count rb + length xs \<le> length (pointer rb)"
    using n rb_count_le [OF inv] D by (simp add: rb_free_def)
  then show "rb_list (rb_append xs rb) = rb_list rb @ xs"
    using ring_store_append [of "unat (readIndex rb)" "pointer rb" "rb_count rb" xs] D
      rb_write_pos [OF inv] count
    by (simp add: rb_list_def) (simp add: rb_append_def)
qed

lemma rb_list_pop:
  assumes inv: "rb_inv rb" and n: "unat n \<le> rb_count rb"
  shows "rb_list (rb_pop n rb) = drop (unat n) (rb_list rb)"
proof -
  note D = rb_invD [OF inv] and P = rb_pop_spec [OF inv n]
  have "rotate ((unat (readIndex rb) + unat n) mod unat (rb_size rb)) (pointer rb) =
      rotate (unat n) (rotate (unat (readIndex rb)) (pointer rb))"
    using D by (metis add.commute rotate_conv_mod rotate_rotate)
  moreover have "take (rb_count rb - unat n) (rotate (unat n) X) = drop (unat n) (take (rb_count rb) X)"
    if "length X = length (pointer rb)" for X :: bytes
  proof (cases "unat n = length X")
    case True
    then show ?thesis using n rb_count_le [OF inv] D that by simp
  next
    case False
    then have "unat n < length X" using n rb_count_le [OF inv] D that by simp
    then show ?thesis using rb_count_le [OF inv] D that n
      by (simp add: rotate_drop_take drop_take)
  qed
  ultimately show ?thesis using P by (simp add: rb_list_def)
qed

lemma ring_read_list:
  assumes "rb_inv rb" and "n \<le> rb_count rb"
  shows "ring_read (pointer rb) (unat (readIndex rb)) n = take n (rb_list rb)"
  using assms rb_invD [OF assms(1)] rb_count_le [OF assms(1)]
  by (simp add: ring_read_rotate rb_list_def min_def)


section \<open>What each operation does to the contents\<close>

text \<open>
  \<open>cb_keeps\<close> is what the code relies on of a callback: it fills the region it was given and
  no more.  \<open>ring_call\<close> is its call on \<open>n\<close> bytes of the ring, in one or in two parts.
\<close>

definition cb_keeps :: "'p ringBuffer_Callback \<Rightarrow> bool" where
  "cb_keeps cb \<longleftrightarrow> (\<forall>p s p' s'. cb p s = Some (p', s') \<longrightarrow> length s' = length s)"

definition ring_call ::
  "'p ringBuffer_Callback \<Rightarrow> 'p \<Rightarrow> bytes \<Rightarrow> nat \<Rightarrow> nat \<Rightarrow> ('p \<times> bytes) option" where
  "ring_call cb p buf i n =
     (if i + n < length buf then cb p (take n (drop i buf))
      else do {
        (p, a) \<leftarrow> cb p (drop i buf);
        (p, b) \<leftarrow> cb p (take (n - (length buf - i)) buf);
        Some (p, a @ b)
      })"

lemma cb_keepsD: "cb_keeps cb \<Longrightarrow> cb p s = Some (p', s') \<Longrightarrow> length s' = length s"
  by (auto simp: cb_keeps_def)

lemma rb_region_eq:
  assumes "unat off + unat n \<le> length (pointer rb)" and "cb_keeps cb"
  shows "rb_region cb p off n rb =
    map_option (\<lambda>(p', s'). (p', rb\<lparr>pointer :=
        take (unat off) (pointer rb) @ s' @ drop (unat off + unat n) (pointer rb)\<rparr>))
      (cb p (take (unat n) (drop (unat off) (pointer rb))))"
  using assms cb_keepsD [OF assms(2)]
  by (cases "cb p (take (unat n) (drop (unat off) (pointer rb)))")
     (auto simp: rb_region_def mem_simps)

lemma ring_call_length:
  assumes "cb_keeps cb" and "ring_call cb p buf i n = Some (p', xs)"
    and "i < length buf" and "n \<le> length buf"
  shows "length xs = n"
  using assms cb_keepsD [OF assms(1)]
  by (fastforce simp: ring_call_def bind_eq_Some_conv split: if_splits)

lemma two_part_store:
  assumes "i < length buf" and "length a = length buf - i" and "length b \<le> i"
  shows "b @ drop (length b) (take i buf @ a) = ring_store buf i (a @ b)"
  using assms by (simp add: ring_store_def Let_def drop_take)

text \<open>
  The two branches of the write and of the read section, as one call on the ring.  Both
  sections store what the callback returns; the write section then moves the write index,
  the read section the read index.
\<close>

lemma rb_section_eq:
  assumes len: "length (pointer rb) = unat (rb_size rb)" and i: "i < rb_size rb"
    and n: "unat n \<le> unat (rb_size rb)" and cb: "cb_keeps cb"
  shows "(if rb_size rb - i > n then do {
          (p, rb) \<leftarrow> rb_region cb p i n rb;
          Some (f (p, rb))
        } else do {
          (p, rb') \<leftarrow> rb_region cb p i (rb_size rb - i) rb;
          (p, rb') \<leftarrow> rb_region cb p 0 (n - (rb_size rb - i)) rb';
          Some (g (p, rb'))
        }) =
    map_option (\<lambda>(p', xs).
        (if n < rb_size rb - i then f else g)
          (p', rb\<lparr>pointer := ring_store (pointer rb) (unat i) xs\<rparr>))
      (ring_call cb p (pointer rb) (unat i) (unat n))"
proof -
  let ?buf = "pointer rb"
  note W = word_room [OF i]
  have i': "unat i < length ?buf" using i len by (simp add: word_less_nat_alt)
  show ?thesis
  proof (cases "n < rb_size rb - i")
    case True
    then have room: "unat i + unat n < length ?buf" using W(2) len by simp
    have st: "take (unat i) ?buf @ xs @ drop (unat i + unat n) ?buf = ring_store ?buf (unat i) xs"
      if "length xs = unat n" for xs
      using that room by (simp add: ring_store_def)
    show ?thesis
      using True room cb st cb_keepsD [OF cb]
      by (cases "cb p (take (unat n) (drop (unat i) ?buf))")
         (auto simp: rb_region_eq ring_call_def)
  next
    case False
    define k where "k = unat (rb_size rb) - unat i"
    have room: "length ?buf \<le> unat i + unat n" using W(2) [of n] len False by simp
    have un: "unat (rb_size rb - i) = k" "unat (n - (rb_size rb - i)) = unat n - k"
      using W(1) W(4) [OF False] i' len by (simp_all add: k_def)
    have k: "unat i + k = length ?buf" "unat n - k \<le> unat i" using i' len n by (auto simp: k_def)
    have tk: "take (unat n - k) (take (unat i) ?buf @ a) = take (unat n - k) ?buf" for a
      using k by (auto simp: min_def)
    have st: "b @ drop (unat n - k) (take (unat i) ?buf @ a) = ring_store ?buf (unat i) (a @ b)"
      if "length a = k" "length b = unat n - k" for a b
      unfolding that(2) [symmetric]
      by (rule two_part_store [OF i']) (use that k in simp_all)
    have fst: "rb_region cb p i (rb_size rb - i) rb =
        map_option (\<lambda>(p', a). (p', rb\<lparr>pointer := take (unat i) ?buf @ a\<rparr>))
          (cb p (drop (unat i) ?buf))"
      using un k cb by (simp add: rb_region_eq)
    have snd: "rb_region cb p' 0 (n - (rb_size rb - i)) (rb\<lparr>pointer := take (unat i) ?buf @ a\<rparr>) =
        map_option (\<lambda>(p'', b). (p'', rb\<lparr>pointer := ring_store ?buf (unat i) (a @ b)\<rparr>))
          (cb p' (take (unat n - k) ?buf))"
      if "length a = k" for p' a
      using un k cb st that i' cb_keepsD [OF cb]
      by (cases "cb p' (take (unat n - k) ?buf)") (auto simp: rb_region_eq tk)
    have la: "length a = k" if "cb p (drop (unat i) ?buf) = Some (p', a)" for p' a
      using cb_keepsD [OF cb that] k by simp
    have kk: "length ?buf - unat i = k" using k by simp
    show ?thesis
      using False room la
      by (cases "cb p (drop (unat i) ?buf)")
         (auto simp: ring_call_def fst kk snd split: Option.bind_splits)
  qed
qed

lemma rb_write_section_eq:
  assumes inv: "rb_inv rb" and cb: "cb_keeps cb" and n: "min (unat len) (unat sr) \<le> unat (rb_size rb)"
  shows "rb_write_section sr cb len p rb =
    (if sr = 0 then Some (0, p, rb_unlock (rb_lock rb))
     else map_option (\<lambda>(p', xs). (min len sr, p', rb_unlock (rb_append xs (rb_lock rb))))
       (ring_call cb p (pointer rb) (unat (writeIndex rb)) (unat (min len sr))))"
proof (cases "sr = 0")
  case True
  then show ?thesis by (simp add: rb_write_section_def)
next
  case False
  define m where "m = min len sr"
  have m: "(if len > sr then sr else len) = m" by (auto simp: m_def min_def)
  have un: "unat m \<le> unat (rb_size rb)"
    using n by (auto simp: m_def min_def word_le_nat_alt split: if_splits)
  have i: "writeIndex (rb_lock rb) < rb_size (rb_lock rb)" using inv by (simp add: rb_inv_def)
  have len': "length (pointer (rb_lock rb)) = unat (rb_size (rb_lock rb))"
    using rb_invD(2) [OF inv] by simp
  note S = rb_section_eq [OF len' i _ cb, of m p
      "\<lambda>(p, rb). (m, p, rb_unlock (rb\<lparr>writeIndex := writeIndex rb + m\<rparr>))"
      "\<lambda>(p, rb'). (m, p, rb_unlock (rb'\<lparr>writeIndex := m - (rb_size rb - writeIndex rb),
         writeMirror := NOT (writeMirror rb')\<rparr>))"]
  have lx: "of_nat (length xs) = m"
    if "ring_call cb p (pointer rb) (unat (writeIndex rb)) (unat m) = Some (p', xs)" for p' xs
    using ring_call_length [OF cb that] rb_invD [OF inv] un by simp
  show ?thesis
    using False S un lx
    by (cases "ring_call cb p (pointer rb) (unat (writeIndex rb)) (unat m)")
       (auto simp: rb_write_section_def m Let_def rb_append_def rb_push_def simp flip: m_def)
qed

lemma rb_read_section_eq:
  assumes inv: "rb_inv rb" and cb: "cb_keeps cb" and n: "min (unat len) (unat sz) \<le> unat (rb_size rb)"
  shows "rb_read_section sz cb len p rb =
    (if sz = 0 then Some (0, p, rb_unlock (rb_lock rb))
     else map_option (\<lambda>(p', xs). (min len sz, p',
         rb_unlock (rb_pop (min len sz) ((rb_lock rb)\<lparr>pointer :=
           ring_store (pointer rb) (unat (readIndex rb)) xs\<rparr>))))
       (ring_call cb p (pointer rb) (unat (readIndex rb)) (unat (min len sz))))"
proof (cases "sz = 0")
  case True
  then show ?thesis by (simp add: rb_read_section_def)
next
  case False
  define m where "m = min len sz"
  have m: "(if sz < len then sz else len) = m" by (auto simp: m_def min_def)
  have un: "unat m \<le> unat (rb_size rb)"
    using n by (auto simp: m_def min_def word_le_nat_alt split: if_splits)
  have i: "readIndex (rb_lock rb) < rb_size (rb_lock rb)" using inv by (simp add: rb_inv_def)
  have len': "length (pointer (rb_lock rb)) = unat (rb_size (rb_lock rb))"
    using rb_invD(2) [OF inv] by simp
  note S = rb_section_eq [OF len' i _ cb, of m p
      "\<lambda>(p, rb). (m, p, rb_unlock (rb\<lparr>readIndex := readIndex rb + m\<rparr>))"
      "\<lambda>(p, rb'). (m, p, rb_unlock (rb'\<lparr>readIndex := m - (rb_size rb - readIndex rb),
         readMirror := NOT (readMirror rb')\<rparr>))"]
  show ?thesis
    using False S un
    by (cases "ring_call cb p (pointer rb) (unat (readIndex rb)) (unat m)")
       (auto simp: rb_read_section_def m Let_def rb_pop_def simp flip: m_def)
qed


text \<open>The copying callbacks keep their regions; their calls in closed form.\<close>

lemma Write_Copy_keeps: "cb_keeps Ring_Buffer_Write_Copy"
  by (auto simp: cb_keeps_def Ring_Buffer_Write_Copy_def bind_eq_Some_conv dest: mem_read_length)

lemma Read_Copy_keeps: "cb_keeps Ring_Buffer_Read_Copy"
  by (auto simp: cb_keeps_def Ring_Buffer_Read_Copy_def bind_eq_Some_conv)

lemma ring_call_Write_Copy:
  assumes "i < length buf" and "n \<le> length buf" and "n \<le> length src"
  shows "ring_call Ring_Buffer_Write_Copy src buf i n = Some (drop n src, take n src)"
proof (cases "i + n < length buf")
  case True
  with assms show ?thesis
    by (simp add: ring_call_def Ring_Buffer_Write_Copy_def mem_simps)
next
  case False
  define k where "k = length buf - i"
  have k: "length buf - i = k" "k \<le> n" "n - k \<le> length buf" "k \<le> length src"
    using False assms by (auto simp: k_def)
  have "take k src @ take (n - k) (drop k src) = take n src"
    using k by (metis le_add_diff_inverse take_add)
  with False k assms show ?thesis
    by (simp add: ring_call_def Ring_Buffer_Write_Copy_def mem_simps)
qed

lemma ring_call_Read_Copy:
  assumes "i < length buf" and "n \<le> length buf" and "off + n \<le> length dest"
  shows "ring_call Ring_Buffer_Read_Copy (dest, off) buf i n =
    Some ((take off dest @ ring_read buf i n @ drop (off + n) dest, off + n), ring_read buf i n)"
proof (cases "i + n < length buf")
  case True
  with assms show ?thesis
    by (simp add: ring_call_def Ring_Buffer_Read_Copy_def ring_read_def mem_simps)
next
  case False
  define k where "k = length buf - i"
  have k: "length buf - i = k" "k \<le> n" "n - k \<le> length buf" "length (drop i buf) = k"
    using False assms by (auto simp: k_def)
  with False assms show ?thesis
    by (simp add: ring_call_def Ring_Buffer_Read_Copy_def ring_read_def mem_simps add.commute)
qed


text \<open>
  The operations on the abstract contents, each one total on a ring that satisfies the
  invariant.  The states in front of the critical sections differ by lock calls only.
\<close>

lemma Write_run:
  assumes inv: "rb_inv rb" and src: "unat len \<le> length data"
  defines "n \<equiv> min (unat len) (rb_free rb)"
  shows "Ring_Buffer_Write rb data len =
    Some (of_nat n, rb_unlock (if rb_free rb = 0 then rb_lock (rb_unlock (rb_lock rb))
      else rb_append (take n data) (rb_lock (rb_unlock (rb_lock rb)))))"
proof -
  define rb0 where "rb0 = rb_unlock (rb_lock rb)"
  define sr where "sr = fst (Ring_Buffer_Get_Empty_Length rb)"
  have pair: "Ring_Buffer_Get_Empty_Length rb = (sr, rb0)"
    unfolding sr_def rb0_def by (rule Get_Empty_Length_pair)
  have sr: "unat sr = rb_free rb" using Get_Empty_Length_free [OF inv] by (simp add: sr_def)
  have inv0: "rb_inv rb0" using inv by (simp add: rb0_def)
  have v: "pointer rb0 = pointer rb" "writeIndex rb0 = writeIndex rb" "rb_size rb0 = rb_size rb"
    by (simp_all add: rb0_def)
  have un: "unat (min len sr) = n" by (simp add: unat_min sr n_def)
  have le: "n \<le> unat (rb_size rb)" by (simp add: n_def rb_free_def)
  have sz: "sr = 0 \<longleftrightarrow> rb_free rb = 0" using sr by (metis unat_eq_0)
  have "min (unat len) (unat sr) \<le> unat (rb_size rb0)" using un le by (simp add: unat_min v)
  note S = rb_write_section_eq [OF inv0 Write_Copy_keeps this, of data]
  have "ring_call Ring_Buffer_Write_Copy data (pointer rb) (unat (writeIndex rb)) n =
      Some (drop n data, take n data)"
    using rb_invD [OF inv] le src by (intro ring_call_Write_Copy) (simp_all add: n_def)
  moreover have "min len sr = of_nat n" using un by (rule word_of_unat)
  ultimately show ?thesis
    using S un sz
    by (auto simp: Ring_Buffer_Write_def Ring_Buffer_Write_Callback_def pair v n_def
        simp flip: rb0_def)
qed

lemma Read_run:
  assumes inv: "rb_inv rb" and dst: "unat len \<le> length data"
  defines "n \<equiv> min (unat len) (rb_count rb)"
  shows "Ring_Buffer_Read rb data len =
    Some (of_nat n, take n (rb_list rb) @ drop n data,
      rb_unlock (if rb_count rb = 0 then rb_lock (rb_unlock (rb_lock rb))
        else rb_pop (of_nat n) (rb_lock (rb_unlock (rb_lock rb)))))"
proof -
  define rb0 where "rb0 = rb_unlock (rb_lock rb)"
  define sz where "sz = fst (Ring_Buffer_Get_Length rb)"
  have pair: "Ring_Buffer_Get_Length rb = (sz, rb0)"
    unfolding sz_def rb0_def by (rule Get_Length_pair)
  have sz: "unat sz = rb_count rb" using Get_Length_count [OF inv] by (simp add: sz_def)
  have inv0: "rb_inv rb0" using inv by (simp add: rb0_def)
  have v: "pointer rb0 = pointer rb" "readIndex rb0 = readIndex rb" "rb_size rb0 = rb_size rb"
    by (simp_all add: rb0_def)
  have un: "unat (min len sz) = n" by (simp add: unat_min sz n_def)
  have le: "n \<le> unat (rb_size rb)" using rb_count_le [OF inv] by (simp add: n_def)
  have z: "sz = 0 \<longleftrightarrow> rb_count rb = 0" using sz by (metis unat_eq_0)
  have "min (unat len) (unat sz) \<le> unat (rb_size rb0)" using un le by (simp add: unat_min v)
  note S = rb_read_section_eq [OF inv0 Read_Copy_keeps this, of "(data, 0)"]
  have rr: "ring_read (pointer rb) (unat (readIndex rb)) n = take n (rb_list rb)"
    by (rule ring_read_list [OF inv]) (simp add: n_def)
  have "ring_call Ring_Buffer_Read_Copy (data, 0) (pointer rb) (unat (readIndex rb)) n =
      Some ((take 0 data @ take n (rb_list rb) @ drop (0 + n) data, 0 + n), take n (rb_list rb))"
    using rb_invD [OF inv] le dst rr
    by (subst ring_call_Read_Copy) (simp_all add: n_def)
  moreover have "ring_store (pointer rb) (unat (readIndex rb)) (take n (rb_list rb)) = pointer rb"
    using ring_store_read [of "unat (readIndex rb)" "pointer rb" n] rb_invD [OF inv] le rr by simp
  moreover have "min len sz = of_nat n" using un by (rule word_of_unat)
  moreover have "n = 0" if "rb_count rb = 0" using that by (simp add: n_def)
  moreover have same: "(rb_lock rb0)\<lparr>pointer := pointer rb\<rparr> = rb_lock rb0" by (simp flip: v)
  ultimately show ?thesis
    using S un z
    by (auto simp: Ring_Buffer_Read_def Ring_Buffer_Read_Callback_def pair v same
        simp flip: rb0_def)
qed


lemma rb_calls_only [simp]:
  "rb_inv (rb\<lparr>calls := c\<rparr>) = rb_inv rb" "rb_list (rb\<lparr>calls := c\<rparr>) = rb_list rb"
  "rb_count (rb\<lparr>calls := c\<rparr>) = rb_count rb"
  by (simp_all add: rb_inv_def rb_list_def rb_count_def)

lemma rb_free_le: "rb_free rb \<le> unat (rb_size rb)"
  by (simp add: rb_free_def)

lemma of_nat_min_unat [simp]: "unat (of_nat (min (unat (a :: u32)) b) :: u32) = min (unat a) b"
  by (intro unat_of_nat_small) (simp add: min_less_iff_disj)

lemma Write_spec:
  assumes inv: "rb_inv rb" and src: "unat len \<le> length data"
  shows "\<exists>n rb'. Ring_Buffer_Write rb data len = Some (n, rb') \<and>
    unat n = min (unat len) (rb_free rb) \<and> rb_inv rb' \<and>
    rb_list rb' = rb_list rb @ take (unat n) data \<and> rb_size rb' = rb_size rb"
  using Write_run [OF assms] inv rb_append_spec [of "rb_lock (rb_unlock (rb_lock rb))"
      "take (min (unat len) (rb_free rb)) data"]
  by auto

lemma Read_spec:
  assumes inv: "rb_inv rb" and dst: "unat len \<le> length data"
  shows "\<exists>n rb'. Ring_Buffer_Read rb data len =
      Some (n, take (unat n) (rb_list rb) @ drop (unat n) data, rb') \<and>
    unat n = min (unat len) (rb_count rb) \<and> rb_inv rb' \<and>
    rb_list rb' = drop (unat n) (rb_list rb) \<and> rb_size rb' = rb_size rb"
proof -
  let ?n = "of_nat (min (unat len) (rb_count rb)) :: u32"
  have "unat ?n \<le> rb_count (rb_lock (rb_unlock (rb_lock rb)))" by simp
  note P = rb_pop_spec(1) [OF _ this] rb_list_pop [OF _ this]
  have "rb_list rb = []" if "rb_count rb = 0" using that by (simp add: rb_list_def)
  then show ?thesis
    using Read_run [OF assms] inv P by auto
qed

text \<open>The single-byte operations, by the same two moves.\<close>

lemma last_index:
  assumes "(i :: u32) < sz"
  shows "i = sz - 1 \<longleftrightarrow> \<not> 1 < sz - i"
  using word_room(2) [OF assms, of 1] assms
  by (auto simp: word_unat_eq_iff unat_sub_le word_le_nat_alt word_less_nat_alt)

lemma Write_Byte_run:
  assumes inv: "rb_inv rb"
  shows "Ring_Buffer_Write_Byte rb x =
    (let rb0 = rb_unlock (rb_lock (rb_lock rb)) in
     Some (if rb_free rb = 0 then (0, rb_unlock rb0) else (1, rb_unlock (rb_append [x] rb0))))"
proof -
  define rb0 where "rb0 = rb_unlock (rb_lock (rb_lock rb))"
  have inv0: "rb_inv rb0" and v: "rb_free rb0 = rb_free rb"
    using inv by (simp_all add: rb0_def)
  have e: "unat (fst (Ring_Buffer_Get_Empty_Length (rb_lock rb))) = rb_free rb"
    using Get_Empty_Length_free [of "rb_lock rb"] inv by simp
  then have pair: "Ring_Buffer_Get_Empty_Length (rb_lock rb) = (of_nat (rb_free rb), rb0)"
    using Get_Empty_Length_pair [of "rb_lock rb"] word_of_unat [OF e] by (simp add: rb0_def)
  have z: "(of_nat (rb_free rb) :: u32) = 0 \<longleftrightarrow> rb_free rb = 0"
    using e by (metis word_of_unat unat_eq_0)
  note D = rb_invD [OF inv0]
  have lt: "writeIndex rb0 < rb_size rb0" using inv0 by (simp add: rb_inv_def)
  have zero: "1 - (rb_size rb0 - writeIndex rb0) = 0" if "\<not> 1 < rb_size rb0 - writeIndex rb0"
    using that last_index [OF lt] by simp
  have st: "(pointer rb0)[unat (writeIndex rb0) := x] =
      ring_store (pointer rb0) (unat (writeIndex rb0)) [x]"
    using D by (auto simp: ring_store_def Let_def upd_conv_take_nth_drop)
  show ?thesis
    using D zero
    by (auto simp: Ring_Buffer_Write_Byte_def pair z mem_simps rb_append_def rb_push_def st
        last_index [OF lt] simp flip: rb0_def)
qed


lemma Write_Byte_spec:
  assumes "rb_inv rb"
  shows "\<exists>n rb'. Ring_Buffer_Write_Byte rb x = Some (n, rb') \<and>
    unat n = min 1 (rb_free rb) \<and> rb_inv rb' \<and>
    rb_list rb' = rb_list rb @ (if rb_free rb = 0 then [] else [x]) \<and> rb_size rb' = rb_size rb"
  using Write_Byte_run [OF assms, of x] assms
    rb_append_spec [of "rb_unlock (rb_lock (rb_lock rb))" "[x]"]
  by (auto simp: Let_def)

lemma rb_list_hd:
  assumes inv: "rb_inv rb" and "0 < rb_count rb"
  shows "pointer rb ! unat (readIndex rb) = hd (rb_list rb)"
proof -
  have "pointer rb \<noteq> []" using rb_invD [OF inv] by auto
  with assms rb_invD [OF inv] show ?thesis
    by (simp add: rb_list_def hd_take hd_rotate_conv_nth)
qed

lemma Read_Byte_run:
  assumes inv: "rb_inv rb"
  shows "Ring_Buffer_Read_Byte rb =
    (let rb0 = rb_unlock (rb_lock (rb_lock rb)) in
     Some (if rb_count rb = 0 then (0, None, rb_unlock rb0)
           else (1, Some (hd (rb_list rb)), rb_unlock (rb_pop 1 rb0))))"
proof -
  define rb0 where "rb0 = rb_unlock (rb_lock (rb_lock rb))"
  have inv0: "rb_inv rb0" and v: "rb_count rb0 = rb_count rb" "rb_list rb0 = rb_list rb"
    using inv by (simp_all add: rb0_def)
  have e: "unat (fst (Ring_Buffer_Get_Length (rb_lock rb))) = rb_count rb"
    using Get_Length_count [of "rb_lock rb"] inv by simp
  then have pair: "Ring_Buffer_Get_Length (rb_lock rb) = (of_nat (rb_count rb), rb0)"
    using Get_Length_pair [of "rb_lock rb"] word_of_unat [OF e] by (simp add: rb0_def)
  have z: "(of_nat (rb_count rb) :: u32) = 0 \<longleftrightarrow> rb_count rb = 0"
    using e by (metis word_of_unat unat_eq_0)
  have lt: "readIndex rb0 < rb_size rb0" using inv0 by (simp add: rb_inv_def)
  have zero: "1 - (rb_size rb0 - readIndex rb0) = 0" if "\<not> 1 < rb_size rb0 - readIndex rb0"
    using that last_index [OF lt] by simp
  show ?thesis
    using rb_invD [OF inv0] zero rb_list_hd [OF inv0]
    by (auto simp: Ring_Buffer_Read_Byte_def pair z v mem_simps rb_pop_def last_index [OF lt]
        simp flip: rb0_def)
qed

lemma Read_Byte_spec:
  assumes inv: "rb_inv rb"
  shows "\<exists>rb'. Ring_Buffer_Read_Byte rb =
      Some (if rb_list rb = [] then 0 else 1,
            if rb_list rb = [] then None else Some (hd (rb_list rb)), rb') \<and>
    rb_inv rb' \<and> rb_list rb' = tl (rb_list rb) \<and> rb_size rb' = rb_size rb"
proof -
  have n: "rb_list rb = [] \<longleftrightarrow> rb_count rb = 0"
    using length_rb_list [OF inv] by (metis length_0_conv)
  let ?rb0 = "rb_unlock (rb_lock (rb_lock rb))"
  have inv0: "rb_inv ?rb0" using inv by simp
  have "rb_inv (rb_pop 1 ?rb0) \<and> rb_list (rb_pop 1 ?rb0) = tl (rb_list rb)" if "rb_count rb \<noteq> 0"
    using rb_pop_spec(1) [OF inv0, of 1] rb_list_pop [OF inv0, of 1] that
    by (simp add: drop_Suc)
  then show ?thesis
    using Read_Byte_run [OF inv] inv n by (auto simp: Let_def)
qed

lemma Peek_Byte_spec:
  assumes inv: "rb_inv rb"
  shows "\<exists>rb'. Ring_Buffer_Peek_Byte rb =
      Some (if rb_list rb = [] then 0 else 1,
            if rb_list rb = [] then None else Some (hd (rb_list rb)), rb') \<and>
    rb_inv rb' \<and> rb_list rb' = rb_list rb \<and> rb_size rb' = rb_size rb"
proof -
  define rb0 where "rb0 = rb_unlock (rb_lock (rb_lock rb))"
  have inv0: "rb_inv rb0" and v: "rb_count rb0 = rb_count rb" "rb_list rb0 = rb_list rb"
    "rb_size rb0 = rb_size rb"
    using inv by (simp_all add: rb0_def)
  have e: "unat (fst (Ring_Buffer_Get_Length (rb_lock rb))) = rb_count rb"
    using Get_Length_count [of "rb_lock rb"] inv by simp
  then have pair: "Ring_Buffer_Get_Length (rb_lock rb) = (of_nat (rb_count rb), rb0)"
    using Get_Length_pair [of "rb_lock rb"] word_of_unat [OF e] by (simp add: rb0_def)
  have z: "(of_nat (rb_count rb) :: u32) = 0 \<longleftrightarrow> rb_list rb = []"
    using e length_rb_list [OF inv] by (metis word_of_unat unat_eq_0 length_0_conv)
  have "rb_count rb = 0 \<longleftrightarrow> rb_list rb = []"
    using length_rb_list [OF inv] by (metis length_0_conv)
  then show ?thesis
    using rb_invD [OF inv0] rb_list_hd [OF inv0] inv0 v
    by (auto simp: Ring_Buffer_Peek_Byte_def pair z mem_simps simp flip: rb0_def)
qed

lemma Peek_spec:
  assumes inv: "rb_inv rb" and dst: "unat len \<le> length data"
  shows "\<exists>n rb'. Ring_Buffer_Peek rb data len =
      Some (n, take (unat n) (rb_list rb) @ drop (unat n) data, rb') \<and>
    unat n = min (unat len) (rb_count rb) \<and> rb_inv rb' \<and>
    rb_list rb' = rb_list rb \<and> rb_size rb' = rb_size rb"
proof -
  define rb0 where "rb0 = rb_lock (rb_unlock (rb_lock rb))"
  define sz where "sz = fst (Ring_Buffer_Get_Length rb)"
  define n where "n = min len sz"
  have pair: "Ring_Buffer_Get_Length rb = (sz, rb_unlock (rb_lock rb))"
    unfolding sz_def by (rule Get_Length_pair)
  have sz: "unat sz = rb_count rb" using Get_Length_count [OF inv] by (simp add: sz_def)
  have n: "(if sz < len then sz else len) = n" by (auto simp: n_def min_def)
  have un: "unat n = min (unat len) (rb_count rb)" by (simp add: n_def unat_min sz)
  have inv0: "rb_inv rb0" and v: "rb_list rb0 = rb_list rb" "rb_count rb0 = rb_count rb"
      "rb_size rb0 = rb_size rb" "pointer rb0 = pointer rb" "readIndex rb0 = readIndex rb"
    using inv by (simp_all add: rb0_def)
  note D = rb_invD [OF inv]
  have lt: "readIndex rb < rb_size rb" using inv by (simp add: rb_inv_def)
  note W = word_room [OF lt]
  have le: "unat n \<le> unat (rb_size rb)" "unat n \<le> length data"
    using un rb_count_le [OF inv] dst by auto
  have rr: "ring_read (pointer rb) (unat (readIndex rb)) (unat n) = take (unat n) (rb_list rb)"
    by (rule ring_read_list [OF inv]) (simp add: un)
  show ?thesis
  proof (cases "sz = 0")
    case True
    then have "n = 0" by (simp add: n_def)
    with True show ?thesis
      using inv0 v un by (simp add: Ring_Buffer_Peek_def pair flip: rb0_def)
  next
    case False
    have "Ring_Buffer_Peek rb data len =
        Some (n, take (unat n) (rb_list rb) @ drop (unat n) data, rb_unlock rb0)"
    proof (cases "n < rb_size rb - readIndex rb")
      case True
      then have "take (unat n) (drop (unat (readIndex rb)) (pointer rb)) = take (unat n) (rb_list rb)"
        using rr W(2) D by (simp add: ring_read_def)
      with True False show ?thesis
        using W(2) [of n] D le un rb_count_le [OF inv] length_rb_list [OF inv]
        by (simp add: Ring_Buffer_Peek_def pair Let_def n v mem_simps flip: rb0_def)
    next
      case False2: False
      define k where "k = unat (rb_size rb) - unat (readIndex rb)"
      have k: "unat (rb_size rb - readIndex rb) = k" "unat (n - (rb_size rb - readIndex rb)) = unat n - k"
          "k \<le> unat n"
        using W(1) W(4) [OF False2] W(2) [of n] False2 D by (auto simp: k_def)
      let ?a = "drop (unat (readIndex rb)) (pointer rb)"
      let ?b = "take (unat n - k) (pointer rb)"
      have ab: "?a @ ?b = take (unat n) (rb_list rb)" "length ?a = k" "length ?b = unat n - k"
        using rr W(2) [of n] False2 D le k by (auto simp: ring_read_def k_def)
      have "take k (?a @ drop k data) @ ?b @ drop (unat n) (?a @ drop k data) =
          (?a @ ?b) @ drop (unat n) data"
        using ab(2) k(3) by simp
      with False False2 show ?thesis
        using k D le ab
        by (simp add: Ring_Buffer_Peek_def pair Let_def n v mem_simps flip: rb0_def)
    qed
    then show ?thesis using inv0 v un by simp
  qed
qed


section \<open>The forcing writes\<close>

text \<open>
  \<open>rb_force\<close> is the index update of the forcing writes: the read index follows the write
  index when \<open>over\<close>, and the read mirror is flipped exactly when the write mirror is.
\<close>

definition rb_force :: "u32 \<Rightarrow> bool \<Rightarrow> Ring_Buffer_Type \<Rightarrow> Ring_Buffer_Type" where
  "rb_force n over rb =
     (let rb' = rb_push n rb in
      if \<not> over then rb'
      else if n < rb_size rb - writeIndex rb then rb'\<lparr>readIndex := writeIndex rb'\<rparr>
      else rb'\<lparr>readIndex := writeIndex rb', readMirror := NOT (readMirror rb)\<rparr>)"

lemma force_rotation:
  assumes inv: "rb_inv rb" and n: "length xs \<le> unat (rb_size rb)" and over: "rb_free rb \<le> length xs"
  shows "rotate ((unat (writeIndex rb) + length xs) mod unat (rb_size rb))
           (ring_store (pointer rb) (unat (writeIndex rb)) xs) =
         drop (length xs - rb_free rb) (rb_list rb) @ xs"
proof -
  define S where "S = unat (rb_size rb)"
  define w where "w = unat (writeIndex rb)"
  define c where "c = rb_count rb"
  define X where "X = rotate (unat (readIndex rb)) (pointer rb)"
  define m where "m = ring_store (pointer rb) w xs"
  note D = rb_invD [OF inv]
  have S: "length (pointer rb) = S" "w < S" "c \<le> S" "length X = S"
    using D rb_count_le [OF inv] by (auto simp: S_def w_def c_def X_def)
  have lm: "length m = S" using S n by (simp add: m_def S_def)
  have "rotate w (pointer rb) = rotate c X"
    using rb_write_pos [OF inv] S
    by (metis S_def X_def add.commute c_def rotate_conv_mod rotate_rotate w_def)
  also have "\<dots> = drop c X @ take c X"
    using S by (cases "c = S") (simp_all add: rotate_drop_take)
  finally have rot: "rotate w (pointer rb) = drop c X @ rb_list rb"
    by (simp add: rb_list_def c_def X_def)
  have "rotate ((w + length xs) mod S) m = rotate (length xs) (rotate w m)"
    using lm by (metis add.commute rotate_conv_mod rotate_rotate)
  also have "\<dots> = rotate (length xs) (xs @ drop (length xs) (rotate w (pointer rb)))"
    using rotate_ring_store [of w "pointer rb" xs] S n by (simp add: m_def S_def)
  also have "\<dots> = drop (length xs) (rotate w (pointer rb)) @ xs"
    by (rule rotate_append)
  also have "drop (length xs) (rotate w (pointer rb)) =
      drop (length xs - rb_free rb) (rb_list rb)"
    using over S unfolding rot by (simp add: rb_free_def c_def S_def)
  finally show ?thesis by (simp add: m_def w_def S_def)
qed

lemma rb_force_fits:
  "rb_force n False rb = rb_push n rb"
  by (simp add: rb_force_def)

text \<open>Overwriting a ring whose mirrors differ leaves it full with the newest bytes.\<close>

lemma rb_force_full:
  assumes inv: "rb_inv rb" and mir: "readMirror rb \<noteq> writeMirror rb"
    and n: "length xs = unat n" "unat n \<le> unat (rb_size rb)" "rb_free rb \<le> unat n"
  defines "rb' \<equiv> rb_force n True (rb\<lparr>pointer := ring_store (pointer rb) (unat (writeIndex rb)) xs\<rparr>)"
  shows "rb_inv rb'" and "rb_free rb' = 0" and "rb_size rb' = rb_size rb"
    and "rb_list rb' = drop (unat n - rb_free rb) (rb_list rb) @ xs"
proof -
  note D = rb_invD [OF inv]
  have lt: "writeIndex rb < rb_size rb" using inv by (simp add: rb_inv_def)
  note W = word_room [OF lt]
  have m: "readMirror rb = 0 \<or> readMirror rb = 255" "writeMirror rb = 0 \<or> writeMirror rb = 255"
    using inv by (auto simp: rb_inv_def)
  have ls: "length (ring_store (pointer rb) (unat (writeIndex rb)) xs) = unat (rb_size rb)"
    using D n by simp
  have pos: "unat (writeIndex rb') = (unat (writeIndex rb) + unat n) mod unat (rb_size rb)"
    using W(2,3) [of n] W(4) [of n] D n by (auto simp: rb'_def rb_force_def rb_push_def mod_if)
  have sel: "readIndex rb' = writeIndex rb'" "rb_size rb' = rb_size rb"
      "pointer rb' = ring_store (pointer rb) (unat (writeIndex rb)) xs"
      "readMirror rb' \<noteq> writeMirror rb'"
    using mir m by (auto simp: rb'_def rb_force_def rb_push_def)
  then have count: "rb_count rb' = unat (rb_size rb)" by (simp add: rb_count_def)
  have mirs: "readMirror rb' = 0 \<or> readMirror rb' = 255" "writeMirror rb' = 0 \<or> writeMirror rb' = 255"
    using m by (auto simp: rb'_def rb_force_def rb_push_def)
  show "rb_inv rb'"
    using sel pos mirs ls D unfolding rb_inv_def by (simp add: word_less_nat_alt)
  show "rb_free rb' = 0" using count sel by (simp add: rb_free_def)
  show "rb_size rb' = rb_size rb" by (rule sel)
  have "length (drop (unat n - rb_free rb) (rb_list rb) @ xs) = unat (rb_size rb)"
    using n rb_count_le [OF inv] length_rb_list [OF inv] by (simp add: rb_free_def)
  then show "rb_list rb' = drop (unat n - rb_free rb) (rb_list rb) @ xs"
    using force_rotation [OF inv, of xs] n sel pos count by (simp add: rb_list_def [of rb'])
qed

text \<open>
  When the mirrors are equal, an overwriting write wraps, and flipping the read mirror as
  well makes the full ring look empty.
\<close>

lemma rb_force_lost:
  assumes inv: "rb_inv rb" and mir: "readMirror rb = writeMirror rb"
    and n: "length xs = unat n" "unat n \<le> unat (rb_size rb)" "rb_free rb < unat n"
  defines "rb' \<equiv> rb_force n True (rb\<lparr>pointer := ring_store (pointer rb) (unat (writeIndex rb)) xs\<rparr>)"
  shows "rb_inv rb'" and "rb_list rb' = []" and "rb_size rb' = rb_size rb"
proof -
  note D = rb_invD [OF inv]
  have lt: "writeIndex rb < rb_size rb" using inv by (simp add: rb_inv_def)
  note W = word_room [OF lt]
  have m: "writeMirror rb = 0 \<or> writeMirror rb = 255" using inv by (auto simp: rb_inv_def)
  have wrap: "\<not> n < rb_size rb - writeIndex rb"
    using n mir D unfolding W(2) by (simp add: rb_free_def rb_count_def)
  have ls: "length (ring_store (pointer rb) (unat (writeIndex rb)) xs) = unat (rb_size rb)"
    using D n by simp
  have sel: "readIndex rb' = writeIndex rb'" "rb_size rb' = rb_size rb"
      "pointer rb' = ring_store (pointer rb) (unat (writeIndex rb)) xs"
      "readMirror rb' = writeMirror rb'" "writeMirror rb' = NOT (writeMirror rb)"
      "writeIndex rb' = n - (rb_size rb - writeIndex rb)"
    using mir wrap by (auto simp: rb'_def rb_force_def rb_push_def)
  then show "rb_list rb' = []" by (simp add: rb_list_def rb_count_def)
  show "rb_size rb' = rb_size rb" by (rule sel)
  show "rb_inv rb'"
    using sel ls D m W(4) [OF wrap] n unfolding rb_inv_def by (auto simp: word_less_nat_alt)
qed

lemma Write_Force_run:
  assumes inv: "rb_inv rb" and src: "unat len \<le> length data"
  defines "n \<equiv> min len (rb_size rb)"
  defines "xs \<equiv> drop (unat len - unat n) (take (unat len) data)"
  defines "rb0 \<equiv> rb_lock (rb_unlock (rb_lock rb))"
  shows "Ring_Buffer_Write_Force rb data len =
    Some (n, rb_unlock (rb_force n (rb_free rb < unat n)
      (rb0\<lparr>pointer := ring_store (pointer rb) (unat (writeIndex rb)) xs\<rparr>)))"
    and "length xs = unat n"
proof -
  define sr where "sr = fst (Ring_Buffer_Get_Empty_Length rb)"
  have pair: "Ring_Buffer_Get_Empty_Length rb = (sr, rb_unlock (rb_lock rb))"
    unfolding sr_def by (rule Get_Empty_Length_pair)
  have sr: "unat sr = rb_free rb" using Get_Empty_Length_free [OF inv] by (simp add: sr_def)
  have v: "rb_size rb0 = rb_size rb" "writeIndex rb0 = writeIndex rb" "pointer rb0 = pointer rb"
    "readMirror rb0 = readMirror rb"
    by (simp_all add: rb0_def)
  note D = rb_invD [OF inv]
  have lt: "writeIndex rb < rb_size rb" using inv by (simp add: rb_inv_def)
  note W = word_room [OF lt]
  have un: "unat n = min (unat len) (unat (rb_size rb))" by (simp add: n_def unat_min)
  define data' where "data' = (if len > rb_size rb then drop (unat (len - rb_size rb)) data else data)"
  have run: "Ring_Buffer_Write_Force rb data len =
      rb_force_section sr (rb_size rb - writeIndex rb) data' n rb0"
    unfolding Ring_Buffer_Write_Force_def pair Let_def prod.case
    unfolding rb0_def [symmetric]
    by (auto simp: data'_def n_def min_def v)
  have d: "take (unat n) data' = xs" "unat n \<le> length data'"
    using src un by (auto simp: data'_def xs_def word_less_nat_alt unat_sub_le word_le_nat_alt
        min_def drop_take)
  then show lx: "length xs = unat n" by auto
  have ov: "sr < n \<longleftrightarrow> rb_free rb < unat n" by (simp add: word_less_nat_alt sr)
  have le: "unat n \<le> unat (rb_size rb)" using un by simp
  show "Ring_Buffer_Write_Force rb data len =
    Some (n, rb_unlock (rb_force n (rb_free rb < unat n)
      (rb0\<lparr>pointer := ring_store (pointer rb) (unat (writeIndex rb)) xs\<rparr>)))"
  proof (cases "n < rb_size rb - writeIndex rb")
    case True
    have st: "take (unat (writeIndex rb)) (pointer rb) @ xs @
        drop (unat (writeIndex rb) + length xs) (pointer rb) =
        ring_store (pointer rb) (unat (writeIndex rb)) xs"
      using True W(2) D lx by (simp add: ring_store_def)
    have r: "mem_read data' 0 (unat n) = Some xs"
      using d by (simp add: mem_simps)
    have w: "mem_write (pointer rb) (unat (writeIndex rb)) xs =
        Some (ring_store (pointer rb) (unat (writeIndex rb)) xs)"
      using True W(2) D lx unfolding st [symmetric] by (simp add: mem_simps)
    show ?thesis
      unfolding run rb_force_section_def v r
      using True by (simp add: w v rb_force_def rb_push_def ov Let_def)
  next
    case False
    define k where "k = unat (rb_size rb) - unat (writeIndex rb)"
    have k: "unat (rb_size rb - writeIndex rb) = k" "unat (n - (rb_size rb - writeIndex rb)) = unat n - k"
        "k \<le> unat n" "unat n - k \<le> unat (writeIndex rb)" "unat (writeIndex rb) + k = length (pointer rb)"
      using W(1) W(4) [OF False] W(2) [of n] False D le by (auto simp: k_def)
    have ab: "take k data' @ take (unat n - k) (drop k data') = xs" "length (take k data') = k"
        "length (take (unat n - k) (drop k data')) = unat n - k"
      using d k by (simp_all add: flip: take_add)
    have st: "take (unat n - k) (drop k data') @
        drop (unat n - k) (take (unat (writeIndex rb)) (pointer rb) @ take k data') =
        ring_store (pointer rb) (unat (writeIndex rb)) xs"
    proof -
      have p: "unat (writeIndex rb) < length (pointer rb)"
          "length (take k data') = length (pointer rb) - unat (writeIndex rb)"
          "length (take (unat n - k) (drop k data')) \<le> unat (writeIndex rb)"
        using D ab(2) k(4,5) by (simp, simp, simp only: ab(3))
      show ?thesis
        using two_part_store [OF p] unfolding ab(1,3) .
    qed
    have r: "mem_read data' 0 k = Some (take k data')"
        "mem_read data' k (unat n - k) = Some (take (unat n - k) (drop k data'))"
      using d k by (simp_all add: mem_simps)
    have w: "mem_write (pointer rb) (unat (writeIndex rb)) (take k data') =
        Some (take (unat (writeIndex rb)) (pointer rb) @ take k data')"
      using ab k by (simp add: mem_simps)
    have w2: "mem_write (take (unat (writeIndex rb)) (pointer rb) @ take k data') 0
        (take (unat n - k) (drop k data')) = Some (ring_store (pointer rb) (unat (writeIndex rb)) xs)"
    proof -
      have "length (take (unat n - k) (drop k data')) \<le>
          length (take (unat (writeIndex rb)) (pointer rb) @ take k data')"
        using ab(2,3) k(4,5) by simp
      from mem_write_in [of 0, simplified add_0, OF this] show ?thesis
        by (simp only: take_0 append_Nil ab(3) st)
    qed
    show ?thesis
      unfolding run rb_force_section_def k v r
      using False by (simp add: w w2 v rb_force_def rb_push_def ov Let_def)
  qed
qed


lemma Write_Force_spec:
  assumes inv: "rb_inv rb" and src: "unat len \<le> length data"
  defines "n \<equiv> min (unat len) (unat (rb_size rb))"
  defines "xs \<equiv> drop (unat len - n) (take (unat len) data)"
  shows "\<exists>k rb'. Ring_Buffer_Write_Force rb data len = Some (k, rb') \<and> unat k = n \<and>
    rb_inv rb' \<and> rb_size rb' = rb_size rb \<and>
    rb_list rb' =
      (if n \<le> rb_free rb then rb_list rb @ xs
       else if readMirror rb \<noteq> writeMirror rb then drop (n - rb_free rb) (rb_list rb) @ xs
       else [])"
proof -
  define k where "k = min len (rb_size rb)"
  define rb0 where "rb0 = rb_lock (rb_unlock (rb_lock rb))"
  have n: "n = unat k" by (simp add: n_def k_def unat_min)
  note run = Write_Force_run [OF inv src, folded k_def, folded n, folded xs_def rb0_def]
  have inv0: "rb_inv rb0" and v: "rb_size rb0 = rb_size rb" "writeIndex rb0 = writeIndex rb"
      "pointer rb0 = pointer rb" "readMirror rb0 = readMirror rb"
      "writeMirror rb0 = writeMirror rb" "rb_free rb0 = rb_free rb" "rb_list rb0 = rb_list rb"
    using inv by (simp_all add: rb0_def)
  have le: "unat k \<le> unat (rb_size rb0)" by (simp add: k_def unat_min v)
  have lx: "length xs = unat k" using run(2) n by (simp only:)
  have kx: "of_nat (length xs) = k" by (simp add: lx)
  show ?thesis
  proof (cases "n \<le> rb_free rb")
    case True
    then have "Ring_Buffer_Write_Force rb data len = Some (k, rb_unlock (rb_append xs rb0))"
      using run(1) by (simp add: rb_force_fits rb_append_def v kx)
    then show ?thesis
      using rb_append_spec [OF inv0, of xs] True run(2) v n by simp
  next
    case over: False
    then have r: "Ring_Buffer_Write_Force rb data len = Some (k, rb_unlock (rb_force k True
        (rb0\<lparr>pointer := ring_store (pointer rb0) (unat (writeIndex rb0)) xs\<rparr>)))"
      using run(1) by (simp add: v)
    show ?thesis
    proof (cases "readMirror rb = writeMirror rb")
      case True
      then show ?thesis
        using rb_force_lost [OF inv0 _ lx le] over r v n by simp
    next
      case False
      then show ?thesis
        using rb_force_full [OF inv0 _ lx le] over r v n by simp
    qed
  qed
qed

lemma full_mirrors:
  assumes "rb_inv rb" and "rb_free rb = 0"
  shows "readMirror rb \<noteq> writeMirror rb" and "readIndex rb = writeIndex rb"
  using assms rb_invD [OF assms(1)]
  by (auto simp: rb_free_def rb_count_def word_unat_eq_iff split: if_splits)

lemma Write_Byte_Force_run:
  assumes inv: "rb_inv rb"
  defines "rb0 \<equiv> rb_lock (rb_unlock (rb_lock rb))"
  shows "Ring_Buffer_Write_Byte_Force rb x =
    Some (1, rb_unlock (rb_force 1 (rb_free rb = 0)
      (rb0\<lparr>pointer := ring_store (pointer rb0) (unat (writeIndex rb0)) [x]\<rparr>)))"
proof -
  define st where "st = fst (Ring_Buffer_Get_Status rb)"
  have pair: "Ring_Buffer_Get_Status rb = (st, rb_unlock (rb_lock rb))"
    by (metis Get_Status_state prod.collapse st_def)
  have inv0: "rb_inv rb0" and v: "rb_size rb0 = rb_size rb" "writeIndex rb0 = writeIndex rb"
      "pointer rb0 = pointer rb"
    using inv by (simp_all add: rb0_def)
  note D = rb_invD [OF inv0]
  have full: "st = RING_BUFFER_FULL \<longleftrightarrow> rb_free rb = 0"
    using Get_Status_cases [OF inv] rb_invD(1) [OF inv] by (auto simp: st_def rb_free_def)
  have lt: "writeIndex rb0 < rb_size rb0" using inv0 by (simp add: rb_inv_def)
  have zero: "1 - (rb_size rb0 - writeIndex rb0) = 0" if "\<not> 1 < rb_size rb0 - writeIndex rb0"
    using that last_index [OF lt] by simp
  have sto: "(pointer rb0)[unat (writeIndex rb0) := x] =
      ring_store (pointer rb0) (unat (writeIndex rb0)) [x]"
    using D by (auto simp: ring_store_def Let_def upd_conv_take_nth_drop)
  show ?thesis
    unfolding Ring_Buffer_Write_Byte_Force_def pair Let_def prod.case
    unfolding rb0_def [symmetric]
    using D zero
    by (auto simp: mem_simps rb_force_def rb_push_def sto last_index [OF lt] full Let_def)
qed

lemma Write_Byte_Force_spec:
  assumes inv: "rb_inv rb"
  shows "\<exists>rb'. Ring_Buffer_Write_Byte_Force rb x = Some (1, rb') \<and>
    rb_inv rb' \<and> rb_size rb' = rb_size rb \<and>
    rb_list rb' = (if rb_free rb = 0 then tl (rb_list rb) else rb_list rb) @ [x]"
proof -
  define rb0 where "rb0 = rb_lock (rb_unlock (rb_lock rb))"
  have inv0: "rb_inv rb0" and v: "rb_size rb0 = rb_size rb"
      "rb_free rb0 = rb_free rb" "rb_list rb0 = rb_list rb"
    using inv by (simp_all add: rb0_def)
  note run = Write_Byte_Force_run [OF inv, of x, folded rb0_def]
  show ?thesis
  proof (cases "rb_free rb = 0")
    case True
    have "1 \<le> unat (rb_size rb0)" using rb_invD(1) [OF inv0] by simp
    with True show ?thesis
      using run rb_force_full [OF inv0 full_mirrors(1) [OF inv0], of "[x]" 1] v
      by (simp add: drop_Suc)
  next
    case False
    then show ?thesis
      using run rb_append_spec [OF inv0, of "[x]"] v
      by (simp add: rb_force_fits rb_append_def)
  qed
qed

lemma Init_spec:
  assumes "0 < sz" and "length buffer = unat sz"
  shows "rb_inv (Ring_Buffer_Init buffer sz l u)" and "rb_list (Ring_Buffer_Init buffer sz l u) = []"
    and "rb_size (Ring_Buffer_Init buffer sz l u) = sz"
  using assms by (simp_all add: Ring_Buffer_Init_def rb_inv_def rb_list_def rb_count_def)

lemma Reset_spec:
  assumes "rb_inv rb"
  shows "rb_inv (Ring_Buffer_Reset rb)" and "rb_list (Ring_Buffer_Reset rb) = []"
    and "rb_size (Ring_Buffer_Reset rb) = rb_size rb"
proof -
  let ?r = "(rb_lock rb)\<lparr>readMirror := 0, readIndex := 0, writeMirror := 0, writeIndex := 0\<rparr>"
  have "rb_inv ?r" "rb_list ?r = []" "rb_size ?r = rb_size rb"
    using assms by (simp_all add: rb_inv_def rb_list_def rb_count_def)
  then show "rb_inv (Ring_Buffer_Reset rb)" "rb_list (Ring_Buffer_Reset rb) = []"
      "rb_size (Ring_Buffer_Reset rb) = rb_size rb"
    by (simp_all add: Ring_Buffer_Reset_def)
qed


section \<open>The ring buffer as a bounded queue\<close>

definition rb_put :: "Ring_Buffer_Type \<Rightarrow> bytes \<Rightarrow> (nat \<times> Ring_Buffer_Type) option" where
  "rb_put rb xs = do {
     (n, rb) \<leftarrow> Ring_Buffer_Write rb xs (of_nat (length xs));
     Some (unat n, rb)
   }"

definition rb_get :: "Ring_Buffer_Type \<Rightarrow> nat \<Rightarrow> (bytes \<times> Ring_Buffer_Type) option" where
  "rb_get rb n = do {
     (k, data, rb) \<leftarrow> Ring_Buffer_Read rb (replicate n 0) (of_nat n);
     Some (take (unat k) data, rb)
   }"

interpretation rbq: byte_fifo rb_inv rb_list "\<lambda>rb. unat (rb_size rb)" rb_put rb_get "2 ^ 32"
proof unfold_locales
  fix rb assume "rb_inv rb"
  then show "length (rb_list rb) \<le> unat (rb_size rb)"
    using rb_count_le length_rb_list by simp
next
  fix rb xs assume inv: "rb_inv rb" and xs: "length (xs :: bytes) < 2 ^ 32"
  then have un: "unat (of_nat (length xs) :: u32) = length xs"
    by (intro unat_of_nat_small) simp
  show "\<exists>n q'. rb_put rb xs = Some (n, q') \<and>
      n = min (length xs) (unat (rb_size rb) - length (rb_list rb)) \<and>
      rb_inv q' \<and> unat (rb_size q') = unat (rb_size rb) \<and> rb_list q' = rb_list rb @ take n xs"
    using Write_spec [OF inv, of "of_nat (length xs)" xs] un length_rb_list [OF inv]
    by (auto simp: rb_put_def rb_free_def)
next
  fix rb and n :: nat assume inv: "rb_inv rb" and n: "n < 2 ^ 32"
  then have un: "unat (of_nat n :: u32) = n"
    by (intro unat_of_nat_small) simp
  show "\<exists>q'. rb_get rb n = Some (take n (rb_list rb), q') \<and>
      rb_inv q' \<and> unat (rb_size q') = unat (rb_size rb) \<and> rb_list q' = drop n (rb_list rb)"
    using Read_spec [OF inv, of "of_nat n" "replicate n 0"] un length_rb_list [OF inv]
    by (auto simp: rb_get_def min_def)
qed

section \<open>Lock calls and interleaving\<close>

lemma calls_append [simp]: "calls (rb_append xs rb) = calls rb"
  "lock (rb_append xs rb) = lock rb" "unlock (rb_append xs rb) = unlock rb"
  by (simp_all add: rb_append_def rb_push_def)

lemma calls_pop [simp]: "calls (rb_pop n rb) = calls rb"
  "lock (rb_pop n rb) = lock rb" "unlock (rb_pop n rb) = unlock rb"
  by (simp_all add: rb_pop_def)

lemma calls_force [simp]: "calls (rb_force n c rb) = calls rb"
  "lock (rb_force n c rb) = lock rb" "unlock (rb_force n c rb) = unlock rb"
  by (simp_all add: rb_force_def rb_push_def Let_def)

lemma calls_lock [simp]:
  "lock rb \<Longrightarrow> calls (rb_lock rb) = calls rb @ [Lock]"
  "unlock rb \<Longrightarrow> calls (rb_unlock rb) = calls rb @ [Unlock]"
  by (simp_all add: rb_lock_def rb_unlock_def)

text \<open>\<open>lock_nesting d cs\<close>: the deepest nesting of the lock while \<open>cs\<close> is called, from depth \<open>d\<close>.\<close>

fun lock_nesting :: "nat \<Rightarrow> lock_call list \<Rightarrow> nat" where
  "lock_nesting d [] = d"
| "lock_nesting d (Lock # cs) = max d (lock_nesting (Suc d) cs)"
| "lock_nesting d (Unlock # cs) = max d (lock_nesting (d - 1) cs)"

definition new_calls :: "Ring_Buffer_Type \<Rightarrow> Ring_Buffer_Type \<Rightarrow> lock_call list" where
  "new_calls rb rb' = drop (length (calls rb)) (calls rb')"

lemma block_op_calls:
  assumes inv: "rb_inv rb" and cb: "lock rb" "unlock rb" and len: "unat len \<le> length data"
  shows "map_option (new_calls rb \<circ> snd) (Ring_Buffer_Write rb data len) =
      Some [Lock, Unlock, Lock, Unlock]"
    and "map_option (new_calls rb \<circ> snd \<circ> snd) (Ring_Buffer_Read rb data len) =
      Some [Lock, Unlock, Lock, Unlock]"
    and "map_option (new_calls rb \<circ> snd) (Ring_Buffer_Write_Force rb data len) =
      Some [Lock, Unlock, Lock, Unlock]"
    and "map_option (new_calls rb \<circ> snd) (Ring_Buffer_Write_Byte_Force rb x) =
      Some [Lock, Unlock, Lock, Unlock]"
  using cb Write_run [OF inv len] Read_run [OF inv len] Write_Force_run [OF inv len]
    Write_Byte_Force_run [OF inv, of x]
  by (simp_all add: new_calls_def)

lemma byte_op_calls:
  assumes inv: "rb_inv rb" and cb: "lock rb" "unlock rb"
  shows "map_option (new_calls rb \<circ> snd) (Ring_Buffer_Write_Byte rb x) =
      Some [Lock, Lock, Unlock, Unlock]"
    and "map_option (new_calls rb \<circ> snd \<circ> snd) (Ring_Buffer_Read_Byte rb) =
      Some [Lock, Lock, Unlock, Unlock]"
  using cb Write_Byte_run [OF inv, of x] Read_Byte_run [OF inv]
  by (simp_all add: new_calls_def Let_def)

lemma nest_calls:
  "map_option g z = Some cs \<Longrightarrow> lock_nesting 0 cs = d \<Longrightarrow>
   map_option (lock_nesting 0 \<circ> g) z = Some d"
  by auto

text \<open>
  Between the two critical sections of a write another writer may fill the ring; the second
  section then works with the stale free space.
\<close>

lemma stale_write_breaks:
  assumes inv: "rb_inv rb" and n: "0 < rb_free rb" "0 < rb_count rb"
    and a: "rb_free rb \<le> length dataA" and b: "rb_free rb \<le> length dataB"
  defines "free \<equiv> fst (Ring_Buffer_Get_Empty_Length rb)"
  defines "rb1 \<equiv> snd (Ring_Buffer_Get_Empty_Length rb)"
  shows "\<exists>rb2 k src rb3. Ring_Buffer_Write rb1 dataB free = Some (free, rb2) \<and> rb_inv rb2 \<and>
    rb_write_section free Ring_Buffer_Write_Copy free dataA rb2 = Some (k, src, rb3) \<and>
    \<not> rb_inv rb3"
proof -
  have f: "unat free = rb_free rb" using Get_Empty_Length_free [OF inv] by (simp add: free_def)
  have rb1: "rb1 = rb_unlock (rb_lock rb)"
    using Get_Empty_Length_pair [of rb] by (metis rb1_def snd_conv)
  then have inv1: "rb_inv rb1" and v1: "rb_free rb1 = rb_free rb" "rb_count rb1 = rb_count rb"
      "rb_size rb1 = rb_size rb"
    using inv by simp_all
  obtain m rb2 where w: "Ring_Buffer_Write rb1 dataB free = Some (m, rb2)" "unat m = rb_free rb"
      "rb_inv rb2" "rb_list rb2 = rb_list rb1 @ take (unat m) dataB" "rb_size rb2 = rb_size rb"
    using Write_spec [OF inv1, of free dataB] b f v1 by auto
  have m: "m = free" using w(2) f by (metis word_of_unat)
  have "length (rb_list rb2) = unat (rb_size rb)"
    using w(4) f m b length_rb_list [OF inv1] v1 rb_count_le [OF inv] by (simp add: rb_free_def)
  then have full: "rb_free rb2 = 0" using length_rb_list [OF w(3)] w(5) by (simp add: rb_free_def)
  note M = full_mirrors [OF w(3) full] and D = rb_invD [OF w(3)]
  have lt: "writeIndex rb2 < rb_size rb2" using w(3) by (simp add: rb_inv_def)
  have fs: "unat free < unat (rb_size rb2)" using f n w(5) by (simp add: rb_free_def)
  have z: "free \<noteq> 0" using f n by (metis unat_eq_0 less_irrefl)
  define xs where "xs = take (unat free) dataA"
  let ?rb3 = "rb_append xs (rb_lock rb2)"
  have "min (unat free) (unat free) \<le> unat (rb_size rb2)" using fs by simp
  note S = rb_write_section_eq [OF w(3) Write_Copy_keeps this, of dataA]
  have "ring_call Ring_Buffer_Write_Copy dataA (pointer rb2) (unat (writeIndex rb2)) (unat free) =
      Some (drop (unat free) dataA, xs)"
    using D fs a f unfolding xs_def by (intro ring_call_Write_Copy) simp_all
  with S z have run: "rb_write_section free Ring_Buffer_Write_Copy free dataA rb2 =
      Some (free, drop (unat free) dataA, rb_unlock ?rb3)"
    by simp
  have lx: "of_nat (length xs) = free" using a f word_of_unat [OF f] by (simp add: xs_def)
  have mm: "readMirror rb2 = 0 \<or> readMirror rb2 = 255" "writeMirror rb2 = 0 \<or> writeMirror rb2 = 255"
    using w(3) by (auto simp: rb_inv_def)
  have "\<not> rb_inv ?rb3"
  proof (cases "free < rb_size rb2 - writeIndex rb2")
    case True
    then have "unat (writeIndex ?rb3) = unat (writeIndex rb2) + unat free"
      using word_room(3) [OF lt True] by (simp add: rb_append_def rb_push_def lx)
    moreover have "readMirror ?rb3 \<noteq> writeMirror ?rb3" "readIndex ?rb3 = writeIndex rb2"
      using True M by (simp_all add: rb_append_def rb_push_def lx)
    ultimately show ?thesis using f n by (auto simp: rb_inv_def word_le_nat_alt)
  next
    case False
    then have "unat (writeIndex ?rb3) = unat (writeIndex rb2) + unat free - unat (rb_size rb2)"
      using word_room(4) [OF lt False] by (simp add: rb_append_def rb_push_def lx)
    moreover have "unat (rb_size rb2) \<le> unat (writeIndex rb2) + unat free"
      using False word_room(2) [OF lt, of free] by simp
    moreover have "readMirror ?rb3 = writeMirror ?rb3" "readIndex ?rb3 = writeIndex rb2"
      using False M mm by (auto simp: rb_append_def rb_push_def lx)
    ultimately show ?thesis using fs D f n by (auto simp: rb_inv_def word_le_nat_alt)
  qed
  then show ?thesis using w(1,3) m run by auto
qed


section \<open>Properties\<close>

definition ring4 :: Ring_Buffer_Type where
  "ring4 = Ring_Buffer_Init [0, 0, 0, 0] 4 True True"

lemma ring4_inv: "rb_inv ring4" "rb_list ring4 = []" "rb_size ring4 = 4" "lock ring4" "unlock ring4"
  "rb_free ring4 = 4" "rb_count ring4 = 0" "readMirror ring4 = writeMirror ring4"
  by (simp_all add: ring4_def Ring_Buffer_Init_def rb_inv_def rb_list_def rb_count_def rb_free_def)

text \<open>
  C6: over any history of writes and reads on a fresh ring, no operation leaves its memory,
  the bytes accepted are exactly the bytes delivered followed by the bytes still in the ring,
  and at most one ring's capacity is undelivered.
\<close>

theorem ring_fifo_history:
  assumes "0 < sz" and "length buffer = unat sz" and "list_all (op_within (2 ^ 32)) ops"
  shows "\<exists>accepted delivered rb. fifo_run rb_put rb_get (Ring_Buffer_Init buffer sz l u) ops =
      Some (accepted, delivered, rb) \<and> rb_inv rb \<and>
    accepted = delivered @ rb_list rb \<and> length accepted \<le> length delivered + unat sz"
  using rbq.delivered_prefix [OF Init_spec(1,2) [OF assms(1,2)] assms(3), of l u]
    rbq.run_total [OF Init_spec(1) [OF assms(1,2)] assms(3), of l u] Init_spec(3) [OF assms(1,2)]
  by auto

theorem ring_fifo_history_witness:
  "\<exists>accepted delivered rb. fifo_run rb_put rb_get (Ring_Buffer_Init [0, 0, 0] 3 True True)
      [Put [1, 2], Get 1, Put [3, 4, 5], Get 3] = Some (accepted, delivered, rb) \<and> rb_inv rb \<and>
    accepted = delivered @ rb_list rb \<and> length accepted \<le> length delivered + unat (3 :: u32)"
  by (rule ring_fifo_history) simp_all

text \<open>
  C20: \<open>Ring_Buffer_Write\<close> stores as many bytes as fit behind the contents, returns their
  number, and keeps the invariant; \<open>Ring_Buffer_Read\<close> delivers the oldest bytes into the
  destination and removes them.
\<close>

theorem ring_write_read:
  assumes "rb_inv rb" and "unat len \<le> length data" and "unat len' \<le> length dst"
  shows "\<exists>n rb1 k rb2. Ring_Buffer_Write rb data len = Some (n, rb1) \<and>
      unat n = min (unat len) (unat (rb_size rb) - length (rb_list rb)) \<and>
      rb_inv rb1 \<and> rb_list rb1 = rb_list rb @ take (unat n) data \<and>
    Ring_Buffer_Read rb1 dst len' =
      Some (k, take (unat k) (rb_list rb1) @ drop (unat k) dst, rb2) \<and>
      unat k = min (unat len') (length (rb_list rb1)) \<and>
      rb_inv rb2 \<and> rb_list rb2 = drop (unat k) (rb_list rb1)"
proof -
  obtain n rb1 where w: "Ring_Buffer_Write rb data len = Some (n, rb1)"
      "unat n = min (unat len) (rb_free rb)" "rb_inv rb1" "rb_list rb1 = rb_list rb @ take (unat n) data"
    using Write_spec [OF assms(1,2)] by blast
  obtain k rb2 where r: "Ring_Buffer_Read rb1 dst len' =
      Some (k, take (unat k) (rb_list rb1) @ drop (unat k) dst, rb2)"
      "unat k = min (unat len') (rb_count rb1)" "rb_inv rb2" "rb_list rb2 = drop (unat k) (rb_list rb1)"
    using Read_spec [OF w(3) assms(3)] by blast
  show ?thesis
    using w r length_rb_list [OF assms(1)] length_rb_list [OF w(3)]
    by (intro exI [of _ n] exI [of _ rb1] exI [of _ k] exI [of _ rb2]) (simp add: rb_free_def)
qed

theorem ring_write_read_witness:
  "\<exists>n rb1 k rb2. Ring_Buffer_Write ring4 [7, 8] 2 = Some (n, rb1) \<and>
      unat n = min (unat (2 :: u32)) (unat (rb_size ring4) - length (rb_list ring4)) \<and>
      rb_inv rb1 \<and> rb_list rb1 = rb_list ring4 @ take (unat n) [7, 8] \<and>
    Ring_Buffer_Read rb1 [0] 1 =
      Some (k, take (unat k) (rb_list rb1) @ drop (unat k) [0], rb2) \<and>
      unat k = min (unat (1 :: u32)) (length (rb_list rb1)) \<and>
      rb_inv rb2 \<and> rb_list rb2 = drop (unat k) (rb_list rb1)"
  by (rule ring_write_read) (simp_all add: ring4_inv)

text \<open>
  C21: \<open>Ring_Buffer_Write_Force\<close> on every branch: data that fits is appended; when it does not
  fit and the mirrors differ, the oldest bytes make room; when it does not fit and the mirrors
  are equal, both mirrors are flipped and the ring reports that it is empty, so old and new
  bytes are lost.
\<close>

theorem ring_write_force:
  assumes "rb_inv rb" and "unat len \<le> length data"
    and "n = min (unat len) (unat (rb_size rb))" and "xs = drop (unat len - n) (take (unat len) data)"
  shows "\<exists>k rb'. Ring_Buffer_Write_Force rb data len = Some (k, rb') \<and> unat k = n \<and> rb_inv rb' \<and>
    rb_list rb' =
      (if n \<le> rb_free rb then rb_list rb @ xs
       else if readMirror rb \<noteq> writeMirror rb then drop (n - rb_free rb) (rb_list rb) @ xs
       else [])"
  using Write_Force_spec [OF assms(1,2)] unfolding assms(3,4) by blast

theorem ring_write_force_witness:
  "\<exists>k rb'. Ring_Buffer_Write_Force ring4 [1, 2, 3, 4, 5] 5 = Some (k, rb') \<and> unat k = 4 \<and>
    rb_inv rb' \<and> rb_list rb' =
      (if (4 :: nat) \<le> rb_free ring4 then rb_list ring4 @ [2, 3, 4, 5]
       else if readMirror ring4 \<noteq> writeMirror ring4
       then drop (4 - rb_free ring4) (rb_list ring4) @ [2, 3, 4, 5] else [])"
  by (rule ring_write_force) (simp_all add: ring4_inv)

text \<open>
  \<open>Ring_Buffer_Write_Byte_Force\<close> always stores its byte; a full ring loses exactly its
  oldest byte, and stays full.
\<close>

theorem ring_byte_force:
  assumes "rb_inv rb"
  shows "\<exists>rb'. Ring_Buffer_Write_Byte_Force rb x = Some (1, rb') \<and> rb_inv rb' \<and>
    rb_list rb' = (if rb_free rb = 0 then tl (rb_list rb) else rb_list rb) @ [x]"
  using Write_Byte_Force_spec [OF assms, of x] by blast

theorem ring_byte_force_witness:
  "\<exists>rb'. Ring_Buffer_Write_Byte_Force ring4 9 = Some (1, rb') \<and> rb_inv rb' \<and>
    rb_list rb' = (if rb_free ring4 = 0 then tl (rb_list ring4) else rb_list ring4) @ [9]"
  by (rule ring_byte_force) (rule ring4_inv)

text \<open>
  The single-byte operations store and deliver one byte at the right end, report 0 and
  change nothing on a full (empty) ring, and a peek returns what a read would without
  removing it.
\<close>

theorem ring_byte_ops:
  assumes "rb_inv rb"
  shows "(\<exists>n rb'. Ring_Buffer_Write_Byte rb x = Some (n, rb') \<and> unat n = min 1 (rb_free rb) \<and>
      rb_inv rb' \<and> rb_list rb' = rb_list rb @ (if rb_free rb = 0 then [] else [x])) \<and>
    (\<exists>rb'. Ring_Buffer_Read_Byte rb =
        Some (if rb_list rb = [] then (0, None, rb') else (1, Some (hd (rb_list rb)), rb')) \<and>
      rb_inv rb' \<and> rb_list rb' = tl (rb_list rb)) \<and>
    (\<exists>rb'. Ring_Buffer_Peek_Byte rb =
        Some (if rb_list rb = [] then (0, None, rb') else (1, Some (hd (rb_list rb)), rb')) \<and>
      rb_inv rb' \<and> rb_list rb' = rb_list rb)"
  using Write_Byte_spec [OF assms, of x] Read_Byte_spec [OF assms] Peek_Byte_spec [OF assms]
  by auto

theorem ring_byte_ops_witness:
  "\<exists>n rb'. Ring_Buffer_Write_Byte ring4 5 = Some (n, rb') \<and> unat n = min 1 (rb_free ring4) \<and>
    rb_inv rb' \<and> rb_list rb' = rb_list ring4 @ (if rb_free ring4 = 0 then [] else [5])"
  using ring_byte_ops [OF ring4_inv(1), of 5] by blast

text \<open>
  C39: the block operations measure the ring in one critical section and update it in a second
  one; two writers that interleave between the sections break the invariant, although each of
  them asked for the free space first.
\<close>

theorem ring_write_race:
  assumes "rb_inv rb" and "0 < rb_free rb" and "rb_list rb \<noteq> []"
    and "rb_free rb \<le> length dataA" and "rb_free rb \<le> length dataB"
    and "Ring_Buffer_Get_Empty_Length rb = (free, rb1)"
  shows "\<exists>rb2 k src rb3. Ring_Buffer_Write rb1 dataB free = Some (free, rb2) \<and> rb_inv rb2 \<and>
    rb_write_section free Ring_Buffer_Write_Copy free dataA rb2 = Some (k, src, rb3) \<and>
    \<not> rb_inv rb3"
proof -
  have "0 < rb_count rb" using assms(1,3) by (auto simp: rb_list_def)
  from stale_write_breaks [OF assms(1,2) this assms(4,5)] show ?thesis
    unfolding assms(6) by simp
qed

theorem ring_write_race_witness:
  "\<exists>rb free rb1 rb2 k src rb3. rb_inv rb \<and> Ring_Buffer_Get_Empty_Length rb = (free, rb1) \<and>
    Ring_Buffer_Write rb1 [1, 2, 3] free = Some (free, rb2) \<and> rb_inv rb2 \<and>
    rb_write_section free Ring_Buffer_Write_Copy free [4, 5, 6] rb2 = Some (k, src, rb3) \<and>
    \<not> rb_inv rb3"
proof -
  obtain rb' where w: "rb_inv rb'" "rb_list rb' = [9]" "rb_size rb' = 4"
    using Write_Byte_spec [OF ring4_inv(1), of 9] by (auto simp: ring4_inv)
  have "rb_count rb' = 1" using length_rb_list [OF w(1)] w(2) by simp
  then have n: "rb_free rb' = 3" using w(3) by (simp add: rb_free_def)
  obtain free rb1 where e: "Ring_Buffer_Get_Empty_Length rb' = (free, rb1)" by fastforce
  have "\<exists>rb2 k src rb3. Ring_Buffer_Write rb1 [1, 2, 3] free = Some (free, rb2) \<and> rb_inv rb2 \<and>
      rb_write_section free Ring_Buffer_Write_Copy free [4, 5, 6] rb2 = Some (k, src, rb3) \<and>
      \<not> rb_inv rb3"
    by (rule ring_write_race [OF w(1) _ _ _ _ e]) (simp_all add: n w(2))
  with w(1) e show ?thesis by blast
qed

text \<open>
  With both callbacks set, the block operations never nest the lock, while
  \<open>Ring_Buffer_Write_Byte\<close> and \<open>Ring_Buffer_Read_Byte\<close> take it again while they hold it.
\<close>

theorem ring_lock_nesting:
  assumes "rb_inv rb" and "lock rb" and "unlock rb" and "unat len \<le> length data"
  shows "map_option (lock_nesting 0 \<circ> new_calls rb \<circ> snd) (Ring_Buffer_Write rb data len) = Some 1 \<and>
    map_option (lock_nesting 0 \<circ> new_calls rb \<circ> snd \<circ> snd) (Ring_Buffer_Read rb data len) = Some 1 \<and>
    map_option (lock_nesting 0 \<circ> new_calls rb \<circ> snd) (Ring_Buffer_Write_Force rb data len) = Some 1 \<and>
    map_option (lock_nesting 0 \<circ> new_calls rb \<circ> snd) (Ring_Buffer_Write_Byte_Force rb x) = Some 1 \<and>
    map_option (lock_nesting 0 \<circ> new_calls rb \<circ> snd) (Ring_Buffer_Write_Byte rb x) = Some 2 \<and>
    map_option (lock_nesting 0 \<circ> new_calls rb \<circ> snd \<circ> snd) (Ring_Buffer_Read_Byte rb) = Some 2"
  unfolding comp_assoc
  by (intro conjI)
     (rule nest_calls, (rule block_op_calls [OF assms, unfolded comp_assoc]
        byte_op_calls [OF assms(1-3), unfolded comp_assoc]), simp)+

theorem ring_lock_nesting_witness:
  "map_option (lock_nesting 0 \<circ> new_calls ring4 \<circ> snd) (Ring_Buffer_Write ring4 [1] 1) = Some 1 \<and>
   map_option (lock_nesting 0 \<circ> new_calls ring4 \<circ> snd) (Ring_Buffer_Write_Byte ring4 1) = Some 2"
  using ring_lock_nesting [OF ring4_inv(1,4,5), of 1 "[1]"] by simp

end
