(* ===== verification/Stream_Digest.thy ===== *)
theory Stream_Digest
  imports SDK_Prelude
begin

text \<open>
  The contract of the incremental digests (checksums and hashes): a context that absorbs
  blocks of bytes, each shorter than \<open>chunk\<close> and less than \<open>limit\<close> in total.  What a user of such an interface relies on is that the digest depends on
  the bytes only, not on how they were cut into blocks.
\<close>

fun absorb_all :: "('s \<Rightarrow> bytes \<Rightarrow> 's option) \<Rightarrow> 's \<Rightarrow> bytes list \<Rightarrow> 's option" where
  "absorb_all absorb s [] = Some s"
| "absorb_all absorb s (b # bs) = do { s \<leftarrow> absorb s b; absorb_all absorb s bs }"

text \<open>
  \<open>digest s xs\<close> is the abstract value of a context: \<open>xs\<close> are the bytes absorbed so far.
\<close>

lemma length_le_concat: "b \<in> set bs \<Longrightarrow> length b \<le> length (concat bs)"
  by (induction bs) auto

locale stream_digest =
  fixes absorbed :: "'s \<Rightarrow> bytes \<Rightarrow> bool" and absorb :: "'s \<Rightarrow> bytes \<Rightarrow> 's option"
    and finish :: "'s \<Rightarrow> 'd" and digest :: "bytes \<Rightarrow> 'd" and chunk limit :: nat
  assumes absorb: "absorbed s xs \<Longrightarrow> length b < chunk \<Longrightarrow> length xs + length b < limit \<Longrightarrow>
      \<exists>s'. absorb s b = Some s' \<and> absorbed s' (xs @ b)"
    and finish: "absorbed s xs \<Longrightarrow> length xs < limit \<Longrightarrow> finish s = digest xs"
begin

lemma absorb_all:
  assumes "absorbed s xs" and "\<forall>b \<in> set bs. length b < chunk" and "length xs + length (concat bs) < limit"
  shows "\<exists>s'. absorb_all absorb s bs = Some s' \<and> absorbed s' (xs @ concat bs)"
  using assms
proof (induction bs arbitrary: s xs)
  case Nil
  then show ?case by simp
next
  case (Cons b bs)
  then obtain s1 where s1: "absorb s b = Some s1" "absorbed s1 (xs @ b)"
    using absorb [of s xs b] by auto
  with Cons.IH [OF s1(2)] Cons.prems show ?case by simp
qed

lemma chunks_irrelevant:
  assumes "absorbed s []" and "\<forall>b \<in> set bs. length b < chunk" and "length (concat bs) < limit"
  shows "map_option finish (absorb_all absorb s bs) = Some (digest (concat bs))"
proof -
  obtain s' where "absorb_all absorb s bs = Some s'" "absorbed s' (concat bs)"
    using absorb_all [OF assms(1,2)] assms(3) by auto
  then show ?thesis using finish assms(3) by simp
qed

end

end
