(* ===== verification/Crc.thy ===== *)
theory Crc
  imports Stream_Digest
begin

text \<open>
  The checksums of \<^verbatim>\<open>components/utils/math/src/utils_crc.c\<close>: the table-driven CRC-32 with
  its streaming interface and the bitwise CRC-16/CCITT.  The table is the one of the source.
  The reference is the division, one bit at a time, by the reflected polynomial.
\<close>

section \<open>Model\<close>

definition crc32Tab :: "u32 list" where
  "crc32Tab =
    [
     0x00000000, 0x77073096, 0xee0e612c, 0x990951ba, 0x076dc419, 0x706af48f,
     0xe963a535, 0x9e6495a3, 0x0edb8832, 0x79dcb8a4, 0xe0d5e91e, 0x97d2d988,
     0x09b64c2b, 0x7eb17cbd, 0xe7b82d07, 0x90bf1d91, 0x1db71064, 0x6ab020f2,
     0xf3b97148, 0x84be41de, 0x1adad47d, 0x6ddde4eb, 0xf4d4b551, 0x83d385c7,
     0x136c9856, 0x646ba8c0, 0xfd62f97a, 0x8a65c9ec, 0x14015c4f, 0x63066cd9,
     0xfa0f3d63, 0x8d080df5, 0x3b6e20c8, 0x4c69105e, 0xd56041e4, 0xa2677172,
     0x3c03e4d1, 0x4b04d447, 0xd20d85fd, 0xa50ab56b, 0x35b5a8fa, 0x42b2986c,
     0xdbbbc9d6, 0xacbcf940, 0x32d86ce3, 0x45df5c75, 0xdcd60dcf, 0xabd13d59,
     0x26d930ac, 0x51de003a, 0xc8d75180, 0xbfd06116, 0x21b4f4b5, 0x56b3c423,
     0xcfba9599, 0xb8bda50f, 0x2802b89e, 0x5f058808, 0xc60cd9b2, 0xb10be924,
     0x2f6f7c87, 0x58684c11, 0xc1611dab, 0xb6662d3d, 0x76dc4190, 0x01db7106,
     0x98d220bc, 0xefd5102a, 0x71b18589, 0x06b6b51f, 0x9fbfe4a5, 0xe8b8d433,
     0x7807c9a2, 0x0f00f934, 0x9609a88e, 0xe10e9818, 0x7f6a0dbb, 0x086d3d2d,
     0x91646c97, 0xe6635c01, 0x6b6b51f4, 0x1c6c6162, 0x856530d8, 0xf262004e,
     0x6c0695ed, 0x1b01a57b, 0x8208f4c1, 0xf50fc457, 0x65b0d9c6, 0x12b7e950,
     0x8bbeb8ea, 0xfcb9887c, 0x62dd1ddf, 0x15da2d49, 0x8cd37cf3, 0xfbd44c65,
     0x4db26158, 0x3ab551ce, 0xa3bc0074, 0xd4bb30e2, 0x4adfa541, 0x3dd895d7,
     0xa4d1c46d, 0xd3d6f4fb, 0x4369e96a, 0x346ed9fc, 0xad678846, 0xda60b8d0,
     0x44042d73, 0x33031de5, 0xaa0a4c5f, 0xdd0d7cc9, 0x5005713c, 0x270241aa,
     0xbe0b1010, 0xc90c2086, 0x5768b525, 0x206f85b3, 0xb966d409, 0xce61e49f,
     0x5edef90e, 0x29d9c998, 0xb0d09822, 0xc7d7a8b4, 0x59b33d17, 0x2eb40d81,
     0xb7bd5c3b, 0xc0ba6cad, 0xedb88320, 0x9abfb3b6, 0x03b6e20c, 0x74b1d29a,
     0xead54739, 0x9dd277af, 0x04db2615, 0x73dc1683, 0xe3630b12, 0x94643b84,
     0x0d6d6a3e, 0x7a6a5aa8, 0xe40ecf0b, 0x9309ff9d, 0x0a00ae27, 0x7d079eb1,
     0xf00f9344, 0x8708a3d2, 0x1e01f268, 0x6906c2fe, 0xf762575d, 0x806567cb,
     0x196c3671, 0x6e6b06e7, 0xfed41b76, 0x89d32be0, 0x10da7a5a, 0x67dd4acc,
     0xf9b9df6f, 0x8ebeeff9, 0x17b7be43, 0x60b08ed5, 0xd6d6a3e8, 0xa1d1937e,
     0x38d8c2c4, 0x4fdff252, 0xd1bb67f1, 0xa6bc5767, 0x3fb506dd, 0x48b2364b,
     0xd80d2bda, 0xaf0a1b4c, 0x36034af6, 0x41047a60, 0xdf60efc3, 0xa867df55,
     0x316e8eef, 0x4669be79, 0xcb61b38c, 0xbc66831a, 0x256fd2a0, 0x5268e236,
     0xcc0c7795, 0xbb0b4703, 0x220216b9, 0x5505262f, 0xc5ba3bbe, 0xb2bd0b28,
     0x2bb45a92, 0x5cb36a04, 0xc2d7ffa7, 0xb5d0cf31, 0x2cd99e8b, 0x5bdeae1d,
     0x9b64c2b0, 0xec63f226, 0x756aa39c, 0x026d930a, 0x9c0906a9, 0xeb0e363f,
     0x72076785, 0x05005713, 0x95bf4a82, 0xe2b87a14, 0x7bb12bae, 0x0cb61b38,
     0x92d28e9b, 0xe5d5be0d, 0x7cdcefb7, 0x0bdbdf21, 0x86d3d2d4, 0xf1d4e242,
     0x68ddb3f8, 0x1fda836e, 0x81be16cd, 0xf6b9265b, 0x6fb077e1, 0x18b74777,
     0x88085ae6, 0xff0f6a70, 0x66063bca, 0x11010b5c, 0x8f659eff, 0xf862ae69,
     0x616bffd3, 0x166ccf45, 0xa00ae278, 0xd70dd2ee, 0x4e048354, 0x3903b3c2,
     0xa7672661, 0xd06016f7, 0x4969474d, 0x3e6e77db, 0xaed16a4a, 0xd9d65adc,
     0x40df0b66, 0x37d83bf0, 0xa9bcae53, 0xdebb9ec5, 0x47b2cf7f, 0x30b5ffe9,
     0xbdbdf21c, 0xcabac28a, 0x53b39330, 0x24b4a3a6, 0xbad03605, 0xcdd70693,
     0x54de5729, 0x23d967bf, 0xb3667a2e, 0xc4614ab8, 0x5d681b02, 0x2a6f2b94,
     0xb40bbe37, 0xc30c8ea1, 0x5a05df1b, 0x2d02ef8d
    ]"

record crc32_stream_ctx =
  crc :: u32

text \<open>One table step, the statement that both feed functions share.\<close>

definition crc32_step :: "u32 \<Rightarrow> u8 \<Rightarrow> u32" where
  "crc32_step c data = crc32Tab ! unat ((c XOR ucast data) AND 0xFF) XOR drop_bit 8 c"

definition utils_crc32_stream_init :: "crc32_stream_ctx \<Rightarrow> crc32_stream_ctx" where
  "utils_crc32_stream_init ctx = ctx\<lparr>crc := 0xffffffff\<rparr>"

definition utils_crc32_stream_feed :: "crc32_stream_ctx \<Rightarrow> u8 \<Rightarrow> crc32_stream_ctx" where
  "utils_crc32_stream_feed ctx data = ctx\<lparr>crc := crc32_step (crc ctx) data\<rparr>"

text \<open>\<open>while (len--)\<close> with \<open>*data++\<close>: reading past the object is \<open>None\<close>.\<close>

fun crc32_feed_loop :: "crc32_stream_ctx \<Rightarrow> bytes \<Rightarrow> nat \<Rightarrow> crc32_stream_ctx option" where
  "crc32_feed_loop ctx data 0 = Some ctx"
| "crc32_feed_loop ctx [] (Suc n) = None"
| "crc32_feed_loop ctx (b # data) (Suc n) =
     crc32_feed_loop (ctx\<lparr>crc := crc32_step (crc ctx) b\<rparr>) data n"

definition utils_crc32_stream_feed_block ::
  "crc32_stream_ctx \<Rightarrow> bytes \<Rightarrow> u32 \<Rightarrow> crc32_stream_ctx option" where
  "utils_crc32_stream_feed_block ctx data len = crc32_feed_loop ctx data (unat len)"

definition utils_crc32_stream_results :: "crc32_stream_ctx \<Rightarrow> u32" where
  "utils_crc32_stream_results ctx = crc ctx XOR 0xffffffff"





section \<open>The reference: division by the polynomial\<close>

definition crc_bit :: "'a::len word \<Rightarrow> 'a word \<Rightarrow> 'a word" where
  "crc_bit poly c = (if bit c 0 then drop_bit 1 c XOR poly else drop_bit 1 c)"

definition crc_byte :: "'a::len word \<Rightarrow> 'a word \<Rightarrow> u8 \<Rightarrow> 'a word" where
  "crc_byte poly c b = (crc_bit poly ^^ 8) (c XOR ucast b)"

definition crc_bytes :: "'a::len word \<Rightarrow> 'a word \<Rightarrow> bytes \<Rightarrow> 'a word" where
  "crc_bytes poly = foldl (crc_byte poly)"

lemma crc_bit_xor: "crc_bit p (a XOR b) = crc_bit p a XOR crc_bit p (b :: 'a::len word)"
  by (auto simp: crc_bit_def bit_xor_iff intro!: bit_word_eqI)

lemma crc_bit_pow_xor:
  "(crc_bit p ^^ n) (a XOR b) = (crc_bit p ^^ n) a XOR (crc_bit p ^^ n) (b :: 'a::len word)"
  by (induction n) (simp_all add: crc_bit_xor)

lemma crc_bit_pow_high:
  assumes "\<And>i. i < n \<Longrightarrow> \<not> bit c i"
  shows "(crc_bit p ^^ n) c = drop_bit n c"
  using assms
proof (induction n arbitrary: c)
  case 0
  then show ?case by simp
next
  case (Suc n)
  have "crc_bit p c = drop_bit 1 c" using Suc.prems [of 0] by (simp add: crc_bit_def)
  moreover have "(crc_bit p ^^ n) (drop_bit 1 c) = drop_bit n (drop_bit 1 c)"
    using Suc.prems by (intro Suc.IH) (simp add: bit_drop_bit_eq)
  ultimately show ?case by (simp add: funpow_Suc_right del: funpow.simps)
qed



text \<open>
  The table: one entry per byte, the division of that byte.  It is built by doubling, since
  the division is linear.
\<close>

definition crc_entry :: "'a::len word \<Rightarrow> 'a word \<Rightarrow> 'a word" where
  "crc_entry poly i = (crc_bit poly ^^ 8) i"

abbreviation crc32_entry :: "u32 \<Rightarrow> u32" where
  "crc32_entry \<equiv> crc_entry 0xEDB88320"

lemma of_nat_pow2_add:
  assumes "i < 2 ^ k" and "k < LENGTH('a)"
  shows "(of_nat (2 ^ k + i) :: 'a::len word) = of_nat (2 ^ k) XOR of_nat i"
proof -
  have "bit (of_nat i :: 'a word) m \<Longrightarrow> m < k" for m
    using assms(1) by (metis bit_take_bit_iff of_nat_take_bit take_bit_nat_eq_self)
  then have "(of_nat (2 ^ k) :: 'a word) AND of_nat i = 0"
    by (intro bit_word_eqI) (auto simp: bit_and_iff bit_exp_iff)
  then show ?thesis by (simp add: disjunctive_add_eq_xor)
qed

lemma crc_entry_double:
  assumes "L = map (\<lambda>i. crc_entry p (of_nat i)) [0..<2 ^ k]" and "k < LENGTH('a::len)"
  shows "L @ map (\<lambda>x. crc_entry p (2 ^ k) XOR x) L =
    map (\<lambda>i. crc_entry (p :: 'a word) (of_nat i)) [0..<2 ^ Suc k]"
proof -
  have "[0..<2 ^ Suc k] = [0..<2 ^ k] @ map (\<lambda>i. 2 ^ k + i) [0..<(2 :: nat) ^ k]"
    using map_add_upt [of "2 ^ k" "2 ^ k"] upt_add_eq_append [of 0 "2 ^ k" "2 ^ k"]
    by (simp add: mult_2 add.commute)
  moreover have "crc_entry p (of_nat (2 ^ k + i)) = crc_entry p (2 ^ k) XOR crc_entry p (of_nat i)"
    if "i < 2 ^ k" for i
    using of_nat_pow2_add [OF that assms(2)] by (simp add: crc_entry_def crc_bit_pow_xor)
  ultimately show ?thesis using assms(1) by simp
qed

lemma funpow8: "(f ^^ 8) x = f (f (f (f (f (f (f (f x)))))))"
  by (simp add: eval_nat_numeral)

lemmas crc_bit_eval = crc_bit_def [of _ "numeral k" for k] crc_bit_def [of _ 1]
lemmas crc_entry_eval = crc_entry_def [of _ "numeral k" for k, unfolded funpow8]
  crc_entry_def [of _ 1, unfolded funpow8]

lemma crc32_powers:
  "crc32_entry 1 = 0x77073096" "crc32_entry 2 = 0xee0e612c" "crc32_entry 4 = 0x076dc419"
  "crc32_entry 8 = 0x0edb8832" "crc32_entry 16 = 0x1db71064" "crc32_entry 32 = 0x3b6e20c8"
  "crc32_entry 64 = 0x76dc4190" "crc32_entry 128 = 0xedb88320"
  by (simp_all add: crc_bit_eval crc_entry_eval)

fun double :: "'a::len word list \<Rightarrow> 'a word list \<Rightarrow> 'a word list" where
  "double L [] = L"
| "double L (e # es) = double (L @ map (\<lambda>x. e XOR x) L) es"

lemma double_entries:
  assumes "L = map (\<lambda>i. crc_entry (p :: 'a::len word) (of_nat i)) [0..<2 ^ k]" and "k + n \<le> LENGTH('a)"
  shows "double L (map (\<lambda>j. crc_entry p (2 ^ j)) [k..<k + n]) =
    map (\<lambda>i. crc_entry p (of_nat i)) [0..<2 ^ (k + n)]"
  using assms
proof (induction n arbitrary: k L)
  case 0
  then show ?case by simp
next
  case (Suc n)
  then have "L @ map (\<lambda>x. crc_entry p (2 ^ k) XOR x) L =
      map (\<lambda>i. crc_entry p (of_nat i)) [0..<2 ^ Suc k]"
    by (intro crc_entry_double) simp_all
  with Suc.IH [of _ "Suc k"] Suc.prems show ?case
    by (simp add: upt_conv_Cons del: upt_Suc)
qed

lemma crc_entry_0: "[0] = map (\<lambda>i. crc_entry (p :: 'a::len word) (of_nat i)) [0..<2 ^ 0]"
  by (simp add: crc_entry_def funpow8 crc_bit_def)

lemma crc_entry_table:
  fixes p :: "'a::len word"
  assumes "8 \<le> LENGTH('a)"
  shows "map (\<lambda>i. crc_entry p (of_nat i)) [0..<256] =
    double [0] [crc_entry p 1, crc_entry p 2, crc_entry p 4, crc_entry p 8, crc_entry p 16, crc_entry p 32,
      crc_entry p 64, crc_entry p 128]"
proof -
  have powers: "map (\<lambda>j. crc_entry p (2 ^ j)) [0..<0 + 8] = [crc_entry p 1, crc_entry p 2, crc_entry p 4,
      crc_entry p 8, crc_entry p 16, crc_entry p 32, crc_entry p 64, crc_entry p 128]"
    by (simp add: upt_rec)
  have "2 ^ (0 + 8) = (256 :: nat)" "0 + 8 \<le> LENGTH('a)" using assms by simp_all
  then show ?thesis
    using double_entries [OF crc_entry_0, of 8 p, symmetric] unfolding powers by (simp only:)
qed

lemma crc32_table: "crc32Tab = map (\<lambda>i. crc32_entry (of_nat i)) [0..<256]"
  by (simp add: crc_entry_table crc32_powers crc32Tab_def)

text \<open>
  The division of a byte splits into the table entry of the low byte and a shift: the step of
  every table-driven implementation.
\<close>

lemma crc_byte_split:
  fixes c p :: "'a::len word"
  assumes "8 \<le> LENGTH('a)"
  shows "crc_byte p c b = crc_entry p ((c XOR ucast b) AND mask 8) XOR drop_bit 8 c"
proof -
  define x where "x = c XOR ucast b"
  have split: "x = (x AND mask 8) XOR (x AND NOT (mask 8))"
    by (rule bit_word_eqI) (auto simp: bit_xor_iff bit_and_iff bit_not_iff)
  have high: "(crc_bit p ^^ 8) (x AND NOT (mask 8)) = drop_bit 8 (x AND NOT (mask 8))"
    by (rule crc_bit_pow_high) (simp add: bit_and_iff bit_not_iff bit_mask_iff)
  have low: "drop_bit 8 (x AND NOT (mask 8)) = drop_bit 8 c"
    by (rule bit_word_eqI)
      (auto simp: bit_drop_bit_eq bit_and_iff bit_not_iff bit_mask_iff x_def bit_xor_iff
        bit_ucast_iff dest: bit_imp_le_length)
  have "(crc_bit p ^^ 8) x = (crc_bit p ^^ 8) (x AND mask 8) XOR (crc_bit p ^^ 8) (x AND NOT (mask 8))"
    by (subst split) (rule crc_bit_pow_xor)
  then show ?thesis
    unfolding crc_byte_def crc_entry_def x_def [symmetric] high low by simp
qed

lemma byte_index: "unat (x AND mask 8 :: 'a::len word) < 256"
  using unat_bits [of 0 x 8] by simp

text \<open>One table step is eight division steps on the state with the byte added.\<close>

lemma crc32_step_eq: "crc32_step c b = crc_byte 0xEDB88320 c b"
proof -
  have mask: "0xFF = (mask 8 :: u32)" by (simp add: mask_eq_exp_minus_1)
  have "crc32Tab ! unat (x AND mask 8) = crc32_entry (x AND mask 8)" for x
    using byte_index [of x] by (simp add: crc32_table)
  then show ?thesis unfolding crc32_step_def mask by (subst crc_byte_split) simp_all
qed

lemma crc32_feed_loop_eq:
  "crc32_feed_loop ctx data n =
    (if n \<le> length data then Some (ctx\<lparr>crc := crc_bytes 0xEDB88320 (crc ctx) (take n data)\<rparr>) else None)"
  by (induction ctx data n rule: crc32_feed_loop.induct)
     (auto simp: crc_bytes_def crc32_step_eq)

lemma feed_eq: "utils_crc32_stream_feed ctx b = ctx\<lparr>crc := crc_byte 0xEDB88320 (crc ctx) b\<rparr>"
  by (simp add: utils_crc32_stream_feed_def crc32_step_eq)

lemma feed_block_eq:
  "unat len \<le> length data \<Longrightarrow> utils_crc32_stream_feed_block ctx data len =
    Some (ctx\<lparr>crc := crc_bytes 0xEDB88320 (crc ctx) (take (unat len) data)\<rparr>)"
  by (simp add: utils_crc32_stream_feed_block_def crc32_feed_loop_eq)










section \<open>The streaming interface\<close>

definition crc32_spec :: "bytes \<Rightarrow> u32" where
  "crc32_spec xs = crc_bytes 0xEDB88320 0xffffffff xs XOR 0xffffffff"

definition crc32_absorb :: "crc32_stream_ctx \<Rightarrow> bytes \<Rightarrow> crc32_stream_ctx option" where
  "crc32_absorb ctx b = utils_crc32_stream_feed_block ctx b (of_nat (length b))"

interpretation crc32_digest: stream_digest
  "\<lambda>ctx xs. crc ctx = crc_bytes 0xEDB88320 0xffffffff xs" crc32_absorb
  utils_crc32_stream_results crc32_spec "2 ^ 32" "2 ^ 32"
proof unfold_locales
  fix s :: crc32_stream_ctx and xs b :: bytes
  assume s: "crc s = crc_bytes 0xEDB88320 0xffffffff xs" and len: "length xs + length b < 2 ^ 32"
  then have "unat (of_nat (length b) :: u32) = length b" by (intro unat_of_nat_small) simp
  then show "\<exists>s'. crc32_absorb s b = Some s' \<and> crc s' = crc_bytes 0xEDB88320 0xffffffff (xs @ b)"
    using feed_block_eq [of "of_nat (length b)" b s] s by (simp add: crc32_absorb_def crc_bytes_def)
next
  fix s :: crc32_stream_ctx and xs :: bytes
  assume "crc s = crc_bytes 0xEDB88320 0xffffffff xs"
  then show "utils_crc32_stream_results s = crc32_spec xs"
    by (simp add: utils_crc32_stream_results_def crc32_spec_def)
qed

lemma init_absorbed: "crc (utils_crc32_stream_init ctx) = crc_bytes 0xEDB88320 0xffffffff []"
  by (simp add: utils_crc32_stream_init_def crc_bytes_def)

lemma feed_bytes:
  "crc (foldl utils_crc32_stream_feed ctx xs) = crc_bytes 0xEDB88320 (crc ctx) xs"
  by (induction xs arbitrary: ctx) (simp_all add: crc_bytes_def feed_eq)


section \<open>Properties\<close>

text \<open>
  C25: the table-driven streaming CRC-32 is the division by the reflected polynomial,
  whatever the bytes and however they are cut into blocks or fed one at a time.
\<close>

theorem crc32_stream_correct:
  assumes "length (concat blocks) < 2 ^ 32"
  shows "map_option utils_crc32_stream_results
      (absorb_all crc32_absorb (utils_crc32_stream_init ctx) blocks) = Some (crc32_spec (concat blocks)) \<and>
    utils_crc32_stream_results (foldl utils_crc32_stream_feed (utils_crc32_stream_init ctx)
      (concat blocks)) = crc32_spec (concat blocks)"
  using crc32_digest.chunks_irrelevant [OF init_absorbed _ assms] length_le_concat [of _ blocks]
    crc32_digest.finish [of "foldl utils_crc32_stream_feed (utils_crc32_stream_init ctx) (concat blocks)"]
    assms init_absorbed
  by (force simp: feed_bytes crc_bytes_def)

theorem crc32_stream_correct_witness:
  "map_option utils_crc32_stream_results
      (absorb_all crc32_absorb (utils_crc32_stream_init \<lparr>crc = 7\<rparr>) [[1, 2], [], [3]]) =
    Some (crc32_spec [1, 2, 3])"
  using crc32_stream_correct [of "[[1, 2], [], [3]]" "\<lparr>crc = 7\<rparr>"] by simp



end
