(* ===== verification/Hex.thy ===== *)
theory Hex
  imports SDK_Prelude
begin

text \<open>
  Hexadecimal text of \<^verbatim>\<open>components/utils/math/src/utils_hex.c\<close>.  Characters are bytes.
  A \<open>char *\<close> into a buffer is the buffer with an offset.
\<close>

section \<open>Model\<close>

definition hex_asc_upper :: bytes where
  "hex_asc_upper = [0x30, 0x31, 0x32, 0x33, 0x34, 0x35, 0x36, 0x37, 0x38, 0x39,
     0x41, 0x42, 0x43, 0x44, 0x45, 0x46]"

definition hex_asc_lo :: "u8 \<Rightarrow> u8" where
  "hex_asc_lo x = hex_asc_upper ! unat (x AND 0x0f)"

definition hex_asc_hi :: "u8 \<Rightarrow> u8" where
  "hex_asc_hi x = hex_asc_upper ! unat (drop_bit 4 (x AND 0xf0))"

definition hex_byte_pack :: "bytes \<Rightarrow> nat \<Rightarrow> u8 \<Rightarrow> (bytes \<times> nat) option" where
  "hex_byte_pack buf i b = do {
     buf \<leftarrow> mem_set buf i (hex_asc_hi b);
     buf \<leftarrow> mem_set buf (Suc i) (hex_asc_lo b);
     Some (buf, i + 2)
   }"

text \<open>\<open>char2hex\<close>: \<open>None\<close> is the return value \<open>-1\<close>, \<open>Some\<close> the nibble stored.\<close>

definition char2hex :: "u8 \<Rightarrow> u8 option" where
  "char2hex c =
     (if 0x30 \<le> c \<and> c \<le> 0x39 then Some (c - 0x30)
      else if 0x61 \<le> c \<and> c \<le> 0x66 then Some (c - 0x61 + 10)
      else if 0x41 \<le> c \<and> c \<le> 0x46 then Some (c - 0x41 + 10)
      else None)"

fun utils_bin2hex :: "bytes \<Rightarrow> nat \<Rightarrow> bytes \<Rightarrow> nat \<Rightarrow> (bytes \<times> nat) option" where
  "utils_bin2hex dst i src 0 = Some (dst, i)"
| "utils_bin2hex dst i [] (Suc count) = None"
| "utils_bin2hex dst i (b # src) (Suc count) = do {
     (dst, i) \<leftarrow> hex_byte_pack dst i b;
     utils_bin2hex dst i src count
   }"

text \<open>
  The regular conversion loop of \<open>utils_hex2bin\<close>: from iteration \<open>i\<close>, with \<open>h\<close> and \<open>o\<close> the
  offsets that \<open>hex++\<close> and \<open>buf++\<close> added.  The result is the return value (0 on a bad
  character) with the buffer as it is then.
\<close>

function hex2bin_loop ::
  "bytes \<Rightarrow> nat \<Rightarrow> nat \<Rightarrow> bytes \<Rightarrow> nat \<Rightarrow> nat \<Rightarrow> (nat \<times> bytes) option" where
  "hex2bin_loop hex h hexlen buf b i =
     (if i < hexlen div 2 then do {
        c \<leftarrow> mem_get hex (h + 2 * i);
        case char2hex c of None \<Rightarrow> Some (0, buf)
        | Some dec \<Rightarrow> do {
            buf \<leftarrow> mem_set buf (b + i) (push_bit 4 dec);
            c \<leftarrow> mem_get hex (h + 2 * i + 1);
            case char2hex c of None \<Rightarrow> Some (0, buf)
            | Some dec \<Rightarrow> do {
                x \<leftarrow> mem_get buf (b + i);
                buf \<leftarrow> mem_set buf (b + i) (x + dec);
                hex2bin_loop hex h hexlen buf b (Suc i)
              }
          }
      } else Some (hexlen div 2 + hexlen mod 2, buf))"
  by pat_completeness auto
termination
  by (relation "measure (\<lambda>(hex, h, hexlen, buf, b, i). hexlen div 2 - i)") auto

declare hex2bin_loop.simps [simp del]

definition utils_hex2bin :: "bytes \<Rightarrow> nat \<Rightarrow> bytes \<Rightarrow> nat \<Rightarrow> (nat \<times> bytes) option" where
  "utils_hex2bin hex hexlen buf buflen =
     (if buflen < hexlen div 2 + hexlen mod 2 then Some (0, buf)
      else if hexlen mod 2 \<noteq> 0 then do {
        c \<leftarrow> mem_get hex 0;
        case char2hex c of None \<Rightarrow> Some (0, buf)
        | Some dec \<Rightarrow> do {
            buf \<leftarrow> mem_set buf 0 dec;
            hex2bin_loop hex 1 hexlen buf 1 0
          }
      } else hex2bin_loop hex 0 hexlen buf 0 0)"

section \<open>Reference\<close>

definition hex_pair :: "u8 \<Rightarrow> bytes" where
  "hex_pair b = [hex_asc_hi b, hex_asc_lo b]"

fun hex_decode :: "bytes \<Rightarrow> bytes option" where
  "hex_decode [] = Some []"
| "hex_decode [c] = None"
| "hex_decode (c # d # xs) = do {
     x \<leftarrow> char2hex c;
     y \<leftarrow> char2hex d;
     ys \<leftarrow> hex_decode xs;
     Some ((push_bit 4 x + y) # ys)
   }"

lemma hex_digit: "char2hex (hex_asc_upper ! k) = Some (of_nat k)" if "k < 16"
proof -
  have "list_all (\<lambda>k. char2hex (hex_asc_upper ! k) = Some (of_nat k)) [0..<16]"
    by (simp add: char2hex_def hex_asc_upper_def upt_rec)
  with that show ?thesis by (simp add: list_all_iff)
qed

lemma nibbles:
  "unat (x AND 0x0f) < 16" "unat (drop_bit 4 (x AND 0xf0)) < 16"
  "push_bit 4 (drop_bit 4 (x AND 0xf0)) + (x AND 0x0f) = (x :: u8)"
proof -
  have m: "0x0f = (mask 4 :: u8)" "0xf0 = (push_bit 4 (mask 4) :: u8)"
    by (simp_all add: mask_eq_exp_minus_1)
  show "unat (x AND 0x0f) < 16"
    using word_and_le1 [of x "0x0f"] by (simp add: word_le_nat_alt)
  have "drop_bit 4 (x AND 0xf0) = drop_bit 4 x"
    unfolding m by (rule bit_word_eqI)
      (auto simp: bit_drop_bit_eq bit_and_iff bit_push_bit_iff bit_mask_iff dest: bit_imp_le_length)
  moreover have "unat (drop_bit 4 x) < 16"
    using unsigned_less [of x, where ?'a = nat] by (simp add: drop_bit_eq_div unat_div_distrib)
  ultimately show "unat (drop_bit 4 (x AND 0xf0)) < 16" by simp
  have "push_bit 4 (drop_bit 4 (x AND 0xf0)) AND (x AND 0x0f) = 0"
    unfolding m by (rule bit_word_eqI)
      (auto simp: bit_drop_bit_eq bit_and_iff bit_push_bit_iff bit_mask_iff)
  moreover have "push_bit 4 (drop_bit 4 (x AND 0xf0)) OR (x AND 0x0f) = x"
    unfolding m by (rule bit_word_eqI)
      (auto simp: bit_drop_bit_eq bit_and_iff bit_or_iff bit_push_bit_iff bit_mask_iff
        dest: bit_imp_le_length)
  ultimately show "push_bit 4 (drop_bit 4 (x AND 0xf0)) + (x AND 0x0f) = x"
    by (simp add: disjunctive_add_eq_or)
qed

lemma hex_decode_pair: "hex_decode (hex_pair b @ xs) = map_option (Cons b) (hex_decode xs)"
  using hex_digit [OF nibbles(1) [of b]] hex_digit [OF nibbles(2) [of b]] nibbles(3) [of b]
  by (cases "hex_decode xs") (simp_all add: hex_pair_def hex_asc_lo_def hex_asc_hi_def)

lemma hex_decode_pairs: "hex_decode (concat (map hex_pair xs)) = Some xs"
  by (induction xs) (simp_all only: list.map concat.simps hex_decode_pair, simp_all)

lemma length_hex_pairs [simp]: "length (concat (map hex_pair xs)) = 2 * length xs"
  by (induction xs) (simp_all add: hex_pair_def)

lemma length_hex_decode: "hex_decode xs = Some ys \<Longrightarrow> length xs = 2 * length ys"
  by (induction xs arbitrary: ys rule: hex_decode.induct) (auto simp: bind_eq_Some_conv)

lemma hex_byte_pack_eq:
  assumes "i + 2 \<le> length buf"
  shows "hex_byte_pack buf i b = Some (take i buf @ hex_pair b @ drop (i + 2) buf, i + 2)"
  using assms by (simp add: hex_byte_pack_def mem_simps hex_pair_def two_updates)

lemma bin2hex_eq:
  assumes "n \<le> length src" and "i + 2 * n \<le> length dst"
  shows "utils_bin2hex dst i src n =
    Some (take i dst @ concat (map hex_pair (take n src)) @ drop (i + 2 * n) dst, i + 2 * n)"
  using assms
proof (induction dst i src n rule: utils_bin2hex.induct)
  case (3 dst i b src n)
  let ?d = "take i dst @ hex_pair b @ drop (i + 2) dst"
  have l: "length (hex_pair b) = 2" by (simp add: hex_pair_def)
  have p: "hex_byte_pack dst i b = Some (?d, i + 2)"
    using "3.prems" by (intro hex_byte_pack_eq) simp
  have "utils_bin2hex ?d (i + 2) src n =
      Some (take (i + 2) ?d @ concat (map hex_pair (take n src)) @ drop (i + 2 + 2 * n) ?d, i + 2 + 2 * n)"
    using "3.prems" l by (intro "3.IH" [OF p refl]) simp_all
  then show ?case using p l "3.prems" by (simp add: algebra_simps)
qed simp_all

text \<open>The loop against the reference, on the rest of the text.\<close>

lemma hex2bin_loop_eq:
  assumes "h + 2 * n \<le> length hex" and "b + n \<le> length buf" and "i \<le> n" and n: "n = hexlen div 2"
  shows "\<exists>buf'. length buf' = length buf \<and>
    hex2bin_loop hex h hexlen buf b i =
      (case hex_decode (take (2 * (n - i)) (drop (h + 2 * i) hex)) of
        None \<Rightarrow> Some (0, buf')
      | Some ys \<Rightarrow> Some (n + hexlen mod 2, take (b + i) buf @ ys @ drop (b + n) buf))"
  using assms(1-3)
proof (induction "n - i" arbitrary: i buf)
  case 0
  then show ?case by (subst hex2bin_loop.simps) (auto simp: n [symmetric])
next
  case (Suc k)
  define c where "c = hex ! (h + 2 * i)"
  define d where "d = hex ! (h + 2 * i + 1)"
  define rest where "rest = take (2 * (n - Suc i)) (drop (h + 2 * Suc i) hex)"
  have i: "i < n" and hl: "h + 2 * i + 1 < length hex" "b + i < length buf"
    using Suc.prems Suc.hyps(2) by auto
  have "drop (h + 2 * i) hex = c # d # drop (h + 2 * Suc i) hex"
    using hl by (simp add: c_def d_def Cons_nth_drop_Suc)
  moreover have "2 * (n - i) = Suc (Suc (2 * (n - Suc i)))" using i by simp
  ultimately have tk: "take (2 * (n - i)) (drop (h + 2 * i) hex) = c # d # rest"
    by (simp add: rest_def)
  have gets: "mem_get hex (h + 2 * i) = Some c" "mem_get hex (h + 2 * i + 1) = Some d"
    and vals: "hex ! (h + 2 * i) = c" "hex ! Suc (h + 2 * i) = d"
    using hl by (simp_all add: mem_simps c_def d_def)
  note unf = hex2bin_loop.simps [of hex h hexlen buf b i, folded n]
  show ?case
  proof (cases "char2hex c")
    case None
    then show ?thesis using i by (auto simp: unf gets tk)
  next
    case x: (Some x)
    show ?thesis
    proof (cases "char2hex d")
      case None
      have "length (buf[b + i := push_bit 4 x]) = length buf" by simp
      then show ?thesis using i x None hl by (simp add: unf vals tk mem_simps)
    next
      case y: (Some y)
      let ?b2 = "buf[b + i := push_bit 4 x + y]"
      have run: "hex2bin_loop hex h hexlen buf b i = hex2bin_loop hex h hexlen ?b2 b (Suc i)"
        using i x y hl by (simp add: unf vals mem_simps)
      have "\<exists>buf'. length buf' = length ?b2 \<and> hex2bin_loop hex h hexlen ?b2 b (Suc i) =
          (case hex_decode rest of None \<Rightarrow> Some (0, buf')
           | Some ys \<Rightarrow> Some (n + hexlen mod 2, take (b + Suc i) ?b2 @ ys @ drop (b + n) ?b2))"
        unfolding rest_def using Suc.prems Suc.hyps(2) i by (intro Suc.hyps(1)) auto
      moreover have "take (b + Suc i) ?b2 = take (b + i) buf @ [push_bit 4 x + y]"
        using hl by (simp add: take_Suc_conv_app_nth)
      moreover have "drop (b + n) ?b2 = drop (b + n) buf" using i by simp
      ultimately show ?thesis
        using run x y tk by (cases "hex_decode rest") auto
    qed
  qed
qed


section \<open>Properties\<close>

definition hex2bin_input :: "bytes \<Rightarrow> bytes" where
  "hex2bin_input hex = (if odd (length hex) then 0x30 # hex else hex)"

lemma hex2bin_eq:
  assumes "(length hex + 1) div 2 \<le> buflen" and "buflen \<le> length buf"
  shows "\<exists>buf'. length buf' = length buf \<and> utils_hex2bin hex (length hex) buf buflen =
    (case hex_decode (hex2bin_input hex) of None \<Rightarrow> Some (0, buf')
     | Some ys \<Rightarrow> Some (length ys, ys @ drop (length ys) buf))"
proof (cases "odd (length hex)")
  case False
  define n where "n = length hex div 2"
  have e: "length hex = 2 * n" "length hex mod 2 = 0" using False by (auto simp: n_def)
  have le: "0 + 2 * n \<le> length hex" "0 + n \<le> length buf" using assms e by simp_all
  have run: "utils_hex2bin hex (length hex) buf buflen = hex2bin_loop hex 0 (length hex) buf 0 0"
    using assms e by (simp add: utils_hex2bin_def)
  obtain buf' where "length buf' = length buf" and
    loop: "hex2bin_loop hex 0 (length hex) buf 0 0 = (case hex_decode hex of None \<Rightarrow> Some (0, buf')
      | Some ys \<Rightarrow> Some (n, ys @ drop n buf))"
    using hex2bin_loop_eq [OF le _ n_def, of 0] e by (cases "hex_decode hex") auto
  moreover have "length ys = n" if "hex_decode hex = Some ys" for ys
    using length_hex_decode [OF that] e by simp
  ultimately show ?thesis
    using run False by (intro exI [of _ buf']) (auto simp: hex2bin_input_def split: option.split)
next
  case True
  then obtain c hs where hex: "hex = c # hs" by (cases hex) auto
  define n where "n = length hs div 2"
  have e: "length hs = 2 * n" "length hex div 2 = n" "length hex mod 2 = 1"
    using True hex by (auto simp: n_def elim: evenE)
  have b0: "0 < length buf" using assms hex by (cases buf) auto
  have inp: "hex_decode (hex2bin_input hex) = do {
      y \<leftarrow> char2hex c; ys \<leftarrow> hex_decode hs; Some (y # ys)}"
    using True hex by (simp add: hex2bin_input_def char2hex_def)
  have g: "mem_get hex 0 = Some c" by (simp add: hex mem_simps)
  have big: "\<not> buflen < length hex div 2 + length hex mod 2" using assms e hex by simp
  show ?thesis
  proof (cases "char2hex c")
    case None
    then show ?thesis using big e(3) g inp by (intro exI [of _ buf]) (simp add: utils_hex2bin_def)
  next
    case x: (Some x)
    let ?b = "buf[0 := x]"
    have run: "utils_hex2bin hex (length hex) buf buflen = hex2bin_loop hex 1 (length hex) ?b 1 0"
      using big e(3) g x b0 by (simp add: utils_hex2bin_def mem_simps)
    have le: "1 + 2 * n \<le> length hex" "1 + n \<le> length ?b" using assms e hex by simp_all
    have hs: "take (2 * n) (drop 1 hex) = hs" and pre: "take 1 ?b = [x]"
      using e hex b0 by (simp, cases buf, auto)
    obtain buf' where l: "length buf' = length buf" and
      loop: "hex2bin_loop hex 1 (length hex) ?b 1 0 = (case hex_decode hs of None \<Rightarrow> Some (0, buf')
        | Some ys \<Rightarrow> Some (n + 1, x # ys @ drop (1 + n) buf))"
      using hex2bin_loop_eq [OF le _ e(2) [symmetric], of 0] e hs pre by (cases "hex_decode hs") auto
    have "length ys = n" if "hex_decode hs = Some ys" for ys
      using length_hex_decode [OF that] e by simp
    then show ?thesis
      using run loop l x inp by (intro exI [of _ buf']) (auto split: option.split)
  qed
qed

text \<open>
  C30: \<open>utils_bin2hex\<close> writes two upper-case digits per byte, moves the destination pointer
  past them, and \<open>utils_hex2bin\<close> reads the same bytes back.
\<close>

theorem hex_roundtrip:
  assumes "2 * length xs \<le> length dst" and "length xs \<le> length buf"
  shows "\<exists>text. utils_bin2hex dst 0 xs (length xs) =
      Some (text @ drop (2 * length xs) dst, 2 * length xs) \<and> length text = 2 * length xs \<and>
    utils_hex2bin text (2 * length xs) buf (length buf) =
      Some (length xs, xs @ drop (length xs) buf)"
proof -
  define t where "t = concat (map hex_pair xs)"
  have len: "length t = 2 * length xs" by (simp add: t_def)
  have "hex_decode (hex2bin_input t) = Some xs"
    using len hex_decode_pairs [of xs] by (simp add: hex2bin_input_def t_def)
  then have "utils_hex2bin t (2 * length xs) buf (length buf) =
      Some (length xs, xs @ drop (length xs) buf)"
    using hex2bin_eq [of t "length buf" buf] len assms(2) by auto
  then show ?thesis using bin2hex_eq [of "length xs" xs 0 dst] assms(1) len by (auto simp: t_def)
qed

theorem hex_roundtrip_witness:
  "\<exists>text. utils_bin2hex [0, 0, 0, 0] 0 [0xAB, 1] (length [0xAB, 1 :: u8]) =
      Some (text @ drop (2 * length [0xAB, 1 :: u8]) [0, 0, 0, 0], 2 * length [0xAB, 1 :: u8]) \<and>
      length text = 2 * length [0xAB, 1 :: u8] \<and>
    utils_hex2bin text (2 * length [0xAB, 1 :: u8]) [0, 0] (length [0, 0 :: u8]) =
      Some (length [0xAB, 1 :: u8], [0xAB, 1] @ drop (length [0xAB, 1 :: u8]) [0, 0])"
  by (rule hex_roundtrip) simp_all

text \<open>
  \<open>utils_hex2bin\<close> never leaves its buffers; it returns 0 when the output is too short or
  a character is not a hexadecimal digit, and otherwise stores the value of the text, which an
  odd length extends by a leading zero digit.
\<close>

theorem hex2bin_result:
  assumes "buflen \<le> length buf"
  shows "\<exists>n buf'. utils_hex2bin hex (length hex) buf buflen = Some (n, buf') \<and>
    length buf' = length buf \<and>
    (if buflen < (length hex + 1) div 2 then n = 0 \<and> buf' = buf
     else case hex_decode (hex2bin_input hex) of
         None \<Rightarrow> n = 0
       | Some ys \<Rightarrow> n = length ys \<and> buf' = ys @ drop (length ys) buf)"
proof (cases "buflen < (length hex + 1) div 2")
  case True
  moreover have "length hex div 2 + length hex mod 2 = (length hex + 1) div 2" by presburger
  ultimately show ?thesis by (simp add: utils_hex2bin_def)
next
  case False
  then obtain buf' where l: "length buf' = length buf" and
    r: "utils_hex2bin hex (length hex) buf buflen =
      (case hex_decode (hex2bin_input hex) of None \<Rightarrow> Some (0, buf')
       | Some ys \<Rightarrow> Some (length ys, ys @ drop (length ys) buf))"
    using hex2bin_eq [of hex buflen buf] assms by auto
  show ?thesis
  proof (cases "hex_decode (hex2bin_input hex)")
    case None
    with False l r show ?thesis by simp
  next
    case (Some ys)
    have "length ys \<le> length buf"
      using length_hex_decode [OF Some] False assms by (auto simp: hex2bin_input_def split: if_splits)
    with Some False r show ?thesis by simp
  qed
qed

theorem hex2bin_result_witness:
  "\<exists>n buf'. utils_hex2bin [0x31, 0x67, 0x32] (length [0x31, 0x67, 0x32 :: u8]) [9, 9] 2 = Some (n, buf') \<and>
    length buf' = length [9, 9 :: u8] \<and> n = 0"
  using hex2bin_result [of 2 "[9, 9]" "[0x31, 0x67, 0x32]"]
  by (auto simp: hex2bin_input_def char2hex_def)

end
