(* ===== verification/Base64.thy ===== *)
theory Base64
  imports SDK_Prelude
begin

text \<open>
  Base64 of \<^verbatim>\<open>components/utils/math/src/utils_base64.c\<close>: the encoder of a block, the encoder
  driven by callbacks and the decoder.  \<open>i\<close>, \<open>j\<close> and \<open>*outputLength\<close> are the 32-bit unsigned
  integers of the code, characters are bytes, and a pointer that may be \<open>NULL\<close> is an option.
  A read or write outside its buffer makes the whole call \<open>None\<close>.
\<close>

section \<open>Model\<close>

datatype iotx_err_t = FAIL_RETURN | SUCCESS_RETURN

definition g_encodingTable :: bytes where
  "g_encodingTable = [
     0x41, 0x42, 0x43, 0x44, 0x45, 0x46, 0x47, 0x48,
     0x49, 0x4A, 0x4B, 0x4C, 0x4D, 0x4E, 0x4F, 0x50,
     0x51, 0x52, 0x53, 0x54, 0x55, 0x56, 0x57, 0x58,
     0x59, 0x5A, 0x61, 0x62, 0x63, 0x64, 0x65, 0x66,
     0x67, 0x68, 0x69, 0x6A, 0x6B, 0x6C, 0x6D, 0x6E,
     0x6F, 0x70, 0x71, 0x72, 0x73, 0x74, 0x75, 0x76,
     0x77, 0x78, 0x79, 0x7A, 0x30, 0x31, 0x32, 0x33,
     0x34, 0x35, 0x36, 0x37, 0x38, 0x39, 0x2B, 0x2F]"

definition g_modTable :: "nat list" where
  "g_modTable = [0, 2, 1]"

text \<open>
  \<open>build_decoding_table\<close> fills the zero-initialised table once; the static flag \<open>signal\<close> only
  saves the repetition.
\<close>

definition build_decoding_table :: "bool \<times> bytes \<Rightarrow> bool \<times> bytes" where
  "build_decoding_table st = (case st of (signal, tab) \<Rightarrow>
     if signal then (signal, tab)
     else (True, fold (\<lambda>i tab. tab[unat (g_encodingTable ! i) := of_nat i]) [0..<64] tab))"

definition b64_octet :: "bytes \<Rightarrow> u32 \<Rightarrow> u32 \<Rightarrow> (u32 \<times> u32) option" where
  "b64_octet xs n i =
     (if i < n then do { x \<leftarrow> mem_get xs (unat i); Some (ucast x, i + 1) } else Some (0, i))"

definition b64_sextet :: "u32 \<Rightarrow> nat \<Rightarrow> u8" where
  "b64_sextet triple sh = g_encodingTable ! unat (drop_bit (sh * 6) triple AND 0x3F)"

definition b64_triple :: "u32 \<Rightarrow> u32 \<Rightarrow> u32 \<Rightarrow> u32" where
  "b64_triple a b c = push_bit 0x10 a + push_bit 0x08 b + c"

lemma b64_octet_mono: "b64_octet xs n i = Some (x, i') \<Longrightarrow> unat i \<le> unat i' \<and> (i < n \<longrightarrow> unat i < unat i')"
proof -
  assume a: "b64_octet xs n i = Some (x, i')"
  have "unat (i + 1) = unat i + 1" if "i < n"
    using that by (simp add: unat_Suc_below)
  then show ?thesis
    using a by (auto simp: b64_octet_def mem_get_def split: if_splits)
qed

function base64encode_loop :: "bytes \<Rightarrow> u32 \<Rightarrow> u32 \<Rightarrow> u32 \<Rightarrow> bytes \<Rightarrow> bytes option" where
  "base64encode_loop xs n i j enc =
     (if i < n then do {
        (octet_a, i1) \<leftarrow> b64_octet xs n i;
        (octet_b, i2) \<leftarrow> b64_octet xs n i1;
        (octet_c, i3) \<leftarrow> b64_octet xs n i2;
        let triple = b64_triple octet_a octet_b octet_c;
        enc \<leftarrow> mem_set enc (unat j) (b64_sextet triple 3);
        enc \<leftarrow> mem_set enc (unat (j + 1)) (b64_sextet triple 2);
        enc \<leftarrow> mem_set enc (unat (j + 2)) (b64_sextet triple 1);
        enc \<leftarrow> mem_set enc (unat (j + 3)) (b64_sextet triple 0);
        base64encode_loop xs n i3 (j + 4) enc
      } else Some enc)"
  by pat_completeness auto
termination
  by (relation "measure (\<lambda>(xs, n, i, j, enc). unat n - unat i)")
    (auto dest!: b64_octet_mono simp: unat_less_iff)

declare base64encode_loop.simps [simp del]

fun base64_pad :: "bytes \<Rightarrow> u32 \<Rightarrow> u32 \<Rightarrow> nat \<Rightarrow> bytes option" where
  "base64_pad enc olen i 0 = Some enc"
| "base64_pad enc olen i (Suc left) = do {
     enc \<leftarrow> mem_set enc (unat (olen - 1 - i)) 0x3D;
     base64_pad enc olen (i + 1) left
   }"

text \<open>The result is the return value, the output buffer and \<open>*outputLength\<close>.\<close>

definition utils_base64encode ::
  "bytes \<Rightarrow> u32 \<Rightarrow> u32 \<Rightarrow> bytes option \<Rightarrow> u32 \<Rightarrow> (iotx_err_t \<times> bytes option \<times> u32) option" where
  "utils_base64encode xs inputLength outputLenMax encodedData outputLength =
     (case encodedData of
        None \<Rightarrow> Some (FAIL_RETURN, None, outputLength)
      | Some enc \<Rightarrow>
          (let olen = 4 * ((inputLength + 2) div 3) in
           if outputLenMax < olen then Some (FAIL_RETURN, Some enc, olen)
           else do {
             enc \<leftarrow> base64encode_loop xs inputLength 0 0 enc;
             enc \<leftarrow> base64_pad enc olen 0 (g_modTable ! unat (inputLength mod 3));
             Some (SUCCESS_RETURN, Some enc, olen)
           }))"

text \<open>
  The callbacks of the streaming encoder are parameters: \<open>rd\<close> is \<open>read_data\<close>, returning its
  result and the byte stored, \<open>wr\<close> is \<open>write_data\<close>, and \<open>'s\<close> is what \<open>opaque\<close> points to.  A
  read that ends the data leaves \<open>remainder\<close>, initially \<open>-1\<close>, at the position of the first
  such read.  The loop runs as long as the third read of a round succeeds.
\<close>

definition stream_octet ::
  "('s \<Rightarrow> int \<times> u8 \<times> 's) \<Rightarrow> int \<Rightarrow> int \<Rightarrow> 's \<Rightarrow> u32 \<times> bool \<times> int \<times> 's" where
  "stream_octet rd pos remainder s = (case rd s of (end_, c, s) \<Rightarrow>
     if end_ \<noteq> 0 then (0, True, if remainder \<ge> 0 then remainder else pos, s)
     else (ucast c, False, remainder, s))"

partial_function (option) base64_encode_stream_loop ::
  "('s \<Rightarrow> int \<times> u8 \<times> 's) \<Rightarrow> (bytes \<Rightarrow> 's \<Rightarrow> 's) \<Rightarrow> int \<Rightarrow> 's \<Rightarrow> 's option" where
  "base64_encode_stream_loop rd wr remainder s0 =
     (let (octet_a, _, r1, s1) = stream_octet rd 0 remainder s0;
          (octet_b, _, r2, s2) = stream_octet rd 1 r1 s1;
          (octet_c, ended, r3, s3) = stream_octet rd 2 r2 s2;
          triple = b64_triple octet_a octet_b octet_c;
          quad = [b64_sextet triple 3, b64_sextet triple 2, b64_sextet triple 1, b64_sextet triple 0]
      in if ended \<and> r3 = 0 then Some s3
         else if \<not> ended then base64_encode_stream_loop rd wr r3 (wr quad s3)
         else Some (wr (fold (\<lambda>i q. q[3 - i := 0x3D]) [0..<g_modTable ! nat r3] quad) s3))"

definition utils_base64_encode_stream ::
  "('s \<Rightarrow> int \<times> u8 \<times> 's) \<Rightarrow> (bytes \<Rightarrow> 's \<Rightarrow> 's) \<Rightarrow> 's \<Rightarrow> 's option" where
  "utils_base64_encode_stream rd wr s = base64_encode_stream_loop rd wr (- 1) s"

text \<open>One sextet of the decoder: \<open>=\<close> counts as zero, anything else is looked up.\<close>

definition b64_lookup :: "bytes \<Rightarrow> bytes \<Rightarrow> u32 \<Rightarrow> u32 option" where
  "b64_lookup tab xs i = do {
     x \<leftarrow> mem_get xs (unat i);
     if x = 0x3D then Some 0 else do { v \<leftarrow> mem_get tab (unat x); Some (ucast v) }
   }"

definition b64_put :: "u32 \<Rightarrow> u8 \<Rightarrow> u32 \<times> bytes \<Rightarrow> (u32 \<times> bytes) option" where
  "b64_put olen x st = (case st of (j, dec) \<Rightarrow>
     if j < olen then do { dec \<leftarrow> mem_set dec (unat j) x; Some (j + 1, dec) } else Some (j, dec))"

text \<open>
  The decoding loop.  \<open>inputLength\<close> is a multiple of 4, so the loop is a count of rounds:
  \<open>i\<close> starts at 0 and every round adds 4 to it.
\<close>

fun base64decode_loop ::
  "bytes \<Rightarrow> bytes \<Rightarrow> u32 \<Rightarrow> nat \<Rightarrow> u32 \<Rightarrow> u32 \<times> bytes \<Rightarrow> (u32 \<times> bytes) option" where
  "base64decode_loop tab xs olen 0 i st = Some st"
| "base64decode_loop tab xs olen (Suc rounds) i st = do {
     sextet_a \<leftarrow> b64_lookup tab xs i;
     sextet_b \<leftarrow> b64_lookup tab xs (i + 1);
     sextet_c \<leftarrow> b64_lookup tab xs (i + 2);
     sextet_d \<leftarrow> b64_lookup tab xs (i + 3);
     let triple = push_bit (3 * 6) sextet_a + push_bit (2 * 6) sextet_b + push_bit 6 sextet_c + sextet_d;
     st \<leftarrow> b64_put olen (ucast (drop_bit (2 * 8) triple AND 0xFF)) st;
     st \<leftarrow> b64_put olen (ucast (drop_bit 8 triple AND 0xFF)) st;
     st \<leftarrow> b64_put olen (ucast (triple AND 0xFF)) st;
     base64decode_loop tab xs olen rounds (i + 4) st
   }"

definition utils_base64decode ::
  "bool \<times> bytes \<Rightarrow> bytes \<Rightarrow> u32 \<Rightarrow> u32 \<Rightarrow> bytes \<Rightarrow> u32 \<Rightarrow>
   (iotx_err_t \<times> (bool \<times> bytes) \<times> bytes \<times> u32) option" where
  "utils_base64decode st xs inputLength outputLenMax dec outputLength =
     (let st = build_decoding_table st in
      if inputLength mod 4 \<noteq> 0 then Some (FAIL_RETURN, st, dec, outputLength)
      else do {
        let olen = inputLength div 4 * 3;
        x \<leftarrow> mem_get xs (unat (inputLength - 1));
        let olen = (if x = 0x3D then olen - 1 else olen);
        x \<leftarrow> mem_get xs (unat (inputLength - 2));
        let olen = (if x = 0x3D then olen - 1 else olen);
        if outputLenMax < olen then Some (FAIL_RETURN, st, dec, olen)
        else do {
          (j, dec) \<leftarrow> base64decode_loop (snd st) xs olen (unat inputLength div 4) 0 (0, dec);
          Some (SUCCESS_RETURN, st, dec, olen)
        }
      })"

section \<open>Reference: RFC 4648\<close>

definition b64_alphabet :: string where
  "b64_alphabet = ''ABCDEFGHIJKLMNOPQRSTUVWXYZabcdefghijklmnopqrstuvwxyz0123456789+/''"

definition b64_char :: "nat \<Rightarrow> u8" where
  "b64_char v = of_nat (of_char (b64_alphabet ! v))"

text \<open>Three bytes are a number of 24 bits, whose four digits to the base 64 are the characters.\<close>

definition b64_num :: "u8 \<Rightarrow> u8 \<Rightarrow> u8 \<Rightarrow> nat" where
  "b64_num a b c = unat a * 2 ^ 16 + unat b * 2 ^ 8 + unat c"

definition b64_digits :: "nat \<Rightarrow> nat \<Rightarrow> bytes" where
  "b64_digits k v = map (\<lambda>i. b64_char (v div 64 ^ (3 - i) mod 64)) [0..<k]"

fun base64 :: "bytes \<Rightarrow> bytes" where
  "base64 [] = []"
| "base64 [a] = b64_digits 2 (b64_num a 0 0) @ [0x3D, 0x3D]"
| "base64 [a, b] = b64_digits 3 (b64_num a b 0) @ [0x3D]"
| "base64 (a # b # c # xs) = b64_digits 4 (b64_num a b c) @ base64 xs"

section \<open>Encoding\<close>

lemma b64_table: "k < 64 \<Longrightarrow> g_encodingTable ! k = b64_char k"
proof -
  have "map b64_char [0..<64] = g_encodingTable"
    by (simp add: b64_char_def b64_alphabet_def g_encodingTable_def upt_rec)
  then show "k < 64 \<Longrightarrow> g_encodingTable ! k = b64_char k"
    by (metis add.left_neutral diff_zero length_upt nth_map nth_upt)
qed

lemma unat_triple: "unat (b64_triple (ucast a) (ucast b) (ucast c)) = b64_num a b c"
proof -
  have b: "unat a < 256" "unat b < 256" "unat c < 256" by (rule unat_u8_less)+
  have p: "unat (push_bit k (ucast x :: u32)) = unat x * 2 ^ k" if "k \<le> 16" "unat x < 256" for k and x :: u8
  proof -
    have "unat x * 2 ^ k < 2 ^ 8 * 2 ^ 16"
      using that power_increasing [of k 16 "2 :: nat"] by (intro mult_less_le_imp_less) simp_all
    then have "take_bit 32 (push_bit k (unat x)) = unat x * 2 ^ k"
      by (simp add: push_bit_eq_mult take_bit_nat_eq_self)
    then show ?thesis by (simp add: unsigned_push_bit_eq)
  qed
  have "unat (push_bit 0x10 (ucast a :: u32) + push_bit 0x08 (ucast b)) = unat a * 2 ^ 16 + unat b * 2 ^ 8"
  proof -
    have "unat a * 65536 + unat b * 256 < 4294967296"
      using b by linarith
    then show ?thesis by (subst unat_plus_small) (simp_all add: p b)
  qed
  moreover have "unat a * 65536 + unat b * 256 + unat c < 4294967296"
    using b by linarith
  ultimately show ?thesis
    unfolding b64_triple_def b64_num_def by (subst unat_plus_small) simp_all
qed

lemma unat_sextet: "unat (drop_bit (s * 6) t AND 0x3F) = unat (t :: u32) div 64 ^ s mod 64"
proof -
  have "(0x3F :: u32) = mask 6" by (simp add: mask_eq_exp_minus_1)
  then have "unat (drop_bit (s * 6) t AND 0x3F) = unat t div 2 ^ (s * 6) mod 2 ^ 6"
    by (simp only: unat_bits)
  also have "(2 :: nat) ^ (s * 6) = 64 ^ s" by (simp add: mult.commute [of s] power_mult)
  finally show ?thesis by simp
qed

lemma b64_sextet_eq: "b64_sextet t s = b64_char (unat t div 64 ^ s mod 64)"
  by (simp add: b64_sextet_def unat_sextet b64_table)

fun b64_raw :: "bytes \<Rightarrow> bytes" where
  "b64_raw [] = []"
| "b64_raw [a] = b64_digits 4 (b64_num a 0 0)"
| "b64_raw [a, b] = b64_digits 4 (b64_num a b 0)"
| "b64_raw (a # b # c # xs) = b64_digits 4 (b64_num a b c) @ b64_raw xs"

lemma length_digits [simp]: "length (b64_digits k v) = k"
  by (simp add: b64_digits_def)

lemma digits_4: "b64_digits 4 v =
    [b64_char (v div 64 ^ 3 mod 64), b64_char (v div 64 ^ 2 mod 64), b64_char (v div 64 mod 64), b64_char (v mod 64)]"
  by (simp add: b64_digits_def upt_rec)

lemma take_digits: "k \<le> n \<Longrightarrow> take k (b64_digits n v) = b64_digits k v"
  by (simp add: b64_digits_def take_map)

lemma third: "(5 + n) div 3 = Suc (Suc (Suc n) div 3)" for n :: nat
  by presburger

lemma length_raw: "length (b64_raw xs) = 4 * ((length xs + 2) div 3)"
  by (induction xs rule: b64_raw.induct) (simp_all add: third)

lemma replicate_2: "replicate 2 x = [x, x]"
  by (simp add: numeral_2_eq_2)

lemma base64_raw:
  "base64 xs = take (length (b64_raw xs) - g_modTable ! (length xs mod 3)) (b64_raw xs) @
     replicate (g_modTable ! (length xs mod 3)) 0x3D"
proof (induction xs rule: b64_raw.induct)
  case (4 a b c xs)
  have m: "length (a # b # c # xs) mod 3 = length xs mod 3" by simp
  define p where "p = g_modTable ! (length xs mod 3)"
  have "p \<le> 2" "xs = [] \<Longrightarrow> p = 0"
    by (auto simp: p_def g_modTable_def nth_Cons split: nat.split)
  moreover have "4 \<le> length (b64_raw xs)" if "xs \<noteq> []"
    using that by (cases xs rule: b64_raw.cases) auto
  ultimately have "p \<le> length (b64_raw xs)" by (cases "xs = []") auto
  then show ?case using "4.IH" unfolding m p_def [symmetric] by simp
next
  case (3 a b)
  then show ?case by (simp add: g_modTable_def take_digits)
qed (simp_all add: g_modTable_def take_digits replicate_2)

lemma length_base64 [simp]: "length (base64 xs) = 4 * ((length xs + 2) div 3)"
  by (induction xs rule: base64.induct) (simp_all add: third)

lemma four_updates:
  assumes "j + 3 < length m"
  shows "m[j := a, Suc j := b, j + 2 := c, j + 3 := d] = take j m @ [a, b, c, d] @ drop (j + 4) m"
proof -
  have "m[j := a, Suc j := b] = take j m @ [a, b] @ drop (j + 2) m"
    using assms by (intro two_updates) simp
  moreover have "drop (j + 2) m = m ! (j + 2) # m ! (j + 3) # drop (j + 4) m"
    using assms by (simp add: Cons_nth_drop_Suc numeral_eq_Suc)
  ultimately show ?thesis
    using assms by (simp add: list_update_append)
qed

lemma octet_at:
  assumes "length xs = N" and "N < 2 ^ 32" and "i \<le> N"
  shows "b64_octet xs (of_nat N) (of_nat i) =
    Some (ucast (if i < N then xs ! i else 0), of_nat (min N (Suc i)))"
proof (cases "i < N")
  case True
  have u: "unat (of_nat i :: u32) = i" "unat (of_nat N :: u32) = N"
    using assms by (simp_all add: unat_of_nat_small)
  then show ?thesis
    using assms True by (simp add: b64_octet_def unat_less_iff mem_simps min_absorb2 add.commute)
next
  case False
  then show ?thesis using assms by (simp add: b64_octet_def)
qed

lemma encode_unfold:
  assumes "i < n" and "b64_octet xs n i = Some (a, i1)" and "b64_octet xs n i1 = Some (b, i2)"
    and "b64_octet xs n i2 = Some (c, i3)"
    and "unat j = k" "unat (j + 1) = Suc k" "unat (j + 2) = k + 2" "unat (j + 3) = k + 3"
    and "k + 4 \<le> length enc"
  shows "base64encode_loop xs n i j enc = base64encode_loop xs n i3 (j + 4)
    (enc[k := b64_sextet (b64_triple a b c) 3, Suc k := b64_sextet (b64_triple a b c) 2,
         k + 2 := b64_sextet (b64_triple a b c) 1, k + 3 := b64_sextet (b64_triple a b c) 0])"
  by (subst base64encode_loop.simps) (use assms(9) in \<open>simp add: assms(1-8) mem_simps Let_def\<close>)

lemma unat_of_nat_add:
  assumes "j + k < 2 ^ LENGTH('a)"
  shows "unat (of_nat j + of_nat k :: 'a::len word) = j + k"
  using unat_of_nat_small [OF assms] by (simp del: unsigned_of_nat)

lemma encode_round:
  assumes "length xs = N" and "N < 2 ^ 32" and "i < N" and "j + 4 \<le> length enc" and "j + 4 < 2 ^ 32"
  shows "base64encode_loop xs (of_nat N) (of_nat i) (of_nat j) enc =
    base64encode_loop xs (of_nat N) (of_nat (min N (i + 3))) (of_nat (j + 4))
      (take j enc @ b64_digits 4 (b64_num (xs ! i) (if i + 1 < N then xs ! (i + 1) else 0)
          (if i + 2 < N then xs ! (i + 2) else 0)) @ drop (j + 4) enc)"
proof -
  define octet where "octet = (\<lambda>k. if k < N then xs ! k else (0 :: u8))"
  have oc: "b64_octet xs (of_nat N) (of_nat (min N k)) = Some (ucast (octet k), of_nat (min N (Suc k)))" for k
    using octet_at [OF assms(1,2), of "min N k"] by (auto simp: octet_def min_def)
  have o: "b64_octet xs (of_nat N) (of_nat i) = Some (ucast (octet i), of_nat (min N (Suc i)))"
    using oc [of i] assms(3) by (simp add: min_absorb2)
  let ?t = "b64_triple (ucast (octet i)) (ucast (octet (Suc i))) (ucast (octet (Suc (Suc i))))"
  let ?s = "b64_sextet ?t"
  have lt: "(of_nat i :: u32) < of_nat N"
    using assms by (simp add: unat_less_iff unat_of_nat_small)
  have js: "unat (of_nat j :: u32) = j" "unat (of_nat j + 1 :: u32) = Suc j"
      "unat (of_nat j + 2 :: u32) = j + 2" "unat (of_nat j + 3 :: u32) = j + 3"
    using assms(5) unat_of_nat_add [of j 0, where ?'a = 32] unat_of_nat_add [of j 1, where ?'a = 32]
      unat_of_nat_add [of j 2, where ?'a = 32] unat_of_nat_add [of j 3, where ?'a = 32]
    by simp_all
  have "base64encode_loop xs (of_nat N) (of_nat i) (of_nat j) enc =
      base64encode_loop xs (of_nat N) (of_nat (min N (Suc (Suc (Suc i))))) (of_nat j + 4)
        (enc[j := ?s 3, Suc j := ?s 2, j + 2 := ?s 1, j + 3 := ?s 0])"
    by (rule encode_unfold [OF lt o oc oc js assms(4)])
  also have "enc[j := ?s 3, Suc j := ?s 2, j + 2 := ?s 1, j + 3 := ?s 0] =
      take j enc @ b64_digits 4 (b64_num (octet i) (octet (Suc i)) (octet (Suc (Suc i)))) @ drop (j + 4) enc"
    using assms(4) by (subst four_updates) (simp_all add: b64_sextet_eq unat_triple digits_4)
  finally show ?thesis using assms(3) by (simp add: octet_def add.commute numeral_3_eq_3)
qed

lemma encode_loop_eq:
  assumes "length xs = N" and "N < 2 ^ 32"
  shows "i \<le> N \<Longrightarrow> drop i xs = ys \<Longrightarrow> j + length (b64_raw ys) \<le> length enc \<Longrightarrow>
    j + length (b64_raw ys) < 2 ^ 32 \<Longrightarrow>
    base64encode_loop xs (of_nat N) (of_nat i) (of_nat j) enc =
      Some (take j enc @ b64_raw ys @ drop (j + length (b64_raw ys)) enc)"
proof (induction ys arbitrary: i j enc rule: b64_raw.induct)
  case 1
  then have "i = N" using assms by simp
  then show ?case by (subst base64encode_loop.simps) simp
next
  case (2 a)
  have "i < length xs" "xs ! i = a" "drop (Suc i) xs = []"
    using drop_eq_Cons [OF "2.prems"(2)] by auto
  then have "i < N" "min N (i + 3) = N" "\<not> i + 1 < N" "\<not> i + 2 < N" "xs ! i = a"
    using assms by auto
  with "2.prems" assms show ?case
    by (subst encode_round) (simp_all, subst base64encode_loop.simps, simp)
next
  case (3 a b)
  have "xs ! i = a" "drop (Suc i) xs = [b]"
    using drop_eq_Cons [OF "3.prems"(2)] by auto
  moreover from this(2) have "Suc i < length xs" "xs ! Suc i = b" "drop (Suc (Suc i)) xs = []"
    using drop_eq_Cons [of "Suc i" xs b] by auto
  ultimately have "i < N" "min N (i + 3) = N" "Suc i < N" "\<not> i + 2 < N" "xs ! i = a" "xs ! Suc i = b"
    using assms by auto
  with "3.prems" assms show ?case
    by (subst encode_round) (simp_all, subst base64encode_loop.simps, simp)
next
  case (4 a b c ys)
  have "xs ! i = a" "drop (Suc i) xs = b # c # ys"
    using drop_eq_Cons [OF "4.prems"(2)] by auto
  moreover from this(2) have "xs ! Suc i = b" "drop (Suc (Suc i)) xs = c # ys"
    using drop_eq_Cons [of "Suc i" xs b] by auto
  moreover from this(2) have "Suc (Suc i) < length xs" "xs ! Suc (Suc i) = c" "drop (i + 3) xs = ys"
    using drop_eq_Cons [of "Suc (Suc i)" xs c] by (auto simp: numeral_3_eq_3)
  ultimately have f: "i < N" "min N (i + 3) = i + 3" "Suc i < N" "Suc (Suc i) < N" "i + 3 \<le> N"
      "xs ! i = a" "xs ! Suc i = b" "xs ! Suc (Suc i) = c" "drop (i + 3) xs = ys"
    using assms by auto
  let ?q = "b64_digits 4 (b64_num a b c)"
  let ?e = "take j enc @ ?q @ drop (j + 4) enc"
  have l: "j + 4 + length (b64_raw ys) \<le> length enc" "j + 4 + length (b64_raw ys) < 2 ^ 32"
    using "4.prems"(3,4) by simp_all
  have "base64encode_loop xs (of_nat N) (of_nat i) (of_nat j) enc =
      base64encode_loop xs (of_nat N) (of_nat (i + 3)) (of_nat (j + 4)) ?e"
    using encode_round [OF assms f(1), of j enc] f l by simp
  also have "\<dots> = Some (take (j + 4) ?e @ b64_raw ys @ drop (j + 4 + length (b64_raw ys)) ?e)"
    using f l by (intro "4.IH") simp_all
  also have "take (j + 4) ?e = take j enc @ ?q" using l by simp
  also have "drop (j + 4 + length (b64_raw ys)) ?e = drop (j + 4 + length (b64_raw ys)) enc"
    using l by (simp add: add.commute)
  finally show ?case by (simp add: add.commute add.left_commute)
qed

lemma base64_pad_eq:
  assumes "p \<le> 2" and "p \<le> L" and "unat olen = L" and "L \<le> length enc"
  shows "base64_pad enc olen 0 p = Some (take (L - p) enc @ replicate p 0x3D @ drop L enc)"
proof -
  have one: "unat (olen - 1) = L - 1" if "1 \<le> L"
    using that assms(3) by (subst unat_sub_le) (simp_all add: unat_le_iff)
  have two: "unat (olen - 1 - 1) = L - 2" if "2 \<le> L"
    using that one by (subst unat_sub_le) (simp_all add: unat_le_iff)
  consider "p = 0" | "p = 1" | "p = 2" using assms(1) by linarith
  then show ?thesis
  proof cases
    case 1
    then show ?thesis using assms by simp
  next
    case 2
    have "enc[L - 1 := 0x3D] = take (L - 1) enc @ 0x3D # drop L enc"
      using assms 2 by (simp add: upd_conv_take_nth_drop)
    then show ?thesis using assms 2 one by (simp add: mem_simps)
  next
    case 3
    have "enc[L - 1 := 0x3D, L - 2 := 0x3D] = enc[L - 2 := 0x3D, Suc (L - 2) := 0x3D]"
      using assms 3 by (simp add: list_update_swap Suc_diff_Suc numeral_2_eq_2)
    also have "\<dots> = take (L - 2) enc @ [0x3D, 0x3D] @ drop L enc"
      using assms 3 by (subst two_updates) (simp_all add: Suc_diff_Suc numeral_2_eq_2)
    finally show ?thesis using assms 3 one two
      by (simp add: mem_simps replicate_2) (simp add: numeral_2_eq_2 mem_simps)
  qed
qed

lemma pad_le: "g_modTable ! (n mod 3) \<le> 2" "g_modTable ! (length xs mod 3) \<le> length (b64_raw xs)"
proof -
  have "n mod 3 < 3" by simp
  then show "g_modTable ! (n mod 3) \<le> 2"
    by (auto simp: g_modTable_def nth_Cons split: nat.split)
  have "length xs mod 3 < 3" by simp
  then have "g_modTable ! (length xs mod 3) \<le> 2"
    by (auto simp: g_modTable_def nth_Cons split: nat.split)
  moreover have "xs = [] \<Longrightarrow> g_modTable ! (length xs mod 3) = 0" by (simp add: g_modTable_def)
  moreover have "4 \<le> length (b64_raw xs)" if "xs \<noteq> []"
    using that by (cases xs rule: b64_raw.cases) auto
  ultimately show "g_modTable ! (length xs mod 3) \<le> length (b64_raw xs)" by (cases "xs = []") auto
qed

lemma base64encode_eq:
  assumes "length xs = N" and "4 * ((N + 2) div 3) < 2 ^ 32"
    and "4 * ((N + 2) div 3) \<le> unat cap" and "unat cap \<le> length enc"
  shows "utils_base64encode xs (of_nat N) cap (Some enc) old =
    Some (SUCCESS_RETURN, Some (base64 xs @ drop (length (base64 xs)) enc), of_nat (length (base64 xs)))"
proof -
  define L where "L = 4 * ((N + 2) div 3)"
  define p where "p = g_modTable ! (N mod 3)"
  have N: "N + 2 < 2 ^ 32" using assms(2) by simp
  have u: "unat (of_nat N :: u32) = N" "unat (of_nat N + 2 :: u32) = N + 2"
    using N unat_of_nat_add [of N 0, where ?'a = 32] unat_of_nat_add [of N 2, where ?'a = 32] by simp_all
  have olen: "4 * ((of_nat N + 2) div 3) = (of_nat L :: u32)"
  proof -
    have "(of_nat N + 2 :: u32) div 3 = of_nat ((N + 2) div 3)"
      using u by (intro word_of_unat) (simp add: unat_div_distrib)
    then show ?thesis by (simp add: L_def)
  qed
  have m: "unat (of_nat N mod 3 :: u32) = N mod 3" using u by (simp add: unat_mod_distrib)
  have uL: "unat (of_nat L :: u32) = L" using assms(2) by (intro unat_of_nat_small) (simp add: L_def)
  have raw: "length (b64_raw xs) = L" by (simp add: length_raw assms(1) L_def)
  let ?e = "b64_raw xs @ drop L enc"
  have "base64encode_loop xs (of_nat N) 0 0 enc = Some ?e"
    using encode_loop_eq [OF assms(1), of 0 xs 0 enc] N assms raw L_def by simp
  moreover have "base64_pad ?e (of_nat L) 0 p = Some (base64 xs @ drop L enc)"
    using base64_pad_eq [of p L "of_nat L" ?e] pad_le(1) [of N] pad_le(2) [of xs] base64_raw [of xs]
      raw uL assms(1) by (simp add: p_def)
  moreover have "\<not> cap < of_nat L" using assms(3) uL by (simp add: unat_less_iff L_def)
  moreover have "length (base64 xs) = L" using assms(1) by (simp add: L_def)
  ultimately show ?thesis
    by (simp add: utils_base64encode_def Let_def olen m p_def del: of_nat_mult)
qed

section \<open>The streaming encoder\<close>

text \<open>
  What the encoder expects of its callbacks.  \<open>inp\<close> is what the reader still has, \<open>out\<close> the
  text written so far, \<open>ok\<close> the invariant of the object behind \<open>opaque\<close>.  The writer has to
  append only what is made of characters of Base64.
\<close>

definition b64_chars :: "u8 set" where
  "b64_chars = insert 0x3D (set g_encodingTable)"

lemma sextet_chars: "b64_sextet t k \<in> b64_chars"
proof -
  have "g_encodingTable ! i \<in> b64_chars" if "i < 64" for i
    using that nth_mem [of i g_encodingTable] by (simp add: b64_chars_def g_encodingTable_def)
  then show ?thesis by (simp add: b64_sextet_def unat_sextet)
qed

locale base64_stream =
  fixes rd :: "'s \<Rightarrow> int \<times> u8 \<times> 's" and wr :: "bytes \<Rightarrow> 's \<Rightarrow> 's"
    and inp :: "'s \<Rightarrow> bytes" and out :: "'s \<Rightarrow> bytes" and ok :: "'s \<Rightarrow> bool"
  assumes rd_next: "ok s \<Longrightarrow> inp s = x # xs \<Longrightarrow>
      \<exists>s'. rd s = (0, x, s') \<and> ok s' \<and> inp s' = xs \<and> out s' = out s"
    and rd_end: "ok s \<Longrightarrow> inp s = [] \<Longrightarrow>
      \<exists>e c s'. rd s = (e, c, s') \<and> e \<noteq> 0 \<and> ok s' \<and> inp s' = [] \<and> out s' = out s"
    and wr_ok: "ok s \<Longrightarrow> length q = 4 \<Longrightarrow> set q \<subseteq> b64_chars \<Longrightarrow>
      ok (wr q s) \<and> inp (wr q s) = inp s \<and> out (wr q s) = out s @ q"
begin

lemma octet_next: "ok s \<Longrightarrow> inp s = x # xs \<Longrightarrow> \<exists>s'. stream_octet rd pos r s = (ucast x, False, r, s') \<and>
    ok s' \<and> inp s' = xs \<and> out s' = out s"
  using rd_next [of s x xs] by (auto simp: stream_octet_def)

lemma octet_end: "ok s \<Longrightarrow> inp s = [] \<Longrightarrow> \<exists>s'. stream_octet rd pos r s =
    (0, True, if r \<ge> 0 then r else pos, s') \<and> ok s' \<and> inp s' = [] \<and> out s' = out s"
  using rd_end [of s] by (auto simp: stream_octet_def)

lemma sextets: "set [b64_sextet t 3, b64_sextet t 2, b64_sextet t 1, b64_sextet t 0] \<subseteq> b64_chars"
  by (simp add: sextet_chars)

lemma stream_loop:
  "ok s \<Longrightarrow> \<exists>s'. base64_encode_stream_loop rd wr (- 1) s = Some s' \<and> ok s' \<and> inp s' = [] \<and>
    out s' = out s @ base64 (inp s)"
proof (induction "inp s" arbitrary: s rule: base64.induct)
  case 1
  note hyp = "1.hyps" [symmetric]
  obtain s1 where s1: "stream_octet rd 0 (- 1) s = (0, True, 0, s1)" "ok s1" "inp s1 = []" "out s1 = out s"
    using octet_end [OF "1.prems" hyp, of 0 "- 1"] by auto
  obtain s2 where s2: "stream_octet rd 1 0 s1 = (0, True, 0, s2)" "ok s2" "inp s2 = []" "out s2 = out s1"
    using octet_end [of s1 1 0] s1 by auto
  obtain s3 where s3: "stream_octet rd 2 0 s2 = (0, True, 0, s3)" "ok s3" "inp s3 = []" "out s3 = out s2"
    using octet_end [of s2 2 0] s2 by auto
  have "base64_encode_stream_loop rd wr (- 1) s = Some s3"
    by (subst base64_encode_stream_loop.simps) (simp add: s1 s2 s3 Let_def)
  then show ?case using s1 s2 s3 hyp by simp
next
  case (2 a)
  note hyp = "2.hyps" [symmetric]
  obtain s1 where s1: "stream_octet rd 0 (- 1) s = (ucast a, False, - 1, s1)" "ok s1" "inp s1 = []" "out s1 = out s"
    using octet_next [OF "2.prems" hyp, of 0 "- 1"] by auto
  obtain s2 where s2: "stream_octet rd 1 (- 1) s1 = (0, True, 1, s2)" "ok s2" "inp s2 = []" "out s2 = out s1"
    using octet_end [of s1 1 "- 1"] s1 by auto
  obtain s3 where s3: "stream_octet rd 2 1 s2 = (0, True, 1, s3)" "ok s3" "inp s3 = []" "out s3 = out s2"
    using octet_end [of s2 2 1] s2 by auto
  let ?t = "b64_triple (ucast a) 0 0"
  let ?q = "[b64_sextet ?t 3, b64_sextet ?t 2, 0x3D, 0x3D]"
  have run: "base64_encode_stream_loop rd wr (- 1) s = Some (wr ?q s3)"
    by (subst base64_encode_stream_loop.simps) (simp add: s1 s2 s3 g_modTable_def upt_rec Let_def)
  have "?q = base64 [a]"
    using unat_triple [of a 0 0] by (simp add: b64_sextet_eq b64_digits_def upt_rec)
  moreover have "set ?q \<subseteq> b64_chars" using sextets [of ?t] by (simp add: b64_chars_def)
  ultimately show ?case using run wr_ok [of s3 ?q] s1 s2 s3 hyp by simp
next
  case (3 a b)
  note hyp = "3.hyps" [symmetric]
  obtain s1 where s1: "stream_octet rd 0 (- 1) s = (ucast a, False, - 1, s1)" "ok s1" "inp s1 = [b]" "out s1 = out s"
    using octet_next [OF "3.prems" hyp, of 0 "- 1"] by auto
  obtain s2 where s2: "stream_octet rd 1 (- 1) s1 = (ucast b, False, - 1, s2)" "ok s2" "inp s2 = []" "out s2 = out s1"
    using octet_next [of s1 b "[]" 1 "- 1"] s1 by auto
  obtain s3 where s3: "stream_octet rd 2 (- 1) s2 = (0, True, 2, s3)" "ok s3" "inp s3 = []" "out s3 = out s2"
    using octet_end [of s2 2 "- 1"] s2 by auto
  let ?t = "b64_triple (ucast a) (ucast b) 0"
  let ?q = "[b64_sextet ?t 3, b64_sextet ?t 2, b64_sextet ?t 1, 0x3D]"
  have run: "base64_encode_stream_loop rd wr (- 1) s = Some (wr ?q s3)"
    by (subst base64_encode_stream_loop.simps) (simp add: s1 s2 s3 g_modTable_def upt_rec Let_def)
  have "?q = base64 [a, b]"
    using unat_triple [of a b 0] by (simp add: b64_sextet_eq b64_digits_def upt_rec)
  moreover have "set ?q \<subseteq> b64_chars" using sextets [of ?t] by (simp add: b64_chars_def)
  ultimately show ?case using run wr_ok [of s3 ?q] s1 s2 s3 hyp by simp
next
  case (4 a b c xs)
  note hyp = "4.hyps"(2) [symmetric]
  obtain s1 where s1: "stream_octet rd 0 (- 1) s = (ucast a, False, - 1, s1)" "ok s1" "inp s1 = b # c # xs" "out s1 = out s"
    using octet_next [OF "4.prems" hyp, of 0 "- 1"] by auto
  obtain s2 where s2: "stream_octet rd 1 (- 1) s1 = (ucast b, False, - 1, s2)" "ok s2" "inp s2 = c # xs" "out s2 = out s1"
    using octet_next [of s1 b "c # xs" 1 "- 1"] s1 by auto
  obtain s3 where s3: "stream_octet rd 2 (- 1) s2 = (ucast c, False, - 1, s3)" "ok s3" "inp s3 = xs" "out s3 = out s2"
    using octet_next [of s2 c xs 2 "- 1"] s2 by auto
  let ?t = "b64_triple (ucast a) (ucast b) (ucast c)"
  let ?q = "[b64_sextet ?t 3, b64_sextet ?t 2, b64_sextet ?t 1, b64_sextet ?t 0]"
  have run: "base64_encode_stream_loop rd wr (- 1) s = base64_encode_stream_loop rd wr (- 1) (wr ?q s3)"
    by (subst base64_encode_stream_loop.simps) (simp add: s1 s2 s3 Let_def)
  have q: "ok (wr ?q s3)" "inp (wr ?q s3) = xs" "out (wr ?q s3) = out s @ ?q"
    using wr_ok [of s3 ?q] sextets s1 s2 s3 by simp_all
  have "?q = b64_digits 4 (b64_num a b c)"
    by (simp add: b64_sextet_eq unat_triple digits_4)
  then show ?case using "4.hyps"(1) [of "wr ?q s3"] q run hyp by simp
qed

lemma stream_encodes:
  "ok s \<Longrightarrow> \<exists>s'. utils_base64_encode_stream rd wr s = Some s' \<and> ok s' \<and> inp s' = [] \<and>
    out s' = out s @ base64 (inp s)"
  unfolding utils_base64_encode_stream_def by (rule stream_loop)

end

section \<open>Decoding\<close>

definition decode_table :: bytes where
  "decode_table = snd (build_decoding_table (False, replicate 256 0))"

definition decode_sextet :: "u8 \<Rightarrow> u8" where
  "decode_sextet c = (if c = 0x3D then 0 else decode_table ! unat c)"

definition quad_num :: "u8 \<Rightarrow> u8 \<Rightarrow> u8 \<Rightarrow> u8 \<Rightarrow> nat" where
  "quad_num w x y z = unat (decode_sextet w) * 64 ^ 3 + unat (decode_sextet x) * 64 ^ 2 +
     unat (decode_sextet y) * 64 + unat (decode_sextet z)"

definition three_bytes :: "nat \<Rightarrow> bytes" where
  "three_bytes v = [of_nat (v div 2 ^ 16), of_nat (v div 2 ^ 8), of_nat v]"

lemma length_three_bytes: "length (three_bytes v) = 3"
  by (simp add: three_bytes_def)

fun decode_quads :: "bytes \<Rightarrow> bytes" where
  "decode_quads (w # x # y # z # rest) = three_bytes (quad_num w x y z) @ decode_quads rest"
| "decode_quads xs = []"

text \<open>The table that the first call builds and that every later call finds.\<close>

definition b64_table_ok :: "bool \<times> bytes \<Rightarrow> bool" where
  "b64_table_ok st = (st = (False, replicate 256 0) \<or> st = (True, decode_table))"

lemma build_table: "b64_table_ok st \<Longrightarrow> build_decoding_table st = (True, decode_table)"
  by (auto simp: b64_table_ok_def decode_table_def build_decoding_table_def)

lemma fold_update_other: "p \<notin> f ` set is \<Longrightarrow> fold (\<lambda>i t. t[f i := g i]) is tab ! p = tab ! p"
  by (induction "is" arbitrary: tab) auto

lemma length_fold_update [simp]: "length (fold (\<lambda>i t. t[f i := g i]) is tab) = length tab"
  by (induction "is" arbitrary: tab) auto

lemma fold_update_nth:
  "distinct (map f is) \<Longrightarrow> k \<in> set is \<Longrightarrow> f k < length tab \<Longrightarrow> fold (\<lambda>i t. t[f i := g i]) is tab ! f k = g k"
proof (induction "is" arbitrary: tab)
  case (Cons i "is")
  then show ?case
    by (cases "f i = f k") (auto simp: fold_update_other inj_on_def)
qed simp

lemma fold_update_set: "set (fold (\<lambda>i t. t[f i := g i]) is tab) \<subseteq> g ` set is \<union> set tab"
  by (induction "is" arbitrary: tab) (auto dest: subsetD [OF set_update_subset_insert])

lemma decode_table_fold:
  "decode_table = fold (\<lambda>i t. t[unat (g_encodingTable ! i) := of_nat i]) [0..<64] (replicate 256 0)"
  by (simp only: decode_table_def build_decoding_table_def prod.case if_False snd_conv)

lemma length_decode_table [simp]: "length decode_table = 256"
  unfolding decode_table_fold length_fold_update by (rule length_replicate)

lemma decode_table_char:
  assumes "v < 64"
  shows "decode_table ! unat (b64_char v) = of_nat v" "b64_char v \<noteq> 0x3D"
proof -
  have d: "distinct g_encodingTable" and n: "0x3D \<notin> set g_encodingTable" and l: "length g_encodingTable = 64"
    by (simp_all add: g_encodingTable_def)
  have "inj_on (\<lambda>i. unat (g_encodingTable ! i)) (set [0..<64])"
    using d l by (auto simp: inj_on_def nth_eq_iff_index_eq word_unat_eq_iff [symmetric])
  then have m: "distinct (map (\<lambda>i. unat (g_encodingTable ! i)) [0..<64])"
    unfolding distinct_map by (intro conjI distinct_upt)
  have v: "v \<in> set [0..<64]" and s: "unat (g_encodingTable ! v) < length (replicate 256 (0 :: u8))"
    using assms unat_u8_less [of "g_encodingTable ! v"] by (simp_all only: set_upt length_replicate) simp
  show "decode_table ! unat (b64_char v) = of_nat v"
    unfolding decode_table_fold b64_table [OF assms, symmetric]
    by (rule fold_update_nth [OF m v s])
  show "b64_char v \<noteq> 0x3D"
    using n assms l nth_mem [of v g_encodingTable] by (auto simp: b64_table)
qed

lemma decode_sextet_less: "unat (decode_sextet c) < 64"
proof -
  have "set decode_table \<subseteq> of_nat ` set [0..<64] \<union> set (replicate 256 (0 :: u8))"
    unfolding decode_table_fold by (rule fold_update_set)
  moreover have "decode_table ! unat c \<in> set decode_table" using unat_u8_less [of c] by simp
  ultimately have "decode_table ! unat c \<in> of_nat ` {0..<64} \<or> decode_table ! unat c = 0"
    by (auto simp only: set_upt set_replicate_conv_if split: if_splits)
  then have "unat (decode_table ! unat c) < 64" by (auto simp: unat_of_nat_small)
  then show ?thesis by (simp add: decode_sextet_def)
qed

lemma lookup_at:
  assumes "length xs < 2 ^ 32" and "i < length xs"
  shows "b64_lookup decode_table xs (of_nat i) = Some (ucast (decode_sextet (xs ! i)))"
proof -
  have "unat (of_nat i :: u32) = i" using assms by (simp add: unat_of_nat_small)
  then show ?thesis
    using assms(2) unat_u8_less [of "xs ! i"] by (simp add: b64_lookup_def mem_simps decode_sextet_def)
qed

lemma unat_quad:
  "unat (push_bit 18 (ucast (decode_sextet w)) + push_bit 12 (ucast (decode_sextet x)) +
     push_bit 6 (ucast (decode_sextet y)) + ucast (decode_sextet z) :: u32) = quad_num w x y z"
proof -
  note less = decode_sextet_less [of w] decode_sextet_less [of x] decode_sextet_less [of y]
    decode_sextet_less [of z]
  have p: "unat (push_bit k (ucast v :: u32)) = unat v * 2 ^ k" if "k \<le> 18" "unat v < 64" for k and v :: u8
  proof -
    have "unat v * 2 ^ k < 2 ^ 6 * 2 ^ 18"
      using that power_increasing [of k 18 "2 :: nat"] by (intro mult_less_le_imp_less) simp_all
    then have "take_bit 32 (push_bit k (unat v)) = unat v * 2 ^ k"
      by (simp add: push_bit_eq_mult take_bit_nat_eq_self)
    then show ?thesis by (simp add: unsigned_push_bit_eq)
  qed
  let ?a = "push_bit 18 (ucast (decode_sextet w)) :: u32"
  let ?b = "push_bit 12 (ucast (decode_sextet x)) :: u32"
  let ?c = "push_bit 6 (ucast (decode_sextet y)) :: u32"
  have v: "unat ?a = unat (decode_sextet w) * 262144" "unat ?b = unat (decode_sextet x) * 4096"
      "unat ?c = unat (decode_sextet y) * 64"
    using p less by simp_all
  have ab: "unat (?a + ?b) = unat (decode_sextet w) * 262144 + unat (decode_sextet x) * 4096"
    using less v by (subst unat_plus_small) simp_all
  have abc: "unat (?a + ?b + ?c) = unat (decode_sextet w) * 262144 + unat (decode_sextet x) * 4096 +
      unat (decode_sextet y) * 64"
    using less v ab by (subst unat_plus_small) simp_all
  have "unat (?a + ?b + ?c + ucast (decode_sextet z)) = quad_num w x y z"
    using less abc by (subst unat_plus_small) (simp_all add: quad_num_def)
  then show ?thesis .
qed

lemma byte_of_triple: "ucast (drop_bit s t AND 0xFF) = (of_nat (unat (t :: u32) div 2 ^ s) :: u8)"
proof -
  have "(0xFF :: u32) = mask 8" by (simp add: mask_eq_exp_minus_1)
  then have "unat (drop_bit s t AND 0xFF) = unat t div 2 ^ s mod 2 ^ 8" by (simp only: unat_bits)
  then have "unat (ucast (drop_bit s t AND 0xFF) :: u8) = unat t div 2 ^ s mod 2 ^ 8"
    by (simp add: unsigned_ucast_eq take_bit_eq_mod)
  then show ?thesis by (intro word_unat_eq_iff [THEN iffD2]) (simp add: unat_of_nat)
qed

text \<open>Writing \<open>ys\<close> from position \<open>k\<close> but not beyond \<open>L\<close>.\<close>

definition clipped :: "nat \<Rightarrow> nat \<Rightarrow> 'a list \<Rightarrow> 'a list \<Rightarrow> 'a list" where
  "clipped L k ys dec = take k dec @ take (L - k) ys @ drop (min L (k + length ys)) dec"

lemma length_clipped [simp]: "k \<le> L \<Longrightarrow> L \<le> length dec \<Longrightarrow> length (clipped L k ys dec) = length dec"
  by (auto simp: clipped_def min_def)

lemma clipped_append:
  assumes "k \<le> L" and "L \<le> length dec"
  shows "clipped L (min L (k + length ys)) zs (clipped L k ys dec) = clipped L k (ys @ zs) dec"
proof (cases "k + length ys \<le> L")
  case True
  have c: "clipped L k ys dec = take k dec @ ys @ drop (k + length ys) dec"
    using True assms by (simp add: clipped_def min_absorb2)
  have "drop p (clipped L k ys dec) = drop p dec" if "k + length ys \<le> p" for p
    using that assms True by (simp add: c)
  moreover have "take (k + length ys) (clipped L k ys dec) = take k dec @ ys"
    using True assms by (simp add: c)
  moreover have "take (L - k) ys = ys" using True by simp
  ultimately show ?thesis
    using True assms unfolding clipped_def [of L "min L _"] clipped_def [of L k "ys @ zs"]
    by (simp add: min_absorb2 add.assoc)
next
  case False
  then have "min L (k + length ys) = L" "min L (k + length (ys @ zs)) = L" by simp_all
  then show ?thesis using False assms by (simp add: clipped_def)
qed

lemma b64_put_eq:
  assumes "k \<le> L" and "L \<le> length dec" and "L < 2 ^ 32"
  shows "b64_put (of_nat L) x (of_nat k, dec) = Some (of_nat (min L (Suc k)), clipped L k [x] dec)"
proof -
  have u: "unat (of_nat k :: u32) = k" "unat (of_nat L :: u32) = L"
    using assms by (simp_all add: unat_of_nat_small)
  show ?thesis
  proof (cases "k < L")
    case True
    then show ?thesis using assms u
      by (simp add: b64_put_def unat_less_iff mem_simps clipped_def upd_conv_take_nth_drop min_absorb2 take_Cons' add.commute)
  next
    case False
    then have "k = L" using assms by simp
    then show ?thesis by (simp add: b64_put_def clipped_def)
  qed
qed

lemma put_three:
  assumes "k \<le> L" and "L \<le> length dec" and "L < 2 ^ 32"
  shows "do { st \<leftarrow> b64_put (of_nat L) a (of_nat k, dec); st \<leftarrow> b64_put (of_nat L) b st;
      st \<leftarrow> b64_put (of_nat L) c st; f st } = f (of_nat (min L (k + 3)), clipped L k [a, b, c] dec)"
proof -
  have m: "min L (Suc (min L n)) = min L (Suc n)" for n by simp
  have 1: "clipped L (min L (Suc k)) [b] (clipped L k [a] dec) = clipped L k [a, b] dec"
    using clipped_append [OF assms(1,2), of "[a]" "[b]"] by simp
  have 2: "clipped L (min L (Suc (Suc k))) [c] (clipped L k [a, b] dec) = clipped L k [a, b, c] dec"
    using clipped_append [OF assms(1,2), of "[a, b]" "[c]"] by simp
  show ?thesis
    using assms by (simp add: b64_put_eq 1 2 m numeral_3_eq_3 del: of_nat_Suc)
qed

lemma decode_loop_eq:
  assumes "L < 2 ^ 32" and "length xs < 2 ^ 32"
  shows "length xs = i + 4 * rounds \<Longrightarrow> k \<le> L \<Longrightarrow> L \<le> length dec \<Longrightarrow>
    base64decode_loop decode_table xs (of_nat L) rounds (of_nat i) (of_nat k, dec) =
      Some (of_nat (min L (k + 3 * rounds)), clipped L k (decode_quads (drop i xs)) dec)"
proof (induction rounds arbitrary: i k dec)
  case 0
  then show ?case by (simp add: clipped_def)
next
  case (Suc rounds)
  let ?v = "quad_num (xs ! i) (xs ! (i + 1)) (xs ! (i + 2)) (xs ! (i + 3))"
  have dr: "drop i xs = xs ! i # xs ! (i + 1) # xs ! (i + 2) # xs ! (i + 3) # drop (i + 4) xs"
    using Suc.prems(1) by (simp add: Cons_nth_drop_Suc numeral_eq_Suc)
  have at: "b64_lookup decode_table xs (of_nat i) = Some (ucast (decode_sextet (xs ! i)))"
    "b64_lookup decode_table xs (of_nat i + 1) = Some (ucast (decode_sextet (xs ! (i + 1))))"
    "b64_lookup decode_table xs (of_nat i + 2) = Some (ucast (decode_sextet (xs ! (i + 2))))"
    "b64_lookup decode_table xs (of_nat i + 3) = Some (ucast (decode_sextet (xs ! (i + 3))))"
    using lookup_at [OF assms(2), of i] lookup_at [OF assms(2), of "i + 1"] lookup_at [OF assms(2), of "i + 2"]
      lookup_at [OF assms(2), of "i + 3"] Suc.prems(1) by (simp_all add: add.commute)
  let ?dec = "clipped L k (three_bytes ?v) dec"
  define t :: u32 where "t = push_bit (3 * 6) (ucast (decode_sextet (xs ! i))) +
    push_bit (2 * 6) (ucast (decode_sextet (xs ! (i + 1)))) +
    push_bit 6 (ucast (decode_sextet (xs ! (i + 2)))) + ucast (decode_sextet (xs ! (i + 3)))"
  have "unat t = ?v" using unat_quad by (simp add: t_def)
  then have bytes: "ucast (drop_bit (2 * 8) t AND 0xFF) = (of_nat (?v div 2 ^ 16) :: u8)"
      "ucast (drop_bit 8 t AND 0xFF) = (of_nat (?v div 2 ^ 8) :: u8)" "ucast (t AND 0xFF) = (of_nat ?v :: u8)"
    using byte_of_triple [of "2 * 8" t] byte_of_triple [of 8 t] byte_of_triple [of 0 t] by simp_all
  have "base64decode_loop decode_table xs (of_nat L) (Suc rounds) (of_nat i) (of_nat k, dec) =
      base64decode_loop decode_table xs (of_nat L) rounds (of_nat i + 4) (of_nat (min L (k + 3)), ?dec)"
    unfolding base64decode_loop.simps at bind.bind_lunit Let_def t_def [symmetric] bytes three_bytes_def
    using Suc.prems assms(1) by (rule_tac put_three) simp_all
  also have "of_nat i + 4 = (of_nat (i + 4) :: u32)" by simp
  also have "base64decode_loop decode_table xs (of_nat L) rounds (of_nat (i + 4)) (of_nat (min L (k + 3)), ?dec) =
      Some (of_nat (min L (min L (k + 3) + 3 * rounds)), clipped L (min L (k + 3)) (decode_quads (drop (i + 4) xs)) ?dec)"
    using Suc.prems by (intro Suc.IH) simp_all
  also have "min L (min L (k + 3) + 3 * rounds) = min L (k + 3 * Suc rounds)" by simp
  also have "clipped L (min L (k + 3)) (decode_quads (drop (i + 4) xs)) ?dec =
      clipped L k (three_bytes ?v @ decode_quads (drop (i + 4) xs)) dec"
    by (rule clipped_append [of k L dec "three_bytes ?v", unfolded length_three_bytes, OF Suc.prems(2,3)])
  finally show ?case by (simp add: dr)
qed

lemma length_decode_quads [simp]: "length (decode_quads xs) = 3 * (length xs div 4)"
  by (induction xs rule: decode_quads.induct) (simp_all add: three_bytes_def, presburger)

definition b64_pads :: "bytes \<Rightarrow> nat" where
  "b64_pads xs = (if xs ! (length xs - 1) = 0x3D then 1 else 0) + (if xs ! (length xs - 2) = 0x3D then 1 else 0)"

lemma base64decode_eq:
  assumes st: "b64_table_ok st" and N: "length xs = N" "0 < N" "4 dvd N" "N < 2 ^ 32"
  defines "L \<equiv> 3 * (N div 4) - b64_pads xs"
  assumes cap: "unat cap \<le> length dec"
  shows "utils_base64decode st xs (of_nat N) cap dec old =
    (if unat cap < L then Some (FAIL_RETURN, (True, decode_table), dec, of_nat L)
     else Some (SUCCESS_RETURN, (True, decode_table), take L (decode_quads xs) @ drop L dec, of_nat L))"
proof -
  define M where "M = N div 4"
  have M: "N = 4 * M" "0 < M" using N(2,3) unfolding M_def by presburger+
  have u: "unat (of_nat N :: u32) = N" using N by (simp add: unat_of_nat_small)
  have "unat (of_nat N div 4 * 3 :: u32) = M * 3"
  proof -
    have "(of_nat N :: u32) div 4 = of_nat M"
      using u M by (intro word_of_unat) (simp add: unat_div_distrib)
    then show ?thesis using N M unat_of_nat_small [of "M * 3", where ?'a = 32] by simp
  qed
  then have q: "of_nat N div 4 * 3 = (of_nat (3 * M) :: u32)"
    by (intro word_of_unat) simp
  have one: "unat (of_nat N - 1 :: u32) = N - 1" and two: "unat (of_nat N - 2 :: u32) = N - 2"
    using u M by (subst unat_sub_le; simp add: unat_le_iff)+
  let ?o = "of_nat N div 4 * 3 :: u32"
  have pads: "(if xs ! (N - 2) = 0x3D then (if xs ! (N - 1) = 0x3D then ?o - 1 else ?o) - 1
      else (if xs ! (N - 1) = 0x3D then ?o - 1 else ?o)) = of_nat L"
    using M N unfolding q by (auto simp: L_def b64_pads_def M_def [symmetric] of_nat_diff)
  have gets: "mem_get xs (unat (of_nat N - 1 :: u32)) = Some (xs ! (N - 1))"
      "mem_get xs (unat (of_nat N - 2 :: u32)) = Some (xs ! (N - 2))"
    using one two N by (simp_all add: mem_simps)
  have m: "(of_nat N :: u32) mod 4 = 0" "unat (of_nat N :: u32) div 4 = M"
    using u M by (simp_all add: word_unat_eq_iff unat_mod_distrib)
  have L: "L < 2 ^ 32" "unat (of_nat L :: u32) = L" "L \<le> 3 * M"
    using N M by (simp_all add: L_def unat_of_nat_small)
  have loop: "base64decode_loop decode_table xs (of_nat L) M 0 (0, dec) =
      Some (of_nat (min L (3 * M)), take L (decode_quads xs) @ drop L dec)" if "\<not> unat cap < L"
  proof -
    have "clipped L 0 (decode_quads xs) dec = take L (decode_quads xs) @ drop L dec"
      using L(3) M N by (simp add: clipped_def min_absorb1)
    then show ?thesis
      using decode_loop_eq [of L xs 0 M 0 dec] L N M cap that by simp
  qed
  show ?thesis
    unfolding utils_base64decode_def build_table [OF st] Let_def gets bind.bind_lunit pads m snd_conv
    using loop L(2) by (simp add: unat_less_iff)
qed

text \<open>Decoding what the reference encodes.\<close>

lemma b64_num_less: "b64_num a b c < 2 ^ 24"
  using unat_u8_less [of a] unat_u8_less [of b] unat_u8_less [of c] by (simp add: b64_num_def)

lemma three_bytes_num: "three_bytes (b64_num a b c) = [a, b, c]"
proof -
  note less = unat_u8_less [of a] unat_u8_less [of b] unat_u8_less [of c]
  have "b64_num a b c div 2 ^ 16 = unat a" "b64_num a b c div 2 ^ 8 = unat a * 256 + unat b"
    using less by (simp_all add: b64_num_def)
  moreover have "(of_nat (unat a * 256 + unat b) :: u8) = b" "(of_nat (b64_num a b c) :: u8) = c"
    using less by (simp_all only: word_unat_eq_iff unat_of_nat) (simp_all add: b64_num_def mod_add_eq [symmetric])
  ultimately show ?thesis by (simp add: three_bytes_def)
qed

lemma four_digits:
  fixes v :: nat
  assumes "v < 2 ^ 24"
  shows "v div 64 ^ 3 mod 64 * 64 ^ 3 + v div 64 ^ 2 mod 64 * 64 ^ 2 + v div 64 mod 64 * 64 + v mod 64 = v"
proof -
  define q r where "q = v div 64" and "r = v div 64 div 64"
  have p: "(64 :: nat) ^ 3 = 262144" "(64 :: nat) ^ 2 = 4096" by simp_all
  have d: "v div 4096 = r" "v div 262144 = r div 64"
    by (simp_all add: r_def flip: div_mult2_eq)
  have "r div 64 < 64" using assms by (simp add: r_def less_mult_imp_div_less flip: div_mult2_eq)
  then have m: "r div 64 mod 64 = r div 64" by simp
  have "v = q * 64 + v mod 64" "q = r * 64 + q mod 64" "r = r div 64 * 64 + r mod 64"
    by (simp_all add: q_def r_def)
  then show ?thesis unfolding p d m q_def [symmetric] by linarith
qed

lemma decode_char: "decode_sextet (b64_char (v mod 64)) = of_nat (v mod 64)" "decode_sextet 0x3D = 0"
  using decode_table_char [of "v mod 64"] by (simp_all add: decode_sextet_def)

lemma unat_mod_64: "unat (of_nat (v mod 64) :: u8) = v mod 64"
proof -
  have "v mod 64 < 64" by simp
  then show ?thesis by (intro unat_of_nat_small) simp
qed

lemma quad_num_digits:
  assumes "v < 2 ^ 24"
  shows "quad_num (b64_char (v div 64 ^ 3 mod 64)) (b64_char (v div 64 ^ 2 mod 64))
     (b64_char (v div 64 mod 64)) (b64_char (v mod 64)) = v"
    and "v mod 64 = 0 \<Longrightarrow> quad_num (b64_char (v div 64 ^ 3 mod 64)) (b64_char (v div 64 ^ 2 mod 64))
     (b64_char (v div 64 mod 64)) 0x3D = v"
    and "v mod 4096 = 0 \<Longrightarrow>
     quad_num (b64_char (v div 64 ^ 3 mod 64)) (b64_char (v div 64 ^ 2 mod 64)) 0x3D 0x3D = v"
proof -
  note dec = quad_num_def decode_char unat_mod_64
  show "quad_num (b64_char (v div 64 ^ 3 mod 64)) (b64_char (v div 64 ^ 2 mod 64))
     (b64_char (v div 64 mod 64)) (b64_char (v mod 64)) = v"
    using four_digits [OF assms] unfolding dec .
  show "quad_num (b64_char (v div 64 ^ 3 mod 64)) (b64_char (v div 64 ^ 2 mod 64))
     (b64_char (v div 64 mod 64)) 0x3D = v" if "v mod 64 = 0"
    using four_digits [OF assms, unfolded that] unfolding dec unsigned_0 .
  show "quad_num (b64_char (v div 64 ^ 3 mod 64)) (b64_char (v div 64 ^ 2 mod 64)) 0x3D 0x3D = v"
    if "v mod 4096 = 0"
  proof -
    have "4096 * (v div 4096) = v"
      using that by (metis add.right_neutral mult_div_mod_eq)
    then have "v = 64 * (64 * (v div 4096))" by linarith
    then obtain k where "v = 64 * (64 * k)" by blast
    then have z: "v mod 64 = 0" "v div 64 mod 64 = 0" by simp_all
    show ?thesis using four_digits [OF assms, unfolded z] unfolding dec unsigned_0 by (simp only: mult_0 add_0_right)
  qed
qed

lemma decode_base64: "take (length xs) (decode_quads (base64 xs)) = xs"
proof (induction xs rule: base64.induct)
  case (2 a)
  have "b64_num a 0 0 mod 4096 = 0" by (simp add: b64_num_def)
  with quad_num_digits(3) [OF b64_num_less this] show ?case
    by (simp add: b64_digits_def upt_rec three_bytes_num)
next
  case (3 a b)
  have "b64_num a b 0 mod 64 = 0" by (simp add: b64_num_def)
  with quad_num_digits(2) [OF b64_num_less this] show ?case
    by (simp add: b64_digits_def upt_rec three_bytes_num)
next
  case (4 a b c xs)
  with quad_num_digits(1) [OF b64_num_less, of a b c] show ?case
    by (simp add: digits_4 three_bytes_num)
qed simp

lemma pads_base64: "xs \<noteq> [] \<Longrightarrow> b64_pads (base64 xs) = 3 * ((length xs + 2) div 3) - length xs"
proof (induction xs rule: base64.induct)
  case (4 a b c xs)
  show ?case
  proof (cases "xs = []")
    case True
    then show ?thesis by (simp add: b64_pads_def digits_4 decode_table_char)
  next
    case False
    have "2 \<le> length (base64 xs)" using False by (cases xs rule: base64.cases) simp_all
    then have "b64_pads (base64 (a # b # c # xs)) = b64_pads (base64 xs)"
      by (auto simp: b64_pads_def nth_append simp del: length_base64)
    with 4 False show ?thesis by (simp add: third)
  qed
qed (simp_all add: b64_pads_def b64_digits_def upt_rec decode_table_char)


section \<open>Properties\<close>

text \<open>
  C27: \<open>utils_base64decode\<close> reads back what \<open>utils_base64encode\<close> has written: for every non-empty
  block whose text fits into the output buffers (and into 32 bits), the encoder succeeds, and
  the decoder, on the text it has stored, returns the block with its length.
\<close>

theorem base64_roundtrip:
  assumes "xs \<noteq> []" and "length (base64 xs) < 2 ^ 32"
    and "length (base64 xs) \<le> unat cap" "unat cap \<le> length enc"
    and "length xs \<le> unat cap2" "unat cap2 \<le> length dec" and "b64_table_ok st"
  shows "\<exists>text rest olen. utils_base64encode xs (of_nat (length xs)) cap (Some enc) old =
      Some (SUCCESS_RETURN, Some (text @ rest), olen) \<and> unat olen = length text \<and>
    utils_base64decode st text olen cap2 dec old2 =
      Some (SUCCESS_RETURN, (True, decode_table), xs @ drop (length xs) dec, of_nat (length xs))"
proof -
  define t where "t = base64 xs"
  have lt: "length t = 4 * ((length xs + 2) div 3)" by (simp add: t_def)
  have e: "utils_base64encode xs (of_nat (length xs)) cap (Some enc) old =
      Some (SUCCESS_RETURN, Some (t @ drop (length t) enc), of_nat (length t))"
    using base64encode_eq [OF refl, of xs cap enc old] assms(2-4) by (simp add: t_def)
  have "0 < length t" "4 dvd length t" using assms(1) lt by (cases xs, auto)
  moreover have L: "3 * (length t div 4) - b64_pads t = length xs"
    using pads_base64 [OF assms(1)] lt by (simp add: t_def)
  ultimately have "utils_base64decode st t (of_nat (length t)) cap2 dec old2 =
      Some (SUCCESS_RETURN, (True, decode_table), xs @ drop (length xs) dec, of_nat (length xs))"
    using base64decode_eq [OF assms(7) refl, of t cap2 dec old2] assms(2,5,6) decode_base64 [of xs]
    by (simp add: t_def [symmetric])
  moreover have "unat (of_nat (length t) :: u32) = length t"
    using assms(2) by (intro unat_of_nat_small) (simp add: t_def)
  ultimately show ?thesis using e by blast
qed

theorem base64_roundtrip_witness:
  "\<exists>text rest olen. utils_base64encode [0xFF, 0x00] (of_nat (length [0xFF, 0x00 :: u8])) 8 (Some (replicate 8 0)) 0 =
      Some (SUCCESS_RETURN, Some (text @ rest), olen) \<and> unat olen = length text \<and>
    utils_base64decode (False, replicate 256 0) text olen 2 [1, 2, 3] 0 =
      Some (SUCCESS_RETURN, (True, decode_table), [0xFF, 0x00] @ drop (length [0xFF, 0x00 :: u8]) [1, 2, 3],
        of_nat (length [0xFF, 0x00 :: u8]))"
  by (rule base64_roundtrip) (simp_all add: b64_table_ok_def)

text \<open>
  C28: the block encoder produces the text of RFC 4648 with its length and touches nothing behind
  it; a missing buffer or one that is too small is reported and nothing is written.
\<close>

theorem base64_encode_rfc:
  assumes "length (base64 xs) < 2 ^ 32" and "unat cap \<le> length enc"
  shows "utils_base64encode xs (of_nat (length xs)) cap (Some enc) old =
      (if unat cap < length (base64 xs) then Some (FAIL_RETURN, Some enc, of_nat (length (base64 xs)))
       else Some (SUCCESS_RETURN, Some (base64 xs @ drop (length (base64 xs)) enc), of_nat (length (base64 xs)))) \<and>
    utils_base64encode xs n cap None old = Some (FAIL_RETURN, None, old)"
proof (intro conjI)
  show "utils_base64encode xs n cap None old = Some (FAIL_RETURN, None, old)"
    by (simp add: utils_base64encode_def)
  have N: "length xs + 2 < 2 ^ 32" using assms(1) by simp
  have "unat (of_nat (length xs) + 2 :: u32) = length xs + 2"
    using N unat_of_nat_add [of "length xs" 2, where ?'a = 32] by simp
  then have "(of_nat (length xs) + 2 :: u32) div 3 = of_nat ((length xs + 2) div 3)"
    by (intro word_of_unat) (simp add: unat_div_distrib)
  then have olen: "4 * ((of_nat (length xs) + 2 :: u32) div 3) = of_nat (length (base64 xs))" by simp
  have "unat (of_nat (length (base64 xs)) :: u32) = length (base64 xs)"
    using assms(1) by (intro unat_of_nat_small) simp
  then have "utils_base64encode xs (of_nat (length xs)) cap (Some enc) old =
      Some (FAIL_RETURN, Some enc, of_nat (length (base64 xs)))" if "unat cap < length (base64 xs)"
    using that unfolding utils_base64encode_def Let_def olen unat_less_iff by simp
  then show "utils_base64encode xs (of_nat (length xs)) cap (Some enc) old =
      (if unat cap < length (base64 xs) then Some (FAIL_RETURN, Some enc, of_nat (length (base64 xs)))
       else Some (SUCCESS_RETURN, Some (base64 xs @ drop (length (base64 xs)) enc), of_nat (length (base64 xs))))"
    using base64encode_eq [OF refl, of xs cap enc old] assms by simp
qed

theorem base64_encode_rfc_witness:
  "utils_base64encode [0x4D, 0x61] (of_nat (length [0x4D, 0x61 :: u8])) 4 (Some [0, 0, 0, 0, 7]) 0 =
     Some (SUCCESS_RETURN, Some [0x54, 0x57, 0x45, 0x3D, 7], 4)"
  using base64_encode_rfc [of "[0x4D, 0x61]" 4 "[0, 0, 0, 0, 7]" 0]
  by (simp add: b64_digits_def upt_rec b64_num_def b64_char_def b64_alphabet_def)

text \<open>
  C29: the decoder on any text.  A length that is not a multiple of 4 is refused; a text of
  length 0 makes the call read before its buffer; every other text, whatever its
  characters, is accepted: characters outside the alphabet count as zero, and only the size of
  the output can make the call fail.
\<close>

theorem base64_decode_any:
  assumes "b64_table_ok st" and "length xs < 2 ^ 32" and "unat cap \<le> length dec"
  shows "utils_base64decode st xs (of_nat (length xs)) cap dec old =
    (if \<not> 4 dvd length xs then Some (FAIL_RETURN, (True, decode_table), dec, old)
     else if xs = [] then None
     else let L = 3 * (length xs div 4) - b64_pads xs in
       if unat cap < L then Some (FAIL_RETURN, (True, decode_table), dec, of_nat L)
       else Some (SUCCESS_RETURN, (True, decode_table), take L (decode_quads xs) @ drop L dec, of_nat L))"
proof -
  have u: "unat (of_nat (length xs) :: u32) = length xs"
    using assms(2) by (simp add: unat_of_nat_small)
  consider "\<not> 4 dvd length xs" | "xs = []" | "4 dvd length xs" "0 < length xs" by blast
  then show ?thesis
  proof cases
    case 1
    have "unat (of_nat (length xs) mod 4 :: u32) \<noteq> 0"
      using 1 u by (simp add: unat_mod_distrib dvd_eq_mod_eq_0)
    then have "of_nat (length xs) mod (4 :: u32) \<noteq> 0" by (metis unsigned_0)
    then show ?thesis using 1 by (simp add: utils_base64decode_def build_table [OF assms(1)])
  next
    case 2
    then show ?thesis by (simp add: utils_base64decode_def build_table [OF assms(1)] mem_get_def)
  next
    case 3
    then show ?thesis
      using base64decode_eq [OF assms(1) refl 3(2,1) assms(2,3), of old] by (simp add: Let_def)
  qed
qed

theorem base64_decode_any_witness:
  "utils_base64decode (False, replicate 256 0) [0x23, 0x23, 0x23, 0x23] 4 3 [9, 9, 9] 0 =
     Some (SUCCESS_RETURN, (True, decode_table), [0, 0, 0], 3)"
proof -
  have "0x23 \<notin> set g_encodingTable" and l: "length g_encodingTable = 64"
    by (simp_all add: g_encodingTable_def)
  then have "g_encodingTable ! i \<noteq> 0x23" if "i < 64" for i
    using that l by (metis nth_mem)
  then have "35 \<notin> (\<lambda>i. unat (g_encodingTable ! i)) ` set [0..<64]"
    by (auto simp only: set_upt of_nat_numeral atLeastLessThan_iff dest!: word_of_unat [OF sym])
  then have "decode_table ! 35 = 0"
    unfolding decode_table_fold by (subst fold_update_other) (simp_all only: nth_replicate, simp)
  then have "decode_sextet 0x23 = 0" by (simp add: decode_sextet_def)
  moreover have "4 dvd Suc (Suc (Suc (Suc (0 :: nat))))" by presburger
  ultimately show ?thesis
  using base64_decode_any [of "(False, replicate 256 0)" "[0x23, 0x23, 0x23, 0x23]" 3 "[9, 9, 9]" 0]
  by (simp add: b64_table_ok_def b64_pads_def quad_num_def three_bytes_def Let_def)
qed

end
