(* ===== verification/Node_Queue.thy ===== *)
theory Node_Queue
  imports SDK_Prelude
begin

text \<open>
  The contract of an intrusive queue: the client owns the nodes, may put a node that is not in
  the queue and gets the nodes back in order.  \<open>queue_spec\<close> is the abstract queue, \<open>queue_run\<close> a
  client's history on an implementation; a history that puts a node twice has no meaning.
\<close>

datatype queue_op = Enq nat | Deq

fun queue_spec :: "nat set \<Rightarrow> nat list \<Rightarrow> queue_op list \<Rightarrow> (nat option list \<times> nat list) option" where
  "queue_spec nodes xs [] = Some ([], xs)"
| "queue_spec nodes xs (Enq x # ops) =
     (if x \<in> nodes \<and> x \<notin> set xs then queue_spec nodes (xs @ [x]) ops else None)"
| "queue_spec nodes xs (Deq # ops) = do {
     (out, ys) \<leftarrow> queue_spec nodes (tl xs) ops;
     Some ((if xs = [] then None else Some (hd xs)) # out, ys)
   }"

fun queue_run :: "('s \<Rightarrow> nat \<Rightarrow> 's option) \<Rightarrow> ('s \<Rightarrow> (nat option \<times> 's) option) \<Rightarrow> 's \<Rightarrow> queue_op list \<Rightarrow>
    (nat option list \<times> 's) option" where
  "queue_run enq deq s [] = Some ([], s)"
| "queue_run enq deq s (Enq x # ops) = do { s \<leftarrow> enq s x; queue_run enq deq s ops }"
| "queue_run enq deq s (Deq # ops) = do {
     (x, s) \<leftarrow> deq s;
     (out, s) \<leftarrow> queue_run enq deq s ops;
     Some (x # out, s)
   }"

locale node_queue =
  fixes holds :: "'s \<Rightarrow> nat list \<Rightarrow> bool" and nodes :: "'s \<Rightarrow> nat set"
    and enq :: "'s \<Rightarrow> nat \<Rightarrow> 's option" and deq :: "'s \<Rightarrow> (nat option \<times> 's) option"
  assumes enq: "holds s xs \<Longrightarrow> x \<in> nodes s \<Longrightarrow> x \<notin> set xs \<Longrightarrow>
      \<exists>s'. enq s x = Some s' \<and> holds s' (xs @ [x]) \<and> nodes s' = nodes s"
    and deq: "holds s xs \<Longrightarrow>
      \<exists>s'. deq s = Some (if xs = [] then None else Some (hd xs), s') \<and> holds s' (tl xs) \<and> nodes s' = nodes s"
begin

lemma refines:
  "holds s xs \<Longrightarrow> queue_spec (nodes s) xs ops = Some (out, ys) \<Longrightarrow>
    \<exists>s'. queue_run enq deq s ops = Some (out, s') \<and> holds s' ys \<and> nodes s' = nodes s"
proof (induction ops arbitrary: s xs out)
  case (Cons a ops)
  show ?case
  proof (cases a)
    case (Enq x)
    then have x: "x \<in> nodes s" "x \<notin> set xs" "queue_spec (nodes s) (xs @ [x]) ops = Some (out, ys)"
      using Cons.prems(2) by (auto split: if_splits)
    then obtain s' where "enq s x = Some s'" "holds s' (xs @ [x])" "nodes s' = nodes s"
      using enq [OF Cons.prems(1)] by blast
    then show ?thesis using Cons.IH [of s' "xs @ [x]" out] x Enq by simp
  next
    case Deq
    obtain out' where o: "queue_spec (nodes s) (tl xs) ops = Some (out', ys)"
        "out = (if xs = [] then None else Some (hd xs)) # out'"
      using Cons.prems(2) Deq by (auto simp: bind_eq_Some_conv)
    obtain s' where "deq s = Some (if xs = [] then None else Some (hd xs), s')" "holds s' (tl xs)"
        "nodes s' = nodes s"
      using deq [OF Cons.prems(1)] by blast
    then show ?thesis using Cons.IH [of s' "tl xs" out'] o Deq by auto
  qed
qed simp

end

end
