(* ===== verification/Utils_List.thy ===== *)
theory Utils_List
  imports Node_Queue
begin

text \<open>
  The singly linked lists of \<^verbatim>\<open>components/utils/list/utils_list.c\<close> and \<^verbatim>\<open>utils_list.h\<close>.
  A header is an address, the links of all headers are a heap from addresses to pointers, a
  pointer is an optional address with \<open>None\<close> for \<open>NULL\<close>.  Following a pointer that is \<open>NULL\<close> or
  leads to no header is undefined behaviour and makes the operation \<open>None\<close>; so does a loop that
  does not end, for instance on a cyclic list.
\<close>

section \<open>Model\<close>

type_synonym ptr = "nat option"
type_synonym heap = "nat \<rightharpoonup> ptr"

definition get_next :: "heap \<Rightarrow> ptr \<Rightarrow> ptr option" where
  "get_next h p = (case p of None \<Rightarrow> None | Some a \<Rightarrow> h a)"

definition set_next :: "heap \<Rightarrow> ptr \<Rightarrow> ptr \<Rightarrow> heap option" where
  "set_next h p q = (case p of None \<Rightarrow> None
     | Some a \<Rightarrow> (case h a of None \<Rightarrow> None | Some _ \<Rightarrow> Some (h(a \<mapsto> q))))"

record utils_list =
  list_first :: ptr
  list_last :: ptr

definition utils_list_init :: utils_list where
  "utils_list_init = \<lparr>list_first = None, list_last = None\<rparr>"

definition utils_list_is_empty :: "utils_list \<Rightarrow> bool" where
  "utils_list_is_empty l = (list_first l = None)"

definition utils_list_pick :: "utils_list \<Rightarrow> ptr" where
  "utils_list_pick l = list_first l"

definition utils_list_pick_last :: "utils_list \<Rightarrow> ptr" where
  "utils_list_pick_last l = list_last l"

definition utils_list_next :: "ptr \<Rightarrow> heap \<Rightarrow> ptr option" where
  "utils_list_next p h = get_next h p"

definition utils_list_push_back :: "utils_list \<Rightarrow> ptr \<Rightarrow> heap \<Rightarrow> (utils_list \<times> heap) option" where
  "utils_list_push_back l e h = do {
     (l, h) \<leftarrow> (if utils_list_is_empty l then Some (l\<lparr>list_first := e\<rparr>, h)
                else do { h \<leftarrow> set_next h (list_last l) e; Some (l, h) });
     let l = l\<lparr>list_last := e\<rparr>;
     h \<leftarrow> set_next h e None;
     Some (l, h)
   }"

definition utils_list_push_front :: "utils_list \<Rightarrow> ptr \<Rightarrow> heap \<Rightarrow> (utils_list \<times> heap) option" where
  "utils_list_push_front l e h = do {
     let l = (if utils_list_is_empty l then l\<lparr>list_last := e\<rparr> else l);
     h \<leftarrow> set_next h e (list_first l);
     Some (l\<lparr>list_first := e\<rparr>, h)
   }"

definition utils_list_pop_front :: "utils_list \<Rightarrow> heap \<Rightarrow> (ptr \<times> utils_list) option" where
  "utils_list_pop_front l h =
     (let element = list_first l in
      if element \<noteq> None then do {
        n \<leftarrow> get_next h (list_first l);
        Some (element, l\<lparr>list_first := n\<rparr>)
      } else Some (element, l))"

text \<open>
  \<open>utils_list_pool_init\<close>: \<open>dflt\<close> is \<open>None\<close> for a \<open>NULL\<close> default value and else the link that the
  copied value has in the place of the header.
\<close>

fun pool_init_loop :: "nat \<Rightarrow> ptr option \<Rightarrow> nat \<Rightarrow> nat \<Rightarrow> utils_list \<Rightarrow> heap \<Rightarrow> (utils_list \<times> heap) option" where
  "pool_init_loop elmt_size dflt 0 pool l h = Some (l, h)"
| "pool_init_loop elmt_size dflt (Suc n) pool l h = do {
     h \<leftarrow> (case dflt of None \<Rightarrow> Some h | Some d \<Rightarrow> set_next h (Some pool) d);
     (l, h) \<leftarrow> utils_list_push_back l (Some pool) h;
     pool_init_loop elmt_size dflt n (pool + elmt_size) l h
   }"

definition utils_list_pool_init ::
  "nat \<Rightarrow> nat \<Rightarrow> nat \<Rightarrow> ptr option \<Rightarrow> heap \<Rightarrow> (utils_list \<times> heap) option" where
  "utils_list_pool_init pool elmt_size elmt_cnt dflt h =
     pool_init_loop elmt_size dflt elmt_cnt pool utils_list_init h"

partial_function (option) extract_scan :: "heap \<Rightarrow> ptr \<Rightarrow> ptr \<Rightarrow> ptr option" where
  "extract_scan h hdr scan = do {
     n \<leftarrow> get_next h scan;
     if n \<noteq> None \<and> n \<noteq> hdr then extract_scan h hdr n else Some scan
   }"

definition utils_list_extract :: "utils_list \<Rightarrow> ptr \<Rightarrow> heap \<Rightarrow> (utils_list \<times> heap) option" where
  "utils_list_extract l hdr h =
     (let scan = list_first l in
      if scan = None then Some (l, h)
      else if scan = hdr then do { n \<leftarrow> get_next h scan; Some (l\<lparr>list_first := n\<rparr>, h) }
      else do {
        scan \<leftarrow> extract_scan h hdr scan;
        n \<leftarrow> get_next h scan;
        if n \<noteq> None then do {
          let l = (if list_last l = hdr then l\<lparr>list_last := scan\<rparr> else l);
          n \<leftarrow> get_next h hdr;
          h \<leftarrow> set_next h scan n;
          Some (l, h)
        } else Some (l, h)
      })"

partial_function (option) find_scan :: "heap \<Rightarrow> ptr \<Rightarrow> ptr \<Rightarrow> ptr option" where
  "find_scan h hdr p =
     (if p \<noteq> hdr \<and> p \<noteq> None then do { n \<leftarrow> get_next h p; find_scan h hdr n } else Some p)"

definition utils_list_find :: "utils_list \<Rightarrow> ptr \<Rightarrow> heap \<Rightarrow> bool option" where
  "utils_list_find l hdr h = do { p \<leftarrow> find_scan h hdr (list_first l); Some (p = hdr) }"

partial_function (option) cnt_loop :: "heap \<Rightarrow> u32 \<Rightarrow> ptr \<Rightarrow> u32 option" where
  "cnt_loop h cnt p =
     (if p \<noteq> None then do { n \<leftarrow> utils_list_next p h; cnt_loop h (cnt + 1) n } else Some cnt)"

definition utils_list_cnt :: "utils_list \<Rightarrow> heap \<Rightarrow> u32 option" where
  "utils_list_cnt l h = cnt_loop h 0 (utils_list_pick l)"

text \<open>
  The comparison is the client's; it sees the addresses.  The scan returns \<open>prev\<close>, \<open>scan\<close> and
  whether it has set \<open>last\<close>.
\<close>

partial_function (option) insert_scan ::
  "(nat \<Rightarrow> nat \<Rightarrow> bool) \<Rightarrow> nat \<Rightarrow> heap \<Rightarrow> ptr \<Rightarrow> ptr \<Rightarrow> utils_list \<Rightarrow> (ptr \<times> ptr \<times> utils_list) option" where
  "insert_scan cmp e h prev scan l =
     (case scan of
        Some s \<Rightarrow> if cmp e s then Some (prev, scan, l)
          else do { n \<leftarrow> get_next h scan; insert_scan cmp e h scan n l }
      | None \<Rightarrow> Some (prev, scan, l\<lparr>list_last := Some e\<rparr>))"

definition utils_list_insert ::
  "utils_list \<Rightarrow> nat \<Rightarrow> (nat \<Rightarrow> nat \<Rightarrow> bool) \<Rightarrow> heap \<Rightarrow> (utils_list \<times> heap) option" where
  "utils_list_insert l e cmp h = do {
     (prev, scan, l) \<leftarrow> insert_scan cmp e h None (list_first l) l;
     h \<leftarrow> set_next h (Some e) scan;
     if prev \<noteq> None then do { h \<leftarrow> set_next h prev (Some e); Some (l, h) }
     else Some (l\<lparr>list_first := Some e\<rparr>, h)
   }"

definition utils_list_insert_after :: "utils_list \<Rightarrow> ptr \<Rightarrow> ptr \<Rightarrow> heap \<Rightarrow> (utils_list \<times> heap) option" where
  "utils_list_insert_after l prev e h =
     (if prev = None then utils_list_push_front l e h
      else do {
        scan \<leftarrow> find_scan h prev (list_first l);
        if scan \<noteq> None then do {
          n \<leftarrow> get_next h prev;
          h \<leftarrow> set_next h e n;
          h \<leftarrow> set_next h prev e;
          n \<leftarrow> get_next h e;
          Some (if n = None then l\<lparr>list_last := e\<rparr> else l, h)
        } else Some (l, h)
      })"

partial_function (option) before_scan :: "heap \<Rightarrow> ptr \<Rightarrow> ptr \<Rightarrow> ptr option" where
  "before_scan h nxt scan =
     (if scan \<noteq> None then do {
        n \<leftarrow> get_next h scan;
        if n = nxt then Some scan else before_scan h nxt n
      } else Some scan)"

definition utils_list_insert_before :: "utils_list \<Rightarrow> ptr \<Rightarrow> ptr \<Rightarrow> heap \<Rightarrow> (utils_list \<times> heap) option" where
  "utils_list_insert_before l nxt e h =
     (if nxt = None then utils_list_push_back l e h
      else if nxt = list_first l then utils_list_push_front l e h
      else do {
        scan \<leftarrow> before_scan h nxt (list_first l);
        if scan \<noteq> None then do {
          h \<leftarrow> set_next h e nxt;
          h \<leftarrow> set_next h scan e;
          Some (l, h)
        } else Some (l, h)
      })"

definition utils_list_concat :: "utils_list \<Rightarrow> utils_list \<Rightarrow> heap \<Rightarrow> (utils_list \<times> utils_list \<times> heap) option" where
  "utils_list_concat l1 l2 h =
     (if list_first l2 \<noteq> None then do {
        (l1, h) \<leftarrow> (if list_first l1 = None then Some (l2, h)
          else do {
            h \<leftarrow> set_next h (list_last l1) (list_first l2);
            Some (l1\<lparr>list_last := list_last l2\<rparr>, h)
          });
        Some (l1, l2\<lparr>list_first := None\<rparr>, h)
      } else Some (l1, l2, h))"

definition utils_list_remove :: "utils_list \<Rightarrow> ptr \<Rightarrow> ptr \<Rightarrow> heap \<Rightarrow> (utils_list \<times> heap) option" where
  "utils_list_remove l prev e h = do {
     n \<leftarrow> get_next h e;
     (l, h) \<leftarrow> (if prev = None then Some (l\<lparr>list_first := n\<rparr>, h)
       else do {
         h \<leftarrow> set_next h prev n;
         Some (if list_last l = e then l\<lparr>list_last := prev\<rparr> else l, h)
       });
     h \<leftarrow> set_next h e None;
     Some (l, h)
   }"

text \<open>The \<open>utils_slist\<close> lists of the header file: the head is a node of its own.\<close>

definition utils_slist_init :: "ptr \<Rightarrow> heap \<Rightarrow> heap option" where
  "utils_slist_init head h = set_next h head None"

definition utils_slist_empty :: "ptr \<Rightarrow> heap \<Rightarrow> bool option" where
  "utils_slist_empty head h = do { n \<leftarrow> get_next h head; Some (n = None) }"

definition utils_slist_first :: "ptr \<Rightarrow> heap \<Rightarrow> ptr option" where
  "utils_slist_first l h = get_next h l"

definition utils_slist_next :: "ptr \<Rightarrow> heap \<Rightarrow> ptr option" where
  "utils_slist_next l h = get_next h l"

partial_function (option) utils_slist_tail :: "ptr \<Rightarrow> heap \<Rightarrow> ptr option" where
  "utils_slist_tail l h = do { n \<leftarrow> get_next h l; if n \<noteq> None then utils_slist_tail n h else Some l }"

definition utils_slist_add :: "ptr \<Rightarrow> ptr \<Rightarrow> heap \<Rightarrow> heap option" where
  "utils_slist_add node head h = do {
     n \<leftarrow> get_next h head;
     h \<leftarrow> set_next h node n;
     set_next h head node
   }"

definition utils_slist_add_tail :: "ptr \<Rightarrow> ptr \<Rightarrow> heap \<Rightarrow> heap option" where
  "utils_slist_add_tail node head h = do {
     head \<leftarrow> utils_slist_tail head h;
     utils_slist_add node head h
   }"

definition utils_slist_append :: "ptr \<Rightarrow> ptr \<Rightarrow> heap \<Rightarrow> heap option" where
  "utils_slist_append l n h = do {
     node \<leftarrow> utils_slist_tail l h;
     h \<leftarrow> set_next h node n;
     set_next h n None
   }"

partial_function (option) utils_slist_del :: "ptr \<Rightarrow> ptr \<Rightarrow> heap \<Rightarrow> heap option" where
  "utils_slist_del node head h = do {
     n \<leftarrow> get_next h head;
     if n \<noteq> None then
       (if n = node then do { m \<leftarrow> get_next h node; set_next h head m }
        else utils_slist_del node n h)
     else Some h
   }"

partial_function (option) slist_number_loop :: "ptr \<Rightarrow> u32 \<Rightarrow> heap \<Rightarrow> u32 option" where
  "slist_number_loop cur num h = do {
     n \<leftarrow> get_next h cur;
     if n \<noteq> None then slist_number_loop n (num + 1) h else Some num
   }"

definition utils_slist_entry_number :: "ptr \<Rightarrow> heap \<Rightarrow> u32 option" where
  "utils_slist_entry_number queue h = slist_number_loop queue 0 h"

section \<open>Segments of a heap\<close>

primrec seg :: "heap \<Rightarrow> ptr \<Rightarrow> nat list \<Rightarrow> ptr \<Rightarrow> bool" where
  "seg h p [] q = (p = q)"
| "seg h p (x # xs) q = (p = Some x \<and> (case h x of None \<Rightarrow> False | Some n \<Rightarrow> seg h n xs q))"

definition hdp :: "nat list \<Rightarrow> ptr" where
  "hdp xs = (case xs of [] \<Rightarrow> None | x # _ \<Rightarrow> Some x)"

definition frame :: "nat set \<Rightarrow> heap \<Rightarrow> heap \<Rightarrow> bool" where
  "frame A h h' = (dom h' = dom h \<and> (\<forall>x. x \<notin> A \<longrightarrow> h' x = h x))"

text \<open>The list object \<open>l\<close> stands for the sequence \<open>xs\<close> of headers.\<close>

definition represents :: "heap \<Rightarrow> utils_list \<Rightarrow> nat list \<Rightarrow> bool" where
  "represents h l xs = (seg h (list_first l) xs None \<and> distinct xs \<and>
     (xs \<noteq> [] \<longrightarrow> list_last l = Some (last xs)))"

lemma hdp_simps [simp]: "hdp [] = None" "hdp (x # xs) = Some x" "hdp (xs @ y # ys) = Some (hd (xs @ [y]))"
  by (cases xs; simp add: hdp_def)+

lemma hdp_None [simp]: "hdp xs = None \<longleftrightarrow> xs = []" "None = hdp xs \<longleftrightarrow> xs = []"
  by (cases xs; simp)+

lemma seg_hdp: "seg h p xs None \<Longrightarrow> p = hdp xs"
  by (cases xs) auto

lemma seg_start [simp]:
  "seg h None xs q \<longleftrightarrow> xs = [] \<and> q = None"
  "a \<notin> set xs \<Longrightarrow> seg h (Some a) xs q \<longleftrightarrow> xs = [] \<and> q = Some a"
  by (cases xs; auto)+

lemma seg_append [simp]: "seg h p (xs @ ys) q = (\<exists>r. seg h p xs r \<and> seg h r ys q)"
  by (induction xs arbitrary: p) (auto split: option.splits)

lemma seg_upd [simp]: "a \<notin> set xs \<Longrightarrow> seg (h(a := b)) p xs q = seg h p xs q"
  by (induction xs arbitrary: p) (auto split: option.splits)

lemma seg_dom: "seg h p xs q \<Longrightarrow> x \<in> set xs \<Longrightarrow> \<exists>n. h x = Some n"
  by (induction xs arbitrary: p) (auto split: option.splits)

lemma seg_set_last:
  "seg h p xs q \<Longrightarrow> distinct xs \<Longrightarrow> xs \<noteq> [] \<Longrightarrow> seg (h(last xs \<mapsto> r)) p xs r"
  by (induction xs rule: rev_induct) (auto split: option.splits)

lemma seg_last_next: "seg h p xs q \<Longrightarrow> xs \<noteq> [] \<Longrightarrow> h (last xs) = Some q"
  by (induction xs arbitrary: p) (auto split: option.splits if_splits)

lemma frame_upd: "x \<in> A \<Longrightarrow> h x \<noteq> None \<Longrightarrow> frame A h (h(x \<mapsto> q))"
  by (auto simp: frame_def)

lemma frame_upd2: "x \<in> A \<Longrightarrow> h x \<noteq> None \<Longrightarrow> y \<in> A \<Longrightarrow> h y \<noteq> None \<Longrightarrow> frame A h (h(x \<mapsto> q, y \<mapsto> r))"
  by (auto simp: frame_def)

lemma frame_refl [simp]: "frame A h h"
  by (simp add: frame_def)

lemma links [mem_simps]:
  "get_next h (Some a) = h a" "h a = Some n \<Longrightarrow> set_next h (Some a) q = Some (h(a \<mapsto> q))"
  by (simp_all add: get_next_def set_next_def)

text \<open>Linking \<open>e\<close> in between and unlinking \<open>a\<close>.\<close>

lemma seg_insert:
  assumes "seg h p xs (hdp ys)" and "seg h (hdp ys) ys None" and "xs \<noteq> []"
    and "distinct (xs @ ys)" and "e \<notin> set xs \<union> set ys"
  shows "seg (h(e \<mapsto> hdp ys, last xs \<mapsto> Some e)) p (xs @ e # ys) None"
proof -
  let ?h = "h(e \<mapsto> hdp ys)"
  have "last xs \<notin> set ys" using assms by (auto dest: last_in_set)
  moreover have "seg ?h p xs (hdp ys)" "seg ?h (hdp ys) ys None" using assms by simp_all
  ultimately have "seg (?h(last xs \<mapsto> Some e)) p xs (Some e)" "seg (?h(last xs \<mapsto> Some e)) (hdp ys) ys None"
    using assms seg_set_last [of ?h p xs] by auto
  moreover have "last xs \<noteq> e" using assms by auto
  ultimately show ?thesis by simp
qed

lemma seg_delete:
  assumes "seg h p xs (Some a)" and "h a = Some n" and "seg h n ys None" and "xs \<noteq> []"
    and "distinct (xs @ a # ys)"
  shows "seg (h(last xs \<mapsto> n)) p (xs @ ys) None"
proof -
  have "last xs \<notin> set ys" using assms by (auto dest: last_in_set)
  then show ?thesis using assms seg_set_last [of h p xs] by auto
qed

section \<open>The scans\<close>

lemma find_scan_eq:
  "seg h p xs None \<Longrightarrow> find_scan h (Some a) p = Some (if a \<in> set xs then Some a else None)"
proof (induction xs arbitrary: p)
  case Nil
  then show ?case by (subst find_scan.simps) simp
next
  case (Cons x xs)
  then show ?case by (subst find_scan.simps) (auto simp: links split: option.splits)
qed

lemma find_scan_None: "seg h p xs None \<Longrightarrow> find_scan h None p = Some None"
  by (induction xs arbitrary: p; subst find_scan.simps) (auto simp: links split: option.splits)

lemma cnt_loop_eq: "seg h p xs None \<Longrightarrow> cnt_loop h c p = Some (c + of_nat (length xs))"
  by (induction xs arbitrary: p c; subst cnt_loop.simps)
    (auto simp: links utils_list_next_def split: option.splits)

lemma extract_scan_eq:
  "seg h p (xs @ [s]) q \<Longrightarrow> a \<notin> set xs \<Longrightarrow> a \<noteq> s \<Longrightarrow> q = None \<or> q = Some a \<Longrightarrow>
    extract_scan h (Some a) p = Some (Some s)"
  by (induction xs arbitrary: p; subst extract_scan.simps) (auto simp: links hdp_def split: option.splits)

lemma before_scan_eq:
  "seg h p (xs @ [s]) (Some a) \<Longrightarrow> a \<notin> set xs \<Longrightarrow> a \<noteq> s \<Longrightarrow> before_scan h (Some a) p = Some (Some s)"
  by (induction xs arbitrary: p; subst before_scan.simps) (auto simp: links split: option.splits)

lemma before_scan_none: "seg h p xs None \<Longrightarrow> a \<notin> set xs \<Longrightarrow> before_scan h (Some a) p = Some None"
  by (induction xs arbitrary: p; subst before_scan.simps) (auto simp: links split: option.splits)

lemma slist_tail_eq: "seg h p (xs @ [s]) None \<Longrightarrow> utils_slist_tail p h = Some (Some s)"
  by (induction xs arbitrary: p; subst utils_slist_tail.simps) (auto simp: links split: option.splits)

lemma insert_scan_eq:
  "seg h p xs None \<Longrightarrow> insert_scan cmp e h prev p l =
    Some (if takeWhile (\<lambda>x. \<not> cmp e x) xs = [] then prev else Some (last (takeWhile (\<lambda>x. \<not> cmp e x) xs)),
      hdp (dropWhile (\<lambda>x. \<not> cmp e x) xs),
      if dropWhile (\<lambda>x. \<not> cmp e x) xs = [] then l\<lparr>list_last := Some e\<rparr> else l)"
proof (induction xs arbitrary: p prev)
  case Nil
  then show ?case by (subst insert_scan.simps) simp
next
  case (Cons x xs)
  then obtain n where n: "p = Some x" "h x = Some n" "seg h n xs None" by (auto split: option.splits)
  then show ?case using Cons.IH [OF n(3)] by (subst insert_scan.simps) (simp add: links)
qed

section \<open>The operations on the represented sequence\<close>

lemma rep_init: "represents h utils_list_init []"
  by (simp add: represents_def utils_list_init_def)

lemma rep_empty: "represents h l xs \<Longrightarrow> utils_list_is_empty l \<longleftrightarrow> xs = []"
  by (auto simp: represents_def utils_list_is_empty_def dest: seg_hdp)

lemma rep_first: "represents h l xs \<Longrightarrow> list_first l = hdp xs"
  by (auto simp: represents_def dest: seg_hdp)

lemma rep_frame: "represents h l xs \<Longrightarrow> frame A h h' \<Longrightarrow> A \<inter> set xs = {} \<Longrightarrow> represents h' l xs"
proof -
  have "(\<forall>x \<in> set xs. h' x = h x) \<Longrightarrow> seg h p xs q \<Longrightarrow> seg h' p xs q" for p q
    by (induction xs arbitrary: p) (auto split: option.splits)
  then show "represents h l xs \<Longrightarrow> frame A h h' \<Longrightarrow> A \<inter> set xs = {} \<Longrightarrow> represents h' l xs"
    unfolding represents_def frame_def by blast
qed

lemma push_back_rep:
  assumes "represents h l xs" and "e \<notin> set xs" and "e \<in> dom h"
  shows "\<exists>l' h'. utils_list_push_back l (Some e) h = Some (l', h') \<and>
    represents h' l' (xs @ [e]) \<and> frame (insert e (set xs)) h h'"
proof (cases "xs = []")
  case True
  then show ?thesis using assms
    by (auto simp: utils_list_push_back_def utils_list_is_empty_def links represents_def intro!: frame_upd)
next
  case False
  obtain n where e: "h e = Some n" using assms by auto
  have s: "seg h (list_first l) xs None" "distinct xs" "list_last l = Some (last xs)"
    using assms False by (auto simp: represents_def)
  have h: "h (last xs) = Some None" using seg_last_next [OF s(1) False] .
  have ne: "last xs \<noteq> e" using False assms(2) by auto
  let ?h = "h(last xs \<mapsto> Some e, e \<mapsto> None)"
  have "utils_list_push_back l (Some e) h = Some (l\<lparr>list_last := Some e\<rparr>, ?h)"
    using False assms(1) e h ne by (simp add: utils_list_push_back_def rep_empty s(3) links)
  moreover have "seg ?h (list_first l) (xs @ [e]) None"
    using seg_set_last [OF s(1,2) False, of "Some e"] assms(2) by simp
  moreover have "frame (insert e (set xs)) h ?h"
    using e h False by (intro frame_upd2) auto
  ultimately show ?thesis using s assms(2) by (simp add: represents_def)
qed

lemma push_front_rep:
  assumes "represents h l xs" and "e \<notin> set xs" and "e \<in> dom h"
  shows "\<exists>l' h'. utils_list_push_front l (Some e) h = Some (l', h') \<and>
    represents h' l' (e # xs) \<and> frame (insert e (set xs)) h h'"
  using assms rep_first [OF assms(1)]
  by (auto simp: utils_list_push_front_def rep_empty links represents_def Let_def intro!: frame_upd)

lemma pop_front_rep:
  assumes "represents h l xs"
  shows "\<exists>l'. utils_list_pop_front l h = Some (hdp xs, l') \<and> represents h l' (tl xs)"
  using assms
  by (cases xs) (auto simp: utils_list_pop_front_def represents_def links split: option.splits)

lemma represents_split:
  assumes "represents h l (as @ a # bs)"
  obtains n where "seg h (list_first l) as (Some a)" "h a = Some n" "seg h n bs None" "n = hdp bs"
    "distinct (as @ a # bs)" "list_last l = Some (last (a # bs))"
proof -
  obtain n where "seg h (list_first l) as (Some a)" "h a = Some n" "seg h n bs None"
      "distinct (as @ a # bs)" "list_last l = Some (last (a # bs))"
    using assms by (auto simp: represents_def split: option.splits)
  then show ?thesis using that seg_hdp by blast
qed

lemma extract_rep:
  assumes "represents h l xs"
  shows "\<exists>l' h'. utils_list_extract l (Some a) h = Some (l', h') \<and> represents h' l' (remove1 a xs) \<and>
    frame (set xs) h h'"
proof (cases "a \<in> set xs")
  case True
  then obtain as bs where xs: "xs = as @ a # bs" "a \<notin> set as" by (meson split_list_first)
  then obtain n where n: "seg h (list_first l) as (Some a)" "h a = Some n" "seg h n bs None" "n = hdp bs"
      "distinct (as @ a # bs)" "list_last l = Some (last (a # bs))"
    using assms by (auto elim: represents_split)
  have rm: "remove1 a xs = as @ bs" using xs by (simp add: remove1_append)
  show ?thesis
  proof (cases "as = []")
    case True
    then show ?thesis using n rm
      by (auto simp: utils_list_extract_def links represents_def xs)
  next
    case False
    then obtain cs s where as: "as = cs @ [s]" by (metis append_butlast_last_id)
    let ?l = "if list_last l = Some a then l\<lparr>list_last := Some s\<rparr> else l"
    have s: "h s = Some (Some a)" using seg_last_next [OF n(1) False] as by simp
    have f: "list_first l \<noteq> None" "list_first l \<noteq> Some a" using n(1) as xs(2) by (cases cs; auto)+
    have "extract_scan h (Some a) (list_first l) = Some (Some s)"
      using n(1) xs(2) as by (intro extract_scan_eq [of h _ cs s "Some a"]) auto
    then have "utils_list_extract l (Some a) h = Some (?l, h(s \<mapsto> n))"
      using f s n(2) by (auto simp: utils_list_extract_def links Let_def)
    moreover have "seg (h(s \<mapsto> n)) (list_first l) (as @ bs) None"
      using seg_delete [OF n(1-3) False n(5)] as by simp
    moreover have "frame (set xs) h (h(s \<mapsto> n))" using s xs as by (intro frame_upd) auto
    moreover have "list_last ?l = Some (last (as @ bs))"
      using n(5,6) as by auto
    ultimately show ?thesis using rm n(5) by (auto simp: represents_def)
  qed
next
  case False
  then have rm: "remove1 a xs = xs" by (simp add: remove1_idem)
  have s: "seg h (list_first l) xs None" using assms by (simp add: represents_def)
  show ?thesis
  proof (cases xs rule: rev_cases)
    case Nil
    then show ?thesis using s assms rm by (auto simp: utils_list_extract_def)
  next
    case (snoc cs z)
    have "extract_scan h (Some a) (list_first l) = Some (Some z)"
      using s False snoc by (intro extract_scan_eq [of h _ cs z None]) auto
    moreover have "h z = Some None" using seg_last_next [OF s] snoc by simp
    moreover have "list_first l \<noteq> None" "list_first l \<noteq> Some a" using s snoc False by (cases cs; auto)+
    ultimately show ?thesis using assms rm by (auto simp: utils_list_extract_def links Let_def)
  qed
qed

lemma find_rep: "represents h l xs \<Longrightarrow> utils_list_find l (Some a) h = Some (a \<in> set xs)"
  by (auto simp: utils_list_find_def represents_def find_scan_eq)

lemma cnt_rep: "represents h l xs \<Longrightarrow> utils_list_cnt l h = Some (of_nat (length xs))"
  using cnt_loop_eq [of h "list_first l" xs 0]
  by (simp add: utils_list_cnt_def utils_list_pick_def represents_def)

definition insert_by :: "(nat \<Rightarrow> nat \<Rightarrow> bool) \<Rightarrow> nat \<Rightarrow> nat list \<Rightarrow> nat list" where
  "insert_by cmp e xs = takeWhile (\<lambda>x. \<not> cmp e x) xs @ e # dropWhile (\<lambda>x. \<not> cmp e x) xs"

lemma insert_rep:
  assumes "represents h l xs" and "e \<notin> set xs" and "e \<in> dom h"
  shows "\<exists>l' h'. utils_list_insert l e cmp h = Some (l', h') \<and>
    represents h' l' (insert_by cmp e xs) \<and> frame (insert e (set xs)) h h'"
proof -
  define as where "as = takeWhile (\<lambda>x. \<not> cmp e x) xs"
  define bs where "bs = dropWhile (\<lambda>x. \<not> cmp e x) xs"
  have xs: "xs = as @ bs" by (simp add: as_def bs_def)
  have r: "seg h (list_first l) xs None" "distinct xs" "xs \<noteq> [] \<Longrightarrow> list_last l = Some (last xs)"
    using assms by (auto simp: represents_def)
  obtain n where e: "h e = Some n" using assms by auto
  let ?l = "if bs = [] then l\<lparr>list_last := Some e\<rparr> else l"
  have scan: "insert_scan cmp e h None (list_first l) l =
      Some (if as = [] then None else Some (last as), hdp bs, ?l)"
    using insert_scan_eq [OF r(1), of cmp e None l] by (simp add: as_def bs_def)
  show ?thesis
  proof (cases "as = []")
    case True
    let ?h = "h(e \<mapsto> hdp bs)"
    have "seg h (hdp bs) bs None" using r(1) True xs seg_hdp by auto
    then have "seg ?h (Some e) (e # bs) None" using assms(2) xs by simp
    moreover have "utils_list_insert l e cmp h = Some (?l\<lparr>list_first := Some e\<rparr>, ?h)"
      using True e by (simp add: utils_list_insert_def scan links)
    moreover have "insert_by cmp e xs = e # bs" using True by (simp add: insert_by_def as_def bs_def)
    moreover have "frame (insert e (set xs)) h ?h" using e by (intro frame_upd) auto
    ultimately show ?thesis using True xs r assms(2) by (auto simp: represents_def)
  next
    case False
    let ?h = "h(e \<mapsto> hdp bs, last as \<mapsto> Some e)"
    have s: "seg h (list_first l) as (hdp bs)" "seg h (hdp bs) bs None" using r(1) xs seg_hdp by auto
    have "h (last as) = Some (hdp bs)" by (rule seg_last_next [OF s(1) False])
    moreover have "last as \<noteq> e" using False assms(2) xs by auto
    ultimately have "utils_list_insert l e cmp h = Some (?l, ?h)"
      using False e by (simp add: utils_list_insert_def scan links)
    moreover have "seg ?h (list_first l) (as @ e # bs) None"
      using seg_insert [OF s False] r(2) assms(2) xs by simp
    moreover have "frame (insert e (set xs)) h ?h"
      using e \<open>h (last as) = _\<close> False xs by (intro frame_upd2) auto
    moreover have "insert_by cmp e xs = as @ e # bs" by (simp add: insert_by_def as_def bs_def)
    ultimately show ?thesis using xs r assms(2) by (auto simp: represents_def)
  qed
qed

definition insert_after :: "nat \<Rightarrow> nat \<Rightarrow> nat list \<Rightarrow> nat list" where
  "insert_after p e xs = takeWhile (\<lambda>x. x \<noteq> p) xs @ p # e # tl (dropWhile (\<lambda>x. x \<noteq> p) xs)"

definition insert_before :: "nat \<Rightarrow> nat \<Rightarrow> nat list \<Rightarrow> nat list" where
  "insert_before p e xs = takeWhile (\<lambda>x. x \<noteq> p) xs @ e # dropWhile (\<lambda>x. x \<noteq> p) xs"

lemma while_split:
  assumes "a \<notin> set as"
  shows "takeWhile (\<lambda>x. x \<noteq> a) (as @ a # bs) = as" "dropWhile (\<lambda>x. x \<noteq> a) (as @ a # bs) = a # bs"
  using assms by (induction as) auto

lemma insert_after_rep:
  assumes "represents h l xs" and "e \<notin> set xs" and "e \<in> dom h"
  shows "\<exists>l' h'. utils_list_insert_after l (Some p) (Some e) h = Some (l', h') \<and>
    represents h' l' (if p \<in> set xs then insert_after p e xs else xs) \<and> frame (insert e (set xs)) h h'"
proof -
  have scan: "find_scan h (Some p) (list_first l) = Some (if p \<in> set xs then Some p else None)"
    using assms(1) by (intro find_scan_eq) (simp add: represents_def)
  show ?thesis
  proof (cases "p \<in> set xs")
    case False
    then show ?thesis using scan assms(1) by (simp add: utils_list_insert_after_def)
  next
    case True
    then obtain as bs where xs: "xs = as @ p # bs" "p \<notin> set as" by (meson split_list_first)
    obtain n where n: "seg h (list_first l) as (Some p)" "h p = Some n" "seg h n bs None" "n = hdp bs"
      "distinct (as @ p # bs)" "list_last l = Some (last (p # bs))"
      using assms(1) xs by (auto elim: represents_split)
    obtain m where e: "h e = Some m" "e \<noteq> p" using assms xs by auto
    let ?h = "h(e \<mapsto> n, p \<mapsto> Some e)"
    let ?l = "if n = None then l\<lparr>list_last := Some e\<rparr> else l"
    have "utils_list_insert_after l (Some p) (Some e) h = Some (?l, ?h)"
      using scan True n(2) e by (auto simp: utils_list_insert_after_def links)
    moreover have "seg ?h (list_first l) ((as @ [p]) @ e # bs) None"
      using seg_insert [of h "list_first l" "as @ [p]" bs e] n assms(2) xs e by auto
    moreover have "insert_after p e xs = (as @ [p]) @ e # bs"
      using xs by (simp add: insert_after_def while_split)
    moreover have "frame (insert e (set xs)) h ?h" using n(2) e xs by (intro frame_upd2) auto
    ultimately show ?thesis using True n assms(2) xs by (auto simp: represents_def)
  qed
qed

lemma insert_before_rep:
  assumes "represents h l xs" and "e \<notin> set xs" and "e \<in> dom h" and p: "p \<noteq> e"
  shows "\<exists>l' h'. utils_list_insert_before l (Some p) (Some e) h = Some (l', h') \<and>
    represents h' l' (if p \<in> set xs then insert_before p e xs else xs) \<and> frame (insert e (set xs)) h h'"
proof (cases "p \<in> set xs")
  case False
  have s: "seg h (list_first l) xs None" using assms(1) by (simp add: represents_def)
  then have "before_scan h (Some p) (list_first l) = Some None" using False by (rule before_scan_none)
  moreover have "Some p \<noteq> list_first l" using s False by (cases xs) auto
  ultimately show ?thesis using False assms(1) by (simp add: utils_list_insert_before_def)
next
  case True
  then obtain as bs where xs: "xs = as @ p # bs" "p \<notin> set as" by (meson split_list_first)
  have ib: "insert_before p e xs = as @ e # p # bs" using xs by (simp add: insert_before_def while_split)
  obtain n where n: "seg h (list_first l) as (Some p)" "h p = Some n" "seg h n bs None" "n = hdp bs"
      "distinct (as @ p # bs)" "list_last l = Some (last (p # bs))"
    using assms(1) xs by (auto elim: represents_split)
  obtain m where e: "h e = Some m" using assms by auto
  show ?thesis
  proof (cases "as = []")
    case Nil: True
    then have "list_first l = Some p" using n(1) by auto
    then have "utils_list_insert_before l (Some p) (Some e) h = utils_list_push_front l (Some e) h"
      by (simp add: utils_list_insert_before_def)
    then show ?thesis using push_front_rep [OF assms(1-3)] ib Nil xs True by simp
  next
    case False
    then obtain cs s where as: "as = cs @ [s]" by (metis append_butlast_last_id)
    let ?h = "h(e \<mapsto> Some p, s \<mapsto> Some e)"
    have s: "h s = Some (Some p)" using seg_last_next [OF n(1) False] as by simp
    have f: "list_first l \<noteq> None" "Some p \<noteq> list_first l" using n(1) as xs(2) by (cases cs; auto)+
    have "before_scan h (Some p) (list_first l) = Some (Some s)"
      using n(1) xs(2) as by (intro before_scan_eq [of h _ cs s]) auto
    moreover have "s \<noteq> e" using assms(2) xs as by auto
    ultimately have "utils_list_insert_before l (Some p) (Some e) h = Some (l, ?h)"
      using f s e by (simp add: utils_list_insert_before_def links)
    moreover have "seg ?h (list_first l) (as @ e # p # bs) None"
      using seg_insert [of h "list_first l" as "p # bs" e] n assms(2) xs as by auto
    moreover have "frame (insert e (set xs)) h ?h" using s e xs as by (intro frame_upd2) auto
    ultimately show ?thesis using True ib n(5,6) assms(2) xs by (auto simp: represents_def)
  qed
qed

lemma concat_rep:
  assumes "represents h l1 xs" and "represents h l2 ys" and "set xs \<inter> set ys = {}"
  shows "\<exists>l1' l2' h'. utils_list_concat l1 l2 h = Some (l1', l2', h') \<and>
    represents h' l1' (xs @ ys) \<and> represents h' l2' [] \<and> frame (set xs) h h'"
proof (cases "xs = [] \<or> ys = []")
  case True
  then show ?thesis
    using assms rep_first [OF assms(1)] rep_first [OF assms(2)]
    by (auto simp: utils_list_concat_def represents_def)
next
  case False
  then have ne: "xs \<noteq> []" "ys \<noteq> []" by auto
  have x: "seg h (list_first l1) xs None" "distinct xs" "list_last l1 = Some (last xs)"
    and y: "seg h (list_first l2) ys None" "distinct ys" "list_last l2 = Some (last ys)"
    using assms ne by (auto simp: represents_def)
  let ?h = "h(last xs \<mapsto> list_first l2)"
  have l: "h (last xs) = Some None" by (rule seg_last_next [OF x(1) ne(1)])
  have d: "last xs \<notin> set ys" using assms(3) ne(1) by (auto dest: last_in_set)
  have "utils_list_concat l1 l2 h = Some (l1\<lparr>list_last := list_last l2\<rparr>, l2\<lparr>list_first := None\<rparr>, ?h)"
    using ne l x(3) rep_first [OF assms(1)] rep_first [OF assms(2)]
    by (simp add: utils_list_concat_def links)
  moreover have "seg ?h (list_first l1) (xs @ ys) None"
    using seg_set_last [OF x(1,2) ne(1)] y(1) d by auto
  moreover have "frame (set xs) h ?h" using l ne(1) by (intro frame_upd) auto
  ultimately show ?thesis using x y ne assms(3) by (auto simp: represents_def)
qed

lemma remove_rep:
  assumes "represents h l (as @ a # bs)"
  shows "\<exists>l' h'. utils_list_remove l (if as = [] then None else Some (last as)) (Some a) h = Some (l', h') \<and>
    represents h' l' (as @ bs) \<and> h' a = Some None \<and> frame (set (as @ a # bs)) h h'"
proof -
  obtain n where n: "seg h (list_first l) as (Some a)" "h a = Some n" "seg h n bs None" "n = hdp bs"
      "distinct (as @ a # bs)" "list_last l = Some (last (a # bs))"
    using assms by (auto elim: represents_split)
  show ?thesis
  proof (cases "as = []")
    case True
    then show ?thesis using n
      by (auto simp: utils_list_remove_def links represents_def intro!: frame_upd)
  next
    case False
    then obtain cs s where as: "as = cs @ [s]" by (metis append_butlast_last_id)
    have s: "h s = Some (Some a)" using seg_last_next [OF n(1) False] as by simp
    have ne: "s \<noteq> a" using n(5) as by auto
    let ?l = "if list_last l = Some a then l\<lparr>list_last := Some s\<rparr> else l"
    let ?h = "h(s \<mapsto> n, a \<mapsto> None)"
    have "utils_list_remove l (Some s) (Some a) h = Some (?l, ?h)"
      using n(2) s ne by (simp add: utils_list_remove_def links)
    moreover have "seg ?h (list_first l) (as @ bs) None"
      using seg_delete [OF n(1-3) False n(5)] n(5) as by simp
    moreover have "frame (set (as @ a # bs)) h ?h" using n(2) s as by (intro frame_upd2) auto
    ultimately show ?thesis using n as by (auto simp: represents_def)
  qed
qed

lemma frame_trans: "frame A h h1 \<Longrightarrow> frame B h1 h2 \<Longrightarrow> A \<subseteq> C \<Longrightarrow> B \<subseteq> C \<Longrightarrow> frame C h h2"
  unfolding frame_def by (metis subsetD)

lemma pool_slots: "[pool] @ map (\<lambda>i. pool + sz + i * sz) [0..<n] = map (\<lambda>i. pool + i * sz) [0..<Suc n]"
  by (simp only: upt_conv_Cons map_Suc_upt [symmetric] list.map map_map comp_def)
    (simp add: add.commute add.left_commute)

lemma pool_init_rep:
  "represents h l xs \<Longrightarrow> (\<And>i. i < n \<Longrightarrow> pool + i * sz \<in> dom h \<and> pool + i * sz \<notin> set xs) \<Longrightarrow> 0 < sz \<Longrightarrow>
    \<exists>l' h'. pool_init_loop sz dflt n pool l h = Some (l', h') \<and>
      represents h' l' (xs @ map (\<lambda>i. pool + i * sz) [0..<n]) \<and>
      frame (set xs \<union> (\<lambda>i. pool + i * sz) ` {0..<n}) h h'"
proof (induction n arbitrary: pool l h xs)
  case (Suc n)
  have p: "pool \<in> dom h" "pool \<notin> set xs" using Suc.prems(2) [of 0] by auto
  have fr: "frame {pool} h (h(pool \<mapsto> d))" for d using p(1) by (intro frame_upd) auto
  obtain h1 where h1: "(case dflt of None \<Rightarrow> Some h | Some d \<Rightarrow> set_next h (Some pool) d) = Some h1"
      "frame {pool} h h1"
    using p(1) fr that by (cases dflt) (auto simp: links)
  have "represents h1 l xs" using rep_frame [OF Suc.prems(1) h1(2)] p by simp
  moreover have "pool \<in> dom h1" using h1(2) p by (simp add: frame_def)
  ultimately obtain l2 h2 where h2: "utils_list_push_back l (Some pool) h1 = Some (l2, h2)"
      "represents h2 l2 (xs @ [pool])" "frame (insert pool (set xs)) h1 h2"
    using push_back_rep p(2) by blast
  have "pool + sz + i * sz \<in> dom h2 \<and> pool + sz + i * sz \<notin> set (xs @ [pool])" if "i < n" for i
    using Suc.prems(2) [of "Suc i"] Suc.prems(3) that h1(2) h2(3) by (simp add: frame_def add.assoc)
  from Suc.IH [OF h2(2) this Suc.prems(3)] obtain l3 h3 where h3:
      "pool_init_loop sz dflt n (pool + sz) l2 h2 = Some (l3, h3)"
      "represents h3 l3 ((xs @ [pool]) @ map (\<lambda>i. pool + sz + i * sz) [0..<n])"
      "frame (set (xs @ [pool]) \<union> (\<lambda>i. pool + sz + i * sz) ` {0..<n}) h2 h3"
    by blast
  let ?C = "set xs \<union> (\<lambda>i. pool + i * sz) ` {0..<Suc n}"
  have slots: "(\<lambda>i. pool + i * sz) ` {0..<Suc n} = insert pool ((\<lambda>i. pool + sz + i * sz) ` {0..<n})"
    using arg_cong [OF pool_slots [of pool sz n], of set] by (simp add: atLeastLessThanSuc)
  have "frame ?C h h2"
    by (rule frame_trans [OF h1(2) h2(3)]) (auto simp: slots)
  then have "frame ?C h h3"
    by (rule frame_trans [OF _ h3(3)]) (auto simp: slots)
  moreover have "(xs @ [pool]) @ map (\<lambda>i. pool + sz + i * sz) [0..<n] = xs @ map (\<lambda>i. pool + i * sz) [0..<Suc n]"
    using pool_slots [of pool sz n] by (simp only: append_assoc)
  ultimately show ?case using h1 h2 h3 by (simp only: pool_init_loop.simps bind.bind_lunit prod.case) auto
qed simp

section \<open>The lists with a head node\<close>

text \<open>The head \<open>q\<close> is a node outside the sequence.\<close>

definition slist :: "heap \<Rightarrow> nat \<Rightarrow> nat list \<Rightarrow> bool" where
  "slist h q xs = (seg h (Some q) (q # xs) None \<and> distinct (q # xs))"

lemma slist_last: "slist h q xs \<Longrightarrow> utils_slist_tail (Some q) h = Some (Some (last (q # xs)))"
proof -
  assume "slist h q xs"
  moreover have "q # xs = butlast (q # xs) @ [last (q # xs)]" by simp
  ultimately show ?thesis unfolding slist_def by (metis slist_tail_eq)
qed

lemma slist_add_rep:
  assumes "slist h q xs" and "e \<notin> set (q # xs)" and "e \<in> dom h"
  shows "\<exists>h'. utils_slist_add (Some e) (Some q) h = Some h' \<and> slist h' q (e # xs) \<and> frame {q, e} h h'"
proof -
  obtain n m where n: "h q = Some n" "seg h n xs None" "h e = Some m"
    using assms by (auto simp: slist_def split: option.splits)
  let ?h = "h(e \<mapsto> n, q \<mapsto> Some e)"
  have "utils_slist_add (Some e) (Some q) h = Some ?h"
    using n assms(2) by (simp add: utils_slist_add_def links)
  moreover have "slist ?h q (e # xs)" using n assms by (auto simp: slist_def)
  moreover have "frame {q, e} h ?h" using n by (intro frame_upd2) auto
  ultimately show ?thesis by blast
qed

lemma slist_add_tail_rep:
  assumes "slist h q xs" and "e \<notin> set (q # xs)" and "e \<in> dom h"
  shows "\<exists>h'. utils_slist_add_tail (Some e) (Some q) h = Some h' \<and> slist h' q (xs @ [e]) \<and>
    frame (insert e (set (q # xs))) h h'"
proof -
  let ?t = "last (q # xs)"
  have s: "seg h (Some q) (q # xs) None" "distinct (q # xs)" using assms(1) by (simp_all add: slist_def)
  have t: "h ?t = Some None" by (rule seg_last_next [OF s(1)]) simp
  have in_t: "?t \<in> set (q # xs)" by (rule last_in_set) simp
  obtain m where e: "h e = Some m" using assms(3) by auto
  let ?h = "h(e \<mapsto> None, ?t \<mapsto> Some e)"
  have "utils_slist_add_tail (Some e) (Some q) h = Some ?h"
    using slist_last [OF assms(1)] t e assms(2) in_t
    by (auto simp: utils_slist_add_tail_def utils_slist_add_def links simp del: last.simps)
  moreover have "slist ?h q (xs @ [e])"
    using seg_insert [of h "Some q" "q # xs" "[]" e] s assms(2)
    by (simp add: slist_def del: last.simps seg.simps)
  moreover have "frame (insert e (set (q # xs))) h ?h" using t e in_t by (intro frame_upd2) auto
  ultimately show ?thesis by blast
qed

lemma slist_append_eq:
  assumes "slist h q xs" and "e \<notin> set (q # xs)" and "e \<in> dom h"
  shows "utils_slist_append (Some q) (Some e) h = utils_slist_add_tail (Some e) (Some q) h"
proof -
  let ?t = "last (q # xs)"
  have t: "h ?t = Some None"
    using assms(1) seg_last_next [of h "Some q" "q # xs" None] by (simp add: slist_def)
  have ne: "?t \<noteq> e" using assms(2) by (metis last_in_set list.discI)
  obtain m where e: "h e = Some m" using assms(3) by auto
  show ?thesis
    using slist_last [OF assms(1)] t e ne
    by (simp add: utils_slist_append_def utils_slist_add_tail_def utils_slist_add_def links fun_upd_twist
      del: last.simps)
qed

lemma slist_del_scan:
  "seg h (Some q) (q # xs @ a # bs) None \<Longrightarrow> a \<notin> set (q # xs) \<Longrightarrow>
    utils_slist_del (Some a) (Some q) h = Some (h(last (q # xs) \<mapsto> hdp bs))"
proof (induction xs arbitrary: q)
  case Nil
  then show ?case
    by (subst utils_slist_del.simps) (auto simp: links seg_hdp split: option.splits)
next
  case (Cons x xs)
  then have n: "h q = Some (Some x)" "seg h (Some x) (x # xs @ a # bs) None"
    by (auto split: option.splits)
  have l: "last (q # x # xs) = last (x # xs)" by simp
  from n show ?case
    using Cons.IH [OF n(2)] Cons.prems(2) unfolding l
    by (subst utils_slist_del.simps) (simp add: links fun_upd_def del: last.simps)
qed

lemma slist_del_none:
  "seg h (Some q) (q # xs) None \<Longrightarrow> a \<notin> set xs \<Longrightarrow> utils_slist_del (Some a) (Some q) h = Some h"
proof (induction xs arbitrary: q)
  case Nil
  then show ?case by (subst utils_slist_del.simps) (auto simp: links split: option.splits)
next
  case (Cons x xs)
  then have n: "h q = Some (Some x)" "seg h (Some x) (x # xs) None"
    by (auto split: option.splits)
  then show ?case
    using Cons.IH [OF n(2)] Cons.prems(2) by (subst utils_slist_del.simps) (simp add: links)
qed

lemma slist_del_rep:
  assumes "slist h q xs" and "a \<noteq> q"
  shows "\<exists>h'. utils_slist_del (Some a) (Some q) h = Some h' \<and> slist h' q (remove1 a xs) \<and>
    frame (set (q # xs)) h h'"
proof (cases "a \<in> set xs")
  case False
  then show ?thesis using assms slist_del_none [of h q xs a] by (auto simp: slist_def remove1_idem)
next
  case True
  then obtain as bs where xs: "xs = as @ a # bs" "a \<notin> set as" by (meson split_list_first)
  let ?t = "last (q # as)"
  let ?h = "h(?t \<mapsto> hdp bs)"
  have s: "seg h (Some q) ((q # as) @ a # bs) None" "distinct ((q # as) @ a # bs)"
    using assms(1) xs by (simp_all add: slist_def)
  then obtain r where r: "seg h (Some q) (q # as) r" "seg h r (a # bs) None"
    unfolding seg_append by blast
  then have "r = Some a" by simp
  then obtain n where n: "seg h (Some q) (q # as) (Some a)" "h a = Some n" "seg h n bs None"
    using r by (auto simp del: seg_start split: option.splits)
  have d: "utils_slist_del (Some a) (Some q) h = Some ?h"
    using slist_del_scan [of h q as a bs] s(1) xs(2) assms(2) by simp
  have "seg ?h (Some q) ((q # as) @ bs) None"
    using seg_delete [OF n _ s(2)] seg_hdp [OF n(3)] by simp
  moreover have "h ?t = Some (Some a)" by (rule seg_last_next [OF n(1)]) simp
  moreover have "?t \<in> set (q # xs)" using last_in_set [of "q # as"] xs by auto
  ultimately have "slist ?h q (remove1 a xs)" "frame (set (q # xs)) h ?h"
    using s(2) xs by (auto simp: slist_def remove1_append intro!: frame_upd simp del: last.simps seg.simps)
  with d show ?thesis by blast
qed

lemma slist_number_eq:
  "seg h (Some q) (q # xs) None \<Longrightarrow> slist_number_loop (Some q) c h = Some (c + of_nat (length xs))"
proof (induction xs arbitrary: q c)
  case Nil
  then show ?case by (subst slist_number_loop.simps) (auto simp: links split: option.splits)
next
  case (Cons x xs)
  then have n: "h q = Some (Some x)" "seg h (Some x) (x # xs) None"
    by (auto split: option.splits)
  then show ?case
    using Cons.IH [OF n(2)] by (subst slist_number_loop.simps) (simp add: links)
qed

section \<open>Both lists are queues\<close>

definition ulist_enq :: "utils_list \<times> heap \<Rightarrow> nat \<Rightarrow> (utils_list \<times> heap) option" where
  "ulist_enq s x = (case s of (l, h) \<Rightarrow> utils_list_push_back l (Some x) h)"

definition ulist_deq :: "utils_list \<times> heap \<Rightarrow> (ptr \<times> utils_list \<times> heap) option" where
  "ulist_deq s = (case s of (l, h) \<Rightarrow> do { (e, l) \<leftarrow> utils_list_pop_front l h; Some (e, l, h) })"

interpretation ulist_queue: node_queue "\<lambda>(l, h). represents h l" "\<lambda>(l, h). dom h" ulist_enq ulist_deq
proof unfold_locales
  fix s :: "utils_list \<times> heap" and xs x
  assume a: "(case s of (l, h) \<Rightarrow> represents h l) xs" "x \<in> (case s of (l, h) \<Rightarrow> dom h)" "x \<notin> set xs"
  obtain l h where s: "s = (l, h)" by (cases s)
  show "\<exists>s'. ulist_enq s x = Some s' \<and> (case s' of (l, h) \<Rightarrow> represents h l) (xs @ [x]) \<and>
      (case s' of (l, h) \<Rightarrow> dom h) = (case s of (l, h) \<Rightarrow> dom h)"
    using a push_back_rep [of h l xs x] by (auto simp: s ulist_enq_def frame_def)
next
  fix s :: "utils_list \<times> heap" and xs
  assume a: "(case s of (l, h) \<Rightarrow> represents h l) xs"
  obtain l h where s: "s = (l, h)" by (cases s)
  show "\<exists>s'. ulist_deq s = Some (if xs = [] then None else Some (hd xs), s') \<and>
      (case s' of (l, h) \<Rightarrow> represents h l) (tl xs) \<and> (case s' of (l, h) \<Rightarrow> dom h) = (case s of (l, h) \<Rightarrow> dom h)"
    using a pop_front_rep [of h l xs] by (cases xs) (auto simp: s ulist_deq_def)
qed

definition slist_enq :: "nat \<Rightarrow> heap \<Rightarrow> nat \<Rightarrow> heap option" where
  "slist_enq q h x = utils_slist_add_tail (Some x) (Some q) h"

definition slist_deq :: "nat \<Rightarrow> heap \<Rightarrow> (ptr \<times> heap) option" where
  "slist_deq q h = do {
     e \<leftarrow> utils_slist_first (Some q) h;
     h \<leftarrow> (if e = None then Some h else utils_slist_del e (Some q) h);
     Some (e, h)
   }"

interpretation slist_queue: node_queue "\<lambda>h. slist h q" "\<lambda>h. dom h - {q}" "slist_enq q" "slist_deq q" for q
proof unfold_locales
  fix h xs x
  assume "slist h q xs" "x \<in> dom h - {q}" "x \<notin> set xs"
  then show "\<exists>h'. slist_enq q h x = Some h' \<and> slist h' q (xs @ [x]) \<and> dom h' - {q} = dom h - {q}"
    using slist_add_tail_rep [of h q xs x] by (auto simp: slist_enq_def frame_def)
next
  fix h xs
  assume l: "slist h q xs"
  then have f: "utils_slist_first (Some q) h = Some (hdp xs)"
    using seg_hdp [of h _ xs] by (auto simp: slist_def utils_slist_first_def links split: option.splits)
  show "\<exists>h'. slist_deq q h = Some (if xs = [] then None else Some (hd xs), h') \<and>
      slist h' q (tl xs) \<and> dom h' - {q} = dom h - {q}"
  proof (cases xs)
    case Nil
    then show ?thesis using f l by (simp add: slist_deq_def)
  next
    case (Cons x ys)
    then have "x \<noteq> q" using l by (auto simp: slist_def)
    then show ?thesis using slist_del_rep [OF l, of x] f Cons by (auto simp: slist_deq_def frame_def)
  qed
qed

text \<open>What the properties say of an operation: it ends, and the list then stands for \<open>ys\<close>.\<close>

definition list_yields :: "nat set \<Rightarrow> heap \<Rightarrow> (utils_list \<times> heap) option \<Rightarrow> nat list \<Rightarrow> bool" where
  "list_yields A h r ys = (\<exists>l' h'. r = Some (l', h') \<and> represents h' l' ys \<and> frame A h h')"

section \<open>Properties\<close>

text \<open>
  C33: every inserting operation of \<open>utils_list\<close> runs without an invalid access, terminates, puts a
  new header at its place in the represented sequence and writes only links of that sequence and
  of the new header: at the end, at the front, before the first element that the comparison
  orders after it, behind or before a given element (and nowhere when that element is missing).
\<close>

theorem list_insert_ops:
  assumes "represents h l xs" and "e \<notin> set xs" and "e \<in> dom h"
  shows "list_yields (insert e (set xs)) h (utils_list_push_back l (Some e) h) (xs @ [e]) \<and>
    list_yields (insert e (set xs)) h (utils_list_push_front l (Some e) h) (e # xs) \<and>
    list_yields (insert e (set xs)) h (utils_list_insert l e cmp h) (insert_by cmp e xs) \<and>
    list_yields (insert e (set xs)) h (utils_list_insert_after l None (Some e) h) (e # xs) \<and>
    list_yields (insert e (set xs)) h (utils_list_insert_after l (Some p) (Some e) h)
      (if p \<in> set xs then insert_after p e xs else xs) \<and>
    list_yields (insert e (set xs)) h (utils_list_insert_before l None (Some e) h) (xs @ [e]) \<and>
    (p \<noteq> e \<longrightarrow> list_yields (insert e (set xs)) h (utils_list_insert_before l (Some p) (Some e) h)
      (if p \<in> set xs then insert_before p e xs else xs))"
proof -
  have "utils_list_insert_after l None (Some e) h = utils_list_push_front l (Some e) h"
    "utils_list_insert_before l None (Some e) h = utils_list_push_back l (Some e) h"
    by (simp_all add: utils_list_insert_after_def utils_list_insert_before_def)
  then show ?thesis
    using push_back_rep [OF assms] push_front_rep [OF assms] insert_rep [OF assms, of cmp]
      insert_after_rep [OF assms, of p] impI [OF insert_before_rep [OF assms, of p]]
    by (simp only: list_yields_def simp_thms)
qed

theorem list_insert_ops_witness:
  "list_yields (insert 5 (set [1, 2])) [1 \<mapsto> Some 2, 2 \<mapsto> None, 5 \<mapsto> None]
    (utils_list_insert \<lparr>list_first = Some 1, list_last = Some 2\<rparr> 5 (\<lambda>a b. b = 2)
      [1 \<mapsto> Some 2, 2 \<mapsto> None, 5 \<mapsto> None]) [1, 5, 2]"
proof -
  have "insert_by (\<lambda>a b. b = 2) 5 [1, 2] = [1, 5, 2]" by (simp add: insert_by_def)
  moreover have "represents [1 \<mapsto> Some 2, 2 \<mapsto> None, 5 \<mapsto> None] \<lparr>list_first = Some 1, list_last = Some 2\<rparr> [1, 2]"
    by (simp add: represents_def)
  ultimately show ?thesis
    using list_insert_ops [of "[1 \<mapsto> Some 2, 2 \<mapsto> None, 5 \<mapsto> None]"
        "\<lparr>list_first = Some 1, list_last = Some 2\<rparr>" "[1, 2]" 5 "\<lambda>a b. b = 2" 1]
    by auto
qed

text \<open>
  C34: the operations that take headers out or look for them: the first header is popped, the
  first occurrence of a header is extracted (a missing one changes nothing), a header is removed
  given its predecessor and left with a cleared link, two lists are concatenated, and the search and
  the count are right.  A search for \<open>NULL\<close> always succeeds.
\<close>

theorem list_remove_ops:
  assumes "represents h l xs"
  shows "(\<exists>l'. utils_list_pop_front l h = Some (hdp xs, l') \<and> represents h l' (tl xs)) \<and>
    (\<exists>l' h'. utils_list_extract l (Some a) h = Some (l', h') \<and> represents h' l' (remove1 a xs) \<and>
      frame (set xs) h h') \<and>
    (\<forall>as bs. xs = as @ a # bs \<longrightarrow> (\<exists>l' h'.
      utils_list_remove l (if as = [] then None else Some (last as)) (Some a) h = Some (l', h') \<and>
      represents h' l' (as @ bs) \<and> h' a = Some None \<and> frame (set xs) h h')) \<and>
    (represents h l2 ys \<and> set xs \<inter> set ys = {} \<longrightarrow> (\<exists>l1' l2' h'.
      utils_list_concat l l2 h = Some (l1', l2', h') \<and> represents h' l1' (xs @ ys) \<and>
      represents h' l2' [] \<and> frame (set xs) h h')) \<and>
    utils_list_find l (Some a) h = Some (a \<in> set xs) \<and> utils_list_find l None h = Some True \<and>
    utils_list_cnt l h = Some (of_nat (length xs))"
proof -
  have "seg h (list_first l) xs None" using assms by (simp add: represents_def)
  then have "utils_list_find l None h = Some True" by (simp add: utils_list_find_def find_scan_None)
  moreover have "\<exists>l' h'. utils_list_remove l (if as = [] then None else Some (last as)) (Some a) h = Some (l', h') \<and>
      represents h' l' (as @ bs) \<and> h' a = Some None \<and> frame (set xs) h h'" if "xs = as @ a # bs" for as bs
    using remove_rep [of h l as a bs] assms that by simp
  moreover note pop_front_rep [OF assms] extract_rep [OF assms, of a] find_rep [OF assms, of a] cnt_rep [OF assms]
  moreover have "represents h l2 ys \<and> set xs \<inter> set ys = {} \<longrightarrow> (\<exists>l1' l2' h'.
      utils_list_concat l l2 h = Some (l1', l2', h') \<and> represents h' l1' (xs @ ys) \<and>
      represents h' l2' [] \<and> frame (set xs) h h')"
    using concat_rep [OF assms] by blast
  ultimately show ?thesis by blast
qed

theorem list_remove_ops_witness:
  "\<exists>l' h'. utils_list_extract \<lparr>list_first = Some 1, list_last = Some 2\<rparr> (Some 2)
      [1 \<mapsto> Some 2, 2 \<mapsto> None] = Some (l', h') \<and> represents h' l' [1]"
proof -
  have "represents [1 \<mapsto> Some 2, 2 \<mapsto> None] \<lparr>list_first = Some 1, list_last = Some 2\<rparr> [1, 2]"
    by (simp add: represents_def)
  from list_remove_ops [OF this, of 2 "\<lparr>list_first = None, list_last = None\<rparr>" "[]"] show ?thesis
    by auto
qed

text \<open>
  C32: \<open>utils_list_insert\<close> keeps a list sorted.  When the client's comparison \<open>cmp a b\<close> says that a
  key of \<open>a\<close> is below the key of \<open>b\<close>, a list with ascending keys stays ascending, gains exactly
  the new header, and the new header comes behind those with an equal key.
\<close>

theorem list_insert_sorted:
  fixes key :: "nat \<Rightarrow> 'k::linorder"
  assumes "represents h l xs" and "e \<notin> set xs" and "e \<in> dom h" and "sorted (map key xs)"
  shows "\<exists>l' h' as bs. utils_list_insert l e (\<lambda>a b. key a < key b) h = Some (l', h') \<and>
    represents h' l' (as @ e # bs) \<and> xs = as @ bs \<and> sorted (map key (as @ e # bs)) \<and>
    (\<forall>x \<in> set as. key x \<le> key e) \<and> (\<forall>x \<in> set bs. key e < key x)"
proof -
  define as where "as = takeWhile (\<lambda>x. \<not> key e < key x) xs"
  define bs where "bs = dropWhile (\<lambda>x. \<not> key e < key x) xs"
  have xs: "xs = as @ bs" by (simp add: as_def bs_def)
  have a: "\<forall>x \<in> set as. key x \<le> key e" by (auto simp: as_def dest: set_takeWhileD)
  have b: "\<forall>x \<in> set bs. key e < key x"
  proof (cases bs)
    case (Cons y ys)
    then have "key e < key y" using hd_dropWhile [of "\<lambda>x. \<not> key e < key x" xs] by (simp add: bs_def)
    then show ?thesis using assms(4) Cons by (auto simp: xs sorted_append)
  qed simp
  have "sorted (map key (as @ e # bs))"
    using assms(4) a b by (auto simp: xs sorted_append less_imp_le intro: order_trans)
  moreover have "insert_by (\<lambda>a b. key a < key b) e xs = as @ e # bs"
    by (simp add: insert_by_def as_def bs_def)
  ultimately show ?thesis
    using insert_rep [OF assms(1-3), of "\<lambda>a b. key a < key b"] xs a b by metis
qed

theorem list_insert_sorted_witness:
  "\<exists>l' h' as bs. utils_list_insert \<lparr>list_first = Some 1, list_last = Some 2\<rparr> 5 (\<lambda>a b. (a mod 3) < (b mod 3))
      [1 \<mapsto> Some 2, 2 \<mapsto> None, 5 \<mapsto> None] = Some (l', h') \<and>
    represents h' l' (as @ 5 # bs) \<and> [1, 2] = as @ bs \<and> sorted (map (\<lambda>a. a mod 3) (as @ 5 # bs)) \<and>
    (\<forall>x \<in> set as. x mod 3 \<le> 5 mod 3) \<and> (\<forall>x \<in> set bs. 5 mod 3 < x mod 3)"
  by (rule list_insert_sorted) (simp_all add: represents_def)

text \<open>
  C14: both singly linked lists are queues.  For every history of insertions at the end and removals from
  the front that never inserts a node twice, the concrete run makes no invalid access and returns
  what the abstract queue returns; the heap then represents the abstract queue.
\<close>

theorem list_queue_history:
  shows "(represents h l xs \<longrightarrow> queue_spec (dom h) xs ops = Some (out, ys) \<longrightarrow>
      (\<exists>l' h'. queue_run ulist_enq ulist_deq (l, h) ops = Some (out, l', h') \<and> represents h' l' ys)) \<and>
    (slist h q xs \<longrightarrow> queue_spec (dom h - {q}) xs ops = Some (out, ys) \<longrightarrow>
      (\<exists>h'. queue_run (slist_enq q) (slist_deq q) h ops = Some (out, h') \<and> slist h' q ys))"
proof (intro conjI impI)
  assume "represents h l xs" "queue_spec (dom h) xs ops = Some (out, ys)"
  then show "\<exists>l' h'. queue_run ulist_enq ulist_deq (l, h) ops = Some (out, l', h') \<and> represents h' l' ys"
    using ulist_queue.refines [of "(l, h)" xs ops out ys] by auto
next
  assume "slist h q xs" "queue_spec (dom h - {q}) xs ops = Some (out, ys)"
  then show "\<exists>h'. queue_run (slist_enq q) (slist_deq q) h ops = Some (out, h') \<and> slist h' q ys"
    using slist_queue.refines [of h q xs ops out ys] by auto
qed

theorem list_queue_history_witness:
  "(\<exists>l' h'. queue_run ulist_enq ulist_deq (utils_list_init, [1 \<mapsto> None, 2 \<mapsto> None]) [Enq 1, Enq 2, Deq, Enq 1]
      = Some ([Some 1], l', h') \<and> represents h' l' [2, 1]) \<and>
   (\<exists>h'. queue_run (slist_enq 9) (slist_deq 9) [1 \<mapsto> None, 9 \<mapsto> None] [Enq 1, Deq, Deq]
      = Some ([Some 1, None], h') \<and> slist h' 9 [])"
  using list_queue_history [of "[1 \<mapsto> None, 2 \<mapsto> None]" utils_list_init "[]" "[Enq 1, Enq 2, Deq, Enq 1]" "[Some 1]" "[2, 1]"]
    list_queue_history [of "[1 \<mapsto> None, 9 \<mapsto> None]" _ "[]" "[Enq 1, Deq, Deq]" "[Some 1, None]" "[]" 9]
  by (simp add: rep_init slist_def)

text \<open>
  \<open>utils_list_pool_init\<close> turns a pool into the list of its elements in ascending order of address, with
  or without a default value, and writes no link outside the pool.
\<close>

theorem list_pool_init:
  assumes "0 < sz" and "\<forall>i < n. pool + i * sz \<in> dom h"
  shows "list_yields ((\<lambda>i. pool + i * sz) ` {0..<n}) h (utils_list_pool_init pool sz n dflt h)
    (map (\<lambda>i. pool + i * sz) [0..<n])"
  using pool_init_rep [OF rep_init, of n pool sz h dflt] assms
  by (simp add: list_yields_def utils_list_pool_init_def)

theorem list_pool_init_witness:
  "list_yields ((\<lambda>i. 100 + i * 8) ` {0..<2}) [100 \<mapsto> Some 7, 108 \<mapsto> None]
    (utils_list_pool_init 100 8 2 (Some (Some 55)) [100 \<mapsto> Some 7, 108 \<mapsto> None]) [100, 108]"
proof -
  have "\<forall>i < 2 :: nat. 100 + i * 8 \<in> dom [100 \<mapsto> Some 7, 108 \<mapsto> (None :: ptr)]"
    by (auto simp: less_2_cases_iff)
  from list_pool_init [OF _ this, of "Some (Some 55)"] show ?thesis by (simp add: upt_rec)
qed

end
