(* ===== verification/Utils_Dlist.thy ===== *)
theory Utils_Dlist
  imports Node_Queue
begin

text \<open>
  The circular doubly linked lists \<open>utils_dlist\<close> of \<^verbatim>\<open>components/utils/list/utils_list.h\<close>.
  The heap maps the address of a node to its two links.  An access to an address without a
  node makes an operation \<open>None\<close>.
\<close>

section \<open>Model\<close>

record utils_dlist_t =
  prev :: nat
  nxt :: nat

type_synonym dheap = "nat \<rightharpoonup> utils_dlist_t"

definition set_prev :: "dheap \<Rightarrow> nat \<Rightarrow> nat \<Rightarrow> dheap option" where
  "set_prev h a p = (case h a of None \<Rightarrow> None | Some n \<Rightarrow> Some (h(a \<mapsto> n\<lparr>prev := p\<rparr>)))"

definition set_nxt :: "dheap \<Rightarrow> nat \<Rightarrow> nat \<Rightarrow> dheap option" where
  "set_nxt h a p = (case h a of None \<Rightarrow> None | Some n \<Rightarrow> Some (h(a \<mapsto> n\<lparr>nxt := p\<rparr>)))"

definition utils_dlist_add_between :: "nat \<Rightarrow> nat \<Rightarrow> nat \<Rightarrow> dheap \<Rightarrow> dheap option" where
  "utils_dlist_add_between node p n h = do {
     h \<leftarrow> set_nxt h node n;
     h \<leftarrow> set_prev h node p;
     h \<leftarrow> set_nxt h p node;
     set_prev h n node
   }"

definition utils_dlist_add :: "nat \<Rightarrow> nat \<Rightarrow> dheap \<Rightarrow> dheap option" where
  "utils_dlist_add node queue h = do { q \<leftarrow> h queue; utils_dlist_add_between node queue (nxt q) h }"

definition utils_dlist_add_tail :: "nat \<Rightarrow> nat \<Rightarrow> dheap \<Rightarrow> dheap option" where
  "utils_dlist_add_tail node queue h = do { q \<leftarrow> h queue; utils_dlist_add_between node (prev q) queue h }"

definition utils_dlist_del :: "nat \<Rightarrow> dheap \<Rightarrow> dheap option" where
  "utils_dlist_del node h = do {
     n \<leftarrow> h node;
     h \<leftarrow> set_nxt h (prev n) (nxt n);
     set_prev h (nxt n) (prev n)
   }"

definition utils_dlist_init :: "nat \<Rightarrow> dheap \<Rightarrow> dheap option" where
  "utils_dlist_init node h = do { h \<leftarrow> set_prev h node node; set_nxt h node node }"

definition INIT_UTILS_DLIST_HEAD :: "nat \<Rightarrow> dheap \<Rightarrow> dheap option" where
  "INIT_UTILS_DLIST_HEAD l h = do { h \<leftarrow> set_nxt h l l; set_prev h l l }"

definition utils_dlist_empty :: "nat \<Rightarrow> dheap \<Rightarrow> bool option" where
  "utils_dlist_empty head h = do { n \<leftarrow> h head; Some (nxt n = head) }"

partial_function (option) dlist_number_loop :: "nat \<Rightarrow> nat \<Rightarrow> u32 \<Rightarrow> dheap \<Rightarrow> u32 option" where
  "dlist_number_loop queue cur num h = do {
     n \<leftarrow> h cur;
     if nxt n \<noteq> queue then dlist_number_loop queue (nxt n) (num + 1) h else Some num
   }"

definition utils_dlist_entry_number :: "nat \<Rightarrow> dheap \<Rightarrow> u32 option" where
  "utils_dlist_entry_number queue h = dlist_number_loop queue queue 0 h"

text \<open>\<open>utils_dlist_for_each\<close>: the nodes that the loop visits.\<close>

partial_function (option) utils_dlist_for_each :: "nat \<Rightarrow> nat \<Rightarrow> dheap \<Rightarrow> nat list option" where
  "utils_dlist_for_each head pos h =
     (if pos \<noteq> head then do {
        n \<leftarrow> h pos;
        ps \<leftarrow> utils_dlist_for_each head (nxt n) h;
        Some (pos # ps)
      } else Some [])"

section \<open>Chains\<close>

text \<open>\<open>chain h a xs b\<close>: the links in both directions along \<open>a\<close>, \<open>xs\<close>, \<open>b\<close>.\<close>

fun chain :: "dheap \<Rightarrow> nat \<Rightarrow> nat list \<Rightarrow> nat \<Rightarrow> bool" where
  "chain h a [] b = ((\<exists>n. h a = Some n \<and> nxt n = b) \<and> (\<exists>n. h b = Some n \<and> prev n = a))"
| "chain h a (x # xs) b = (chain h a [] x \<and> chain h x xs b)"

definition dlist :: "dheap \<Rightarrow> nat \<Rightarrow> nat list \<Rightarrow> bool" where
  "dlist h q xs = (chain h q xs q \<and> distinct (q # xs))"

definition dframe :: "nat set \<Rightarrow> dheap \<Rightarrow> dheap \<Rightarrow> bool" where
  "dframe A h h' = (dom h' = dom h \<and> (\<forall>x. x \<notin> A \<longrightarrow> h' x = h x))"

lemma chain_append [simp]: "chain h a (xs @ y # ys) b = (chain h a xs y \<and> chain h y ys b)"
  by (induction xs arbitrary: a) auto

definition nxt_of :: "dheap \<Rightarrow> nat \<Rightarrow> nat option" where
  "nxt_of h x = map_option nxt (h x)"

definition prev_of :: "dheap \<Rightarrow> nat \<Rightarrow> nat option" where
  "prev_of h x = map_option prev (h x)"

lemmas link_defs = nxt_of_def prev_of_def

lemma chain_Nil: "chain h a [] b \<longleftrightarrow> nxt_of h a = Some b \<and> prev_of h b = Some a"
  by (auto simp: link_defs map_option_eq_Some)

declare chain.simps(1) [simp del] chain_Nil [simp]

text \<open>
  A chain only depends on the forward links of \<open>a # xs\<close> and the backward links of \<open>xs @ [b]\<close>.
\<close>

lemma chain_split:
  "chain h a (xs @ ys) b \<longleftrightarrow> chain h a xs (hd (ys @ [b])) \<and> chain h (last (a # xs)) ys b"
  by (induction xs arbitrary: a) (cases ys; auto)+

lemma chain_cong:
  "chain h a xs b \<Longrightarrow> \<forall>x \<in> set (a # xs). nxt_of h' x = nxt_of h x \<Longrightarrow>
    \<forall>x \<in> set (xs @ [b]). prev_of h' x = prev_of h x \<Longrightarrow> chain h' a xs b"
  by (induction xs arbitrary: a) simp_all

lemma redirect_end:
  "chain h a xs b \<Longrightarrow> \<forall>x \<in> set (butlast (a # xs)). nxt_of h' x = nxt_of h x \<Longrightarrow>
    \<forall>x \<in> set xs. prev_of h' x = prev_of h x \<Longrightarrow>
    nxt_of h' (last (a # xs)) = Some e \<Longrightarrow> prev_of h' e = Some (last (a # xs)) \<Longrightarrow> chain h' a xs e"
proof (induction xs arbitrary: a)
  case (Cons x xs)
  have "chain h' x xs e"
    using Cons.prems by (intro Cons.IH) simp_all
  then show ?case using Cons.prems by simp
qed simp

lemma redirect_start:
  assumes "chain h a xs b" and "\<forall>x \<in> set xs. nxt_of h' x = nxt_of h x"
    and "\<forall>x \<in> set (tl (xs @ [b])). prev_of h' x = prev_of h x"
    and "nxt_of h' e = Some (hd (xs @ [b]))" and "prev_of h' (hd (xs @ [b])) = Some e"
  shows "chain h' e xs b"
proof (cases xs)
  case Nil
  then show ?thesis using assms by simp
next
  case (Cons y ys)
  have "chain h y ys b" "\<forall>x \<in> set (y # ys). nxt_of h' x = nxt_of h x"
      "\<forall>x \<in> set (ys @ [b]). prev_of h' x = prev_of h x"
    using assms(1-3) unfolding Cons by simp_all
  then have "chain h' y ys b" by (rule chain_cong)
  then show ?thesis using assms(4,5) unfolding Cons by simp
qed

lemma add_between_eq:
  assumes "p \<in> dom h" and "n \<in> dom h" and "e \<in> dom h" and "e \<noteq> p" and "e \<noteq> n"
  shows "\<exists>h'. utils_dlist_add_between e p n h = Some h' \<and> dframe {e, p, n} h h' \<and>
    nxt_of h' e = Some n \<and> prev_of h' e = Some p \<and> nxt_of h' p = Some e \<and> prev_of h' n = Some e \<and>
    (\<forall>x. x \<noteq> e \<and> x \<noteq> p \<longrightarrow> nxt_of h' x = nxt_of h x) \<and>
    (\<forall>x. x \<noteq> e \<and> x \<noteq> n \<longrightarrow> prev_of h' x = prev_of h x)"
proof -
  obtain np nn ne where h: "h p = Some np" "h n = Some nn" "h e = Some ne" using assms by auto
  show ?thesis
    using h assms(4,5)
    by (cases "p = n") (auto simp: utils_dlist_add_between_def set_nxt_def set_prev_def dframe_def link_defs)
qed

lemma chain_dom: "chain h a xs b \<Longrightarrow> x \<in> set (a # xs @ [b]) \<Longrightarrow> x \<in> dom h"
  by (induction xs arbitrary: a) (auto simp: link_defs)

lemma last_not_butlast: "distinct xs \<Longrightarrow> xs \<noteq> [] \<Longrightarrow> last xs \<notin> set (butlast xs)"
  by (induction xs rule: rev_induct) auto

text \<open>Linking a node in at any place.\<close>

lemma dlist_link:
  assumes "dlist h q (xs @ ys)" and "e \<notin> set (q # xs @ ys)" and "e \<in> dom h"
  shows "\<exists>h'. utils_dlist_add_between e (last (q # xs)) (hd (ys @ [q])) h = Some h' \<and>
    dlist h' q (xs @ e # ys) \<and> dframe (insert e (set (q # xs @ ys))) h h'"
proof -
  define p n where "p = last (q # xs)" and "n = hd (ys @ [q])"
  have c: "chain h q xs n" "chain h p ys q" and d: "distinct (q # xs @ ys)"
    using assms(1) by (simp_all add: dlist_def chain_split p_def n_def)
  have p: "p \<in> set (q # xs)" and n: "n \<in> set (ys @ [q])"
    unfolding p_def n_def by (rule last_in_set, simp) (rule hd_in_set, simp)
  have dom: "p \<in> dom h" "n \<in> dom h" and ne: "e \<noteq> p" "e \<noteq> n"
    using chain_dom [OF c(1)] p n assms(2) by auto
  obtain h' where h': "utils_dlist_add_between e p n h = Some h'" "dframe {e, p, n} h h'"
      "nxt_of h' e = Some n" "prev_of h' e = Some p" "nxt_of h' p = Some e" "prev_of h' n = Some e"
    and nx: "\<And>x. x \<noteq> e \<Longrightarrow> x \<noteq> p \<Longrightarrow> nxt_of h' x = nxt_of h x"
    and pv: "\<And>x. x \<noteq> e \<Longrightarrow> x \<noteq> n \<Longrightarrow> prev_of h' x = prev_of h x"
    using add_between_eq [OF dom assms(3) ne] by metis
  have "p \<notin> set (butlast (q # xs))"
    unfolding p_def using d by (intro last_not_butlast) simp_all
  then have "\<forall>x \<in> set (butlast (q # xs)). nxt_of h' x = nxt_of h x"
    using nx assms(2) in_set_butlastD [of _ "q # xs"] by fastforce
  moreover have "\<forall>x \<in> set xs. prev_of h' x = prev_of h x"
    using pv assms(2) n d by fastforce
  ultimately have end_: "chain h' q xs e"
    using h'(4,5) redirect_end [OF c(1), of h' e] by (simp only: p_def)
  have "n \<notin> set (tl (ys @ [q]))" using d by (cases ys) (auto simp: n_def)
  then have "\<forall>x \<in> set (tl (ys @ [q])). prev_of h' x = prev_of h x"
    using pv assms(2) list.set_sel(2) [of "ys @ [q]"] by fastforce
  moreover have "\<forall>x \<in> set ys. nxt_of h' x = nxt_of h x"
    using nx assms(2) p d by fastforce
  ultimately have start: "chain h' e ys q"
    using h'(3,6) redirect_start [OF c(2), of h' e] by (simp only: n_def)
  have "dframe (insert e (set (q # xs @ ys))) h h'"
    using h'(2) p n by (auto simp: dframe_def)
  then show ?thesis
    using h'(1) d assms(2) end_ start unfolding p_def n_def by (auto simp: dlist_def)
qed

text \<open>Taking a node out.\<close>

lemma dlist_unlink:
  assumes "dlist h q (xs @ a # ys)"
  shows "\<exists>h'. utils_dlist_del a h = Some h' \<and> dlist h' q (xs @ ys) \<and> dframe (set (q # xs @ ys)) h h'"
proof -
  define p n where "p = last (q # xs)" and "n = hd (ys @ [q])"
  have c: "chain h q xs a" "chain h a ys q" and d: "distinct (q # xs @ a # ys)"
    using assms by (simp_all add: dlist_def)
  have p: "p \<in> set (q # xs)" and n: "n \<in> set (ys @ [q])"
    unfolding p_def n_def by (rule last_in_set, simp) (rule hd_in_set, simp)
  have "chain h q (xs @ []) a" "chain h a ([] @ ys) q" using c by simp_all
  then have "chain h p [] a" "chain h a [] n" unfolding chain_split p_def n_def by simp_all
  then obtain na where na: "h a = Some na" "prev na = p" "nxt na = n"
    by (auto simp: link_defs map_option_eq_Some)
  have dom: "p \<in> dom h" "n \<in> dom h" using chain_dom [OF c(1)] chain_dom [OF c(2)] p n by auto
  then obtain np nn where hp: "h p = Some np" "h n = Some nn" by auto
  let ?h1 = "h(p \<mapsto> np\<lparr>nxt := n\<rparr>)"
  obtain nn1 where nn1: "?h1 n = Some nn1" "nxt nn1 = (if n = p then n else nxt nn)"
    using hp by (cases "n = p") auto
  let ?h = "?h1(n \<mapsto> nn1\<lparr>prev := p\<rparr>)"
  have del: "utils_dlist_del a h = Some ?h"
    using na hp nn1(1) by (auto simp: utils_dlist_del_def set_nxt_def set_prev_def)
  have links: "nxt_of ?h p = Some n" "prev_of ?h n = Some p"
      "\<And>x. x \<noteq> p \<Longrightarrow> nxt_of ?h x = nxt_of h x" "\<And>x. x \<noteq> n \<Longrightarrow> prev_of ?h x = prev_of h x"
    using hp nn1 by (auto simp: link_defs split: if_splits)
  have "p \<notin> set (butlast (q # xs))"
    unfolding p_def using d by (intro last_not_butlast) simp_all
  then have "\<forall>x \<in> set (butlast (q # xs)). nxt_of ?h x = nxt_of h x"
    using links(3) by fastforce
  moreover have "\<forall>x \<in> set xs. prev_of ?h x = prev_of h x"
    using links(4) n d by fastforce
  ultimately have end_: "chain ?h q xs n"
    using links(1,2) redirect_end [OF c(1), of ?h n] by (simp only: p_def)
  have "n \<notin> set (tl (ys @ [q]))" using d by (cases ys) (auto simp: n_def)
  then have "\<forall>x \<in> set (tl (ys @ [q])). prev_of ?h x = prev_of h x"
    using links(4) by fastforce
  moreover have "\<forall>x \<in> set ys. nxt_of ?h x = nxt_of h x"
    using links(3) p d by fastforce
  ultimately have start: "chain ?h p ys q"
    using links(1,2) redirect_start [OF c(2), of ?h p] by (simp only: n_def)
  have "dframe (set (q # xs @ ys)) h ?h" using hp p n by (auto simp: dframe_def)
  then show ?thesis
    using del end_ start d unfolding p_def n_def by (auto simp: dlist_def chain_split)
qed

section \<open>The operations on the represented sequence\<close>

lemma dlist_first: "dlist h q xs \<Longrightarrow> \<exists>n. h q = Some n \<and> nxt n = hd (xs @ [q]) \<and> prev n = last (q # xs)"
proof -
  assume d: "dlist h q xs"
  then have "chain h q ([] @ xs) q" "chain h q (xs @ []) q" by (simp_all add: dlist_def)
  then have "chain h q [] (hd (xs @ [q]))" "chain h (last (q # xs)) [] q"
    unfolding chain_split by simp_all
  then show ?thesis by (auto simp: link_defs map_option_eq_Some)
qed

lemma dlist_add_rep:
  assumes "dlist h q xs" and "e \<notin> set (q # xs)" and "e \<in> dom h"
  shows "\<exists>h'. utils_dlist_add e q h = Some h' \<and> dlist h' q (e # xs) \<and> dframe (insert e (set (q # xs))) h h'"
  using dlist_link [of h q "[]" xs e] dlist_first [OF assms(1)] assms
  by (auto simp: utils_dlist_add_def)

lemma dlist_add_tail_rep:
  assumes "dlist h q xs" and "e \<notin> set (q # xs)" and "e \<in> dom h"
  shows "\<exists>h'. utils_dlist_add_tail e q h = Some h' \<and> dlist h' q (xs @ [e]) \<and>
    dframe (insert e (set (q # xs))) h h'"
  using dlist_link [of h q xs "[]" e] dlist_first [OF assms(1)] assms
  by (auto simp: utils_dlist_add_tail_def simp del: last.simps)

lemma dlist_del_rep:
  assumes "dlist h q xs" and "a \<in> set xs"
  shows "\<exists>h'. utils_dlist_del a h = Some h' \<and> dlist h' q (remove1 a xs) \<and> dframe (set (q # xs)) h h'"
proof -
  obtain ys zs where xs: "xs = ys @ a # zs" "a \<notin> set ys" using assms(2) by (meson split_list_first)
  then have "remove1 a xs = ys @ zs" by (simp add: remove1_append)
  moreover have "dframe (set (q # ys @ zs)) h h' \<Longrightarrow> dframe (set (q # xs)) h h'" for h'
    by (auto simp: dframe_def xs)
  ultimately show ?thesis using dlist_unlink [of h q ys a zs] assms(1) xs by auto
qed

lemma dlist_init_rep:
  assumes "q \<in> dom h"
  shows "\<exists>h'. INIT_UTILS_DLIST_HEAD q h = Some h' \<and> utils_dlist_init q h = Some h' \<and> dlist h' q [] \<and>
    dframe {q} h h'"
proof -
  obtain n where "h q = Some n" using assms by auto
  then show ?thesis
    by (auto simp: INIT_UTILS_DLIST_HEAD_def utils_dlist_init_def set_nxt_def set_prev_def dlist_def
      link_defs dframe_def)
qed

lemma number_loop_eq:
  "chain h a xs q \<Longrightarrow> q \<notin> set xs \<Longrightarrow> dlist_number_loop q a c h = Some (c + of_nat (length xs))"
proof (induction xs arbitrary: a c)
  case Nil
  then show ?case by (subst dlist_number_loop.simps) (auto simp: link_defs map_option_eq_Some)
next
  case (Cons x xs)
  then obtain n where "h a = Some n" "nxt n = x" by (auto simp: link_defs map_option_eq_Some)
  then show ?case using Cons.IH [of x "c + 1"] Cons.prems by (subst dlist_number_loop.simps) simp
qed

lemma for_each_eq:
  "chain h a xs q \<Longrightarrow> q \<notin> set xs \<Longrightarrow> utils_dlist_for_each q (hd (xs @ [q])) h = Some xs"
proof (induction xs arbitrary: a)
  case Nil
  then show ?case by (subst utils_dlist_for_each.simps) simp
next
  case (Cons x xs)
  have c: "chain h x xs q" using Cons.prems by simp
  then have "chain h x ([] @ xs) q" by simp
  then have "chain h x [] (hd (xs @ [q]))" unfolding chain_split by simp
  then obtain n where "h x = Some n" "nxt n = hd (xs @ [q])" by (auto simp: link_defs map_option_eq_Some)
  then show ?case using Cons.IH [OF c] Cons.prems by (subst utils_dlist_for_each.simps) simp
qed

definition dlist_enq :: "nat \<Rightarrow> dheap \<Rightarrow> nat \<Rightarrow> dheap option" where
  "dlist_enq q h x = utils_dlist_add_tail x q h"

definition dlist_deq :: "nat \<Rightarrow> dheap \<Rightarrow> (nat option \<times> dheap) option" where
  "dlist_deq q h = do {
     empty \<leftarrow> utils_dlist_empty q h;
     if empty then Some (None, h)
     else do { n \<leftarrow> h q; h \<leftarrow> utils_dlist_del (nxt n) h; Some (Some (nxt n), h) }
   }"

interpretation dlist_queue: node_queue "\<lambda>h. dlist h q" "\<lambda>h. dom h - {q}" "dlist_enq q" "dlist_deq q" for q
proof unfold_locales
  fix h xs x
  assume "dlist h q xs" "x \<in> dom h - {q}" "x \<notin> set xs"
  then show "\<exists>h'. dlist_enq q h x = Some h' \<and> dlist h' q (xs @ [x]) \<and> dom h' - {q} = dom h - {q}"
    using dlist_add_tail_rep [of h q xs x] by (auto simp: dlist_enq_def dframe_def)
next
  fix h xs
  assume d: "dlist h q xs"
  obtain n where n: "h q = Some n" "nxt n = hd (xs @ [q])" using dlist_first [OF d] by blast
  show "\<exists>h'. dlist_deq q h = Some (if xs = [] then None else Some (hd xs), h') \<and>
      dlist h' q (tl xs) \<and> dom h' - {q} = dom h - {q}"
  proof (cases xs)
    case Nil
    then show ?thesis using d n by (auto simp: dlist_deq_def utils_dlist_empty_def)
  next
    case (Cons x ys)
    have "x \<noteq> q" using d Cons by (auto simp: dlist_def)
    then show ?thesis
      using dlist_del_rep [OF d, of x] n Cons by (auto simp: dlist_deq_def utils_dlist_empty_def dframe_def)
  qed
qed

section \<open>Properties\<close>

text \<open>
  C35: the operations of the circular list on the sequence that it represents.  Initialising a
  node makes the empty list; adding puts a new node at the front or at the end; deleting takes
  out a node whatever its place, without the head being given; the
  emptiness test, the count and the loop over the entries are right.  All links outside the list stay.
\<close>

theorem dlist_ops:
  assumes "dlist h q xs" and "e \<notin> set (q # xs)" and "e \<in> dom h"
  shows "(\<exists>h'. utils_dlist_add e q h = Some h' \<and> dlist h' q (e # xs) \<and>
      dframe (insert e (set (q # xs))) h h') \<and>
    (\<exists>h'. utils_dlist_add_tail e q h = Some h' \<and> dlist h' q (xs @ [e]) \<and>
      dframe (insert e (set (q # xs))) h h') \<and>
    (\<forall>a \<in> set xs. \<exists>h'. utils_dlist_del a h = Some h' \<and> dlist h' q (remove1 a xs) \<and>
      dframe (set (q # xs)) h h') \<and>
    (\<exists>h'. INIT_UTILS_DLIST_HEAD q h = Some h' \<and> utils_dlist_init q h = Some h' \<and> dlist h' q [] \<and>
      dframe {q} h h') \<and>
    utils_dlist_empty q h = Some (xs = []) \<and>
    utils_dlist_entry_number q h = Some (of_nat (length xs)) \<and>
    (\<exists>n. h q = Some n \<and> utils_dlist_for_each q (nxt n) h = Some xs)"
proof -
  obtain n where n: "h q = Some n" "nxt n = hd (xs @ [q])" using dlist_first [OF assms(1)] by blast
  have c: "chain h q xs q" "q \<notin> set xs" using assms(1) by (simp_all add: dlist_def)
  have "utils_dlist_empty q h = Some (xs = [])"
    using n c(2) by (cases xs) (auto simp: utils_dlist_empty_def)
  moreover have "utils_dlist_entry_number q h = Some (of_nat (length xs))"
    using number_loop_eq [OF c, of 0] by (simp add: utils_dlist_entry_number_def)
  moreover have "\<exists>n. h q = Some n \<and> utils_dlist_for_each q (nxt n) h = Some xs"
    using n for_each_eq [OF c] by simp
  moreover have "q \<in> dom h" using n by auto
  ultimately show ?thesis
    using dlist_add_rep [OF assms] dlist_add_tail_rep [OF assms] dlist_del_rep [OF assms(1)] dlist_init_rep
    by blast
qed

theorem dlist_ops_witness:
  "\<exists>h'. utils_dlist_add 2 1 [1 \<mapsto> \<lparr>prev = 1, nxt = 1\<rparr>, 2 \<mapsto> \<lparr>prev = 0, nxt = 0\<rparr>] = Some h' \<and>
    dlist h' 1 [2]"
proof -
  have "dlist [1 \<mapsto> \<lparr>prev = 1, nxt = 1\<rparr>, 2 \<mapsto> \<lparr>prev = 0, nxt = 0\<rparr>] 1 []"
    by (simp add: dlist_def link_defs)
  from dlist_ops [OF this, of 2] show ?thesis by auto
qed

text \<open>
  C15: the circular list is a queue: over every history of insertions at the end and removals
  from the front that never inserts a node twice, it returns what the abstract queue returns.
\<close>

theorem dlist_queue_history:
  assumes "dlist h q xs" and "queue_spec (dom h - {q}) xs ops = Some (out, ys)"
  shows "\<exists>h'. queue_run (dlist_enq q) (dlist_deq q) h ops = Some (out, h') \<and> dlist h' q ys"
  using dlist_queue.refines [of h q xs ops out ys] assms by auto

theorem dlist_queue_history_witness:
  "\<exists>h'. queue_run (dlist_enq 1) (dlist_deq 1) [1 \<mapsto> \<lparr>prev = 1, nxt = 1\<rparr>, 2 \<mapsto> \<lparr>prev = 0, nxt = 0\<rparr>]
      [Deq, Enq 2, Deq, Enq 2] = Some ([None, Some 2], h') \<and> dlist h' 1 [2]"
  by (rule dlist_queue_history [of _ _ "[]"]) (simp_all add: dlist_def link_defs)

end
