(* ===== verification/Allocator.thy ===== *)
theory Allocator
  imports SDK_Prelude
begin

text \<open>
  The contract of an allocator of blocks of one size, as the clients of a pool rely on it: a
  block that is handed out is not in use, a request fails only when all blocks are in use,
  and a block that is given back can be handed out again.
\<close>

text \<open>
  A client's history: requests, and releases of the block that the client holds at some position
  of its list (nothing happens when there is no such position).  A run returns the answers to
  the requests, the final state and what the client holds.
\<close>

datatype alloc_op = Request | Release nat

fun alloc_run :: "('s \<Rightarrow> ('b option \<times> 's) option) \<Rightarrow> ('b \<Rightarrow> 's \<Rightarrow> (bool \<times> 's) option) \<Rightarrow>
    's \<Rightarrow> 'b list \<Rightarrow> alloc_op list \<Rightarrow> ('b option list \<times> 's \<times> 'b list) option" where
  "alloc_run alloc free s held [] = Some ([], s, held)"
| "alloc_run alloc free s held (Request # ops) = do {
     (b, s) \<leftarrow> alloc s;
     (bs, s, held) \<leftarrow> alloc_run alloc free s (held @ (case b of None \<Rightarrow> [] | Some b \<Rightarrow> [b])) ops;
     Some (b # bs, s, held)
   }"
| "alloc_run alloc free s held (Release k # ops) =
     (if k < length held then do {
        (ok, s) \<leftarrow> free (held ! k) s;
        alloc_run alloc free s (take k held @ drop (Suc k) held) ops
      } else alloc_run alloc free s held ops)"

text \<open>The answers that an allocator of the set \<open>blocks\<close> may give.\<close>

fun answers_ok :: "'b set \<Rightarrow> 'b list \<Rightarrow> alloc_op list \<Rightarrow> 'b option list \<Rightarrow> bool" where
  "answers_ok blocks held [] bs = (bs = [])"
| "answers_ok blocks held (Request # ops) bs =
     (case bs of [] \<Rightarrow> False
      | None # bs \<Rightarrow> set held = blocks \<and> answers_ok blocks held ops bs
      | Some b # bs \<Rightarrow> b \<in> blocks - set held \<and> answers_ok blocks (held @ [b]) ops bs)"
| "answers_ok blocks held (Release k # ops) bs =
     answers_ok blocks (if k < length held then take k held @ drop (Suc k) held else held) ops bs"

locale allocator =
  fixes inv :: "'s \<Rightarrow> 'b set \<Rightarrow> bool" and blocks :: "'s \<Rightarrow> 'b set"
    and alloc :: "'s \<Rightarrow> ('b option \<times> 's) option" and free :: "'b \<Rightarrow> 's \<Rightarrow> (bool \<times> 's) option"
  assumes live_blocks: "inv s live \<Longrightarrow> live \<subseteq> blocks s"
    and alloc_some: "inv s live \<Longrightarrow> live \<noteq> blocks s \<Longrightarrow>
      \<exists>b s'. alloc s = Some (Some b, s') \<and> b \<in> blocks s - live \<and> inv s' (insert b live) \<and> blocks s' = blocks s"
    and alloc_none: "inv s live \<Longrightarrow> live = blocks s \<Longrightarrow>
      \<exists>s'. alloc s = Some (None, s') \<and> inv s' live \<and> blocks s' = blocks s"
    and free_ok: "inv s live \<Longrightarrow> b \<in> live \<Longrightarrow>
      \<exists>s'. free b s = Some (True, s') \<and> inv s' (live - {b}) \<and> blocks s' = blocks s"
begin

lemma history:
  "inv s (set held) \<Longrightarrow> distinct held \<Longrightarrow>
    \<exists>bs s' held'. alloc_run alloc free s held ops = Some (bs, s', held') \<and> inv s' (set held') \<and>
      distinct held' \<and> blocks s' = blocks s \<and> answers_ok (blocks s) held ops bs"
proof (induction ops arbitrary: s held)
  case (Cons a ops)
  show ?case
  proof (cases a)
    case Request
    show ?thesis
    proof (cases "set held = blocks s")
      case True
      then obtain s' where "alloc s = Some (None, s')" "inv s' (set held)" "blocks s' = blocks s"
        using alloc_none Cons.prems(1) by blast
      then show ?thesis using Cons.IH [of s' held] Cons.prems(2) Request True by auto
    next
      case False
      then obtain b s' where s': "alloc s = Some (Some b, s')" "b \<in> blocks s - set held"
          "inv s' (insert b (set held))" "blocks s' = blocks s"
        using alloc_some Cons.prems(1) by blast
      then show ?thesis using Cons.IH [of s' "held @ [b]"] Cons.prems(2) Request by auto
    qed
  next
    case (Release k)
    show ?thesis
    proof (cases "k < length held")
      case True
      have held: "held = take k held @ held ! k # drop (Suc k) held" by (rule id_take_nth_drop [OF True])
      then have d: "distinct (take k held @ held ! k # drop (Suc k) held)" using Cons.prems(2) by simp
      have "set held = insert (held ! k) (set (take k held @ drop (Suc k) held))"
        by (subst held) simp
      then have live: "set held - {held ! k} = set (take k held @ drop (Suc k) held)"
        using d by auto
      obtain s' where "free (held ! k) s = Some (True, s')" "inv s' (set held - {held ! k})" "blocks s' = blocks s"
        using free_ok [OF Cons.prems(1), of "held ! k"] True by auto
      then show ?thesis
        using Cons.IH [of s' "take k held @ drop (Suc k) held"] d Release True by (simp add: live)
    next
      case False
      then show ?thesis using Cons Release by simp
    qed
  qed
qed simp

end

end
