(* ===== verification/Block_Pool.thy ===== *)
theory Block_Pool
  imports Allocator
begin

text \<open>
  The block pool of \<^verbatim>\<open>components/utils/bflb_block_pool/bflb_block_pool.c\<close>.  Addresses are the 32-bit
  words of the target (\<open>sizeof(void *)\<close> is 4, \<open>NULL\<close> is 0), the memory of the node area is
  a map from addresses to pointers.  The mutex and semaphore callbacks are optional functions on
  the state \<open>'e\<close> of the system; a get function returns whether it failed.  Calling a callback
  that is not registered is undefined behaviour.  The checks of
  \<open>_BFLB_BLOCK_POOL_CHECK\<close> are empty unless the build asks for them; the model is the default build.
\<close>

section \<open>Model\<close>

type_synonym pmem = "u32 \<rightharpoonup> u32"

record 'e bflb_block_pool_t =
  free_list :: u32
  pool_addr :: u32
  blk_addr :: u32
  blk_size :: u32
  blk_align :: u32
  blk_total :: u32
  blk_free :: u32
  mtx_get :: "(u32 \<Rightarrow> 'e \<Rightarrow> bool \<times> 'e) option"
  mtx_put :: "('e \<Rightarrow> 'e) option"
  sem_get :: "(u32 \<Rightarrow> 'e \<Rightarrow> bool \<times> 'e) option"
  sem_put :: "('e \<Rightarrow> 'e) option"

definition CONFIG_BFLB_BLOCK_POOL_MTX_TIMEOUT :: u32 where
  "CONFIG_BFLB_BLOCK_POOL_MTX_TIMEOUT = 100"

definition store :: "u32 \<Rightarrow> u32 \<Rightarrow> pmem \<Rightarrow> pmem option" where
  "store a v m = (if a \<in> dom m then Some (m(a \<mapsto> v)) else None)"

text \<open>Rounding up to the alignment, as it is written three times in the function.\<close>

definition blk_round :: "u32 \<Rightarrow> u32 \<Rightarrow> u32" where
  "blk_round align x =
     (let bitmask = push_bit (unat align) 1 - 1 in
      if x AND bitmask \<noteq> 0 then (x AND NOT bitmask) + push_bit (unat align) 1 else x)"

fun build_list :: "u32 \<Rightarrow> nat \<Rightarrow> u32 \<Rightarrow> pmem \<Rightarrow> pmem option" where
  "build_list pa 0 i m = Some m"
| "build_list pa (Suc left) i m = do {
     m \<leftarrow> store (pa + 4 * i) (pa + 4 * (i + 1)) m;
     build_list pa left (i + 1) m
   }"

definition bflb_block_pool_create ::
  "'e bflb_block_pool_t \<Rightarrow> u32 \<Rightarrow> u32 \<Rightarrow> u32 \<Rightarrow> u32 \<Rightarrow> pmem \<Rightarrow> (int \<times> 'e bflb_block_pool_t \<times> pmem) option" where
  "bflb_block_pool_create p sz align pa pool_size m =
     (let size' = blk_round align sz in
      if 4 + size' = 0 then None
      else let blk_count = pool_size div (4 + size') in
      if blk_count = 0 then Some (-1, p, m)
      else let address = blk_round align (pa + 4 * blk_count);
        short = address + blk_count * size' > pa + pool_size;
        blk_count = (if short then blk_count - 1 else blk_count)
      in if short \<and> blk_count = 0 then Some (-1, p, m)
      else let address = (if short then blk_round align (pa + 4 * blk_count) else address) in do {
        m \<leftarrow> build_list pa (unat blk_count) 0 m;
        m \<leftarrow> store (pa + 4 * (blk_count - 1)) 0 m;
        Some (0, \<lparr>free_list = pa, pool_addr = pa, blk_addr = address, blk_size = size', blk_align = align,
          blk_total = blk_count, blk_free = blk_count,
          mtx_get = None, mtx_put = None, sem_get = None, sem_put = None\<rparr>, m)
      })"

definition bflb_block_pool_delete :: "'e bflb_block_pool_t \<Rightarrow> int \<times> 'e bflb_block_pool_t" where
  "bflb_block_pool_delete p =
     (if blk_total p \<noteq> blk_free p then (-1, p)
      else (0, \<lparr>free_list = 0, pool_addr = 0, blk_addr = 0, blk_size = 0, blk_align = 0,
        blk_total = 0, blk_free = 0, mtx_get = None, mtx_put = None, sem_get = None, sem_put = None\<rparr>))"

definition bflb_block_pool_add_mtx ::
  "'e bflb_block_pool_t \<Rightarrow> (u32 \<Rightarrow> 'e \<Rightarrow> bool \<times> 'e) option \<Rightarrow> ('e \<Rightarrow> 'e) option \<Rightarrow> int \<times> 'e bflb_block_pool_t" where
  "bflb_block_pool_add_mtx p get put =
     (0, if get = None \<or> put = None then p\<lparr>mtx_get := None, mtx_put := None\<rparr>
         else p\<lparr>mtx_get := get, mtx_put := put\<rparr>)"

definition bflb_block_pool_add_sem ::
  "'e bflb_block_pool_t \<Rightarrow> (u32 \<Rightarrow> 'e \<Rightarrow> bool \<times> 'e) option \<Rightarrow> ('e \<Rightarrow> 'e) option \<Rightarrow> int \<times> 'e bflb_block_pool_t" where
  "bflb_block_pool_add_sem p get put =
     (0, if get = None \<or> put = None then p\<lparr>sem_get := None, sem_put := None\<rparr>
         else p\<lparr>sem_get := get, sem_put := put\<rparr>)"

text \<open>
  The result of an allocation is the return value, the address stored through \<open>addr\<close> if any, the
  pool and the state of the system.
\<close>

definition bflb_block_pool_alloc ::
  "'e bflb_block_pool_t \<Rightarrow> u32 \<Rightarrow> pmem \<Rightarrow> 'e \<Rightarrow> (int \<times> u32 option \<times> 'e bflb_block_pool_t \<times> 'e) option" where
  "bflb_block_pool_alloc p wait m e = do {
     let (no_sem, e) = (case sem_get p of None \<Rightarrow> (False, e) | Some get \<Rightarrow> get wait e);
     if no_sem then Some (-1, None, p, e)
     else if blk_free p = 0 then Some (-1, None, p, e)
     else do {
       let (no_mtx, e) = (case mtx_get p of None \<Rightarrow> (False, e)
         | Some get \<Rightarrow> get CONFIG_BFLB_BLOCK_POOL_MTX_TIMEOUT e);
       if no_mtx then do { put \<leftarrow> sem_put p; Some (-1, None, p, put e) }
       else do {
         let node = free_list p;
         next \<leftarrow> m node;
         let idx = (node - pool_addr p) div 4;
         let addr = blk_addr p + idx * blk_size p;
         let p = p\<lparr>free_list := next, blk_free := blk_free p - 1\<rparr>;
         let e = (case mtx_put p of None \<Rightarrow> e | Some put \<Rightarrow> put e);
         Some (0, Some addr, p, e)
       }
     }
   }"

definition bflb_block_pool_free ::
  "'e bflb_block_pool_t \<Rightarrow> u32 \<Rightarrow> pmem \<Rightarrow> 'e \<Rightarrow> (int \<times> 'e bflb_block_pool_t \<times> pmem \<times> 'e) option" where
  "bflb_block_pool_free p addr m e = do {
     let (no_mtx, e) = (case mtx_get p of None \<Rightarrow> (False, e)
       | Some get \<Rightarrow> get CONFIG_BFLB_BLOCK_POOL_MTX_TIMEOUT e);
     if no_mtx then Some (-1, p, m, e)
     else if blk_total p = blk_free p then Some (-1, p, m, e)
     else if blk_size p = 0 then None
     else do {
       let idx = (addr - blk_addr p) div blk_size p;
       if idx > blk_total p then Some (-1, p, m, e)
       else do {
         let node = pool_addr p + idx * 4;
         m \<leftarrow> store node (free_list p) m;
         let p = p\<lparr>free_list := node, blk_free := blk_free p + 1\<rparr>;
         let e = (case mtx_put p of None \<Rightarrow> e | Some put \<Rightarrow> put e);
         let e = (case sem_put p of None \<Rightarrow> e | Some put \<Rightarrow> put e);
         Some (0, p, m, e)
       }
     }
   }"

definition bflb_block_pool_info_get :: "'e bflb_block_pool_t \<Rightarrow> u32 \<times> u32" where
  "bflb_block_pool_info_get p = (blk_total p, blk_free p)"

section \<open>Invariant\<close>

definition node_addr :: "'e bflb_block_pool_t \<Rightarrow> nat \<Rightarrow> u32" where
  "node_addr p i = pool_addr p + 4 * of_nat i"

definition block_addr :: "'e bflb_block_pool_t \<Rightarrow> nat \<Rightarrow> u32" where
  "block_addr p i = blk_addr p + of_nat i * blk_size p"

text \<open>The chain of free nodes from address \<open>a\<close>, as the list of their indices.\<close>

fun free_chain :: "'e bflb_block_pool_t \<Rightarrow> pmem \<Rightarrow> u32 \<Rightarrow> nat list \<Rightarrow> bool" where
  "free_chain p m a [] = (a = 0)"
| "free_chain p m a (i # is) = (a = node_addr p i \<and> (case m a of None \<Rightarrow> False | Some n \<Rightarrow> free_chain p m n is))"

definition geometry :: "'e bflb_block_pool_t \<Rightarrow> pmem \<Rightarrow> bool" where
  "geometry p m =
     (pool_addr p \<noteq> 0 \<and> 0 < blk_size p \<and>
      unat (pool_addr p) + 4 * unat (blk_total p) \<le> unat (blk_addr p) \<and>
      unat (blk_addr p) + unat (blk_total p) * unat (blk_size p) < 2 ^ 32 \<and>
      (\<forall>i < unat (blk_total p). node_addr p i \<in> dom m))"

definition pool_blocks :: "'e bflb_block_pool_t \<Rightarrow> nat set" where
  "pool_blocks p = {0..<unat (blk_total p)}"

text \<open>\<open>live\<close> is the set of the indices of the blocks in use.\<close>

definition pool_inv :: "'e bflb_block_pool_t \<times> pmem \<Rightarrow> nat set \<Rightarrow> bool" where
  "pool_inv s live = (case s of (p, m) \<Rightarrow>
     geometry p m \<and> live \<subseteq> pool_blocks p \<and>
     (\<exists>is. free_chain p m (free_list p) is \<and> distinct is \<and> set is = pool_blocks p - live \<and>
       unat (blk_free p) = length is))"

lemma node_addr_eq:
  assumes "geometry p m" and "i < unat (blk_total p)"
  shows "unat (node_addr p i) = unat (pool_addr p) + 4 * i" and "node_addr p i \<noteq> 0"
proof -
  have "unat (pool_addr p) + 4 * i < 2 ^ 32" and "0 < unat (pool_addr p)"
    using assms by (auto simp: geometry_def unat_gt_0)
  then show eq: "unat (node_addr p i) = unat (pool_addr p) + 4 * i"
    unfolding node_addr_def using unat_of_nat_small [of "4 * i", where ?'a = 32]
    by (subst unat_plus_small) simp_all
  then show "node_addr p i \<noteq> 0" using \<open>0 < unat (pool_addr p)\<close> by (auto simp: unat_eq_zero)
qed

lemma block_addr_eq:
  assumes "geometry p m" and "i < unat (blk_total p)"
  shows "unat (block_addr p i) = unat (blk_addr p) + i * unat (blk_size p)"
proof -
  have "(i + 1) * unat (blk_size p) \<le> unat (blk_total p) * unat (blk_size p)"
    using assms(2) by (intro mult_le_mono1) simp
  then have less: "unat (blk_addr p) + i * unat (blk_size p) < 2 ^ 32"
    using assms(1) by (simp add: geometry_def)
  have "unat (of_nat i * blk_size p) = i * unat (blk_size p)"
  proof -
    have "of_nat i * blk_size p = of_nat (i * unat (blk_size p))" by simp
    moreover have "i * unat (blk_size p) < 2 ^ 32" using less by simp
    ultimately show ?thesis using unat_of_nat_small [of "i * unat (blk_size p)", where ?'a = 32]
      by (simp only: len_of_numeral_defs) simp
  qed
  then show ?thesis unfolding block_addr_def using less by (subst unat_plus_small) simp_all
qed

lemma node_inj:
  assumes "geometry p m" and "i < unat (blk_total p)" and "j < unat (blk_total p)"
    and "node_addr p i = node_addr p j"
  shows "i = j"
proof -
  have "unat (pool_addr p) + 4 * i = unat (pool_addr p) + 4 * j"
    unfolding node_addr_eq(1) [OF assms(1,2), symmetric] node_addr_eq(1) [OF assms(1,3), symmetric] assms(4) ..
  then show ?thesis by simp
qed

lemma blk_size_pos: "geometry p m \<Longrightarrow> 0 < unat (blk_size p)"
  by (simp add: geometry_def unat_less_iff)

lemma block_inj:
  assumes "geometry p m" and "i < unat (blk_total p)" and "j < unat (blk_total p)"
    and "block_addr p i = block_addr p j"
  shows "i = j"
proof -
  have "unat (blk_addr p) + i * unat (blk_size p) = unat (blk_addr p) + j * unat (blk_size p)"
    unfolding block_addr_eq [OF assms(1,2), symmetric] block_addr_eq [OF assms(1,3), symmetric] assms(4) ..
  then show ?thesis using blk_size_pos [OF assms(1)] by simp
qed

text \<open>The two index computations.\<close>

lemma node_index:
  assumes "geometry p m" and "i < unat (blk_total p)"
  shows "(node_addr p i - pool_addr p) div 4 = of_nat i"
proof -
  have "unat (node_addr p i - pool_addr p) = 4 * i"
    using node_addr_eq [OF assms] by (subst unat_sub_le) (simp_all add: unat_le_iff)
  then show ?thesis by (intro word_of_unat) (simp add: unat_div_distrib)
qed

lemma block_index:
  assumes "geometry p m" and "i < unat (blk_total p)"
  shows "(block_addr p i - blk_addr p) div blk_size p = of_nat i"
proof -
  have "unat (block_addr p i - blk_addr p) = i * unat (blk_size p)"
    using block_addr_eq [OF assms] by (subst unat_sub_le) (simp_all add: unat_le_iff)
  moreover note blk_size_pos [OF assms(1)]
  ultimately show ?thesis by (intro word_of_unat) (simp add: unat_div_distrib)
qed

lemma free_chain_cong:
  "free_chain p m a is \<Longrightarrow> pool_addr p' = pool_addr p \<Longrightarrow> (\<And>i. i \<in> set is \<Longrightarrow> m' (node_addr p i) = m (node_addr p i)) \<Longrightarrow>
    free_chain p' m' a is"
  by (induction "is" arbitrary: a) (auto simp: node_addr_def split: option.splits)

text \<open>A pool whose mutex cannot fail and that has no semaphore.\<close>

definition pool_ready :: "'e bflb_block_pool_t \<Rightarrow> bool" where
  "pool_ready p = (sem_get p = None \<and> sem_put p = None \<and>
     (case mtx_get p of None \<Rightarrow> True | Some get \<Rightarrow> \<forall>t e. \<exists>e'. get t e = (False, e')))"

lemma pool_readyE:
  assumes "pool_ready p"
  obtains e' where "(case mtx_get p of None \<Rightarrow> (False, e) | Some get \<Rightarrow> get t e) = (False, e')"
  using assms that by (cases "mtx_get p") (auto simp: pool_ready_def)

lemma geometry_upd [simp]:
  "geometry (p\<lparr>free_list := a, blk_free := n\<rparr>) m = geometry p m"
  "pool_blocks (p\<lparr>free_list := a, blk_free := n\<rparr>) = pool_blocks p"
  "node_addr (p\<lparr>free_list := a, blk_free := n\<rparr>) = node_addr p"
  "block_addr (p\<lparr>free_list := a, blk_free := n\<rparr>) = block_addr p"
  by (simp_all add: geometry_def pool_blocks_def node_addr_def block_addr_def fun_eq_iff)

lemma pool_live_card:
  assumes "pool_inv (p, m) live"
  shows "unat (blk_free p) = unat (blk_total p) - card live" and "card live \<le> unat (blk_total p)"
    and "blk_free p = 0 \<longleftrightarrow> live = pool_blocks p"
proof -
  obtain "is" where fl: "distinct is" "set is = pool_blocks p - live" "unat (blk_free p) = length is"
      "live \<subseteq> pool_blocks p"
    using assms by (auto simp: pool_inv_def)
  have "finite (pool_blocks p)" by (simp add: pool_blocks_def)
  then have "card (set is) = unat (blk_total p) - card live" "card live \<le> unat (blk_total p)"
    using fl(2,4) card_mono [of "pool_blocks p" live] finite_subset [OF fl(4)]
    by (simp_all add: card_Diff_subset pool_blocks_def)
  then show "unat (blk_free p) = unat (blk_total p) - card live" "card live \<le> unat (blk_total p)"
    using fl(1,3) by (simp_all add: distinct_card)
  have "blk_free p = 0 \<longleftrightarrow> is = []" using fl(3) by (metis length_0_conv unsigned_0 unsigned_eq_0_iff)
  then show "blk_free p = 0 \<longleftrightarrow> live = pool_blocks p" using fl(2,4) by auto
qed

lemma pool_alloc_some:
  assumes inv: "pool_inv (p, m) live" and "pool_ready p" and "live \<noteq> pool_blocks p"
  shows "\<exists>i p' e'. bflb_block_pool_alloc p wait m e = Some (0, Some (block_addr p i), p', e') \<and>
    i \<in> pool_blocks p - live \<and> pool_inv (p', m) (insert i live) \<and>
    (\<exists>a n. p' = p\<lparr>free_list := a, blk_free := n\<rparr>)"
proof -
  obtain "is" where fl: "free_chain p m (free_list p) is" "distinct is" "set is = pool_blocks p - live"
      "unat (blk_free p) = length is" and g: "geometry p m" and sub: "live \<subseteq> pool_blocks p"
    using inv by (auto simp: pool_inv_def)
  obtain i js where "is": "is = i # js" using assms(3) fl(3) sub by (cases "is") auto
  obtain n where n: "free_list p = node_addr p i" "m (node_addr p i) = Some n" "free_chain p m n js"
    using fl(1) "is" by (auto split: option.splits)
  have i: "i < unat (blk_total p)" using fl(3) "is" by (auto simp: pool_blocks_def)
  have free: "blk_free p \<noteq> 0" using fl(4) "is" by auto
  let ?p = "p\<lparr>free_list := n, blk_free := blk_free p - 1\<rparr>"
  obtain e1 where e1: "(case mtx_get p of None \<Rightarrow> (False, e)
      | Some get \<Rightarrow> get CONFIG_BFLB_BLOCK_POOL_MTX_TIMEOUT e) = (False, e1)"
    using pool_readyE [OF assms(2)] by blast
  have "sem_get p = None" using assms(2) by (simp add: pool_ready_def)
  then have "\<exists>e'. bflb_block_pool_alloc p wait m e = Some (0, Some (block_addr p i), ?p, e')"
    using free n(1,2) node_index [OF g i]
    by (simp add: bflb_block_pool_alloc_def e1 Let_def block_addr_def)
  moreover have "pool_inv (?p, m) (insert i live)"
  proof -
    have "free_chain ?p m n js" by (rule free_chain_cong [OF n(3)]) simp_all
    moreover have "distinct js" "set js = pool_blocks p - insert i live" using fl(2,3) "is" by auto
    moreover have "unat (blk_free p - 1) = length js"
      using fl(4) "is" free by (subst unat_sub_le) (simp_all add: unat_le_iff)
    ultimately show ?thesis using g sub fl(3) "is" unfolding pool_inv_def by auto
  qed
  moreover have "i \<in> pool_blocks p - live" using fl(3) "is" by auto
  ultimately show ?thesis by blast
qed

lemma pool_alloc_none:
  assumes "pool_inv (p, m) live" and "pool_ready p" and "live = pool_blocks p"
  shows "bflb_block_pool_alloc p wait m e = Some (-1, None, p, e)"
  using assms pool_live_card(3) [OF assms(1)]
  by (simp add: bflb_block_pool_alloc_def pool_ready_def)

lemma pool_free_live:
  assumes inv: "pool_inv (p, m) live" and "pool_ready p" and "i \<in> live"
  shows "\<exists>p' m' e'. bflb_block_pool_free p (block_addr p i) m e = Some (0, p', m', e') \<and>
    pool_inv (p', m') (live - {i}) \<and> (\<exists>a n. p' = p\<lparr>free_list := a, blk_free := n\<rparr>)"
proof -
  obtain "is" where fl: "free_chain p m (free_list p) is" "distinct is" "set is = pool_blocks p - live"
      "unat (blk_free p) = length is" and g: "geometry p m" and sub: "live \<subseteq> pool_blocks p"
    using inv by (auto simp: pool_inv_def)
  have i: "i < unat (blk_total p)" using assms(3) sub by (auto simp: pool_blocks_def)
  have "card live > 0" using assms(3) sub finite_subset [OF sub] by (auto simp: card_gt_0_iff pool_blocks_def)
  then have some: "unat (blk_free p) < unat (blk_total p)"
    using pool_live_card(1,2) [OF inv] by simp
  then have ne: "blk_total p \<noteq> blk_free p" by auto
  have dom: "node_addr p i \<in> dom m" using g i by (simp add: geometry_def)
  have idx: "\<not> of_nat i > blk_total p"
    using i unat_of_nat_small [of i, where ?'a = 32] less_trans [OF i unat_u32_less] by (simp add: unat_less_iff)
  let ?p = "p\<lparr>free_list := node_addr p i, blk_free := blk_free p + 1\<rparr>"
  let ?m = "m(node_addr p i \<mapsto> free_list p)"
  have node: "pool_addr p + of_nat i * 4 = node_addr p i" by (simp add: node_addr_def)
  obtain e1 where e1: "(case mtx_get p of None \<Rightarrow> (False, e)
      | Some get \<Rightarrow> get CONFIG_BFLB_BLOCK_POOL_MTX_TIMEOUT e) = (False, e1)"
    using pool_readyE [OF assms(2)] by blast
  have "blk_size p \<noteq> 0" using blk_size_pos [OF g] by auto
  then have "\<exists>e'. bflb_block_pool_free p (block_addr p i) m e = Some (0, ?p, ?m, e')"
    using ne dom idx node block_index [OF g i]
    by (simp add: bflb_block_pool_free_def e1 Let_def store_def)
  moreover have "pool_inv (?p, ?m) (live - {i})"
  proof -
    have ni: "i \<notin> set is" using assms(3) fl(3) by auto
    have "free_chain p ?m (free_list p) is"
    proof (rule free_chain_cong [OF fl(1) refl])
      fix j assume j: "j \<in> set is"
      then have "j < unat (blk_total p)" using fl(3) by (auto simp: pool_blocks_def)
      then have "node_addr p j \<noteq> node_addr p i" using node_inj [OF g, of j i] i j ni by auto
      then show "?m (node_addr p j) = m (node_addr p j)" by simp
    qed
    then have "free_chain ?p ?m (node_addr p i) (i # is)"
      by (auto intro: free_chain_cong)
    moreover have "set (i # is) = pool_blocks p - (live - {i})" using fl(3) assms(3) sub by auto
    moreover have "unat (blk_free p + 1) = length (i # is)"
      using some fl(4) by (subst unat_Suc_below [of _ "blk_total p"]) (simp_all add: unat_less_iff)
    moreover have "geometry p ?m" using g by (simp add: geometry_def)
    ultimately show ?thesis using sub ni fl(2) unfolding pool_inv_def by (auto intro!: exI [of _ "i # is"])
  qed
  ultimately show ?thesis by blast
qed

section \<open>The pool is an allocator\<close>

text \<open>The blocks of the contract are addresses.\<close>

type_synonym 'e pool_state = "'e bflb_block_pool_t \<times> pmem \<times> 'e"

definition pool_alloc :: "u32 \<Rightarrow> 'e pool_state \<Rightarrow> (u32 option \<times> 'e pool_state) option" where
  "pool_alloc wait s = (case s of (p, m, e) \<Rightarrow> do {
     (ret, addr, p, e) \<leftarrow> bflb_block_pool_alloc p wait m e;
     Some (if ret = 0 then addr else None, p, m, e)
   })"

definition pool_free :: "u32 \<Rightarrow> 'e pool_state \<Rightarrow> (bool \<times> 'e pool_state) option" where
  "pool_free addr s = (case s of (p, m, e) \<Rightarrow> do {
     (ret, p, m, e) \<leftarrow> bflb_block_pool_free p addr m e;
     Some (ret = 0, p, m, e)
   })"

definition pool_block_addrs :: "'e pool_state \<Rightarrow> u32 set" where
  "pool_block_addrs s = (case s of (p, m, e) \<Rightarrow> block_addr p ` pool_blocks p)"

definition pool_live :: "'e pool_state \<Rightarrow> u32 set \<Rightarrow> bool" where
  "pool_live s as = (case s of (p, m, e) \<Rightarrow>
     pool_ready p \<and> (\<exists>live. as = block_addr p ` live \<and> pool_inv (p, m) live))"

lemma block_inj_on: "geometry p m \<Longrightarrow> inj_on (block_addr p) (pool_blocks p)"
  by (rule inj_onI) (auto simp: pool_blocks_def dest: block_inj)

interpretation pool_allocator: allocator pool_live pool_block_addrs "pool_alloc wait" pool_free for wait
proof unfold_locales
  fix s :: "'e pool_state" and as
  assume a: "pool_live s as"
  obtain p m e where s: "s = (p, m, e)" by (cases s)
  obtain live where live: "as = block_addr p ` live" "pool_inv (p, m) live" "pool_ready p"
    using a by (auto simp: pool_live_def s)
  then have g: "geometry p m" and sub: "live \<subseteq> pool_blocks p" by (auto simp: pool_inv_def)
  note inj = block_inj_on [OF g]
  show "as \<subseteq> pool_block_addrs s" using live(1) sub by (auto simp: pool_block_addrs_def s)
  have all: "as = pool_block_addrs s \<longleftrightarrow> live = pool_blocks p"
    using live(1) inj_on_image_eq_iff [OF inj sub subset_refl] by (simp add: pool_block_addrs_def s)
  show "\<exists>b s'. pool_alloc wait s = Some (Some b, s') \<and> b \<in> pool_block_addrs s - as \<and>
      pool_live s' (insert b as) \<and> pool_block_addrs s' = pool_block_addrs s"
    if ne: "as \<noteq> pool_block_addrs s"
  proof -
    obtain i p' e' a n where r: "bflb_block_pool_alloc p wait m e = Some (0, Some (block_addr p i), p', e')"
        "i \<in> pool_blocks p - live" "pool_inv (p', m) (insert i live)" "p' = p\<lparr>free_list := a, blk_free := n\<rparr>"
      using pool_alloc_some [OF live(2,3), of wait e] all ne by blast
    have "block_addr p i \<notin> as"
      using r(2) sub live(1) inj by (auto simp: inj_on_def)
    moreover have "pool_live (p', m, e') (insert (block_addr p i) as)"
      using r(3,4) live(1,3) by (auto simp: pool_live_def pool_ready_def intro!: exI [of _ "insert i live"])
    ultimately show ?thesis
      using r by (auto simp: pool_alloc_def s pool_block_addrs_def)
  qed
  show "\<exists>s'. pool_alloc wait s = Some (None, s') \<and> pool_live s' as \<and> pool_block_addrs s' = pool_block_addrs s"
    if "as = pool_block_addrs s"
    using pool_alloc_none [OF live(2,3)] all that a by (simp add: pool_alloc_def s)
  show "\<exists>s'. pool_free b s = Some (True, s') \<and> pool_live s' (as - {b}) \<and> pool_block_addrs s' = pool_block_addrs s"
    if b: "b \<in> as" for b
  proof -
    obtain i where i: "i \<in> live" "b = block_addr p i" using b live(1) by auto
    obtain p' m' e' a n where r: "bflb_block_pool_free p b m e = Some (0, p', m', e')"
        "pool_inv (p', m') (live - {i})" "p' = p\<lparr>free_list := a, blk_free := n\<rparr>"
      using pool_free_live [OF live(2,3) i(1), of e] i(2) by blast
    have "block_addr p ` (live - {i}) = as - {b}"
      using inj_on_image_set_diff [OF inj, of live "{i}"] sub i live(1) by auto
    then have "pool_live (p', m', e') (as - {b})"
      using r(2,3) live(3) by (auto simp: pool_live_def pool_ready_def intro!: exI [of _ "live - {i}"])
    then show ?thesis using r by (auto simp: pool_free_def s pool_block_addrs_def)
  qed
qed

section \<open>Creating a pool\<close>

lemma blk_round_eq:
  assumes "unat align \<le> 7" and "unat x + 128 < 2 ^ 32"
  shows "unat x \<le> unat (blk_round align x)" and "unat (blk_round align x) < unat x + 2 ^ unat align"
    and "2 ^ unat align dvd unat (blk_round align x)"
proof -
  define A where "A = (2 :: nat) ^ unat align"
  define r where "r = unat x mod A"
  have A: "0 < A" "A \<le> 128" using assms(1) power_increasing [of "unat align" 7 "2 :: nat"] by (simp_all add: A_def)
  have mask: "push_bit (unat align) 1 - 1 = (mask (unat align) :: u32)" by (simp add: mask_eq_exp_minus_1)
  have rest: "unat (x AND mask (unat align)) = r"
    using unat_bits [of 0 x "unat align"] by (simp add: r_def A_def)
  have low: "unat (x AND NOT (mask (unat align))) = unat x - r"
  proof -
    have "(x AND NOT (mask (unat align))) AND (x AND mask (unat align)) = 0"
      by (rule bit_word_eqI) (auto simp: bit_and_iff bit_not_iff)
    then have "(x AND NOT (mask (unat align))) + (x AND mask (unat align)) =
        (x AND NOT (mask (unat align))) OR (x AND mask (unat align))"
      by (rule disjunctive_add_eq_or)
    also have "\<dots> = x"
      by (rule bit_word_eqI) (auto simp: bit_and_iff bit_or_iff bit_not_iff)
    finally have "x AND NOT (mask (unat align)) = x - (x AND mask (unat align))"
      by (simp add: algebra_simps)
    then show ?thesis using rest by (simp only:) (subst unat_sub_le, simp_all add: unat_le_iff r_def)
  qed
  have bit: "unat (push_bit (unat align) 1 :: u32) = A"
  proof -
    have "A < 2 ^ 32" using A(2) by simp
    then have "take_bit 32 A = A" by (rule take_bit_nat_eq_self)
    then show ?thesis
      using assms(1) unfolding unsigned_push_bit_eq by (simp add: push_bit_eq_mult A_def [symmetric])
  qed
  have r: "r < A" "r \<le> unat x" "A dvd unat x - r" using A(1) by (simp_all add: r_def dvd_minus_mod)
  have rd: "blk_round align x = (if x AND mask (unat align) \<noteq> 0
      then (x AND NOT (mask (unat align))) + push_bit (unat align) 1 else x)"
    unfolding blk_round_def Let_def mask ..
  have "unat (blk_round align x) = (if r = 0 then unat x else (unat x - r) + A)"
  proof (cases "r = 0")
    case True
    then have "x AND mask (unat align) = 0" using rest by (metis unsigned_eq_0_iff)
    then show ?thesis using True unfolding rd by simp
  next
    case False
    then have "x AND mask (unat align) \<noteq> 0" using rest by auto
    then have "blk_round align x = (x AND NOT (mask (unat align))) + push_bit (unat align) 1"
      unfolding rd by (rule if_P)
    moreover have "unat ((x AND NOT (mask (unat align))) + push_bit (unat align) 1) = unat x - r + A"
      using low bit A(2) assms(2) by (subst unat_plus_small) simp_all
    ultimately show ?thesis using False by simp
  qed
  then show "unat x \<le> unat (blk_round align x)" "unat (blk_round align x) < unat x + 2 ^ unat align"
    "2 ^ unat align dvd unat (blk_round align x)"
    using r A dvd_add [OF r(3) dvd_refl] by (auto simp: A_def [symmetric] split: if_splits)
qed

lemma node_words:
  assumes "unat pa + 4 * N < 2 ^ 32" and "i \<le> N"
  shows "unat (pa + 4 * of_nat i :: u32) = unat pa + 4 * i"
  using assms unat_of_nat_small [of "4 * i", where ?'a = 32] by (subst unat_plus_small) simp_all

lemma node_words_inj:
  assumes "unat pa + 4 * N < 2 ^ 32" and "i \<le> N" and "j \<le> N"
  shows "pa + 4 * of_nat i = (pa + 4 * of_nat j :: u32) \<longleftrightarrow> i = j"
proof
  assume "pa + 4 * of_nat i = (pa + 4 * of_nat j :: u32)"
  then have "unat pa + 4 * i = unat pa + 4 * j"
    using node_words [OF assms(1,2)] node_words [OF assms(1,3)] by metis
  then show "i = j" by simp
qed simp

lemma build_list_eq:
  assumes "unat pa + 4 * N < 2 ^ 32"
  shows "i + n \<le> N \<Longrightarrow> (\<And>j. i \<le> j \<Longrightarrow> j < i + n \<Longrightarrow> pa + 4 * of_nat j \<in> dom m) \<Longrightarrow>
    \<exists>m'. build_list pa n (of_nat i) m = Some m' \<and> dom m' = dom m \<and>
      (\<forall>j. i \<le> j \<and> j < i + n \<longrightarrow> m' (pa + 4 * of_nat j) = Some (pa + 4 * of_nat (Suc j))) \<and>
      (\<forall>j < i. m' (pa + 4 * of_nat j) = m (pa + 4 * of_nat j))"
proof (induction n arbitrary: i m)
  case (Suc n)
  let ?m = "m(pa + 4 * of_nat i \<mapsto> pa + 4 * of_nat (Suc i))"
  have d: "pa + 4 * of_nat i \<in> dom m" using Suc.prems(2) [of i] by simp
  have "pa + 4 * of_nat j \<in> dom ?m" if "Suc i \<le> j" "j < Suc i + n" for j
    using Suc.prems(2) [of j] that by simp
  then have "\<exists>m'. build_list pa n (of_nat (Suc i)) ?m = Some m' \<and> dom m' = dom ?m \<and>
      (\<forall>j. Suc i \<le> j \<and> j < Suc i + n \<longrightarrow> m' (pa + 4 * of_nat j) = Some (pa + 4 * of_nat (Suc j))) \<and>
      (\<forall>j < Suc i. m' (pa + 4 * of_nat j) = ?m (pa + 4 * of_nat j))"
    using Suc.prems(1) by (intro Suc.IH) (simp, simp only:)
  then obtain m' where m': "build_list pa n (of_nat (Suc i)) ?m = Some m'" "dom m' = dom ?m"
      "\<And>j. Suc i \<le> j \<Longrightarrow> j < Suc i + n \<Longrightarrow> m' (pa + 4 * of_nat j) = Some (pa + 4 * of_nat (Suc j))"
      "\<And>j. j < Suc i \<Longrightarrow> m' (pa + 4 * of_nat j) = ?m (pa + 4 * of_nat j)"
    by blast
  have st: "store (pa + 4 * of_nat i) (pa + 4 * (of_nat i + 1)) m = Some ?m"
    using d by (simp add: store_def add.commute)
  have "build_list pa (Suc n) (of_nat i) m = Some m'"
  proof -
    have "of_nat (Suc i) = (of_nat i + 1 :: u32)" by simp
    with m'(1) show ?thesis unfolding build_list.simps st bind.bind_lunit by (simp only:)
  qed
  moreover have "m' (pa + 4 * of_nat j) = m (pa + 4 * of_nat j)" if "j < i" for j
  proof -
    have "pa + 4 * of_nat j \<noteq> pa + 4 * of_nat i"
      using node_words_inj [OF assms, of j i] that Suc.prems(1) by simp
    then show ?thesis using m'(4) [of j] that by simp
  qed
  moreover have "m' (pa + 4 * of_nat j) = Some (pa + 4 * of_nat (Suc j))" if "i \<le> j" "j < i + Suc n" for j
    using m'(3) [of j] m'(4) [of i] that by (cases "i = j") auto
  moreover have "dom m' = dom m" using m'(2) d by auto
  ultimately show ?case by blast
qed auto

text \<open>The chain that the loop and the final store leave behind.\<close>

lemma built_chain:
  assumes "unat (pool_addr p) + 4 * N < 2 ^ 32" and "0 < n" "n \<le> N"
    and "\<And>j. j < n \<Longrightarrow> m (node_addr p j) = Some (if Suc j = n then 0 else node_addr p (Suc j))"
  shows "i < n \<Longrightarrow> free_chain p m (node_addr p i) [i..<n]"
proof (induction "n - i" arbitrary: i)
  case (Suc k)
  then have up: "[i..<n] = i # [Suc i..<n]" by (simp add: upt_conv_Cons)
  show ?case
  proof (cases "Suc i = n")
    case True
    then show ?thesis using assms(4) [of i] Suc.prems by (simp add: up)
  next
    case False
    then have "free_chain p m (node_addr p (Suc i)) [Suc i..<n]"
      using Suc.hyps(1) [of "Suc i"] Suc.hyps(2) Suc.prems by simp
    then show ?thesis using assms(4) [of i] Suc.prems False by (simp add: up)
  qed
qed simp

text \<open>What the arguments have to satisfy: the pool is mapped and nothing wraps around.\<close>

definition create_args :: "u32 \<Rightarrow> u32 \<Rightarrow> u32 \<Rightarrow> u32 \<Rightarrow> pmem \<Rightarrow> bool" where
  "create_args sz align pa psize m =
     (0 < sz \<and> unat align \<le> 7 \<and> unat sz + 256 < 2 ^ 32 \<and> pa \<noteq> 0 \<and>
      unat pa + unat psize + 256 < 2 ^ 32 \<and>
      (\<forall>i. 4 * i + 4 \<le> unat psize \<longrightarrow> pa + 4 * of_nat i \<in> dom m))"

text \<open>Whether \<open>n\<close> nodes and \<open>n\<close> blocks fit, with the alignment of the block area.\<close>

definition pool_fits :: "u32 \<Rightarrow> u32 \<Rightarrow> u32 \<Rightarrow> u32 \<Rightarrow> nat \<Rightarrow> bool" where
  "pool_fits sz align pa psize n =
     (unat (blk_round align (pa + 4 * of_nat n)) + n * unat (blk_round align sz) \<le> unat pa + unat psize)"

lemma create_size:
  assumes "create_args sz align pa psize m"
  shows "unat sz \<le> unat (blk_round align sz)" "2 ^ unat align \<le> unat (blk_round align sz)"
    "2 ^ unat align dvd unat (blk_round align sz)" "unat (blk_round align sz) < unat sz + 128"
    "0 < unat (blk_round align sz)"
proof -
  have a: "unat align \<le> 7" "unat sz + 128 < 2 ^ 32" "0 < unat sz"
    using assms by (auto simp: create_args_def unat_less_iff)
  note r = blk_round_eq [OF a(1,2)]
  show "unat sz \<le> unat (blk_round align sz)" "2 ^ unat align dvd unat (blk_round align sz)" by (fact r)+
  show "0 < unat (blk_round align sz)" using r(1) a(3) by simp
  then show "2 ^ unat align \<le> unat (blk_round align sz)" using r(3) by (rule dvd_imp_le [rotated])
  show "unat (blk_round align sz) < unat sz + 128"
    using r(2) power_increasing [OF a(1), of "2 :: nat"] by simp
qed

lemma create_round:
  assumes "create_args sz align pa psize m" and "4 * n \<le> unat psize"
  shows "unat (pa + 4 * of_nat n) = unat pa + 4 * n"
    "unat pa + 4 * n \<le> unat (blk_round align (pa + 4 * of_nat n))"
    "unat (blk_round align (pa + 4 * of_nat n)) < unat pa + 4 * n + 2 ^ unat align"
    "2 ^ unat align dvd unat (blk_round align (pa + 4 * of_nat n))"
proof -
  have a: "unat align \<le> 7" "unat pa + 4 * n + 128 < 2 ^ 32"
    using assms by (auto simp: create_args_def)
  then show w: "unat (pa + 4 * of_nat n) = unat pa + 4 * n" by (intro node_words [of pa n]) simp_all
  then have "unat (pa + 4 * of_nat n) + 128 < 2 ^ 32" using a(2) by simp
  from blk_round_eq [OF a(1) this] w
  show "unat pa + 4 * n \<le> unat (blk_round align (pa + 4 * of_nat n))"
    "unat (blk_round align (pa + 4 * of_nat n)) < unat pa + 4 * n + 2 ^ unat align"
    "2 ^ unat align dvd unat (blk_round align (pa + 4 * of_nat n))"
    by simp_all
qed

lemma create_lower:
  assumes "create_args sz align pa psize m" and "4 * n \<le> unat psize + 4"
  shows "unat pa + 4 * n \<le> unat (blk_round align (pa + 4 * of_nat n))"
proof -
  have a: "unat align \<le> 7" "unat pa + 4 * n + 128 < 2 ^ 32"
    using assms by (auto simp: create_args_def)
  then have w: "unat (pa + 4 * of_nat n) = unat pa + 4 * n" by (intro node_words [of pa n]) simp_all
  then have "unat (pa + 4 * of_nat n) + 128 < 2 ^ 32" using a(2) by simp
  from blk_round_eq(1) [OF a(1) this] w show ?thesis by simp
qed

text \<open>With one node and one block less the alignment always fits.\<close>

lemma fits_pred:
  assumes "create_args sz align pa psize m" and "n * (4 + unat (blk_round align sz)) \<le> unat psize" and "k < n"
  shows "pool_fits sz align pa psize k"
proof -
  let ?S = "unat (blk_round align sz)"
  have "Suc k * (4 + ?S) \<le> n * (4 + ?S)" using assms(3) by (intro mult_le_mono1) simp
  then have le: "4 * k + k * ?S + 4 + ?S \<le> unat psize" using assms(2) by (simp add: algebra_simps)
  then have "unat (blk_round align (pa + 4 * of_nat k)) < unat pa + 4 * k + 2 ^ unat align"
    using create_round(3) [OF assms(1), of k] by simp
  then show ?thesis using create_size(2) [OF assms(1)] le by (simp add: pool_fits_def)
qed

lemma build_chain:
  assumes "create_args sz align pa psize m" and "0 < n" and "4 * n \<le> unat psize"
  shows "\<exists>m1 m2. build_list pa n 0 m = Some m1 \<and> store (pa + 4 * (of_nat n - 1)) 0 m1 = Some m2 \<and>
    dom m2 = dom m \<and>
    (\<forall>j < n. m2 (pa + 4 * of_nat j) = Some (if Suc j = n then 0 else pa + 4 * of_nat (Suc j)))"
proof -
  have N: "unat pa + 4 * n < 2 ^ 32" using assms by (simp add: create_args_def)
  have "pa + 4 * of_nat j \<in> dom m" if "0 \<le> j" "j < 0 + n" for j
    using assms(1,3) that by (simp add: create_args_def)
  then have "\<exists>m'. build_list pa n (of_nat 0) m = Some m' \<and> dom m' = dom m \<and>
      (\<forall>j. 0 \<le> j \<and> j < 0 + n \<longrightarrow> m' (pa + 4 * of_nat j) = Some (pa + 4 * of_nat (Suc j))) \<and>
      (\<forall>j < 0. m' (pa + 4 * of_nat j) = m (pa + 4 * of_nat j))"
    by (intro build_list_eq [OF N]) simp_all
  then obtain m1 where m1: "build_list pa n 0 m = Some m1" "dom m1 = dom m"
      "\<And>j. j < n \<Longrightarrow> m1 (pa + 4 * of_nat j) = Some (pa + 4 * of_nat (Suc j))"
    by auto
  have last: "(of_nat n - 1 :: u32) = of_nat (n - 1)" using assms(2) by (simp add: of_nat_diff)
  let ?m = "m1(pa + 4 * of_nat (n - 1) \<mapsto> 0)"
  have "pa + 4 * of_nat (n - 1) \<in> dom m1" using m1(3) [of "n - 1"] assms(2) by auto
  then have "store (pa + 4 * (of_nat n - 1)) 0 m1 = Some ?m" "dom ?m = dom m"
    using m1(2) by (auto simp: store_def last)
  moreover have "?m (pa + 4 * of_nat j) = Some (if Suc j = n then 0 else pa + 4 * of_nat (Suc j))" if "j < n" for j
  proof (cases "Suc j = n")
    case True
    then have "j = n - 1" by simp
    then show ?thesis using True by simp
  next
    case False
    then have "pa + 4 * of_nat j \<noteq> pa + 4 * of_nat (n - 1)"
      using node_words_inj [OF N, of j "n - 1"] that by simp
    then show ?thesis using m1(3) [OF that] False by (simp only: fun_upd_other) simp
  qed
  ultimately show ?thesis using m1(1) by blast
qed

definition created :: "u32 \<Rightarrow> u32 \<Rightarrow> u32 \<Rightarrow> nat \<Rightarrow> 'e bflb_block_pool_t" where
  "created sz align pa n = \<lparr>free_list = pa, pool_addr = pa, blk_addr = blk_round align (pa + 4 * of_nat n),
     blk_size = blk_round align sz, blk_align = align, blk_total = of_nat n, blk_free = of_nat n,
     mtx_get = None, mtx_put = None, sem_get = None, sem_put = None\<rparr>"

lemma created_sel [simp]:
  "free_list (created sz align pa n) = pa" "pool_addr (created sz align pa n) = pa"
  "blk_addr (created sz align pa n) = blk_round align (pa + 4 * of_nat n)"
  "blk_size (created sz align pa n) = blk_round align sz"
  "blk_total (created sz align pa n) = of_nat n" "blk_free (created sz align pa n) = of_nat n"
  "mtx_get (created sz align pa n) = None" "mtx_put (created sz align pa n) = None"
  "sem_get (created sz align pa n) = None" "sem_put (created sz align pa n) = None"
  by (simp_all add: created_def)

lemma create_eq:
  assumes args: "create_args sz align pa psize m"
  defines "n0 \<equiv> unat psize div (4 + unat (blk_round align sz))"
  defines "n \<equiv> if pool_fits sz align pa psize n0 then n0 else n0 - 1"
  shows "bflb_block_pool_create p sz align pa psize m =
    (if n = 0 then Some (-1, p, m) else do {
       m \<leftarrow> build_list pa n 0 m;
       m \<leftarrow> store (pa + 4 * (of_nat n - 1)) 0 m;
       Some (0, created sz align pa n, m)
     })"
proof -
  define S where "S = blk_round align sz"
  have S: "unat (4 + S) = 4 + unat S"
    using create_size(4) [OF args] args by (subst unat_plus_small) (auto simp: create_args_def S_def)
  have S0: "4 + S \<noteq> 0" using S by (metis add_eq_0_iff_both_eq_0 unsigned_0 zero_neq_numeral)
  have n0: "n0 * (4 + unat S) \<le> unat psize" by (simp add: n0_def S_def)
  then have n0': "4 * n0 \<le> unat psize" "n0 \<le> unat psize" by (simp_all add: algebra_simps)
  have un: "unat (of_nat k :: u32) = k" if "k \<le> n0" for k
    using below_u32(2) [OF le_trans [OF that n0'(2)]] by (intro unat_of_nat_small) simp
  have count: "psize div (4 + S) = of_nat n0"
    using S by (intro word_of_unat) (simp add: unat_div_distrib n0_def S_def)
  have cmp: "(blk_round align (pa + 4 * of_nat n0) + of_nat n0 * S > pa + psize) = (\<not> pool_fits sz align pa psize n0)"
  proof -
    have m: "unat (of_nat n0 * S) = n0 * unat S"
    proof -
      have "n0 * unat S \<le> unat psize" using n0 by (simp add: algebra_simps)
      then have "n0 * unat S < 2 ^ 32" using below_u32(2) by simp
      then have "unat (of_nat (n0 * unat S) :: u32) = n0 * unat S" by (intro unat_of_nat_small) simp
      then show ?thesis by simp
    qed
    have "unat (blk_round align (pa + 4 * of_nat n0)) < unat pa + 4 * n0 + 128"
      using create_round(3) [OF args n0'(1)] args power_increasing [of "unat align" 7 "2 :: nat"]
      by (simp add: create_args_def)
    then have "unat (blk_round align (pa + 4 * of_nat n0)) + n0 * unat S < 2 ^ 32"
      using n0 args by (simp add: create_args_def algebra_simps)
    then have "unat (blk_round align (pa + 4 * of_nat n0) + of_nat n0 * S) =
        unat (blk_round align (pa + 4 * of_nat n0)) + n0 * unat S"
      using m by (subst unat_plus_small) simp_all
    moreover have "unat (pa + psize) = unat pa + unat psize"
      using args by (subst unat_plus_small) (auto simp: create_args_def)
    ultimately show ?thesis by (simp add: unat_less_iff pool_fits_def S_def not_le)
  qed
  have zero: "(of_nat k = (0 :: u32)) = (k = 0)" if "k \<le> n0" for k
  proof
    assume "(of_nat k :: u32) = 0"
    then have "unat (of_nat k :: u32) = 0" by (simp only: unsigned_0)
    then show "k = 0" using un [OF that] by simp
  qed simp
  have pred: "(of_nat n0 - 1 :: u32) = of_nat (n0 - 1)" if "n0 \<noteq> 0"
    using that by (simp add: of_nat_diff)
  note unf = bflb_block_pool_create_def Let_def S_def [symmetric] count cmp if_not_P [OF S0]
  show ?thesis
  proof (cases "n0 = 0")
    case True
    then have "n = 0" by (simp add: n_def)
    then show ?thesis using zero [of n0] True unfolding unf by simp
  next
    case False
    then have w: "of_nat n0 \<noteq> (0 :: u32)" using zero [of n0] by simp
    show ?thesis
    proof (cases "pool_fits sz align pa psize n0")
      case True
      then have n: "n = n0" by (simp add: n_def)
      show ?thesis
        unfolding unf n by (simp only: True False w if_False not_True_eq_False simp_thms un order_refl created_def S_def)
    next
      case less: False
      then have n: "n = n0 - 1" by (simp add: n_def)
      have z: "(of_nat (n0 - 1) = (0 :: u32)) = (n0 - 1 = 0)" "unat (of_nat (n0 - 1) :: u32) = n0 - 1"
        using zero [of "n0 - 1"] un [of "n0 - 1"] by simp_all
      show ?thesis
        unfolding unf n pred [OF False]
        by (simp only: less w if_False if_True not_False_eq_True simp_thms z created_def S_def)
    qed
  qed
qed

lemma create_none_fits:
  assumes args: "create_args sz align pa psize m"
    and zero: "(if pool_fits sz align pa psize n0 then n0 else n0 - 1) = 0"
    and n0: "n0 = unat psize div (4 + unat (blk_round align sz))"
  shows "\<not> pool_fits sz align pa psize 1"
proof (cases "n0 = 0")
  case True
  then have small: "unat psize < 4 + unat (blk_round align sz)"
    using n0 by (simp add: div_eq_0_iff)
  have "unat pa + 4 \<le> unat (blk_round align (pa + 4))"
  proof -
    have "unat (pa + 4) = unat pa + 4"
      using args by (subst unat_plus_small) (auto simp: create_args_def)
    then show ?thesis
      using blk_round_eq(1) [of align "pa + 4"] args by (simp add: create_args_def)
  qed
  then show ?thesis using small by (simp add: pool_fits_def)
next
  case False
  then have "n0 = 1" "\<not> pool_fits sz align pa psize n0" using zero by (auto split: if_splits)
  then show ?thesis by simp
qed

lemma create_inv:
  assumes args: "create_args sz align pa psize m" and fits: "pool_fits sz align pa psize n"
    and n: "0 < n" "n * (4 + unat (blk_round align sz)) \<le> unat psize"
    and m2: "dom m2 = dom m"
    "\<And>j. j < n \<Longrightarrow> m2 (pa + 4 * of_nat j) = Some (if Suc j = n then 0 else pa + 4 * of_nat (Suc j))"
  shows "pool_inv (created sz align pa n :: 'e bflb_block_pool_t, m2) {}"
proof -
  let ?p = "created sz align pa n :: 'e bflb_block_pool_t"
  have n4: "4 * n \<le> unat psize" and n1: "n \<le> unat psize" using n(2) by (simp_all add: algebra_simps)
  have un: "unat (of_nat n :: u32) = n"
    using below_u32(2) [OF n1] by (intro unat_of_nat_small) simp
  have "unat (blk_addr ?p) + n * unat (blk_size ?p) < 2 ^ 32"
    using fits args by (simp add: pool_fits_def create_args_def)
  moreover have "\<forall>i < n. node_addr ?p i \<in> dom m2"
    using m2(2) by (auto simp: node_addr_def)
  moreover have "0 < blk_size ?p"
    using create_size(5) [OF args] by (simp add: unat_less_iff)
  moreover have "pa \<noteq> 0" using args by (simp add: create_args_def)
  ultimately have geo: "geometry ?p m2"
    using create_round(2) [OF args n4] un by (simp add: geometry_def)
  have "free_chain ?p m2 (node_addr ?p 0) [0..<n]"
  proof -
    have a: "unat (pool_addr ?p) + 4 * n < 2 ^ 32" using args n4 by (simp add: create_args_def)
    have b: "m2 (node_addr ?p j) = Some (if Suc j = n then 0 else node_addr ?p (Suc j))" if "j < n" for j
      using m2(2) [OF that] by (simp add: node_addr_def)
    show ?thesis by (rule built_chain [OF a n(1) order_refl b n(1)])
  qed
  moreover have "free_list ?p = node_addr ?p 0" by (simp add: node_addr_def)
  moreover have "pool_blocks ?p = {0..<n}" "unat (blk_free ?p) = n"
    using un by (simp_all add: pool_blocks_def)
  ultimately have "\<exists>is. free_chain ?p m2 (free_list ?p) is \<and> distinct is \<and>
      set is = pool_blocks ?p - {} \<and> unat (blk_free ?p) = length is"
    by (intro exI [of _ "[0..<n]"]) (simp_all only: distinct_upt set_upt length_upt Diff_empty minus_nat.diff_0 simp_thms)
  then show ?thesis using geo by (simp only: pool_inv_def prod.case empty_subsetI simp_thms)
qed

lemma create_layout:
  assumes "create_args sz align pa psize m"
  shows "if \<not> pool_fits sz align pa psize 1 then bflb_block_pool_create p sz align pa psize m = Some (-1, p, m)
    else \<exists>p' m'. bflb_block_pool_create p sz align pa psize m = Some (0, p', m') \<and>
      pool_inv (p', m') {} \<and> pool_ready p' \<and> dom m' = dom m \<and>
      pool_fits sz align pa psize (unat (blk_total p')) \<and>
      \<not> pool_fits sz align pa psize (Suc (unat (blk_total p'))) \<and> unat sz \<le> unat (blk_size p') \<and>
      (\<forall>i < unat (blk_total p'). 2 ^ unat align dvd unat (block_addr p' i) \<and>
        unat pa + 4 * unat (blk_total p') \<le> unat (block_addr p' i) \<and>
        unat (block_addr p' i) + unat (blk_size p') \<le> unat pa + unat psize)"
proof -
  let ?S = "unat (blk_round align sz)"
  define n0 where "n0 = unat psize div (4 + ?S)"
  define n where "n = (if pool_fits sz align pa psize n0 then n0 else n0 - 1)"
  have eq: "bflb_block_pool_create p sz align pa psize m =
    (if n = 0 then Some (-1, p, m) else do {
       m \<leftarrow> build_list pa n 0 m;
       m \<leftarrow> store (pa + 4 * (of_nat n - 1)) 0 m;
       Some (0, created sz align pa n, m)
     })"
    unfolding n_def n0_def by (rule create_eq [OF assms])
  have n0: "n0 * (4 + ?S) \<le> unat psize" by (simp add: n0_def)
  have over: "\<not> pool_fits sz align pa psize (Suc n0)"
  proof -
    have "unat psize < Suc n0 * (4 + ?S)"
      using dividend_less_div_times [of "4 + ?S" "unat psize"] by (simp add: n0_def algebra_simps)
    moreover have "4 * Suc n0 \<le> unat psize + 4" using n0 by (simp add: algebra_simps)
    then have "unat pa + 4 * Suc n0 \<le> unat (blk_round align (pa + 4 * of_nat (Suc n0)))"
      by (rule create_lower [OF assms])
    ultimately show ?thesis by (simp add: pool_fits_def algebra_simps)
  qed
  show ?thesis
  proof (cases "n = 0")
    case True
    then have "\<not> pool_fits sz align pa psize 1"
      using create_none_fits [OF assms _ n0_def] by (simp add: n_def)
    then show ?thesis using eq True by simp
  next
    case False
    have fits: "pool_fits sz align pa psize n"
      using fits_pred [OF assms n0, of "n0 - 1"] False by (auto simp: n_def split: if_splits)
    have one: "pool_fits sz align pa psize 1"
    proof (cases "n = 1")
      case False
      then have "1 < n0" using \<open>n \<noteq> 0\<close> by (auto simp: n_def split: if_splits)
      then show ?thesis by (rule fits_pred [OF assms n0])
    qed (use fits in simp)
    have max: "\<not> pool_fits sz align pa psize (Suc n)"
      using over False by (auto simp: n_def split: if_splits)
    have "n * (4 + ?S) \<le> n0 * (4 + ?S)" by (rule mult_le_mono1) (simp add: n_def)
    then have nS: "n * (4 + ?S) \<le> unat psize" using n0 by (rule le_trans)
    then have n4: "4 * n \<le> unat psize" and n1: "n \<le> unat psize" by (simp_all add: algebra_simps)
    have un: "unat (of_nat n :: u32) = n"
      using below_u32(2) [OF n1] by (intro unat_of_nat_small) simp
    have pos: "0 < n" using False by simp
    obtain m1 m2 where m2: "build_list pa n 0 m = Some m1" "store (pa + 4 * (of_nat n - 1)) 0 m1 = Some m2"
        "dom m2 = dom m"
        "\<And>j. j < n \<Longrightarrow> m2 (pa + 4 * of_nat j) = Some (if Suc j = n then 0 else pa + 4 * of_nat (Suc j))"
      using build_chain [OF assms pos n4] by blast
    let ?p = "created sz align pa n :: 'a bflb_block_pool_t"
    have run: "bflb_block_pool_create p sz align pa psize m = Some (0, ?p, m2)"
      unfolding eq if_not_P [OF False] m2(1) bind.bind_lunit m2(2) ..
    have inv: "pool_inv (?p, m2) {}" by (rule create_inv [OF assms fits pos nS m2(3,4)])
    then have g: "geometry ?p m2" by (simp add: pool_inv_def)
    have blocks: "2 ^ unat align dvd unat (block_addr ?p i) \<and>
        unat pa + 4 * n \<le> unat (block_addr ?p i) \<and> unat (block_addr ?p i) + ?S \<le> unat pa + unat psize"
      if "i < n" for i
    proof -
      have b: "unat (block_addr ?p i) = unat (blk_round align (pa + 4 * of_nat n)) + i * ?S"
        using block_addr_eq [OF g, of i] that un by simp
      have "Suc i * ?S \<le> n * ?S" using that by (intro mult_le_mono1) simp
      then have "unat (block_addr ?p i) + ?S \<le> unat pa + unat psize"
        using fits b by (simp add: pool_fits_def)
      moreover have "2 ^ unat align dvd unat (block_addr ?p i)"
        unfolding b using create_round(4) [OF assms n4] create_size(3) [OF assms] by (intro dvd_add dvd_mult)
      moreover have "unat pa + 4 * n \<le> unat (block_addr ?p i)"
        using create_round(2) [OF assms n4] by (simp add: b)
      ultimately show ?thesis by blast
    qed
    have "pool_ready ?p" by (simp add: pool_ready_def)
    then show ?thesis
      using run inv m2(3) fits max one un create_size(1) [OF assms] blocks by auto
  qed
qed

lemma create_sound:
  assumes "create_args sz align pa psize m"
    and "bflb_block_pool_create p0 sz align pa psize m = Some (0, p, m1)"
  shows "pool_inv (p, m1) {}" and "pool_ready p"
  using create_layout [OF assms(1), of p0] assms(2) by (auto split: if_splits)

text \<open>The addresses right behind the last node and the last block.\<close>

lemma node_addr_end:
  assumes "geometry p m"
  shows "\<not> (node_addr p (unat (blk_total p)) = 0 \<or>
    (\<exists>i < unat (blk_total p). node_addr p (unat (blk_total p)) = node_addr p i))"
proof -
  have "unat (pool_addr p) + 4 * unat (blk_total p) < 2 ^ 32" and pos: "0 < unat (pool_addr p)"
    using assms below_u32(2) [of _ "blk_addr p"] by (auto simp: geometry_def unat_gt_0)
  note words = node_words [OF this(1)] node_words_inj [OF this(1)]
  have "unat (node_addr p (unat (blk_total p))) \<noteq> 0"
    unfolding node_addr_def words(1) [OF order_refl] using pos by simp
  then have "node_addr p (unat (blk_total p)) \<noteq> 0" by auto
  then show ?thesis
    unfolding node_addr_def using words(2) [of "unat (blk_total p)"] by (auto dest: less_imp_le)
qed

lemma block_index_end:
  assumes "geometry p m" and "unat (blk_addr p) + Suc (unat (blk_total p)) * unat (blk_size p) < 2 ^ 32"
  shows "(block_addr p (unat (blk_total p)) - blk_addr p) div blk_size p = blk_total p"
proof -
  have "unat (blk_total p * blk_size p) = unat (blk_total p) * unat (blk_size p)"
    using assms(2) by (simp add: unat_mult_lem [symmetric])
  moreover have "block_addr p (unat (blk_total p)) - blk_addr p = blk_total p * blk_size p"
    by (simp add: block_addr_def)
  ultimately show ?thesis using blk_size_pos [OF assms(1)] by (simp add: word_unat_eq_iff unat_div_distrib)
qed

section \<open>What the client sees\<close>

lemma pool_live_info:
  assumes "pool_live (p, m, e) (set held)" and "distinct held"
  shows "bflb_block_pool_info_get p = (blk_total p, blk_total p - of_nat (length held))"
    and "fst (bflb_block_pool_delete p) = 0 \<longleftrightarrow> held = []"
    and "unat (blk_total p) = card (pool_block_addrs (p, m, e))"
proof -
  obtain live where live: "set held = block_addr p ` live" "pool_inv (p, m) live"
    using assms(1) by (auto simp: pool_live_def)
  then have g: "geometry p m" and sub: "live \<subseteq> pool_blocks p" by (auto simp: pool_inv_def)
  note inj = block_inj_on [OF g]
  have card: "card live = length held"
    using card_image [OF inj_on_subset [OF inj sub]] live(1) distinct_card [OF assms(2)] by simp
  note free = pool_live_card(1,2) [OF live(2), unfolded card]
  have "unat (blk_total p - of_nat (length held)) = unat (blk_total p) - length held"
    using free(2) below_u32(2) [OF free(2)] unat_of_nat_small [of "length held", where ?'a = 32]
    by (subst unat_sub_le) (simp_all add: unat_le_iff)
  then have eq: "blk_free p = blk_total p - of_nat (length held)"
    using free(1) by (metis word_unat_eq_iff)
  then show "bflb_block_pool_info_get p = (blk_total p, blk_total p - of_nat (length held))"
    by (simp add: bflb_block_pool_info_get_def)
  have "blk_total p = blk_free p \<longleftrightarrow> length held = 0"
    using free unfolding word_unat_eq_iff by linarith
  then show "fst (bflb_block_pool_delete p) = 0 \<longleftrightarrow> held = []"
    by (simp add: bflb_block_pool_delete_def)
  show "unat (blk_total p) = card (pool_block_addrs (p, m, e))"
    using card_image [OF inj] by (simp add: pool_block_addrs_def pool_blocks_def)
qed

text \<open>The head of a sound free list is the node of a block of the pool, or \<open>NULL\<close>.\<close>

lemma pool_head:
  assumes "pool_inv (p, m) live"
  shows "free_list p = 0 \<or> (\<exists>i < unat (blk_total p). free_list p = node_addr p i)"
proof -
  obtain "is" where fl: "free_chain p m (free_list p) is" "set is = pool_blocks p - live"
    using assms by (auto simp: pool_inv_def)
  show ?thesis
  proof (cases "is")
    case (Cons i js)
    then have "i \<in> pool_blocks p" using fl(2) by auto
    then show ?thesis using Cons fl(1) by (auto simp: pool_blocks_def)
  qed (use fl(1) in simp)
qed

section \<open>Properties\<close>

text \<open>
  C24: creating a pool.  For a mapped pool that does not reach the end of the address space the
  call fails exactly when not even one block fits; otherwise the pool satisfies the invariant
  with no block in use, it has as many blocks as fit, every block is at least as long as
  requested, aligned as requested, inside the pool and behind the nodes.
\<close>

theorem pool_create_layout:
  assumes "create_args sz align pa psize m"
  shows "if \<not> pool_fits sz align pa psize 1 then bflb_block_pool_create p sz align pa psize m = Some (-1, p, m)
    else \<exists>p' m'. bflb_block_pool_create p sz align pa psize m = Some (0, p', m') \<and>
      pool_inv (p', m') {} \<and> pool_ready p' \<and> dom m' = dom m \<and>
      pool_fits sz align pa psize (unat (blk_total p')) \<and>
      \<not> pool_fits sz align pa psize (Suc (unat (blk_total p'))) \<and> unat sz \<le> unat (blk_size p') \<and>
      (\<forall>i < unat (blk_total p'). 2 ^ unat align dvd unat (block_addr p' i) \<and>
        unat pa + 4 * unat (blk_total p') \<le> unat (block_addr p' i) \<and>
        unat (block_addr p' i) + unat (blk_size p') \<le> unat pa + unat psize)"
  using assms by (rule create_layout)

theorem pool_create_layout_witness:
  "\<forall>p :: unit bflb_block_pool_t. \<exists>p' m'. bflb_block_pool_create p 6 2 0x1000 30 (\<lambda>_. Some 0) = Some (0, p', m') \<and>
     pool_inv (p', m') {} \<and> pool_fits 6 2 0x1000 30 (unat (blk_total p'))"
proof
  fix p :: "unit bflb_block_pool_t"
  have "create_args 6 2 0x1000 30 (\<lambda>_. Some 0)" by (simp add: create_args_def dom_def)
  moreover have "pool_fits 6 2 0x1000 30 1" by (simp add: pool_fits_def blk_round_def)
  ultimately show "\<exists>p' m'. bflb_block_pool_create p 6 2 0x1000 30 (\<lambda>_. Some 0) = Some (0, p', m') \<and>
     pool_inv (p', m') {} \<and> pool_fits 6 2 0x1000 30 (unat (blk_total p'))"
    using pool_create_layout [of 6 2 "0x1000" 30 "\<lambda>_. Some 0" p] by auto
qed

text \<open>
  C7: histories.  After a successful creation every sequence of requests and of releases of
  blocks the client holds runs without undefined behaviour; a request is refused only when all
  blocks are in use, and answered with a block that is not in use otherwise; the numbers that
  \<open>bflb_block_pool_info_get\<close> reports are those of the history, and the pool can be deleted
  exactly when the client holds nothing.
\<close>

theorem pool_history:
  assumes "create_args sz align pa psize m"
    and "bflb_block_pool_create p0 sz align pa psize m = Some (0, p, m1)"
  shows "\<exists>answers p' m' e' held. alloc_run (pool_alloc wait) pool_free (p, m1, e) [] ops =
      Some (answers, (p', m', e'), held) \<and> distinct held \<and>
    answers_ok (pool_block_addrs (p, m1, e)) [] ops answers \<and>
    bflb_block_pool_info_get p' = (blk_total p, blk_total p - of_nat (length held)) \<and>
    (fst (bflb_block_pool_delete p') = 0 \<longleftrightarrow> held = [])"
proof -
  have inv: "pool_inv (p, m1) {}" "pool_ready p" by (rule create_sound [OF assms])+
  then have live: "pool_live (p, m1, e) (set [])" by (auto simp: pool_live_def)
  from pool_allocator.history [OF this, of wait ops] obtain answers p' m' e' held where r:
    "alloc_run (pool_alloc wait) pool_free (p, m1, e) [] ops = Some (answers, (p', m', e'), held)"
    "pool_live (p', m', e') (set held)" "distinct held"
    "pool_block_addrs (p', m', e') = pool_block_addrs (p, m1, e)"
    "answers_ok (pool_block_addrs (p, m1, e)) [] ops answers"
    by auto
  have "blk_total p' = blk_total p"
    using pool_live_info(3) [OF r(2,3)] pool_live_info(3) [OF live] r(4) by (auto simp: word_unat_eq_iff)
  then show ?thesis using r pool_live_info(1,2) [OF r(2,3)] by auto
qed

theorem pool_history_witness:
  "\<forall>p0. \<exists>p m1 answers s' held. bflb_block_pool_create p0 8 3 0x1000 24 (\<lambda>_. Some 0) = Some (0, p, m1) \<and>
    alloc_run (pool_alloc 5) pool_free (p, m1, ()) [] [Request, Request, Release 0, Request] =
      Some (answers, s', held)"
proof
  fix p0 :: "unit bflb_block_pool_t"
  have a: "create_args 8 3 0x1000 24 (\<lambda>_. Some 0)" by (simp add: create_args_def dom_def)
  have "pool_fits 8 3 0x1000 24 1" by (simp add: pool_fits_def blk_round_def)
  then obtain p m1 where c: "bflb_block_pool_create p0 8 3 0x1000 24 (\<lambda>_. Some 0) = Some (0, p, m1)"
    using create_layout [OF a, of p0] by auto
  show "\<exists>p m1 answers s' held. bflb_block_pool_create p0 8 3 0x1000 24 (\<lambda>_. Some 0) = Some (0, p, m1) \<and>
    alloc_run (pool_alloc 5) pool_free (p, m1, ()) [] [Request, Request, Release 0, Request] =
      Some (answers, s', held)"
    using c pool_history [OF a c, where ops = "[Request, Request, Release 0, Request]" and wait = 5 and e = "()"]
    by blast
qed

text \<open>
  The range check of \<open>bflb_block_pool_free\<close> accepts the address right behind the last block.
  Whenever a block is in use (and the memory behind the nodes can be written, which is the block
  area itself when it starts right behind them), freeing that address is reported as a success,
  and leaves a free list that hands out a block outside the pool: the invariant is lost for
  every set of blocks in use.
\<close>

theorem pool_free_past_end:
  assumes "pool_inv (p, m) live" and "pool_ready p" and "live \<noteq> {}"
    and "node_addr p (unat (blk_total p)) \<in> dom m"
    and "unat (blk_addr p) + Suc (unat (blk_total p)) * unat (blk_size p) < 2 ^ 32"
  shows "\<exists>p' m' e'. bflb_block_pool_free p (block_addr p (unat (blk_total p))) m e = Some (0, p', m', e') \<and>
    (\<forall>live'. \<not> pool_inv (p', m') live')"
proof -
  let ?n = "unat (blk_total p)"
  let ?p = "p\<lparr>free_list := node_addr p ?n, blk_free := blk_free p + 1\<rparr>"
  let ?m = "m(node_addr p ?n \<mapsto> free_list p)"
  have g: "geometry p m" and sub: "live \<subseteq> pool_blocks p" using assms(1) by (auto simp: pool_inv_def)
  have "0 < card live" using assms(3) sub finite_subset [OF sub] by (auto simp: card_gt_0_iff pool_blocks_def)
  then have ne: "blk_total p \<noteq> blk_free p" using pool_live_card(1,2) [OF assms(1)] by auto
  have size: "blk_size p \<noteq> 0" using blk_size_pos [OF g] by auto
  obtain e1 where e1: "(case mtx_get p of None \<Rightarrow> (False, e)
      | Some get \<Rightarrow> get CONFIG_BFLB_BLOCK_POOL_MTX_TIMEOUT e) = (False, e1)"
    using pool_readyE [OF assms(2)] by blast
  have idx: "(block_addr p ?n - blk_addr p) div blk_size p = blk_total p"
    by (rule block_index_end [OF g assms(5)])
  have "\<exists>e'. bflb_block_pool_free p (block_addr p ?n) m e = Some (0, ?p, ?m, e')"
    using ne size idx assms(4) e1 by (simp add: bflb_block_pool_free_def Let_def store_def node_addr_def mult.commute)
  moreover have "\<not> pool_inv (?p, ?m) live'" for live'
  proof
    assume "pool_inv (?p, ?m) live'"
    then have "node_addr p ?n = 0 \<or> (\<exists>i < ?n. node_addr p ?n = node_addr p i)"
      by (drule_tac pool_head) simp
    then show False using node_addr_end [OF g] by blast
  qed
  ultimately show ?thesis by blast
qed


theorem pool_free_past_end_witness:
  "\<exists>p m. pool_inv (p, m) {0} \<and> (\<exists>p' m' e'. bflb_block_pool_free p 0x100C m () = Some (0, p', m', e') \<and>
     (\<forall>live'. \<not> pool_inv (p', m') live'))"
proof -
  let ?p = "\<lparr>free_list = 0, pool_addr = 0x1000, blk_addr = 0x1004, blk_size = 8, blk_align = 2, blk_total = 1,
    blk_free = 0, mtx_get = None, mtx_put = None, sem_get = None, sem_put = None\<rparr> :: unit bflb_block_pool_t"
  let ?m = "(\<lambda>_. Some 0) :: pmem"
  have "geometry ?p ?m" by (simp add: geometry_def dom_def)
  then have inv: "pool_inv (?p, ?m) {0}"
    unfolding pool_inv_def by (auto simp: pool_blocks_def intro!: exI [of _ "[]"])
  have "block_addr ?p (unat (blk_total ?p)) = 0x100C" by (simp add: block_addr_def)
  then show ?thesis
    using pool_free_past_end [OF inv, of "()"] inv by (auto simp: pool_ready_def dom_def)
qed

text \<open>
  The mutex.  With a mutex that counts its nesting, an allocation and a release of a block in
  use return it as they found it; but both error returns of \<open>bflb_block_pool_free\<close>, on a pool with
  no block in use and on an address outside the pool, keep it held.
\<close>

theorem pool_mutex_balance:
  fixes p :: "int bflb_block_pool_t"
  assumes "pool_inv (p, m) live" and "mtx_get p = Some (\<lambda>_ n. (False, n + 1))" and "mtx_put p = Some (\<lambda>n. n - 1)"
    and "sem_get p = None" and "sem_put p = None"
  shows "(\<exists>ret addr p'. bflb_block_pool_alloc p wait m n = Some (ret, addr, p', n)) \<and>
    (\<forall>i \<in> live. \<exists>p' m'. bflb_block_pool_free p (block_addr p i) m n = Some (0, p', m', n)) \<and>
    (live = {} \<longrightarrow> bflb_block_pool_free p addr m n = Some (-1, p, m, n + 1)) \<and>
    (live \<noteq> {} \<and> blk_total p < (addr - blk_addr p) div blk_size p \<longrightarrow>
      bflb_block_pool_free p addr m n = Some (-1, p, m, n + 1))"
proof -
  have ready: "pool_ready p" using assms(2,4,5) by (simp add: pool_ready_def)
  have g: "geometry p m" and sub: "live \<subseteq> pool_blocks p" using assms(1) by (auto simp: pool_inv_def)
  have size: "blk_size p \<noteq> 0" using blk_size_pos [OF g] by auto
  have empty: "blk_total p = blk_free p \<longleftrightarrow> live = {}"
  proof -
    have "blk_total p = blk_free p \<longleftrightarrow> card live = 0"
      using pool_live_card(1,2) [OF assms(1)] unfolding word_unat_eq_iff by linarith
    then show ?thesis using finite_subset [OF sub] by (auto simp: pool_blocks_def)
  qed
  have "\<exists>ret addr p'. bflb_block_pool_alloc p wait m n = Some (ret, addr, p', n)"
  proof (cases "live = pool_blocks p")
    case True
    then show ?thesis using pool_alloc_none [OF assms(1) ready] by blast
  next
    case False
    with pool_alloc_some [OF assms(1) ready, of wait n] show ?thesis
      by (auto simp: bflb_block_pool_alloc_def assms(2-5) Let_def split: if_splits Option.bind_splits)
  qed
  moreover have "\<exists>p' m'. bflb_block_pool_free p (block_addr p i) m n = Some (0, p', m', n)" if "i \<in> live" for i
    using pool_free_live [OF assms(1) ready that, of n]
    by (auto simp: bflb_block_pool_free_def assms(2-5) Let_def split: if_splits Option.bind_splits)
  ultimately show ?thesis
    using empty size by (simp add: bflb_block_pool_free_def assms(2-5) Let_def)
qed

theorem pool_mutex_balance_witness:
  "\<exists>p m. blk_free p = 1 \<and> bflb_block_pool_free p 0x1004 m 0 = Some (-1, p, m, 1 :: int)"
proof -
  let ?p = "\<lparr>free_list = 0x1000, pool_addr = 0x1000, blk_addr = 0x1004, blk_size = 8, blk_align = 2, blk_total = 1,
    blk_free = 1, mtx_get = Some (\<lambda>_ n. (False, n + 1)), mtx_put = Some (\<lambda>n. n - 1),
    sem_get = None, sem_put = None\<rparr> :: int bflb_block_pool_t"
  let ?m = "(\<lambda>_. Some 0) :: pmem"
  have "geometry ?p ?m" by (simp add: geometry_def dom_def)
  then have "pool_inv (?p, ?m) {}"
    unfolding pool_inv_def by (auto simp: pool_blocks_def node_addr_def intro!: exI [of _ "[0]"])
  then have "bflb_block_pool_free ?p 0x1004 ?m 0 = Some (-1, ?p, ?m, 0 + 1)"
    using pool_mutex_balance [where p = ?p and m = ?m and live = "{}" and addr = "0x1004" and n = 0] by simp
  then show ?thesis by (intro exI [of _ ?p] exI [of _ ?m]) simp
qed

end
