(* ===== verification/Timestamp.thy ===== *)
theory Timestamp
  imports SDK_Prelude
begin

text \<open>
  The conversion of a UTC time stamp to a local date and time of
  \<^verbatim>\<open>components/utils/bflb_timestamp/bflb_timestamp.c\<close>, with the time zone of the default build, and
  the proleptic Gregorian calendar as its reference: the number of days since 1970-01-01 of a
  date.
\<close>

section \<open>Model\<close>

record bflb_timestamp_t =
  sec :: u8
  min :: u8
  hour :: u8
  mday :: u8
  mon :: u8
  year :: u16
  wday :: u8

definition month_day :: "u8 list" where
  "month_day = [31, 28, 31, 30, 31, 30, 31, 31, 30, 31, 30, 31]"

definition leap_month_day :: "u8 list" where
  "leap_month_day = [31, 29, 31, 30, 31, 30, 31, 31, 30, 31, 30, 31]"

definition BFLB_TIMESTAMP_FOUR_YEAR_DAY :: u32 where
  "BFLB_TIMESTAMP_FOUR_YEAR_DAY = push_bit 2 365 + 1"

definition BFLB_TIMESTAMP_TIMEZONE :: u8 where
  "BFLB_TIMESTAMP_TIMEZONE = 8"

definition check_leap_year :: "u16 \<Rightarrow> bool" where
  "check_leap_year y =
     (if y mod 4 \<noteq> 0 then False
      else if y mod 100 = 0 \<and> y mod 400 \<noteq> 0 then False else True)"

definition cal_weekday :: "bflb_timestamp_t \<Rightarrow> bflb_timestamp_t" where
  "cal_weekday time =
     (let y = ucast (year time) :: u32; m = ucast (mon time) :: u32; d = ucast (mday time) :: u32;
        (m, y) = (if m = 1 \<or> m = 2 then (m + 12, y - 1) else (m, y));
        w = (d + 2 * m + 3 * (m + 1) div 5 + y + y div 4 - y div 100 + y div 400 + 1) mod 7
      in time\<lparr>wday := ucast w\<rparr>)"

definition year_length :: "u16 \<Rightarrow> u16" where
  "year_length y = (if check_leap_year y then 366 else 365)"

lemma year_length_pos: "year_length y \<le> r \<Longrightarrow> unat (r - year_length y) < unat r"
proof -
  assume a: "year_length y \<le> r"
  have "0 < unat (year_length y)" by (simp add: year_length_def)
  then show ?thesis using a by (simp add: unat_sub_le unat_le_iff)
qed

text \<open>The loop over the years, on \<open>time->year\<close> and \<open>remain_day\<close>.\<close>

function year_loop :: "u16 \<Rightarrow> u16 \<Rightarrow> u16 \<times> u16" where
  "year_loop y remain_day =
     (if remain_day \<ge> year_length y then year_loop (y + 1) (remain_day - year_length y)
      else (y, remain_day))"
  by auto
termination by (relation "measure (\<lambda>(y, r). unat r)") (auto intro: year_length_pos)

declare year_loop.simps [simp del]

text \<open>The loop over the months; reading behind the table of the months is undefined.\<close>

partial_function (option) month_loop :: "u8 list \<Rightarrow> u8 \<Rightarrow> u16 \<Rightarrow> (u8 \<times> u16) option" where
  "month_loop p m remain_day =
     (if unat m < length p then
        if remain_day > ucast (p ! unat m)
        then month_loop p (m + 1) (remain_day - ucast (p ! unat m))
        else Some (m, remain_day)
      else None)"

definition bflb_timestamp_utc2time :: "u32 \<Rightarrow> bflb_timestamp_t option" where
  "bflb_timestamp_utc2time utc =
     (let total_day_num = utc div (24 * 60 * 60);
        current_sec_num = utc mod (24 * 60 * 60);
        h = ucast (current_sec_num div (60 * 60)) :: u8;
        mi = ucast (current_sec_num mod (60 * 60) div 60);
        s = ucast (current_sec_num mod (60 * 60) mod 60);
        h = h + BFLB_TIMESTAMP_TIMEZONE;
        (h, total_day_num) = (if h > 23 then (h - 24, total_day_num + 1) else (h, total_day_num));
        (y, remain_day) = year_loop (ucast (1970 + (total_day_num div BFLB_TIMESTAMP_FOUR_YEAR_DAY) * 4))
          (ucast (total_day_num mod BFLB_TIMESTAMP_FOUR_YEAR_DAY));
        p = (if check_leap_year y then leap_month_day else month_day)
      in do {
        (m, remain_day) \<leftarrow> month_loop p 0 (remain_day + 1);
        Some (cal_weekday \<lparr>sec = s, min = mi, hour = h, mday = ucast remain_day, mon = m + 1,
          year = y, wday = 0\<rparr>)
      })"

section \<open>The calendar\<close>

definition leap :: "nat \<Rightarrow> bool" where
  "leap y = (4 dvd y \<and> (100 dvd y \<longrightarrow> 400 dvd y))"

definition year_len :: "nat \<Rightarrow> nat" where
  "year_len y = (if leap y then 366 else 365)"

definition month_lens :: "nat \<Rightarrow> nat list" where
  "month_lens y = [31, if leap y then 29 else 28, 31, 30, 31, 30, 31, 31, 30, 31, 30, 31]"

text \<open>Days since 1970-01-01.\<close>

definition year_days :: "nat \<Rightarrow> nat" where
  "year_days y = sum_list (map year_len [1970..<y])"

definition date_days :: "nat \<Rightarrow> nat \<Rightarrow> nat \<Rightarrow> nat" where
  "date_days y m d = year_days y + sum_list (take (m - 1) (month_lens y)) + (d - 1)"

definition valid_date :: "nat \<Rightarrow> nat \<Rightarrow> nat \<Rightarrow> bool" where
  "valid_date y m d = (1970 \<le> y \<and> 1 \<le> m \<and> m \<le> 12 \<and> 1 \<le> d \<and> d \<le> month_lens y ! (m - 1))"

lemma year_days_Suc: "1970 \<le> y \<Longrightarrow> year_days (Suc y) = year_days y + year_len y"
  by (simp add: year_days_def)

lemma word_dvd_iff: "n < 65536 \<Longrightarrow> y mod of_nat n = 0 \<longleftrightarrow> n dvd unat (y :: u16)"
  using unat_of_nat_small [of n, where ?'a = 16]
  by (simp add: word_unat_eq_iff unat_mod_distrib dvd_eq_mod_eq_0)

lemma check_leap_year_eq: "check_leap_year y = leap (unat y)"
  using word_dvd_iff [of 4 y] word_dvd_iff [of 100 y] word_dvd_iff [of 400 y]
  by (simp add: check_leap_year_def leap_def)

lemma year_length_eq: "unat (year_length y) = year_len (unat y)"
  by (simp add: year_length_def year_len_def check_leap_year_eq)

lemma year_loop_days:
  "unat y + unat r < 65536 \<Longrightarrow> 1970 \<le> unat y \<Longrightarrow>
    (case year_loop y r of (y', r') \<Rightarrow> 1970 \<le> unat y' \<and> unat y' \<le> unat y + unat r div 365 \<and>
      unat r' < year_len (unat y') \<and> year_days (unat y') + unat r' = year_days (unat y) + unat r)"
proof (induction y r rule: year_loop.induct)
  case (1 y r)
  show ?case
  proof (cases "year_length y \<le> r")
    case True
    then have r: "unat (r - year_length y) = unat r - year_len (unat y)" "year_len (unat y) \<le> unat r"
      by (simp_all add: unat_sub_le year_length_eq [symmetric] unat_le_iff)
    have len: "365 \<le> year_len (unat y)" by (simp add: year_len_def)
    have y: "unat (y + 1) = Suc (unat y)"
      using unat_plus_small [of y 1] 1(2) r(2) len by simp
    have le: "(unat r - year_len (unat y)) div 365 + 1 \<le> unat r div 365"
    proof -
      have "(unat r - year_len (unat y)) div 365 \<le> (unat r - 365) div 365"
        using len by (intro div_le_mono) simp
      moreover have "(unat r - 365) div 365 + 1 = unat r div 365" using r(2) len by (simp add: le_div_geq)
      ultimately show ?thesis by linarith
    qed
    have step: "year_loop y r = year_loop (y + 1) (r - year_length y)"
      using True by (subst year_loop.simps) simp
    obtain y' r' where yr: "year_loop (y + 1) (r - year_length y) = (y', r')"
      by (cases "year_loop (y + 1) (r - year_length y)")
    have "unat (y + 1) + unat (r - year_length y) < 65536" "1970 \<le> unat (y + 1)"
      using 1(2,3) r y len by simp_all
    from 1(1) [OF True this] have "1970 \<le> unat y'" "unat y' \<le> Suc (unat y) + (unat r - year_len (unat y)) div 365"
        "unat r' < year_len (unat y')"
        "year_days (unat y') + unat r' = year_days (Suc (unat y)) + (unat r - year_len (unat y))"
      by (simp_all add: yr y r(1))
    moreover have "unat y' \<le> unat y + unat r div 365" using calculation(2) le by linarith
    moreover have "year_days (unat y') + unat r' = year_days (unat y) + unat r"
      using calculation(4) r(2) year_days_Suc [OF 1(3)] by linarith
    ultimately show ?thesis by (simp only: step yr prod.case simp_thms)
  next
    case False
    have less: "unat r < year_len (unat y)" using False unfolding unat_le_iff year_length_eq by simp
    have stop: "year_loop y r = (y, r)" using False by (subst year_loop.simps) simp
    show ?thesis unfolding stop prod.case using 1(3) less by simp
  qed
qed

lemma month_loop_days:
  assumes "length p < 256"
  shows "unat m < length p \<Longrightarrow> 0 < unat r \<Longrightarrow> unat r \<le> sum_list (map unat (drop (unat m) p)) \<Longrightarrow>
    \<exists>m' r'. month_loop p m r = Some (m', r') \<and> unat m' < length p \<and> 0 < unat r' \<and>
      unat r' \<le> unat (p ! unat m') \<and>
      sum_list (map unat (take (unat m') p)) + unat r' = sum_list (map unat (take (unat m) p)) + unat r"
proof (induction "length p - unat m" arbitrary: m r)
  case (Suc k)
  let ?x = "p ! unat m"
  have x: "unat (ucast ?x :: u16) = unat ?x"
    using unat_u8_less [of ?x] by (simp add: unsigned_ucast_eq take_bit_nat_eq_self_iff)
  have dr: "drop (unat m) p = ?x # drop (Suc (unat m)) p" by (simp add: Cons_nth_drop_Suc Suc.prems(1))
  show ?case
  proof (cases "ucast ?x < r")
    case True
    then have less: "unat ?x < unat r" by (simp add: unat_less_iff x)
    have r: "unat (r - ucast ?x) = unat r - unat ?x"
      using True by (subst unat_sub_le) (simp_all add: x)
    have m: "unat (m + 1) = Suc (unat m)"
      using Suc.prems(1) assms by (subst unat_plus_small) simp_all
    have rest: "unat r - unat ?x \<le> sum_list (map unat (drop (Suc (unat m)) p))"
      using Suc.prems(3) by (simp add: dr)
    then have in': "Suc (unat m) < length p" using less by (cases "Suc (unat m) < length p") auto
    have tk: "take (Suc (unat m)) p = take (unat m) p @ [?x]" by (simp add: take_Suc_conv_app_nth Suc.prems(1))
    have k: "k = length p - unat (m + 1)" using Suc.hyps(2) m by simp
    have "unat (m + 1) < length p" "0 < unat (r - ucast ?x)"
        "unat (r - ucast ?x) \<le> sum_list (map unat (drop (unat (m + 1)) p))"
      using m r less rest in' by simp_all
    from Suc.hyps(1) [OF k this]
    obtain m' r' where m': "month_loop p (m + 1) (r - ucast ?x) = Some (m', r')"
        "unat m' < length p" "0 < unat r'" "unat r' \<le> unat (p ! unat m')"
        "sum_list (map unat (take (unat m') p)) + unat r' =
         sum_list (map unat (take (unat (m + 1)) p)) + unat (r - ucast ?x)"
      by blast
    have "month_loop p m r = Some (m', r')"
      using m'(1) True Suc.prems(1) by (subst month_loop.simps) simp
    moreover have "sum_list (map unat (take (unat m') p)) + unat r' =
        sum_list (map unat (take (unat m) p)) + unat r"
      using m'(5) less by (simp add: m r tk)
    ultimately show ?thesis using m'(2-4) by blast
  next
    case False
    then have "unat r \<le> unat ?x" by (simp add: unat_less_iff x)
    moreover have "month_loop p m r = Some (m, r)"
      using False Suc.prems(1) by (subst month_loop.simps) simp
    ultimately show ?thesis using Suc.prems by blast
  qed
qed simp

lemma month_tables:
  "map unat month_day = [31, 28, 31, 30, 31, 30, 31, 31, 30, 31, 30, 31]"
  "map unat leap_month_day = [31, 29, 31, 30, 31, 30, 31, 31, 30, 31, 30, 31]"
  by (simp_all add: month_day_def leap_month_day_def)

lemma month_table:
  "map unat (if check_leap_year y then leap_month_day else month_day) = month_lens (unat y)"
  "length (if check_leap_year y then leap_month_day else month_day) = 12"
  by (simp_all add: month_tables month_lens_def check_leap_year_eq) (simp_all add: month_day_def leap_month_day_def)

lemma month_lens_sum: "sum_list (month_lens y) = year_len y" "length (month_lens y) = 12"
  by (simp_all add: month_lens_def year_len_def)

section \<open>Weekdays\<close>

definition week_year :: "nat \<Rightarrow> nat" where
  "week_year y = y + y div 4 - y div 100 + y div 400"

lemma century_step:
  fixes y a b c :: nat
  assumes "b \<le> a" and "B \<longrightarrow> A" and "C \<longrightarrow> B"
  shows "Suc y + (a + (if A then 1 else 0)) - (b + (if B then 1 else 0)) + (c + (if C then 1 else 0)) =
    (y + a - b + c) + (if A \<and> (B \<longrightarrow> C) then 2 else 1)"
  using assms by (cases A; cases B; cases C) simp_all

lemma div_Suc_dvd: "0 < n \<Longrightarrow> Suc y div n = y div n + (if n dvd Suc y then 1 else 0)"
  by (simp add: div_Suc dvd_eq_mod_eq_0)

lemma week_year_Suc: "week_year (Suc y) = week_year y + (if leap (Suc y) then 2 else 1)"
proof -
  have "y div 100 \<le> y div 4" by (intro div_le_mono2) simp_all
  moreover have "100 dvd Suc y \<longrightarrow> 4 dvd Suc y" using dvd_trans [of 4 100 "Suc y"] by simp
  moreover have "400 dvd Suc y \<longrightarrow> 100 dvd Suc y" using dvd_trans [of 100 400 "Suc y"] by simp
  ultimately show ?thesis
    unfolding week_year_def leap_def
    by (subst (1 2 3) div_Suc_dvd, simp, simp, simp) (rule century_step)
qed

lemma mod_seven:
  "(b + 364 + c) mod 7 = (b mod 7 + c) mod 7" "((w + 2) mod 7 + c) mod 7 = (w + c + 2) mod 7" for b c w :: nat
proof -
  have "b + 364 + c = (b + c) + 7 * 52" by simp
  then have "(b + 364 + c) mod 7 = (b + c) mod 7" by (simp only: mod_mult_self2)
  then show "(b + 364 + c) mod 7 = (b mod 7 + c) mod 7" by (simp only: mod_add_left_eq)
  show "((w + 2) mod 7 + c) mod 7 = (w + c + 2) mod 7" by (simp only: mod_add_left_eq mod_add_right_eq ac_simps)
qed

lemma year_days_week:
  "1970 \<le> y \<Longrightarrow> (year_days y + (if leap y then 1 else 0) + 6) mod 7 = (week_year y + 2) mod 7"
proof (induction y rule: dec_induct)
  case base
  then show ?case by (simp add: year_days_def week_year_def leap_def)
next
  case (step y)
  have "year_days (Suc y) + (if leap (Suc y) then 1 else 0) + 6 =
      (year_days y + (if leap y then 1 else 0) + 6) + 364 + (if leap (Suc y) then 2 else 1)"
    using step.hyps by (simp add: year_days_Suc year_len_def)
  also have "\<dots> mod 7 = ((year_days y + (if leap y then 1 else 0) + 6) mod 7 + (if leap (Suc y) then 2 else 1)) mod 7"
    by (rule mod_seven)
  also have "\<dots> = (week_year (Suc y) + 2) mod 7"
    unfolding step.IH week_year_Suc by (rule mod_seven)
  finally show ?case .
qed

lemma mod_shift:
  "a mod n = (w + s) mod n \<Longrightarrow> (s + k) mod n = j mod n \<Longrightarrow> (a + k + d) mod n = (w + j + d) mod (n :: nat)"
proof -
  assume a: "a mod n = (w + s) mod n" "(s + k) mod n = j mod n"
  have "(a + k + d) mod n = (w + s + (k + d)) mod n" using mod_add_cong [OF a(1) refl, of "k + d"] by (simp add: ac_simps)
  also have "\<dots> = (w + j + d) mod n" using mod_add_cong [OF a(2) refl, of "w + d"] by (simp add: ac_simps)
  finally show ?thesis .
qed

lemma year_days_mod:
  assumes "1970 \<le> y"
  shows "year_days y mod 7 = (week_year y + (if leap y then 2 else 3)) mod 7"
  using mod_add_cong [OF year_days_week [OF assms] refl, of "if leap y then 0 else 1"]
  by (auto simp: mod_add_eq split: if_splits) presburger+

lemma month_cases:
  assumes "1 \<le> m" and "m \<le> (12 :: nat)"
  obtains "m = 1" | "m = 2" | "m = 3" | "m = 4" | "m = 5" | "m = 6" | "m = 7" | "m = 8" | "m = 9"
    | "m = 10" | "m = 11" | "m = 12"
proof -
  have "m = 1 \<or> m = 2 \<or> m = 3 \<or> m = 4 \<or> m = 5 \<or> m = 6 \<or> m = 7 \<or> m = 8 \<or> m = 9 \<or> m = 10 \<or> m = 11 \<or> m = 12"
    using assms by arith
  then show thesis using that by blast
qed

definition zeller :: "nat \<Rightarrow> nat \<Rightarrow> nat \<Rightarrow> nat" where
  "zeller y m d =
     (case (if m = 1 \<or> m = 2 then (m + 12, y - 1) else (m, y)) of
       (m, y) \<Rightarrow> d + 2 * m + 3 * (m + 1) div 5 + week_year y + 1)"

lemma zeller_days:
  assumes "valid_date y m d"
  shows "(date_days y m d + 4) mod 7 = zeller y m d mod 7"
proof -
  have y: "1970 \<le> y" and m: "1 \<le> m" "m \<le> 12" and d: "1 \<le> d"
    using assms by (auto simp: valid_date_def)
  obtain y0 where y0: "y = Suc y0" using y by (cases y) auto
  obtain d0 where d0: "d = Suc d0" using d by (cases d) auto
  have wy: "week_year y = week_year y0 + (if leap y then 2 else 1)" by (simp add: y0 week_year_Suc)
  define s where "s = (if leap y then 2 else 3 :: nat)"
  have early: "year_days y mod 7 = (week_year y0 + 4) mod 7"
    using year_days_mod [OF y] by (simp add: wy add.commute split: if_splits)
  have late: "year_days y mod 7 = (week_year y + s) mod 7" unfolding s_def by (rule year_days_mod [OF y])
  have e: "(year_days y + k + d) mod 7 = (week_year y0 + j + d) mod 7" if "(4 + k) mod 7 = j mod 7" for k j
    by (rule mod_shift [OF early that])
  have l: "(year_days y + k + d) mod 7 = (week_year y + j + d) mod 7" if "(s + k) mod 7 = j mod 7" for k j
    by (rule mod_shift [OF late that])
  have days: "date_days y m d + 4 = year_days y + (sum_list (take (m - 1) (month_lens y)) + 3) + d"
    by (simp add: date_days_def d0)
  show ?thesis
  proof (cases "m = 1 \<or> m = 2")
    case True
    have "zeller y m d = week_year y0 + (2 * (m + 12) + 3 * (m + 13) div 5 + 1) + d"
      using True by (simp add: zeller_def y0)
    moreover have "(4 + (sum_list (take (m - 1) (month_lens y)) + 3)) mod 7 = (2 * (m + 12) + 3 * (m + 13) div 5 + 1) mod 7"
      using True by (auto simp: month_lens_def)
    ultimately show ?thesis unfolding days by (simp only: e)
  next
    case False
    have "zeller y m d = week_year y + (2 * m + 3 * (m + 1) div 5 + 1) + d"
      using False by (simp add: zeller_def)
    moreover have "(s + (sum_list (take (m - 1) (month_lens y)) + 3)) mod 7 = (2 * m + 3 * (m + 1) div 5 + 1) mod 7"
      using m False by (cases rule: month_cases) (simp_all add: month_lens_def s_def)
    ultimately show ?thesis unfolding days by (simp only: l)
  qed
qed

section \<open>The fields of the result\<close>

lemma u32_add: "unat a + unat b < 4294967296 \<Longrightarrow> unat (a + b :: u32) = unat a + unat b"
  using unat_plus_small [of a b] by simp

lemma u32_mult: "unat a * unat b < 4294967296 \<Longrightarrow> unat (a * b :: u32) = unat a * unat b"
  using unat_mult_lem [of a b] by simp

lemma cal_weekday_eq:
  assumes "unat (mon t) \<le> 12" and "1 \<le> unat (year t)"
  shows "cal_weekday t = t\<lparr>wday := of_nat (zeller (unat (year t)) (unat (mon t)) (unat (mday t)) mod 7)\<rparr>"
proof -
  define y m d :: u32 where ymd: "y = ucast (year t)" "m = ucast (mon t)" "d = ucast (mday t)"
  have u: "unat y = unat (year t)" "unat m = unat (mon t)" "unat d = unat (mday t)"
    using unsigned_less [of "year t", where ?'a = nat]
    by (simp_all add: ymd unsigned_ucast_eq take_bit_nat_eq_self_iff)
  have b: "unat y < 65536" "unat d < 256"
    using unsigned_less [of "year t", where ?'a = nat] unat_u8_less [of "mday t"] by (simp_all add: u)
  obtain m' y' where my: "(if m = 1 \<or> m = 2 then (m + 12, y - 1) else (m, y)) = (m', y')"
    by (cases "if m = 1 \<or> m = 2 then (m + 12, y - 1) else (m, y)")
  have mm: "m = 1 \<longleftrightarrow> unat m = 1" "m = 2 \<longleftrightarrow> unat m = 2" by (simp_all add: word_unat_eq_iff)
  have "unat (y - 1) = unat y - 1" using assms(2) by (subst unat_sub_le) (simp_all add: u unat_le_iff)
  then have nat: "(if unat m = 1 \<or> unat m = 2 then (unat m + 12, unat y - 1) else (unat m, unat y)) = (unat m', unat y')"
    using my unfolding mm by (auto simp: u32_add split: if_splits)
  then have b': "unat m' \<le> 14" "unat y' < 65536" using b(1) assms(1) by (auto simp: u split: if_splits)
  let ?a = "d + 2 * m' + 3 * (m' + 1) div 5"
  let ?w = "?a + y' + y' div 4 - y' div 100 + y' div 400 + 1"
  have dv: "unat (x div of_nat n) = unat x div n" if "n < 4294967296" for x :: u32 and n
    using that unat_of_nat_small [of n, where ?'a = 32] by (simp add: unat_div_distrib)
  have y': "unat (y' div 4) = unat y' div 4" "unat (y' div 100) = unat y' div 100" "unat (y' div 400) = unat y' div 400"
    using dv [of 4 y'] dv [of 100 y'] dv [of 400 y'] by simp_all
  have "unat (3 * (m' + 1)) = 3 * (unat m' + 1)" using b' by (simp add: u32_add u32_mult)
  then have a: "unat ?a = unat d + 2 * unat m' + 3 * (unat m' + 1) div 5"
    using b b' dv [of 5 "3 * (m' + 1)"] by (simp add: u32_add u32_mult)
  have "3 * (unat m' + 1) div 5 \<le> 45" 
  proof (rule le_trans [OF div_le_dividend])
    show "3 * (unat m' + 1) \<le> 45" using b'(1) by simp
  qed
  then have a': "unat ?a < 4000" unfolding a using b(2) b'(1) by linarith
  have y'': "unat y' div 4 < 65536" "unat y' div 400 < 65536" "unat y' div 100 \<le> unat y' div 4"
    by (rule le_less_trans [OF div_le_dividend b'(2)])+ (intro div_le_mono2, simp_all)
  have s1: "unat (?a + y' + y' div 4) = unat ?a + unat y' + unat y' div 4"
    using a' b' y'' y' by (simp add: u32_add)
  have s2: "unat (?a + y' + y' div 4 - y' div 100) = unat ?a + unat y' + unat y' div 4 - unat y' div 100"
  proof -
    have "y' div 100 \<le> ?a + y' + y' div 4" unfolding unat_le_iff s1 y'(2) using y''(3) by linarith
    then show ?thesis unfolding y'(2) [symmetric] s1 [symmetric] by (rule unat_sub_le)
  qed
  have w: "unat ?w = unat ?a + unat y' + unat y' div 4 - unat y' div 100 + unat y' div 400 + 1"
  proof -
    have s3: "unat (?a + y' + y' div 4 - y' div 100 + y' div 400) =
        unat ?a + unat y' + unat y' div 4 - unat y' div 100 + unat y' div 400"
      using u32_add [of "?a + y' + y' div 4 - y' div 100" "y' div 400"] a' b'(2) y''
      unfolding s2 y'(3) by linarith
    show ?thesis
      using u32_add [of "?a + y' + y' div 4 - y' div 100 + y' div 400" 1] a' b'(2) y''
      unfolding s3 unsigned_1 by linarith
  qed
  have "zeller (unat y) (unat m) (unat d) =
      unat d + 2 * unat m' + 3 * (unat m' + 1) div 5 + week_year (unat y') + 1"
    unfolding zeller_def nat prod.case ..
  then have "unat ?w = zeller (unat y) (unat m) (unat d)"
    unfolding w a week_year_def using y''(3) by linarith
  then have "unat (?w mod 7) = zeller (unat y) (unat m) (unat d) mod 7" by (simp add: unat_mod_distrib)
  moreover have "of_nat (unat (?w mod 7)) = (ucast (?w mod 7) :: u8)" by (rule of_nat_unat)
  ultimately have "ucast (?w mod 7) = (of_nat (zeller (unat y) (unat m) (unat d) mod 7) :: u8)"
    by (simp only:)
  then show ?thesis by (simp add: cal_weekday_def ymd [symmetric] my u)
qed

lemma year_days_4:
  assumes "1970 \<le> y"
  shows "year_days (y + 4) = year_days y + (year_len y + year_len (y + 1) + year_len (y + 2) + year_len (y + 3))"
proof -
  have e: "Suc y = y + 1" "Suc (y + 1) = y + 2" "Suc (y + 2) = y + 3" "Suc (y + 3) = y + 4" by simp_all
  have "1970 \<le> y + 1" "1970 \<le> y + 2" "1970 \<le> y + 3" using assms by simp_all
  from this [THEN year_days_Suc] year_days_Suc [OF assms] show ?thesis unfolding e by linarith
qed

lemma cycle_lengths:
  "\<forall>k \<in> set [0..<34]. year_len (1970 + 4 * k) + year_len (1970 + 4 * k + 1) + year_len (1970 + 4 * k + 2) +
     year_len (1970 + 4 * k + 3) = (if k = 32 then 1460 else 1461)"
  by (simp add: year_len_def leap_def upt_rec)

lemma year_days_cycle:
  "k \<le> 34 \<Longrightarrow> year_days (1970 + 4 * k) + (if k \<le> 32 then 0 else 1) = 1461 * k"
proof (induction k)
  case (Suc k)
  have "k \<in> set [0..<34]" using Suc.prems by simp
  then have "year_days (1970 + 4 * k + 4) = year_days (1970 + 4 * k) + (if k = 32 then 1460 else 1461)"
    using cycle_lengths year_days_4 [of "1970 + 4 * k"] by simp
  moreover have "1970 + 4 * Suc k = 1970 + 4 * k + 4" by simp
  ultimately show ?case using Suc by (auto split: if_splits)
qed (simp add: year_days_def)

text \<open>The date part of the function: from the local day number to the fields of the date.\<close>

definition date_fields :: "u32 \<Rightarrow> (u16 \<times> u8 \<times> u16) option" where
  "date_fields days =
     (let (y, remain_day) = year_loop (ucast (1970 + (days div BFLB_TIMESTAMP_FOUR_YEAR_DAY) * 4))
          (ucast (days mod BFLB_TIMESTAMP_FOUR_YEAR_DAY));
        p = (if check_leap_year y then leap_month_day else month_day)
      in do {
        (m, remain_day) \<leftarrow> month_loop p 0 (remain_day + 1);
        Some (y, m, remain_day)
      })"

definition reported_day :: "nat \<Rightarrow> nat" where
  "reported_day n = (if n < 48213 then n else n - 1)"

lemma date_fields_days:
  assumes "unat days < 50000"
  shows "\<exists>y m d. date_fields days = Some (y, m, d) \<and> unat y \<le> 2200 \<and>
    valid_date (unat y) (Suc (unat m)) (unat d) \<and>
    date_days (unat y) (Suc (unat m)) (unat d) = reported_day (unat days)"
proof -
  define k where "k = unat days div 1461"
  have k: "k \<le> 34" using assms by (simp add: k_def)
  have four: "BFLB_TIMESTAMP_FOUR_YEAR_DAY = 1461" by (simp add: BFLB_TIMESTAMP_FOUR_YEAR_DAY_def)
  let ?y0 = "ucast (1970 + days div 1461 * 4) :: u16" and ?r0 = "ucast (days mod 1461) :: u16"
  have "unat (days div 1461) = k" by (simp add: k_def unat_div_distrib)
  then have "unat (1970 + days div 1461 * 4) = 1970 + 4 * k"
    using k by (simp add: u32_add u32_mult)
  then have y0: "unat ?y0 = 1970 + 4 * k" using k by (simp add: unsigned_ucast_eq take_bit_nat_eq_self_iff)
  have "unat (days mod 1461) = unat days mod 1461" by (simp add: unat_mod_distrib)
  moreover have "unat days mod 1461 < 1461" by simp
  ultimately have r0: "unat ?r0 = unat days mod 1461" "unat ?r0 < 1461"
    using less_trans [of "unat days mod 1461" 1461 "2 ^ 16"]
    by (simp_all add: unsigned_ucast_eq take_bit_nat_eq_self)
  obtain y r where yr: "year_loop ?y0 ?r0 = (y, r)" by (cases "year_loop ?y0 ?r0")
  have "unat ?y0 + unat ?r0 < 65536" "1970 \<le> unat ?y0" using y0 r0(2) k by simp_all
  from year_loop_days [OF this] have y: "1970 \<le> unat y" "unat y \<le> 1970 + 4 * k + unat ?r0 div 365"
      "unat r < year_len (unat y)" "year_days (unat y) + unat r = year_days (1970 + 4 * k) + unat ?r0"
    by (simp_all add: yr y0)
  have "unat ?r0 div 365 \<le> 4" using r0(2) by simp
  then have yb: "unat y \<le> 2200" using y(2) k by linarith
  have day: "year_days (unat y) + unat r = reported_day (unat days)"
  proof -
    have "k \<le> 32 \<longleftrightarrow> unat days < 48213" by (auto simp: k_def)
    moreover have "1461 * k + unat days mod 1461 = unat days" by (simp add: k_def)
    ultimately show ?thesis using y(4) year_days_cycle [OF k] r0(1) by (simp add: reported_day_def split: if_splits)
  qed
  define p where "p = (if check_leap_year y then leap_month_day else month_day)"
  have p: "map unat p = month_lens (unat y)" "length p = 12" unfolding p_def by (rule month_table)+
  have "unat r < 366" using y(3) by (auto simp: year_len_def split: if_splits)
  then have r1: "unat (r + 1) = Suc (unat r)" using unat_plus_small [of r 1] by simp
  have "unat (r + 1) \<le> sum_list (map unat (drop (unat 0) p))"
    using y(3) month_lens_sum(1) [of "unat y"] by (simp add: r1 p(1))
  from month_loop_days [of p 0 "r + 1", OF _ _ _ this] obtain m d where md:
      "month_loop p 0 (r + 1) = Some (m, d)" "unat m < 12" "0 < unat d" "unat d \<le> unat (p ! unat m)"
      "sum_list (map unat (take (unat m) p)) + unat d = Suc (unat r)"
    using r1 p(2) by auto
  have "date_fields days = Some (y, m, d)"
    by (simp add: date_fields_def four yr p_def [symmetric] md(1))
  moreover have "valid_date (unat y) (Suc (unat m)) (unat d)"
    using y(1) md(2-4) p by (simp add: valid_date_def p(1) [symmetric])
  moreover have "date_days (unat y) (Suc (unat m)) (unat d) = reported_day (unat days)"
    using day md(3,5) by (simp add: date_days_def p(1) [symmetric] take_map)
  ultimately show ?thesis using yb by blast
qed

lemma utc2time_date_fields:
  "bflb_timestamp_utc2time utc =
     (let c = utc mod 86400; h = ucast (c div 3600) + 8;
        (h, days) = (if h > 23 then (h - 24, utc div 86400 + 1) else (h, utc div 86400))
      in do {
        (y, m, d) \<leftarrow> date_fields days;
        Some (cal_weekday \<lparr>sec = ucast (c mod 3600 mod 60), min = ucast (c mod 3600 div 60), hour = h,
          mday = ucast d, mon = m + 1, year = y, wday = 0\<rparr>)
      })"
  by (auto simp: bflb_timestamp_utc2time_def date_fields_def Let_def BFLB_TIMESTAMP_TIMEZONE_def
      split: prod.splits Option.bind_splits)

lemma time_of_day:
  assumes "x < (86400 :: nat)"
  shows "x div 3600 < 24" "x mod 3600 div 60 < 60" "x mod 3600 mod 60 < 60"
    "x div 3600 * 3600 + x mod 3600 div 60 * 60 + x mod 3600 mod 60 = x"
  using assms by (simp_all add: less_mult_imp_div_less)

text \<open>The hour and the day after the move by the time zone.\<close>

lemma local_time:
  fixes utc :: u32
  assumes "(h, days) = (let h = ucast (utc mod 86400 div 3600) + 8 :: u8 in
    if h > 23 then (h - 24, utc div 86400 + 1) else (h, utc div 86400))"
  shows "unat h < 24" and "unat days = (unat utc + 28800) div 86400"
    and "unat h * 3600 + unat utc mod 86400 mod 3600 = (unat utc + 28800) mod 86400"
proof -
  define r where "r = unat utc mod 86400"
  have r: "r < 86400" by (simp add: r_def)
  let ?h = "ucast (utc mod 86400 div 3600) :: u8"
  have "unat ?h = r div 3600"
    using time_of_day(1) [OF r]
    by (simp add: unsigned_ucast_eq unat_div_distrib unat_mod_distrib take_bit_nat_eq_self r_def)
  then have h8: "unat (?h + 8) = r div 3600 + 8"
    using unat_plus_small [of ?h 8] time_of_day(1) [OF r] by simp
  have q: "unat (utc div 86400) = unat utc div 86400" by (simp add: unat_div_distrib)
  have q': "unat utc div 86400 \<le> 49710"
    using div_le_mono [of "unat utc" 4294967295 86400] unat_u32_less [of utc] by simp
  define n where "n = unat utc div 86400"
  have split: "unat utc = 86400 * n + r" by (simp add: r_def n_def)
  have "unat h < 24 \<and> unat days = (unat utc + 28800) div 86400 \<and>
      unat h * 3600 + r mod 3600 = (unat utc + 28800) mod 86400"
  proof (cases "15 < r div 3600")
    case True
    have "?h + 8 > 23" using True by (simp add: unat_less_iff h8)
    then have e: "h = ?h + 8 - 24" "days = utc div 86400 + 1" using assms by (auto simp: Let_def)
    have "unat h = r div 3600 + 8 - 24"
      unfolding e using True by (subst unat_sub_le) (simp_all add: unat_le_iff h8)
    moreover have "unat days = n + 1"
      unfolding e using q q' by (subst u32_add) (simp_all add: n_def)
    moreover have low: "57600 \<le> r" using True by linarith
    then have s: "unat utc + 28800 = (r - 57600) + 86400 * (n + 1)" and less: "r - 57600 < 86400"
      using split r by simp_all
    have "(unat utc + 28800) div 86400 = n + 1" "(unat utc + 28800) mod 86400 = r - 57600"
      unfolding s div_mult_self2 [of 86400 _ _, simplified] mod_mult_self2 using less by simp_all
    moreover have "(r div 3600 + 8 - 24) * 3600 + r mod 3600 = r - 57600"
      using True by (simp add: diff_mult_distrib)
    moreover have "r div 3600 + 8 - 24 < 24" using time_of_day(1) [OF r] by linarith
    ultimately show ?thesis by (simp add: n_def)
  next
    case False
    have "\<not> ?h + 8 > 23" using False by (simp add: unat_less_iff h8)
    then have e: "h = ?h + 8" "days = utc div 86400" using assms by (auto simp: Let_def)
    have "r < 57600" using False by linarith
    then have s: "unat utc + 28800 = (r + 28800) + 86400 * n" and less: "r + 28800 < 86400"
      using split by simp_all
    have "(unat utc + 28800) div 86400 = n" "(unat utc + 28800) mod 86400 = r + 28800"
      unfolding s mod_mult_self2 using less by simp_all
    moreover have "(r div 3600 + 8) * 3600 + r mod 3600 = r + 28800" by simp
    ultimately show ?thesis using h8 q False by (simp add: e n_def)
  qed
  then show "unat h < 24" "unat days = (unat utc + 28800) div 86400"
    "unat h * 3600 + unat utc mod 86400 mod 3600 = (unat utc + 28800) mod 86400"
    by (simp_all add: r_def)
qed

lemma month_lens_31: "m < 12 \<Longrightarrow> month_lens y ! m \<le> 31"
proof -
  assume "m < 12"
  then have "month_lens y ! m \<in> set (month_lens y)" by (simp add: month_lens_sum)
  then show ?thesis by (auto simp: month_lens_def split: if_splits)
qed

section \<open>Properties\<close>

text \<open>
  C31: the conversion, for every 32-bit time stamp.  It is defined, all fields are in range, the
  time of day is that of the stamp moved by eight hours, the date is a date of the calendar and
  the day of the week is that of this date.  The date is the right one up to 2102-01-01; from
  the next day on it is one day behind, since 2100 is no leap year but every block of four years
  is taken to have 1461 days.
\<close>

theorem timestamp_date:
  "\<exists>t. bflb_timestamp_utc2time utc = Some t \<and>
    valid_date (unat (year t)) (unat (mon t)) (unat (mday t)) \<and>
    unat (hour t) < 24 \<and> unat (min t) < 60 \<and> unat (sec t) < 60 \<and>
    unat (hour t) * 3600 + unat (min t) * 60 + unat (sec t) = (unat utc + 28800) mod 86400 \<and>
    date_days (unat (year t)) (unat (mon t)) (unat (mday t)) = reported_day ((unat utc + 28800) div 86400) \<and>
    unat (wday t) = (date_days (unat (year t)) (unat (mon t)) (unat (mday t)) + 4) mod 7"
proof -
  let ?r = "unat utc mod 86400" and ?c = "utc mod 86400"
  have r: "?r < 86400" by simp
  note tod = time_of_day [OF r]
  have sec: "unat (ucast (?c mod 3600 div 60) :: u8) = ?r mod 3600 div 60"
      "unat (ucast (?c mod 3600 mod 60) :: u8) = ?r mod 3600 mod 60"
    using tod by (simp_all add: unsigned_ucast_eq unat_div_distrib unat_mod_distrib take_bit_nat_eq_self)
  obtain h days where hd: "(h, days) = (let h = ucast (?c div 3600) + 8 :: u8 in
      if h > 23 then (h - 24, utc div 86400 + 1) else (h, utc div 86400))"
    by (metis surj_pair)
  note lt = local_time [OF hd]
  have t: "unat (of_nat (x mod 7) :: u8) = x mod 7" for x
    using mod_less_divisor [of 7 x] by (intro unat_of_nat_small) simp
  have "unat days < 50000" using lt(2) div_le_mono [of "unat utc + 28800" "4294967295 + 28800" 86400]
      unat_u32_less [of utc] by simp
  from date_fields_days [OF this] obtain y m d where ymd: "date_fields days = Some (y, m, d)"
      "valid_date (unat y) (Suc (unat m)) (unat d)"
      "date_days (unat y) (Suc (unat m)) (unat d) = reported_day (unat days)"
    by blast
  have m: "unat m < 12" and "unat d \<le> month_lens (unat y) ! unat m"
    using ymd(2) by (simp_all add: valid_date_def)
  then have "unat d \<le> 31" using month_lens_31 [of "unat m" "unat y"] by linarith
  then have d: "unat (ucast d :: u8) = unat d" by (simp add: unsigned_ucast_eq take_bit_nat_eq_self)
  have m1: "unat (m + 1) = Suc (unat m)" using m unat_plus_small [of m 1] by simp
  let ?t = "\<lparr>sec = ucast (?c mod 3600 mod 60), min = ucast (?c mod 3600 div 60), hour = h,
    mday = ucast d, mon = m + 1, year = y, wday = 0\<rparr>"
  have "bflb_timestamp_utc2time utc = Some (cal_weekday ?t)"
    unfolding utc2time_date_fields using hd ymd(1) by (auto simp: Let_def split: if_splits)
  moreover have "cal_weekday ?t = ?t\<lparr>wday := of_nat (zeller (unat y) (Suc (unat m)) (unat d) mod 7)\<rparr>"
    using cal_weekday_eq [of ?t] m m1 d ymd(2) by (simp add: valid_date_def)
  moreover have "zeller (unat y) (Suc (unat m)) (unat d) mod 7 = (date_days (unat y) (Suc (unat m)) (unat d) + 4) mod 7"
    by (rule zeller_days [OF ymd(2), symmetric])
  ultimately have r: "bflb_timestamp_utc2time utc = Some (?t\<lparr>wday :=
      of_nat ((date_days (unat y) (Suc (unat m)) (unat d) + 4) mod 7)\<rparr>)"
    by (simp only:)
  have "unat h * 3600 + ?r mod 3600 div 60 * 60 + ?r mod 3600 mod 60 = (unat utc + 28800) mod 86400"
    unfolding lt(3) [symmetric] by simp
  then show ?thesis
    using lt(1) ymd(2) tod(2,3) ymd(3) [unfolded lt(2)] unfolding r
    by - (intro exI conjI, rule refl,
      simp_all only: bflb_timestamp_t.simps bflb_timestamp_t.update_convs sec m1 d t)
qed

end
