(* ===== verification/Bytes_LE.thy ===== *)
theory Bytes_LE
  imports SDK_Prelude
begin

text \<open>
  Structures in a byte buffer, little endian as on the RISC-V targets: reading and overwriting a
  slice, and the fields of 16 and 32 bits.
\<close>

definition slice :: "'a list \<Rightarrow> nat \<Rightarrow> nat \<Rightarrow> 'a list" where
  "slice s i n = take n (drop i s)"

definition poke :: "'a list \<Rightarrow> nat \<Rightarrow> 'a list \<Rightarrow> 'a list" where
  "poke s i xs = take i s @ xs @ drop (i + length xs) s"

fun le_word :: "bytes \<Rightarrow> 'a::len word" where
  "le_word [] = 0"
| "le_word (b # bs) = ucast b OR push_bit 8 (le_word bs)"

definition bytes32 :: "u32 \<Rightarrow> bytes" where
  "bytes32 w = [ucast w, ucast (drop_bit 8 w), ucast (drop_bit 16 w), ucast (drop_bit 24 w)]"

definition bytes16 :: "u16 \<Rightarrow> bytes" where
  "bytes16 w = [ucast w, ucast (drop_bit 8 w)]"

definition le32 :: "bytes \<Rightarrow> nat \<Rightarrow> u32" where
  "le32 s i = le_word (slice s i 4)"

definition le16 :: "bytes \<Rightarrow> nat \<Rightarrow> u16" where
  "le16 s i = le_word (slice s i 2)"

named_theorems byte_simps \<open>slices of overwritten buffers\<close>

lemma length_poke [byte_simps]: "i + length xs \<le> length s \<Longrightarrow> length (poke s i xs) = length s"
  by (simp add: poke_def)

lemma length_slice: "i + n \<le> length s \<Longrightarrow> length (slice s i n) = n"
  by (simp add: slice_def)

lemma length_bytes [byte_simps]: "length (bytes32 w) = 4" "length (bytes16 v) = 2"
  by (simp_all add: bytes32_def bytes16_def)

lemma slice_poke_same [byte_simps]: "i + length xs \<le> length s \<Longrightarrow> n = length xs \<Longrightarrow> slice (poke s i xs) i n = xs"
  by (simp add: slice_def poke_def)

lemma slice_poke_before [byte_simps]: "i + length xs \<le> length s \<Longrightarrow> j + n \<le> i \<Longrightarrow> slice (poke s i xs) j n = slice s j n"
  by (auto simp: slice_def poke_def drop_take min_def)

lemma slice_poke_after [byte_simps]:
  "i + length xs \<le> length s \<Longrightarrow> i + length xs \<le> j \<Longrightarrow> slice (poke s i xs) j n = slice s j n"
  by (auto simp: slice_def poke_def drop_take min_def)

lemma slice_slice: "i + n \<le> m \<Longrightarrow> slice (slice s j m) i n = slice s (j + i) n"
  by (simp add: slice_def drop_take add.commute min_def)

lemma poke_slice: "i + n \<le> length s \<Longrightarrow> poke s i (slice s i n) = s"
proof -
  assume "i + n \<le> length s"
  moreover have "take n (drop i s) @ drop (i + n) s = drop i s"
    by (metis add.commute append_take_drop_id drop_drop)
  ultimately show ?thesis by (simp add: poke_def slice_def)
qed

lemma slice_at: "i = length p \<Longrightarrow> n = length xs \<Longrightarrow> slice (p @ xs @ q) i n = xs"
  by (simp add: slice_def)

lemma slice_split: "slice s i (n + m) = slice s i n @ slice s (i + n) m"
  by (simp only: slice_def take_add drop_drop add.commute [of n i])

lemma slice_all: "slice s 0 (length s) = s"
  by (simp add: slice_def)

lemma nth_slice: "k < n \<Longrightarrow> i + n \<le> length s \<Longrightarrow> slice s i n ! k = s ! (i + k)"
  by (simp add: slice_def)

lemma nth_poke:
  "i + length xs \<le> length s \<Longrightarrow> j < length s \<Longrightarrow>
    poke s i xs ! j = (if i \<le> j \<and> j < i + length xs then xs ! (j - i) else s ! j)"
  by (auto simp: poke_def nth_append)

lemma le_word_bytes32 [simp]: "le_word (bytes32 w) = w"
proof (rule bit_word_eqI)
  fix n assume n: "n < LENGTH(32)"
  then consider "n < 8" | "8 \<le> n" "n < 16" | "16 \<le> n" "n < 24" | "24 \<le> n" by linarith
  then show "bit (le_word (bytes32 w) :: u32) n = bit w n"
    using n unfolding bytes32_def le_word.simps
    by cases (auto simp: bit_or_iff bit_push_bit_iff bit_ucast_iff bit_drop_bit_eq)
qed

lemma le_word_bytes16 [simp]: "le_word (bytes16 w) = w"
  unfolding bytes16_def le_word.simps
  by (rule bit_word_eqI)
    (auto simp: bit_or_iff bit_push_bit_iff bit_ucast_iff bit_drop_bit_eq)

lemma le32_poke_same [byte_simps]: "i + 4 \<le> length s \<Longrightarrow> le32 (poke s i (bytes32 w)) i = w"
  by (simp add: le32_def byte_simps)

lemma le16_poke_same [byte_simps]: "i + 2 \<le> length s \<Longrightarrow> le16 (poke s i (bytes16 w)) i = w"
  by (simp add: le16_def byte_simps)

lemma le_poke_before [byte_simps]:
  "i + length xs \<le> length s \<Longrightarrow> j + 4 \<le> i \<Longrightarrow> le32 (poke s i xs) j = le32 s j"
  "i + length xs \<le> length s \<Longrightarrow> j + 2 \<le> i \<Longrightarrow> le16 (poke s i xs) j = le16 s j"
  by (simp_all add: le32_def le16_def byte_simps)

lemma le_poke_after [byte_simps]:
  "i + length xs \<le> length s \<Longrightarrow> i + length xs \<le> j \<Longrightarrow> le32 (poke s i xs) j = le32 s j"
  "i + length xs \<le> length s \<Longrightarrow> i + length xs \<le> j \<Longrightarrow> le16 (poke s i xs) j = le16 s j"
  by (simp_all add: le32_def le16_def byte_simps)

lemma le_slice: "i + 4 \<le> m \<Longrightarrow> le32 (slice s j m) i = le32 s (j + i)" "i + 2 \<le> m \<Longrightarrow> le16 (slice s j m) i = le16 s (j + i)"
  by (simp_all add: le32_def le16_def slice_slice)

lemma le32_at: "i = length p \<Longrightarrow> le32 (p @ bytes32 w @ q) i = w"
  by (simp add: le32_def slice_at length_bytes)

lemma le16_at: "i = length p \<Longrightarrow> le16 (p @ bytes16 w @ q) i = w"
  by (simp add: le16_def slice_at length_bytes)

text \<open>The bits of a word whose bytes are moved.\<close>

lemma bit_moved_24: "bit (push_bit 24 (a AND mask 8)) j = (24 \<le> j \<and> j < 32 \<and> bit (a :: u32) (j - 24))"
  by (auto simp: bit_push_bit_iff bit_and_iff bit_mask_iff)

lemma bit_moved_8: "bit (push_bit 8 (a AND push_bit 8 (mask 8))) j = (16 \<le> j \<and> j < 24 \<and> bit (a :: u32) (j - 8))"
  by (simp only: bit_push_bit_iff bit_and_iff bit_mask_iff) auto

lemma bit_moved_back_8: "bit (drop_bit 8 (a AND push_bit 16 (mask 8))) j = (8 \<le> j \<and> j < 16 \<and> bit (a :: u32) (8 + j))"
  by (simp only: bit_drop_bit_eq comp_def bit_push_bit_iff bit_and_iff bit_mask_iff) auto

lemma bit_moved_back_24: "bit (drop_bit 24 (a AND push_bit 24 (mask 8))) j = (j < 8 \<and> bit (a :: u32) (24 + j))"
  by (simp only: bit_drop_bit_eq comp_def bit_push_bit_iff bit_and_iff bit_mask_iff) auto

lemmas bit_moved = bit_moved_24 bit_moved_8 bit_moved_back_8 bit_moved_back_24

end
