(* ===== verification/Nor_Flash.thy ===== *)
theory Nor_Flash
  imports Bytes_LE
begin

text \<open>
  NOR flash as its clients rely on it: sectors of 4096 bytes that an erase sets to ones, and writes
  that can only clear bits.
\<close>

definition touched :: "nat \<Rightarrow> nat \<Rightarrow> nat \<Rightarrow> bool" where
  "touched a n x = (0 < n \<and> a div 4096 \<le> x div 4096 \<and> x div 4096 \<le> (a + n - 1) div 4096)"

text \<open>
  A healthy device: every erase and write succeeds.  \<open>view\<close> is the byte at every address.
\<close>

definition healthy_flash ::
  "('f \<Rightarrow> nat \<Rightarrow> u8) \<Rightarrow> (u32 \<Rightarrow> u32 \<Rightarrow> 'f \<Rightarrow> int \<times> 'f) \<Rightarrow> (u32 \<Rightarrow> bytes \<Rightarrow> 'f \<Rightarrow> int \<times> 'f) \<Rightarrow> bool" where
  "healthy_flash view erase write =
     ((\<forall>a n f. fst (erase a n f) = 0 \<and>
        (\<forall>x. view (snd (erase a n f)) x = (if touched (unat a) (unat n) x then 0xFF else view f x))) \<and>
      (\<forall>a d f. fst (write a d f) = 0 \<and>
        (\<forall>x. view (snd (write a d f)) x =
           (if unat a \<le> x \<and> x < unat a + length d then view f x AND d ! (x - unat a) else view f x))))"

text \<open>The bytes of a partition, and what an erase and a write to erased bytes make of them.\<close>

definition area :: "('f \<Rightarrow> nat \<Rightarrow> u8) \<Rightarrow> 'f \<Rightarrow> nat \<Rightarrow> nat \<Rightarrow> bytes" where
  "area view f base sz = map (view f) [base..<base + sz]"

definition blank :: "nat \<Rightarrow> bytes" where
  "blank n = replicate n 0xFF"

lemma length_area [simp]: "length (area view f base sz) = sz"
  by (simp add: area_def)

lemma length_blank [simp]: "length (blank n) = n"
  by (simp add: blank_def)

lemma blank_0 [simp]: "blank 0 = []"
  by (simp add: blank_def)

lemma blank_add: "blank (m + n) = blank m @ blank n"
  by (simp add: blank_def replicate_add)

lemma area_erase:
  assumes "healthy_flash view erase write"
  shows "area view (snd (erase a n f)) (unat a) (unat n) = blank (unat n)"
proof (rule nth_equalityI)
  fix i assume i: "i < length (area view (snd (erase a n f)) (unat a) (unat n))"
  then have "touched (unat a) (unat n) (unat a + i)" by (auto simp: touched_def intro!: div_le_mono)
  then show "area view (snd (erase a n f)) (unat a) (unat n) ! i = blank (unat n) ! i"
    using assms i by (simp add: healthy_flash_def area_def blank_def)
qed simp

lemma area_write:
  assumes "healthy_flash view erase write" and a: "unat a = base + i" and "i + length d \<le> sz"
    and blank: "slice (area view f base sz) i (length d) = blank (length d)"
  shows "area view (snd (write a d f)) base sz = poke (area view f base sz) i d"
proof (rule nth_equalityI)
  show "length (area view (snd (write a d f)) base sz) = length (poke (area view f base sz) i d)"
    using assms(3) by (simp add: length_poke)
  fix k assume k: "k < length (area view (snd (write a d f)) base sz)"
  have "view f (base + k) = 0xFF" if "i \<le> k" "k < i + length d"
  proof -
    have "slice (area view f base sz) i (length d) ! (k - i) = view f (base + k)"
      using that assms(3) by (subst nth_slice) (simp_all add: area_def)
    then show ?thesis using that unfolding blank by (simp add: blank_def)
  qed
  moreover have "0xFF AND x = x" for x :: u8
  proof -
    have "(0xFF :: u8) = - 1" by simp
    then show ?thesis by (metis and.left_neutral)
  qed
  ultimately show "area view (snd (write a d f)) base sz ! k = poke (area view f base sz) i d ! k"
    using assms k by (simp add: nth_poke) (auto simp: area_def healthy_flash_def)
qed

lemma poke_blank: "length d \<le> m \<Longrightarrow> i = length p \<Longrightarrow> poke (p @ blank m @ q) i d = p @ d @ blank (m - length d) @ q"
  by (simp add: poke_def blank_def)

lemma slice_blank: "n \<le> m \<Longrightarrow> i = length p \<Longrightarrow> slice (p @ blank m @ q) i n = blank n"
  by (simp add: slice_def blank_def)

end
