(* ===== verification/Soft_Crc.thy ===== *)
theory Soft_Crc
  imports Crc
begin

text \<open>
  The software checksums of \<^verbatim>\<open>drivers/lhal/src/bflb_common.c\<close>: the bitwise CRC-32, which the
  partition tables, the boot header and the updates use, and the CRC-16 with its two byte tables
  (the polynomial 0x8005 reflected, initial value 0xFFFF).  Both are shown to be the division of
  the theory \<open>Crc\<close>; so the CRC-32 is the function that the table-driven stream interface
  computes.  The ROM variants that some chips have are not code of the repository.
\<close>

section \<open>Model\<close>

definition chCRCHTalbe :: "u8 list" where
  "chCRCHTalbe =
    [
     0x00, 0xC1, 0x81, 0x40, 0x01, 0xC0, 0x80, 0x41, 0x01, 0xC0, 0x80, 0x41, 0x00, 0xC1, 0x81, 0x40,
     0x01, 0xC0, 0x80, 0x41, 0x00, 0xC1, 0x81, 0x40, 0x00, 0xC1, 0x81, 0x40, 0x01, 0xC0, 0x80, 0x41,
     0x01, 0xC0, 0x80, 0x41, 0x00, 0xC1, 0x81, 0x40, 0x00, 0xC1, 0x81, 0x40, 0x01, 0xC0, 0x80, 0x41,
     0x00, 0xC1, 0x81, 0x40, 0x01, 0xC0, 0x80, 0x41, 0x01, 0xC0, 0x80, 0x41, 0x00, 0xC1, 0x81, 0x40,
     0x01, 0xC0, 0x80, 0x41, 0x00, 0xC1, 0x81, 0x40, 0x00, 0xC1, 0x81, 0x40, 0x01, 0xC0, 0x80, 0x41,
     0x00, 0xC1, 0x81, 0x40, 0x01, 0xC0, 0x80, 0x41, 0x01, 0xC0, 0x80, 0x41, 0x00, 0xC1, 0x81, 0x40,
     0x00, 0xC1, 0x81, 0x40, 0x01, 0xC0, 0x80, 0x41, 0x01, 0xC0, 0x80, 0x41, 0x00, 0xC1, 0x81, 0x40,
     0x01, 0xC0, 0x80, 0x41, 0x00, 0xC1, 0x81, 0x40, 0x00, 0xC1, 0x81, 0x40, 0x01, 0xC0, 0x80, 0x41,
     0x01, 0xC0, 0x80, 0x41, 0x00, 0xC1, 0x81, 0x40, 0x00, 0xC1, 0x81, 0x40, 0x01, 0xC0, 0x80, 0x41,
     0x00, 0xC1, 0x81, 0x40, 0x01, 0xC0, 0x80, 0x41, 0x01, 0xC0, 0x80, 0x41, 0x00, 0xC1, 0x81, 0x40,
     0x00, 0xC1, 0x81, 0x40, 0x01, 0xC0, 0x80, 0x41, 0x01, 0xC0, 0x80, 0x41, 0x00, 0xC1, 0x81, 0x40,
     0x01, 0xC0, 0x80, 0x41, 0x00, 0xC1, 0x81, 0x40, 0x00, 0xC1, 0x81, 0x40, 0x01, 0xC0, 0x80, 0x41,
     0x00, 0xC1, 0x81, 0x40, 0x01, 0xC0, 0x80, 0x41, 0x01, 0xC0, 0x80, 0x41, 0x00, 0xC1, 0x81, 0x40,
     0x01, 0xC0, 0x80, 0x41, 0x00, 0xC1, 0x81, 0x40, 0x00, 0xC1, 0x81, 0x40, 0x01, 0xC0, 0x80, 0x41,
     0x01, 0xC0, 0x80, 0x41, 0x00, 0xC1, 0x81, 0x40, 0x00, 0xC1, 0x81, 0x40, 0x01, 0xC0, 0x80, 0x41,
     0x00, 0xC1, 0x81, 0x40, 0x01, 0xC0, 0x80, 0x41, 0x01, 0xC0, 0x80, 0x41, 0x00, 0xC1, 0x81, 0x40
    ]"

definition chCRCLTalbe :: "u8 list" where
  "chCRCLTalbe =
    [
     0x00, 0xC0, 0xC1, 0x01, 0xC3, 0x03, 0x02, 0xC2, 0xC6, 0x06, 0x07, 0xC7, 0x05, 0xC5, 0xC4, 0x04,
     0xCC, 0x0C, 0x0D, 0xCD, 0x0F, 0xCF, 0xCE, 0x0E, 0x0A, 0xCA, 0xCB, 0x0B, 0xC9, 0x09, 0x08, 0xC8,
     0xD8, 0x18, 0x19, 0xD9, 0x1B, 0xDB, 0xDA, 0x1A, 0x1E, 0xDE, 0xDF, 0x1F, 0xDD, 0x1D, 0x1C, 0xDC,
     0x14, 0xD4, 0xD5, 0x15, 0xD7, 0x17, 0x16, 0xD6, 0xD2, 0x12, 0x13, 0xD3, 0x11, 0xD1, 0xD0, 0x10,
     0xF0, 0x30, 0x31, 0xF1, 0x33, 0xF3, 0xF2, 0x32, 0x36, 0xF6, 0xF7, 0x37, 0xF5, 0x35, 0x34, 0xF4,
     0x3C, 0xFC, 0xFD, 0x3D, 0xFF, 0x3F, 0x3E, 0xFE, 0xFA, 0x3A, 0x3B, 0xFB, 0x39, 0xF9, 0xF8, 0x38,
     0x28, 0xE8, 0xE9, 0x29, 0xEB, 0x2B, 0x2A, 0xEA, 0xEE, 0x2E, 0x2F, 0xEF, 0x2D, 0xED, 0xEC, 0x2C,
     0xE4, 0x24, 0x25, 0xE5, 0x27, 0xE7, 0xE6, 0x26, 0x22, 0xE2, 0xE3, 0x23, 0xE1, 0x21, 0x20, 0xE0,
     0xA0, 0x60, 0x61, 0xA1, 0x63, 0xA3, 0xA2, 0x62, 0x66, 0xA6, 0xA7, 0x67, 0xA5, 0x65, 0x64, 0xA4,
     0x6C, 0xAC, 0xAD, 0x6D, 0xAF, 0x6F, 0x6E, 0xAE, 0xAA, 0x6A, 0x6B, 0xAB, 0x69, 0xA9, 0xA8, 0x68,
     0x78, 0xB8, 0xB9, 0x79, 0xBB, 0x7B, 0x7A, 0xBA, 0xBE, 0x7E, 0x7F, 0xBF, 0x7D, 0xBD, 0xBC, 0x7C,
     0xB4, 0x74, 0x75, 0xB5, 0x77, 0xB7, 0xB6, 0x76, 0x72, 0xB2, 0xB3, 0x73, 0xB1, 0x71, 0x70, 0xB0,
     0x50, 0x90, 0x91, 0x51, 0x93, 0x53, 0x52, 0x92, 0x96, 0x56, 0x57, 0x97, 0x55, 0x95, 0x94, 0x54,
     0x9C, 0x5C, 0x5D, 0x9D, 0x5F, 0x9F, 0x9E, 0x5E, 0x5A, 0x9A, 0x9B, 0x5B, 0x99, 0x59, 0x58, 0x98,
     0x88, 0x48, 0x49, 0x89, 0x4B, 0x8B, 0x8A, 0x4A, 0x4E, 0x8E, 0x8F, 0x4F, 0x8D, 0x4D, 0x4C, 0x8C,
     0x44, 0x84, 0x85, 0x45, 0x87, 0x47, 0x46, 0x86, 0x82, 0x42, 0x43, 0x83, 0x41, 0x81, 0x80, 0x40
    ]"

text \<open>\<open>while (len--)\<close> with \<open>*data++\<close>; \<open>hi\<close> and \<open>lo\<close> are \<open>chCRCHi\<close> and \<open>chCRCLo\<close>.\<close>

fun soft_crc16_loop :: "u8 \<Rightarrow> u8 \<Rightarrow> bytes \<Rightarrow> nat \<Rightarrow> (u8 \<times> u8) option" where
  "soft_crc16_loop hi lo data 0 = Some (hi, lo)"
| "soft_crc16_loop hi lo [] (Suc n) = None"
| "soft_crc16_loop hi lo (b # data) (Suc n) =
     (let wIndex = lo XOR b in
      soft_crc16_loop (chCRCLTalbe ! unat wIndex) (hi XOR chCRCHTalbe ! unat wIndex) data n)"

definition bflb_soft_crc16 :: "bytes \<Rightarrow> u32 \<Rightarrow> u16 option" where
  "bflb_soft_crc16 data len = do {
     (hi, lo) \<leftarrow> soft_crc16_loop 0xFF 0xFF data (unat len);
     Some (push_bit 8 (ucast hi) OR ucast lo)
   }"

fun soft_crc32_bits :: "nat \<Rightarrow> u32 \<Rightarrow> u32" where
  "soft_crc32_bits 0 c = c"
| "soft_crc32_bits (Suc i) c =
     soft_crc32_bits i (if c AND 1 \<noteq> 0 then drop_bit 1 c XOR 0xEDB88320 else drop_bit 1 c)"

fun soft_crc32_loop :: "u32 \<Rightarrow> bytes \<Rightarrow> nat \<Rightarrow> u32 option" where
  "soft_crc32_loop c data 0 = Some c"
| "soft_crc32_loop c [] (Suc n) = None"
| "soft_crc32_loop c (b # data) (Suc n) = soft_crc32_loop (soft_crc32_bits 8 (c XOR ucast b)) data n"

definition bflb_soft_crc32_ex :: "u32 \<Rightarrow> bytes \<Rightarrow> u32 \<Rightarrow> u32 option" where
  "bflb_soft_crc32_ex initial data len = do { c \<leftarrow> soft_crc32_loop (NOT initial) data (unat len); Some (NOT c) }"

definition bflb_soft_crc32 :: "bytes \<Rightarrow> u32 \<Rightarrow> u32 option" where
  "bflb_soft_crc32 data len = bflb_soft_crc32_ex 0 data len"

section \<open>The CRC-32\<close>

lemma soft_crc32_bits_eq: "soft_crc32_bits n c = (crc_bit 0xEDB88320 ^^ n) c"
proof (induction n arbitrary: c)
  case (Suc n)
  have "(if c AND 1 \<noteq> 0 then drop_bit 1 c XOR 0xEDB88320 else drop_bit 1 c) = crc_bit 0xEDB88320 c"
    by (simp add: crc_bit_def bit_iff_and_push_bit_not_eq_0)
  then show ?case by (simp only: soft_crc32_bits.simps Suc.IH funpow_Suc_right o_apply)
qed simp

lemma soft_crc32_loop_eq:
  "soft_crc32_loop c data n =
    (if n \<le> length data then Some (crc_bytes 0xEDB88320 c (take n data)) else None)"
  by (induction c data n rule: soft_crc32_loop.induct)
     (simp_all add: crc_bytes_def crc_byte_def soft_crc32_bits_eq)

lemma not_eq_xor: "NOT (x :: u32) = x XOR 0xffffffff"
proof -
  have "(0xffffffff :: u32) = - 1" by simp
  then show ?thesis by (simp only: bit.xor_one_right)
qed

lemma soft_crc32_eq:
  "bflb_soft_crc32 data len = (if unat len \<le> length data then Some (crc32_spec (take (unat len) data)) else None)"
  by (simp add: bflb_soft_crc32_def bflb_soft_crc32_ex_def soft_crc32_loop_eq crc32_spec_def not_eq_xor)

section \<open>The CRC-16\<close>

definition crc16_poly :: u16 where
  "crc16_poly = 0xA001"

lemma crc16_powers:
  "crc_entry crc16_poly 1 = 0xC0C1" "crc_entry crc16_poly 2 = 0xC181" "crc_entry crc16_poly 4 = 0xC301"
  "crc_entry crc16_poly 8 = 0xC601" "crc_entry crc16_poly 16 = 0xCC01" "crc_entry crc16_poly 32 = 0xD801"
  "crc_entry crc16_poly 64 = 0xF001" "crc_entry crc16_poly 128 = 0xA001"
  by (simp_all add: crc16_poly_def crc_bit_eval crc_entry_eval)

text \<open>The two tables are the high and the low bytes of one table, named the other way round.\<close>

lemma crc16_tables:
  "map2 (\<lambda>l h. push_bit 8 (ucast l) OR ucast h) chCRCLTalbe chCRCHTalbe =
    map (\<lambda>i. crc_entry crc16_poly (of_nat i)) [0..<256]"
  by (simp add: crc_entry_table crc16_powers chCRCLTalbe_def chCRCHTalbe_def)

definition crc16_state :: "u8 \<Rightarrow> u8 \<Rightarrow> u16" where
  "crc16_state hi lo = push_bit 8 (ucast hi) OR ucast lo"

lemma crc16_state_parts:
  "(crc16_state hi lo XOR ucast b) AND mask 8 = ucast (lo XOR b)"
  "drop_bit 8 (crc16_state hi lo) = ucast hi"
  "crc16_state hi lo XOR ucast b = crc16_state hi (b XOR lo)"
proof -
  show "(crc16_state hi lo XOR ucast b) AND mask 8 = ucast (lo XOR b)"
    by (rule bit_word_eqI)
      (auto simp: crc16_state_def bit_and_iff bit_xor_iff bit_or_iff bit_mask_iff bit_push_bit_iff bit_ucast_iff
        dest: bit_imp_le_length)
  show "drop_bit 8 (crc16_state hi lo) = ucast hi"
  proof (rule bit_word_eqI)
    fix n assume "n < LENGTH(16)"
    have "\<not> bit lo (8 + n)" by (auto dest: bit_imp_le_length)
    then show "bit (drop_bit 8 (crc16_state hi lo)) n = bit (ucast hi :: u16) n"
      using bit_imp_le_length [of hi n]
      by (auto simp: crc16_state_def bit_drop_bit_eq bit_or_iff bit_push_bit_iff bit_ucast_iff)
  qed
  show "crc16_state hi lo XOR ucast b = crc16_state hi (b XOR lo)"
    by (rule bit_word_eqI)
      (auto simp: crc16_state_def bit_xor_iff bit_or_iff bit_push_bit_iff bit_ucast_iff dest: bit_imp_le_length)
qed

lemma soft_crc16_step:
  "crc_byte crc16_poly (crc16_state hi lo) b =
    crc16_state (chCRCLTalbe ! unat (lo XOR b)) (hi XOR chCRCHTalbe ! unat (lo XOR b))"
proof -
  let ?i = "unat (lo XOR b)"
  have i: "?i < 256" by (rule unat_u8_less)
  have len: "length chCRCLTalbe = 256" "length chCRCHTalbe = 256"
    by (simp_all add: chCRCLTalbe_def chCRCHTalbe_def)
  have "map2 (\<lambda>l h. push_bit 8 (ucast l) OR ucast h) chCRCLTalbe chCRCHTalbe ! ?i =
      crc16_state (chCRCLTalbe ! ?i) (chCRCHTalbe ! ?i)"
    using i len by (simp add: crc16_state_def)
  moreover have "map (\<lambda>i. crc_entry crc16_poly (of_nat i)) [0..<256] ! ?i = crc_entry crc16_poly (ucast (lo XOR b))"
    using i by simp
  ultimately have entry: "crc_entry crc16_poly (ucast (lo XOR b)) =
      crc16_state (chCRCLTalbe ! ?i) (chCRCHTalbe ! ?i)"
    unfolding crc16_tables by (simp only:)
  show ?thesis
    by (subst crc_byte_split, simp) (unfold crc16_state_parts(1,2) entry, rule crc16_state_parts(3))
qed

lemma soft_crc16_loop_eq:
  "map_option (\<lambda>(hi, lo). crc16_state hi lo) (soft_crc16_loop hi lo data n) =
    (if n \<le> length data then Some (crc_bytes crc16_poly (crc16_state hi lo) (take n data)) else None)"
  by (induction hi lo data n rule: soft_crc16_loop.induct) (simp_all add: crc_bytes_def soft_crc16_step Let_def)

lemma soft_crc16_eq:
  "bflb_soft_crc16 data len =
    (if unat len \<le> length data then Some (crc_bytes crc16_poly 0xFFFF (take (unat len) data)) else None)"
proof -
  have "bflb_soft_crc16 data len =
      map_option (\<lambda>(hi, lo). crc16_state hi lo) (soft_crc16_loop 0xFF 0xFF data (unat len))"
    by (cases "soft_crc16_loop 0xFF 0xFF data (unat len)") (auto simp: bflb_soft_crc16_def crc16_state_def)
  moreover have "crc16_state 0xFF 0xFF = 0xFFFF" by (simp add: crc16_state_def)
  ultimately show ?thesis by (simp add: soft_crc16_loop_eq)
qed

section \<open>Properties\<close>

text \<open>
  C36: the CRC-32 of the drivers and the stream CRC-32 of the utilities are one function: on every
  message and for every length the bitwise loop returns what the table-driven stream returns for
  the message fed in any blocks, and is undefined exactly when the length exceeds the message.
\<close>

theorem soft_crc32_is_stream:
  "bflb_soft_crc32 data len =
    (if unat len \<le> length data
     then map_option utils_crc32_stream_results
       (utils_crc32_stream_feed_block (utils_crc32_stream_init ctx) data len)
     else None) \<and>
   bflb_soft_crc16 data len =
    (if unat len \<le> length data then Some (crc_bytes crc16_poly 0xFFFF (take (unat len) data)) else None)"
  by (simp add: soft_crc32_eq soft_crc16_eq feed_block_eq utils_crc32_stream_results_def
    utils_crc32_stream_init_def crc32_spec_def)

end
