(* ===== verification/Partition.thy ===== *)
theory Partition
  imports Nor_Flash Soft_Crc Bytes_LE
begin

text \<open>
  The partition table of \<^verbatim>\<open>components/utils/partition/partition.c\<close>: two copies of a table of entries
  in flash, each protected by two checksums and numbered by an age; the valid copy with the
  greater age is active, updates are written to a copy of the caller's choice.

  A \<open>pt_table_stuff_config\<close> is the list of its 596 bytes, since the code places the checksum
  of the entries right behind the last entry in use, over the bytes of the next one; the fields
  are read and written at their offsets.  The three flash callbacks are functions of the client
  on the state \<open>'f\<close> of the flash; a callback that is not set is a jump to \<open>NULL\<close>.  Arrays that
  the code leaves uninitialised are arguments with arbitrary contents.  Only text is printed by
  \<open>pt_table_dump\<close>; its model is the list of the values printed.
\<close>

section \<open>Model\<close>

datatype pt_table_error_type =
    PT_ERROR_SUCCESS | PT_ERROR_TABLE_NOT_VALID | PT_ERROR_ENTRY_NOT_FOUND | PT_ERROR_ENTRY_UPDATE_FAIL
  | PT_ERROR_CRC32 | PT_ERROR_PARAMETER | PT_ERROR_FALSH_READ | PT_ERROR_FALSH_WRITE | PT_ERROR_FALSH_ERASE

datatype pt_table_id_type = PT_TABLE_ID_0 | PT_TABLE_ID_1 | PT_TABLE_ID_INVALID

definition PT_ENTRY_MAX :: nat where
  "PT_ENTRY_MAX = 16"

text \<open>\<open>sizeof\<close> of the three structures.\<close>

abbreviation (input) table_size :: nat where "table_size \<equiv> 16"
abbreviation (input) entry_size :: nat where "entry_size \<equiv> 36"
abbreviation (input) stuff_size :: nat where "stuff_size \<equiv> 596"

definition magicCode :: "bytes \<Rightarrow> u32" where "magicCode s = le32 s 0"
definition pt_version :: "bytes \<Rightarrow> u16" where "pt_version s = le16 s 4"
definition entryCnt :: "bytes \<Rightarrow> u16" where "entryCnt s = le16 s 6"
definition age :: "bytes \<Rightarrow> u32" where "age s = le32 s 8"
definition table_crc32 :: "bytes \<Rightarrow> u32" where "table_crc32 s = le32 s 12"

text \<open>The \<open>i\<close>th entry and the fields of an entry.\<close>

definition pt_entry :: "bytes \<Rightarrow> nat \<Rightarrow> bytes" where
  "pt_entry s i = slice s (table_size + i * entry_size) entry_size"

definition entry_type :: "bytes \<Rightarrow> u8" where "entry_type e = e ! 0"
definition entry_device :: "bytes \<Rightarrow> u8" where "entry_device e = e ! 1"
definition active_index :: "bytes \<Rightarrow> u8" where "active_index e = e ! 2"
definition entry_name :: "bytes \<Rightarrow> bytes" where "entry_name e = slice e 3 9"
definition start_address :: "bytes \<Rightarrow> nat \<Rightarrow> u32" where "start_address e k = le32 e (12 + 4 * k)"
definition max_len :: "bytes \<Rightarrow> nat \<Rightarrow> u32" where "max_len e k = le32 e (20 + 4 * k)"
definition entry_len :: "bytes \<Rightarrow> u32" where "entry_len e = le32 e 28"
definition entry_age :: "bytes \<Rightarrow> u32" where "entry_age e = le32 e 32"

definition BFLB_PT_TABLE0_ADDRESS :: u32 where "BFLB_PT_TABLE0_ADDRESS = 0xE000"
definition BFLB_PT_TABLE1_ADDRESS :: u32 where "BFLB_PT_TABLE1_ADDRESS = 0xF000"
definition BFLB_PT_MAGIC_CODE :: u32 where "BFLB_PT_MAGIC_CODE = 0x54504642"

record pt_table_iap_param_type =
  iap_start_addr :: u32
  iap_write_addr :: u32
  iap_img_len :: u32
  inactive_index :: u8
  inactive_table_index :: u8

text \<open>
  The file's variables.  A read gets the buffer with its old contents and returns the new ones.
\<close>

record 'f pt_globals =
  gp_pt_table_flash_erase :: "(u32 \<Rightarrow> u32 \<Rightarrow> 'f \<Rightarrow> int \<times> 'f) option"
  gp_pt_table_flash_write :: "(u32 \<Rightarrow> bytes \<Rightarrow> 'f \<Rightarrow> int \<times> 'f) option"
  gp_pt_table_flash_read :: "(u32 \<Rightarrow> bytes \<Rightarrow> 'f \<Rightarrow> int \<times> bytes \<times> 'f) option"
  pt_table_stuff_save :: "bytes \<times> bytes"
  pt_active_id :: pt_table_id_type

definition entries_len :: "u16 \<Rightarrow> u32" where
  "entries_len cnt = of_nat entry_size * ucast cnt"

definition pt_table_valid :: "bytes \<Rightarrow> bool option" where
  "pt_table_valid s =
     (let entriesLen = entries_len (entryCnt s) in
      if magicCode s = BFLB_PT_MAGIC_CODE then
        if unat (entryCnt s) > PT_ENTRY_MAX then Some False
        else do {
          c \<leftarrow> bflb_soft_crc32 s (of_nat table_size - 4);
          if table_crc32 s \<noteq> c then Some False
          else do {
            let p_crc32 = table_size + unat entriesLen;
            c \<leftarrow> bflb_soft_crc32 (drop table_size s) entriesLen;
            if le32 s p_crc32 \<noteq> c then Some False else Some True
          }
        }
      else Some False)"

definition pt_table_set_flash_operation ::
  "(u32 \<Rightarrow> u32 \<Rightarrow> 'f \<Rightarrow> int \<times> 'f) option \<Rightarrow> (u32 \<Rightarrow> bytes \<Rightarrow> 'f \<Rightarrow> int \<times> 'f) option \<Rightarrow>
   (u32 \<Rightarrow> bytes \<Rightarrow> 'f \<Rightarrow> int \<times> bytes \<times> 'f) option \<Rightarrow> 'f pt_globals \<Rightarrow> 'f pt_globals" where
  "pt_table_set_flash_operation erase write read g =
     g\<lparr>gp_pt_table_flash_erase := erase, gp_pt_table_flash_write := write, gp_pt_table_flash_read := read\<rparr>"

text \<open>Reading one copy into a buffer and judging it, as the code does it six times.\<close>

definition read_table :: "'f pt_globals \<Rightarrow> u32 \<Rightarrow> bytes \<Rightarrow> 'f \<Rightarrow> (bytes \<times> bool \<times> 'f) option" where
  "read_table g addr buf f = do {
     read \<leftarrow> gp_pt_table_flash_read g;
     let (_, s, f) = read addr buf f;
     v \<leftarrow> pt_table_valid s;
     Some (s, v, f)
   }"

definition pt_table_get_active_partition_need_lock ::
  "'f pt_globals \<Rightarrow> (bytes \<times> bytes) option \<Rightarrow> 'f \<Rightarrow> (pt_table_id_type \<times> (bytes \<times> bytes) option \<times> 'f) option" where
  "pt_table_get_active_partition_need_lock g ptStuff f =
     (case ptStuff of None \<Rightarrow> Some (PT_TABLE_ID_INVALID, None, f)
      | Some (b0, b1) \<Rightarrow> do {
          (s0, valid0, f) \<leftarrow> read_table g BFLB_PT_TABLE0_ADDRESS b0 f;
          (s1, valid1, f) \<leftarrow> read_table g BFLB_PT_TABLE1_ADDRESS b1 f;
          let activePtID =
            (if valid0 \<and> valid1 then if age s0 \<ge> age s1 then PT_TABLE_ID_0 else PT_TABLE_ID_1
             else if valid0 then PT_TABLE_ID_0
             else if valid1 then PT_TABLE_ID_1
             else PT_TABLE_ID_INVALID);
          Some (activePtID, Some (s0, s1), f)
        })"

definition pt_table_get_active_partition_from_ram ::
  "'f pt_globals \<Rightarrow> 'f \<Rightarrow> (pt_table_id_type \<times> (bytes \<times> bytes) \<times> 'f pt_globals \<times> 'f) option" where
  "pt_table_get_active_partition_from_ram g f = do {
     (g, f) \<leftarrow> (if pt_active_id g = PT_TABLE_ID_INVALID then do {
         (i, s, f) \<leftarrow> pt_table_get_active_partition_need_lock g (Some (pt_table_stuff_save g)) f;
         s \<leftarrow> s;
         Some (g\<lparr>pt_table_stuff_save := s, pt_active_id := i\<rparr>, f)
       } else Some (g, f));
     Some (pt_active_id g, pt_table_stuff_save g, g, f)
   }"

text \<open>The loop over the entries: the index of the first entry of a type, or \<open>entryCnt\<close>.\<close>

function find_entry :: "(bytes \<Rightarrow> bool option) \<Rightarrow> bytes \<Rightarrow> nat \<Rightarrow> nat \<Rightarrow> nat option" where
  "find_entry match s cnt i =
     (if i < cnt then
        if i < PT_ENTRY_MAX then do {
          hit \<leftarrow> match (drop (table_size + i * entry_size) s);
          if hit then Some i else find_entry match s cnt (i + 1)
        } else None
      else Some i)"
  by auto
termination by (relation "measure (\<lambda>(match, s, cnt, i). cnt - i)") auto

declare find_entry.simps [simp del]

definition pt_table_get_active_entries_by_id ::
  "bytes option \<Rightarrow> int \<Rightarrow> bytes option \<Rightarrow> (pt_table_error_type \<times> bytes option) option" where
  "pt_table_get_active_entries_by_id pt_stuff type entry =
     (case (pt_stuff, entry) of (Some s, Some e) \<Rightarrow> do {
        let cnt = unat (entryCnt s);
        i \<leftarrow> find_entry (\<lambda>e. Some (uint (entry_type e) = type)) s cnt 0;
        if i < cnt then Some (PT_ERROR_SUCCESS, Some (pt_entry s i)) else Some (PT_ERROR_ENTRY_NOT_FOUND, entry)
      }
      | _ \<Rightarrow> Some (PT_ERROR_PARAMETER, entry))"

text \<open>\<open>strlen\<close> and \<open>memcmp\<close> of the C library on an object; no terminator in the object is \<open>None\<close>.\<close>

fun strlen :: "bytes \<Rightarrow> nat option" where
  "strlen [] = None"
| "strlen (b # bs) = (if b = 0 then Some 0 else do { n \<leftarrow> strlen bs; Some (Suc n) })"

definition memcmp_eq :: "bytes \<Rightarrow> bytes \<Rightarrow> nat \<Rightarrow> bool option" where
  "memcmp_eq xs ys n = (if n \<le> length xs \<and> n \<le> length ys then Some (take n xs = take n ys) else None)"

definition pt_table_get_active_entries_by_name ::
  "bytes option \<Rightarrow> bytes option \<Rightarrow> bytes option \<Rightarrow> (pt_table_error_type \<times> bytes option) option" where
  "pt_table_get_active_entries_by_name pt_stuff name entry = do {
     name \<leftarrow> name;
     len \<leftarrow> strlen name;
     (case (pt_stuff, entry) of (Some s, Some e) \<Rightarrow> do {
        let cnt = unat (entryCnt s);
        i \<leftarrow> find_entry (\<lambda>e. do {
            n \<leftarrow> strlen (drop 3 e);
            if n = len then memcmp_eq (drop 3 e) name len else Some False
          }) s cnt 0;
        if i < cnt then Some (PT_ERROR_SUCCESS, Some (pt_entry s i)) else Some (PT_ERROR_ENTRY_NOT_FOUND, entry)
      }
      | _ \<Rightarrow> Some (PT_ERROR_PARAMETER, entry))
   }"

definition table_address :: "pt_table_id_type \<Rightarrow> u32" where
  "table_address i = (if i = PT_TABLE_ID_0 then BFLB_PT_TABLE0_ADDRESS else BFLB_PT_TABLE1_ADDRESS)"

text \<open>
  New age, then the two checksums: \<open>pt_table->age++\<close> and the stores up to the erase, which
  \<open>pt_table_update_entry\<close> and \<open>pt_table_set_iap_para\<close> share.
\<close>

definition seal_table :: "bytes \<Rightarrow> bytes option" where
  "seal_table s = do {
     c \<leftarrow> bflb_soft_crc32 s (of_nat table_size - 4);
     let s = poke s 12 (bytes32 c);
     let entriesLen = entries_len (entryCnt s);
     c \<leftarrow> bflb_soft_crc32 (drop table_size s) entriesLen;
     if table_size + unat entriesLen + 4 \<le> length s then Some (poke s (table_size + unat entriesLen) (bytes32 c)) else None
   }"

definition pt_table_update_entry ::
  "'f pt_globals \<Rightarrow> pt_table_id_type \<Rightarrow> bytes option \<Rightarrow> bytes option \<Rightarrow> 'f \<Rightarrow>
   (pt_table_error_type \<times> bytes option \<times> 'f) option" where
  "pt_table_update_entry g target_table_id pt_stuff entry f =
     (case (pt_stuff, entry) of (Some s, Some e) \<Rightarrow>
        if target_table_id = PT_TABLE_ID_INVALID then Some (PT_ERROR_TABLE_NOT_VALID, pt_stuff, f)
        else do {
          let write_addr = table_address target_table_id;
          let cnt = unat (entryCnt s);
          i \<leftarrow> find_entry (\<lambda>x. Some (entry_type x = entry_type e)) s cnt 0;
          if i = cnt \<and> \<not> cnt < PT_ENTRY_MAX then Some (PT_ERROR_ENTRY_UPDATE_FAIL, pt_stuff, f)
          else do {
            let s = poke s (table_size + i * entry_size) e;
            let s = (if i = cnt then poke s 6 (bytes16 (entryCnt s + 1)) else s);
            let s = poke s 8 (bytes32 (age s + 1));
            s \<leftarrow> seal_table s;
            erase \<leftarrow> gp_pt_table_flash_erase g;
            let (ret, f) = erase write_addr (of_nat table_size + entries_len (entryCnt s) + 4) f;
            if ret \<noteq> 0 then Some (PT_ERROR_FALSH_WRITE, Some s, f)
            else do {
              write \<leftarrow> gp_pt_table_flash_write g;
              let (ret, f) = write write_addr s f;
              if ret \<noteq> 0 then Some (PT_ERROR_FALSH_WRITE, Some s, f) else Some (PT_ERROR_SUCCESS, Some s, f)
            }
          }
        }
      | _ \<Rightarrow> Some (PT_ERROR_PARAMETER, pt_stuff, f))"

definition pt_table_create :: "'f pt_globals \<Rightarrow> pt_table_id_type \<Rightarrow> 'f \<Rightarrow> (pt_table_error_type \<times> 'f) option" where
  "pt_table_create g pt_id f =
     (if pt_id = PT_TABLE_ID_INVALID then Some (PT_ERROR_TABLE_NOT_VALID, f)
      else do {
        let write_addr = table_address pt_id;
        let t = bytes32 BFLB_PT_MAGIC_CODE @ bytes16 0 @ bytes16 0 @ bytes32 0 @ bytes32 0;
        c \<leftarrow> bflb_soft_crc32 t (of_nat table_size - 4);
        let t = poke t 12 (bytes32 c);
        erase \<leftarrow> gp_pt_table_flash_erase g;
        let (ret, f) = erase write_addr (of_nat table_size) f;
        if ret \<noteq> 0 then Some (PT_ERROR_FALSH_ERASE, f)
        else do {
          write \<leftarrow> gp_pt_table_flash_write g;
          let (ret, f) = write write_addr t f;
          if ret \<noteq> 0 then Some (PT_ERROR_FALSH_WRITE, f) else Some (PT_ERROR_SUCCESS, f)
        }
      })"

text \<open>What is printed: the two verdicts and, for each valid copy, the fields in their order.\<close>

definition dump_entry :: "bytes \<Rightarrow> u32 list" where
  "dump_entry e =
     [ucast (entry_type e), ucast (entry_device e), ucast (active_index e), start_address e 0, start_address e 1,
      max_len e 0, max_len e 1, entry_len e, entry_age e]"

definition dump_table :: "bytes \<Rightarrow> u32 list" where
  "dump_table s =
     [magicCode s, ucast (pt_version s), ucast (entryCnt s), age s, table_crc32 s] @
     concat (map (\<lambda>j. dump_entry (pt_entry s j)) [0..<unat (entryCnt s)])"

definition pt_table_dump ::
  "'f pt_globals \<Rightarrow> bytes \<times> bytes \<Rightarrow> 'f \<Rightarrow> (pt_table_error_type \<times> (bool \<times> bool \<times> u32 list list) \<times> 'f) option" where
  "pt_table_dump g pt_stuff f = do {
     (s0, valid0, f) \<leftarrow> read_table g BFLB_PT_TABLE0_ADDRESS (fst pt_stuff) f;
     (s1, valid1, f) \<leftarrow> read_table g BFLB_PT_TABLE1_ADDRESS (snd pt_stuff) f;
     Some (PT_ERROR_SUCCESS,
       (valid0, valid1, (if valid0 then [dump_table s0] else []) @ (if valid1 then [dump_table s1] else [])), f)
   }"

text \<open>\<open>!(active_index & 0x01)\<close>\<close>

definition other_index :: "u8 \<Rightarrow> u8" where
  "other_index active = (if active AND 1 = 0 then 1 else 0)"

definition iap_from :: "bytes \<Rightarrow> u8 \<Rightarrow> pt_table_iap_param_type \<Rightarrow> pt_table_iap_param_type" where
  "iap_from s table_index para =
     (let active = active_index (pt_entry s 0); addr = start_address (pt_entry s 0) (unat (other_index active))
      in para\<lparr>iap_start_addr := addr, iap_write_addr := addr, inactive_index := other_index active,
        inactive_table_index := table_index\<rparr>)"

definition pt_table_get_iap_para ::
  "'f pt_globals \<Rightarrow> bytes \<times> bytes \<Rightarrow> pt_table_iap_param_type \<Rightarrow> 'f \<Rightarrow>
   (pt_table_error_type \<times> pt_table_iap_param_type \<times> 'f) option" where
  "pt_table_get_iap_para g pt_stuff para f = do {
     (s0, valid0, f) \<leftarrow> read_table g BFLB_PT_TABLE0_ADDRESS (fst pt_stuff) f;
     (s1, valid1, f) \<leftarrow> read_table g BFLB_PT_TABLE1_ADDRESS (snd pt_stuff) f;
     if valid0 \<and> valid1 then
       if age s0 \<ge> age s1 then Some (PT_ERROR_SUCCESS, iap_from s0 1 para, f)
       else Some (PT_ERROR_SUCCESS, iap_from s1 0 para, f)
     else if valid1 then Some (PT_ERROR_SUCCESS, iap_from s1 0 para, f)
     else if valid0 then Some (PT_ERROR_SUCCESS, iap_from s0 1 para, f)
     else Some (PT_ERROR_TABLE_NOT_VALID, para, f)
   }"

text \<open>With a table index other than 0 and 1 nothing is read: the array stays uninitialised.\<close>

definition pt_table_set_iap_para ::
  "'f pt_globals \<Rightarrow> bytes \<Rightarrow> pt_table_iap_param_type \<Rightarrow> 'f \<Rightarrow> (pt_table_error_type \<times> 'f) option" where
  "pt_table_set_iap_para g pt_stuff para f = do {
     read \<leftarrow> gp_pt_table_flash_read g;
     let (s, f) =
       (if inactive_table_index para = 1 then snd (read BFLB_PT_TABLE0_ADDRESS pt_stuff f)
        else if inactive_table_index para = 0 then snd (read BFLB_PT_TABLE1_ADDRESS pt_stuff f)
        else (pt_stuff, f));
     let s = poke s 8 (bytes32 (age s + 1));
     let s = poke s (table_size + 2) [other_index (active_index (pt_entry s 0))];
     s \<leftarrow> seal_table s;
     if inactive_table_index para = 1 \<or> inactive_table_index para = 0 then do {
       let addr = (if inactive_table_index para = 1 then BFLB_PT_TABLE1_ADDRESS else BFLB_PT_TABLE0_ADDRESS);
       erase \<leftarrow> gp_pt_table_flash_erase g;
       let (ret, f) = erase addr (of_nat stuff_size) f;
       if ret \<noteq> 0 then Some (PT_ERROR_FALSH_ERASE, f)
       else do {
         write \<leftarrow> gp_pt_table_flash_write g;
         let (ret, f) = write addr s f;
         if ret \<noteq> 0 then Some (PT_ERROR_FALSH_WRITE, f) else Some (PT_ERROR_SUCCESS, f)
       }
     } else Some (PT_ERROR_SUCCESS, f)
   }"

section \<open>Tables\<close>

definition entries :: "bytes \<Rightarrow> bytes list" where
  "entries s = map (pt_entry s) [0..<unat (entryCnt s)]"

text \<open>A table that the code accepts, as a predicate on the bytes.\<close>

definition valid_table :: "bytes \<Rightarrow> bool" where
  "valid_table s =
     (magicCode s = BFLB_PT_MAGIC_CODE \<and> unat (entryCnt s) \<le> PT_ENTRY_MAX \<and>
      table_crc32 s = crc32_spec (slice s 0 12) \<and>
      le32 s (16 + 36 * unat (entryCnt s)) = crc32_spec (slice s 16 (36 * unat (entryCnt s))))"

lemma entries_len_eq: "unat cnt \<le> PT_ENTRY_MAX \<Longrightarrow> unat (entries_len cnt) = 36 * unat cnt"
proof -
  assume c: "unat cnt \<le> PT_ENTRY_MAX"
  have "unat (ucast cnt :: u32) = unat cnt"
    using unsigned_less [of cnt, where ?'a = nat] by (simp add: unsigned_ucast_eq take_bit_nat_eq_self)
  then show ?thesis
    using c unat_mult_lem [of 36 "ucast cnt :: u32"] by (simp add: entries_len_def PT_ENTRY_MAX_def)
qed

lemma soft_crc32_slice:
  "i + unat n \<le> length s \<Longrightarrow> bflb_soft_crc32 (drop i s) n = Some (crc32_spec (slice s i (unat n)))"
  by (simp add: soft_crc32_eq slice_def)

lemma pt_table_valid_eq:
  assumes "length s = 596"
  shows "pt_table_valid s = Some (valid_table s)"
proof (cases "magicCode s = BFLB_PT_MAGIC_CODE \<and> unat (entryCnt s) \<le> PT_ENTRY_MAX")
  case True
  let ?n = "entries_len (entryCnt s)"
  have n: "unat ?n = 36 * unat (entryCnt s)" using True by (intro entries_len_eq) simp
  then have le: "16 + unat ?n \<le> length s" using True assms by (simp add: PT_ENTRY_MAX_def)
  have "bflb_soft_crc32 s 12 = Some (crc32_spec (slice s 0 12))"
    using soft_crc32_slice [of 0 12 s] assms by simp
  moreover note soft_crc32_slice [OF le]
  ultimately show ?thesis
    using True by (simp add: pt_table_valid_def valid_table_def n Let_def)
next
  case False
  then show ?thesis by (auto simp: pt_table_valid_def valid_table_def Let_def)
qed

lemma find_entry_spec:
  assumes "\<And>j. i \<le> j \<Longrightarrow> j < cnt \<Longrightarrow> match (drop (16 + j * 36) s) = Some (P j)" and "cnt \<le> PT_ENTRY_MAX" and "i \<le> cnt"
  shows "\<exists>k. find_entry match s cnt i = Some k \<and> i \<le> k \<and> k \<le> cnt \<and> (\<forall>j. i \<le> j \<and> j < k \<longrightarrow> \<not> P j) \<and> (k < cnt \<longrightarrow> P k)"
  using assms
proof (induction "cnt - i" arbitrary: i)
  case 0
  then show ?case by (subst find_entry.simps) auto
next
  case (Suc n)
  then have i: "i < cnt" "i < PT_ENTRY_MAX" by auto
  show ?case
  proof (cases "P i")
    case True
    then show ?thesis using i Suc.prems(1) [of i] by (subst find_entry.simps) auto
  next
    case False
    have n: "n = cnt - (i + 1)" using Suc.hyps(2) by simp
    have m: "match (drop (16 + j * 36) s) = Some (P j)" if "i + 1 \<le> j" "j < cnt" for j
      using Suc.prems(1) [of j] that by simp
    obtain k where k: "find_entry match s cnt (i + 1) = Some k" "i + 1 \<le> k" "k \<le> cnt"
        "\<forall>j. i + 1 \<le> j \<and> j < k \<longrightarrow> \<not> P j" "k < cnt \<longrightarrow> P k"
      using Suc.hyps(1) [OF n m Suc.prems(2)] i(1) by auto
    have "find_entry match s cnt i = Some k"
      using k(1) False i Suc.prems(1) [of i] by (subst find_entry.simps) simp
    moreover have "\<forall>j. i \<le> j \<and> j < k \<longrightarrow> \<not> P j"
      using k(4) False by (metis Suc_eq_plus1 Suc_leI le_neq_implies_less)
    ultimately show ?thesis using k(2,3,5) by auto
  qed
qed

lemma header_fields:
  "magicCode (poke s i xs) = magicCode s" "pt_version (poke s i xs) = pt_version s"
  "entryCnt (poke s i xs) = entryCnt s" "age (poke s i xs) = age s"
  if "12 \<le> i" "i + length xs \<le> length s"
  using that by (simp_all add: magicCode_def pt_version_def entryCnt_def age_def byte_simps)

lemma seal_table_valid:
  assumes len: "length s = 596" and cnt: "unat (entryCnt s) \<le> PT_ENTRY_MAX" and magic: "magicCode s = BFLB_PT_MAGIC_CODE"
  obtains s' where "seal_table s = Some s'" "length s' = 596" "valid_table s'" "entryCnt s' = entryCnt s"
    "age s' = age s" "entries s' = entries s"
proof -
  define c where "c = crc32_spec (slice s 0 12)"
  define s1 where "s1 = poke s 12 (bytes32 c)"
  define d where "d = crc32_spec (slice s1 16 (36 * unat (entryCnt s)))"
  define n where "n = 16 + 36 * unat (entryCnt s)"
  define s2 where "s2 = poke s1 n (bytes32 d)"
  have n: "n + 4 \<le> 596" "16 \<le> n" using cnt by (simp_all add: n_def PT_ENTRY_MAX_def)
  have l1: "length s1 = 596" using len by (simp add: s1_def byte_simps)
  then have l2: "length s2 = 596" using n by (simp add: s2_def byte_simps)
  have f1: "entryCnt s1 = entryCnt s" "age s1 = age s" "magicCode s1 = magicCode s"
    using len by (simp_all add: s1_def header_fields byte_simps)
  have f2: "entryCnt s2 = entryCnt s1" "age s2 = age s1" "magicCode s2 = magicCode s1"
    using l1 n by (simp_all add: s2_def header_fields byte_simps)
  have el: "unat (entries_len (entryCnt s)) = 36 * unat (entryCnt s)" by (rule entries_len_eq [OF cnt])
  have crc: "bflb_soft_crc32 s 12 = Some c" using soft_crc32_slice [of 0 12 s] len by (simp add: c_def)
  have "bflb_soft_crc32 (drop 16 s1) (entries_len (entryCnt s)) = Some d"
    using soft_crc32_slice [of 16 "entries_len (entryCnt s)" s1] n l1 by (simp add: d_def el n_def)
  then have "seal_table s = Some s2"
    using crc l1 n cnt by (simp add: seal_table_def Let_def s1_def [symmetric] f1 el n_def [symmetric] s2_def PT_ENTRY_MAX_def)
  moreover have "valid_table s2"
  proof -
    have "slice s2 0 12 = slice s 0 12"
      using l1 len n by (simp add: s2_def s1_def byte_simps)
    moreover have "table_crc32 s2 = c"
      using l1 len n by (simp add: table_crc32_def s2_def byte_simps) (simp add: s1_def byte_simps)
    moreover have "slice s2 16 (36 * unat (entryCnt s)) = slice s1 16 (36 * unat (entryCnt s))"
      using l1 n by (simp add: s2_def byte_simps n_def)
    moreover have "le32 s2 n = d" using l1 n by (simp add: s2_def byte_simps)
    ultimately show ?thesis
      using cnt magic f1 f2 by (simp add: valid_table_def c_def d_def n_def)
  qed
  moreover have "pt_entry s2 i = pt_entry s i" if "i < unat (entryCnt s)" for i
  proof -
    have "16 + i * 36 + 36 \<le> n" using that by (simp add: n_def)
    then show ?thesis using l1 len n by (simp add: pt_entry_def s2_def s1_def byte_simps)
  qed
  then have "entries s2 = entries s" using f1 f2 by (simp add: entries_def)
  ultimately show ?thesis using that l2 f1 f2 by simp
qed

text \<open>Updating the list of entries: the first entry of the same type is replaced, a new type is added.\<close>

fun upd_entry :: "bytes \<Rightarrow> bytes list \<Rightarrow> bytes list" where
  "upd_entry e [] = [e]"
| "upd_entry e (x # xs) = (if entry_type x = entry_type e then e # xs else x # upd_entry e xs)"

lemma upd_entry_hit:
  "k < length xs \<Longrightarrow> entry_type (xs ! k) = entry_type e \<Longrightarrow> (\<forall>j < k. entry_type (xs ! j) \<noteq> entry_type e) \<Longrightarrow>
    upd_entry e xs = xs[k := e]"
proof (induction xs arbitrary: k)
  case (Cons x xs)
  show ?case
  proof (cases k)
    case (Suc k')
    have "\<forall>j < k'. entry_type (xs ! j) \<noteq> entry_type e" using Cons.prems(3) Suc by auto
    moreover have "entry_type x \<noteq> entry_type e" using Cons.prems(3) Suc by auto
    ultimately show ?thesis using Cons.IH [of k'] Cons.prems(1,2) Suc by simp
  qed (use Cons.prems in simp)
qed simp

lemma upd_entry_miss: "(\<forall>x \<in> set xs. entry_type x \<noteq> entry_type e) \<Longrightarrow> upd_entry e xs = xs @ [e]"
  by (induction xs) auto

lemma length_entries [simp]: "length (entries s) = unat (entryCnt s)"
  by (simp add: entries_def)

lemma nth_entries: "i < unat (entryCnt s) \<Longrightarrow> entries s ! i = pt_entry s i"
  by (simp add: entries_def)

lemma entry_at:
  assumes "length s = 596" and "i < PT_ENTRY_MAX"
  shows "length (pt_entry s i) = 36" "entry_type (drop (16 + i * 36) s) = entry_type (pt_entry s i)"
  using assms by (simp_all add: pt_entry_def slice_def entry_type_def PT_ENTRY_MAX_def)

text \<open>The index loop on a table.\<close>

lemma find_type:
  assumes "length s = 596" and "unat (entryCnt s) \<le> PT_ENTRY_MAX"
  obtains k where "find_entry (\<lambda>x. Some (Q (entry_type x))) s (unat (entryCnt s)) 0 = Some k" "k \<le> unat (entryCnt s)"
    "\<And>j. j < k \<Longrightarrow> \<not> Q (entry_type (entries s ! j))"
    "k < unat (entryCnt s) \<Longrightarrow> Q (entry_type (entries s ! k))"
proof -
  have "\<exists>k. find_entry (\<lambda>x. Some (Q (entry_type x))) s (unat (entryCnt s)) 0 = Some k \<and> 0 \<le> k \<and> k \<le> unat (entryCnt s) \<and>
      (\<forall>j. 0 \<le> j \<and> j < k \<longrightarrow> \<not> Q (entry_type (pt_entry s j))) \<and> (k < unat (entryCnt s) \<longrightarrow> Q (entry_type (pt_entry s k)))"
    by (rule find_entry_spec) (use assms entry_at(2) [OF assms(1)] in auto)
  then show ?thesis using that nth_entries by (metis le0 less_le_trans)
qed

section \<open>The flash\<close>

text \<open>
  What the code relies on: a NOR flash with sectors of 4096 bytes, seen through the byte at every
  address.  A read does not fail; an erase sets the sectors it touches to ones, a write can only
  clear bits; one that fails (or is cut off) leaves anything in the sectors or bytes it touches,
  but nothing else is changed.
\<close>

definition nor_flash :: "('f \<Rightarrow> nat \<Rightarrow> u8) \<Rightarrow> 'f pt_globals \<Rightarrow> bool" where
  "nor_flash view g =
     (\<exists>erase write read. gp_pt_table_flash_erase g = Some erase \<and> gp_pt_table_flash_write g = Some write \<and>
       gp_pt_table_flash_read g = Some read \<and>
       (\<forall>a buf f. read a buf f = (0, map (view f) [unat a..<unat a + length buf], f)) \<and>
       (\<forall>a n f x. case erase a n f of (ret, f') \<Rightarrow>
         (\<not> touched (unat a) (unat n) x \<longrightarrow> view f' x = view f x) \<and>
         (ret = 0 \<and> touched (unat a) (unat n) x \<longrightarrow> view f' x = 0xFF)) \<and>
       (\<forall>a d f x. case write a d f of (ret, f') \<Rightarrow>
         (\<not> (unat a \<le> x \<and> x < unat a + length d) \<longrightarrow> view f' x = view f x) \<and>
         (ret = 0 \<and> unat a \<le> x \<and> x < unat a + length d \<longrightarrow> view f' x = view f x AND d ! (x - unat a))))"

definition flash_table :: "('f \<Rightarrow> nat \<Rightarrow> u8) \<Rightarrow> 'f \<Rightarrow> u32 \<Rightarrow> bytes" where
  "flash_table view f a = map (view f) [unat a..<unat a + 596]"

lemma length_flash_table [simp]: "length (flash_table view f a) = 596"
  by (simp add: flash_table_def)

lemma read_table_eq:
  assumes "nor_flash view g" and "length buf = 596"
  shows "read_table g a buf f = Some (flash_table view f a, valid_table (flash_table view f a), f)"
proof -
  obtain read where "gp_pt_table_flash_read g = Some read"
      "\<And>a buf f. read a buf f = (0, map (view f) [unat a..<unat a + length buf], f)"
    using assms(1) by (auto simp: nor_flash_def)
  then show ?thesis
    using assms(2) pt_table_valid_eq [of "flash_table view f a"] by (simp add: read_table_def flash_table_def)
qed

text \<open>Erasing and writing the sector of a copy.\<close>

lemma sector_touched:
  assumes "a mod 4096 = 0" and "0 < n" and "n \<le> 4096"
  shows "touched a n x \<longleftrightarrow> a \<le> x \<and> x < a + 4096"
proof -
  obtain q where a: "a = 4096 * q" using assms(1) by (metis mod_0_imp_dvd dvdE)
  have "(4096 * q + n - 1) div 4096 = q" using assms(2,3) by (intro div_nat_eqI) simp_all
  then show ?thesis using assms(2) by (auto simp: touched_def a less_eq_div_iff_mult_less_eq div_less_iff_less_mult)
qed

lemma nor_eraseD:
  assumes "nor_flash view g" and "gp_pt_table_flash_erase g = Some erase" and "erase a n f = (ret, f')"
  shows "\<not> touched (unat a) (unat n) x \<Longrightarrow> view f' x = view f x"
    and "ret = 0 \<Longrightarrow> touched (unat a) (unat n) x \<Longrightarrow> view f' x = 0xFF"
proof -
  obtain E where "gp_pt_table_flash_erase g = Some E" and "\<forall>a n f x. case E a n f of (ret, f') \<Rightarrow>
      (\<not> touched (unat a) (unat n) x \<longrightarrow> view f' x = view f x) \<and>
      (ret = 0 \<and> touched (unat a) (unat n) x \<longrightarrow> view f' x = 0xFF)"
    using assms(1) unfolding nor_flash_def by blast
  then have "case erase a n f of (ret, f') \<Rightarrow> (\<not> touched (unat a) (unat n) x \<longrightarrow> view f' x = view f x) \<and>
      (ret = 0 \<and> touched (unat a) (unat n) x \<longrightarrow> view f' x = 0xFF)"
    using assms(2) by simp
  then show "\<not> touched (unat a) (unat n) x \<Longrightarrow> view f' x = view f x"
    "ret = 0 \<Longrightarrow> touched (unat a) (unat n) x \<Longrightarrow> view f' x = 0xFF"
    by (simp_all add: assms(3))
qed

lemma nor_writeD:
  assumes "nor_flash view g" and "gp_pt_table_flash_write g = Some write" and "write a d f = (ret, f')"
  shows "\<not> (unat a \<le> x \<and> x < unat a + length d) \<Longrightarrow> view f' x = view f x"
    and "ret = 0 \<Longrightarrow> unat a \<le> x \<Longrightarrow> x < unat a + length d \<Longrightarrow> view f' x = view f x AND d ! (x - unat a)"
proof -
  obtain W where "gp_pt_table_flash_write g = Some W" and "\<forall>a d f x. case W a d f of (ret, f') \<Rightarrow>
      (\<not> (unat a \<le> x \<and> x < unat a + length d) \<longrightarrow> view f' x = view f x) \<and>
      (ret = 0 \<and> unat a \<le> x \<and> x < unat a + length d \<longrightarrow> view f' x = view f x AND d ! (x - unat a))"
    using assms(1) unfolding nor_flash_def by blast
  then have "case write a d f of (ret, f') \<Rightarrow>
      (\<not> (unat a \<le> x \<and> x < unat a + length d) \<longrightarrow> view f' x = view f x) \<and>
      (ret = 0 \<and> unat a \<le> x \<and> x < unat a + length d \<longrightarrow> view f' x = view f x AND d ! (x - unat a))"
    using assms(2) by simp
  then show "\<not> (unat a \<le> x \<and> x < unat a + length d) \<Longrightarrow> view f' x = view f x"
    "ret = 0 \<Longrightarrow> unat a \<le> x \<Longrightarrow> x < unat a + length d \<Longrightarrow> view f' x = view f x AND d ! (x - unat a)"
    by (simp_all add: assms(3))
qed

lemma and_ones: "0xFF AND b = (b :: u8)"
proof -
  have "(0xFF :: u8) = - 1" by simp
  then show ?thesis by (simp only: and.left_neutral)
qed

text \<open>
  What a sequence of an erase and a write of one copy does: the other addresses are kept in any
  case; if both succeed the data are there and the rest of the sector is erased.
\<close>

lemma program_sector:
  assumes nor: "nor_flash view g" and "gp_pt_table_flash_erase g = Some erase" and "gp_pt_table_flash_write g = Some write"
    and a: "unat a mod 4096 = 0" and n: "0 < unat n" "unat n \<le> 4096" and d: "length d \<le> 4096"
    and "erase a n f = (ret, f1)" and "write a d f1 = (ret', f2)"
  shows "x < unat a \<or> unat a + 4096 \<le> x \<Longrightarrow> view f1 x = view f x \<and> view f2 x = view f x"
    and "ret = 0 \<Longrightarrow> ret' = 0 \<Longrightarrow> map (view f2) [unat a..<unat a + length d] = d"
    and "ret = 0 \<Longrightarrow> unat a + length d \<le> x \<Longrightarrow> x < unat a + 4096 \<Longrightarrow> view f2 x = 0xFF"
proof -
  note t = sector_touched [OF a n]
  note e = nor_eraseD [OF nor assms(2,8)]
  note w = nor_writeD [OF nor assms(3,9)]
  show "view f1 x = view f x \<and> view f2 x = view f x" if "x < unat a \<or> unat a + 4096 \<le> x"
  proof -
    have "\<not> touched (unat a) (unat n) x" "\<not> (unat a \<le> x \<and> x < unat a + length d)"
      using that d by (auto simp: t)
    then show ?thesis using e(1) w(1) by simp
  qed
  show "view f2 x = 0xFF" if "ret = 0" "unat a + length d \<le> x" "x < unat a + 4096"
    using e(2) [OF that(1)] w(1) [of x] that by (simp add: t)
  show "map (view f2) [unat a..<unat a + length d] = d" if ok: "ret = 0" "ret' = 0"
  proof (rule nth_equalityI)
    fix i assume "i < length (map (view f2) [unat a..<unat a + length d])"
    then have "i < length d" by simp
    then show "map (view f2) [unat a..<unat a + length d] ! i = d ! i"
      using e(2) [OF ok(1), of "unat a + i"] w(2) [OF ok(2), of "unat a + i"] and_ones [of "d ! i"] d
      by (simp add: t)
  qed simp
qed

lemma table_addresses:
  "unat BFLB_PT_TABLE0_ADDRESS = 0xE000" "unat BFLB_PT_TABLE1_ADDRESS = 0xF000"
  "unat (table_address i) mod 4096 = 0"
  by (simp_all add: BFLB_PT_TABLE0_ADDRESS_def BFLB_PT_TABLE1_ADDRESS_def table_address_def)

definition active_id :: "bytes \<Rightarrow> bytes \<Rightarrow> pt_table_id_type" where
  "active_id s0 s1 =
     (if valid_table s0 \<and> valid_table s1 then if age s0 \<ge> age s1 then PT_TABLE_ID_0 else PT_TABLE_ID_1
      else if valid_table s0 then PT_TABLE_ID_0
      else if valid_table s1 then PT_TABLE_ID_1
      else PT_TABLE_ID_INVALID)"

abbreviation copy_at :: "('f \<Rightarrow> nat \<Rightarrow> u8) \<Rightarrow> 'f \<Rightarrow> pt_table_id_type \<Rightarrow> bytes" where
  "copy_at view f i \<equiv> flash_table view f (table_address i)"

abbreviation active_at :: "('f \<Rightarrow> nat \<Rightarrow> u8) \<Rightarrow> 'f \<Rightarrow> pt_table_id_type" where
  "active_at view f \<equiv> active_id (copy_at view f PT_TABLE_ID_0) (copy_at view f PT_TABLE_ID_1)"

lemma table_address_ids [simp]:
  "table_address PT_TABLE_ID_0 = BFLB_PT_TABLE0_ADDRESS" "table_address PT_TABLE_ID_1 = BFLB_PT_TABLE1_ADDRESS"
  by (simp_all add: table_address_def)

lemma active_id_best:
  "active_id s0 s1 = PT_TABLE_ID_INVALID \<longleftrightarrow> \<not> valid_table s0 \<and> \<not> valid_table s1"
  "active_id s0 s1 = PT_TABLE_ID_0 \<longleftrightarrow> valid_table s0 \<and> (valid_table s1 \<longrightarrow> age s1 \<le> age s0)"
  "active_id s0 s1 = PT_TABLE_ID_1 \<longleftrightarrow> valid_table s1 \<and> (valid_table s0 \<longrightarrow> age s0 < age s1)"
  by (auto simp: active_id_def)

lemma need_lock_eq:
  assumes "nor_flash view g" and "length b0 = 596" and "length b1 = 596"
  shows "pt_table_get_active_partition_need_lock g (Some (b0, b1)) f =
    Some (active_at view f, Some (copy_at view f PT_TABLE_ID_0, copy_at view f PT_TABLE_ID_1), f)"
  using read_table_eq [OF assms(1)] assms(2,3)
  by (simp add: pt_table_get_active_partition_need_lock_def active_id_def)

lemma flash_tables_apart:
  assumes "i \<noteq> PT_TABLE_ID_INVALID" and "j \<noteq> PT_TABLE_ID_INVALID" and "i \<noteq> j"
    and "\<And>x. x < unat (table_address j) \<or> unat (table_address j) + 4096 \<le> x \<Longrightarrow> view f' x = view f x"
  shows "copy_at view f' i = copy_at view f i"
proof -
  have "unat (table_address i) + 596 \<le> unat (table_address j) \<or> unat (table_address j) + 4096 \<le> unat (table_address i)"
    using assms(1-3) by (cases i; cases j) (simp_all add: table_addresses)
  then show ?thesis using assms(4) by (auto simp: flash_table_def)
qed

lemma active_id_valid: "active_at view f \<noteq> PT_TABLE_ID_INVALID \<Longrightarrow> valid_table (copy_at view f (active_at view f))"
  by (auto simp: active_id_def split: if_splits)

lemma active_id_oldest:
  assumes "j \<noteq> PT_TABLE_ID_INVALID" and "valid_table (copy_at view f j)"
  shows "age (copy_at view f j) \<le> age (copy_at view f (active_at view f))"
  using assms by (cases j) (auto simp: active_id_def)

text \<open>Updating one entry: first the table in memory, then its way to the flash.\<close>

lemma update_bytes:
  assumes len: "length s = 596" and v: "valid_table s" and e: "length e = 36" and k: "k \<le> unat (entryCnt s)"
    and room: "k < PT_ENTRY_MAX" and hit: "k < unat (entryCnt s) \<Longrightarrow> entry_type (entries s ! k) = entry_type e"
    and miss: "\<And>j. j < k \<Longrightarrow> entry_type (entries s ! j) \<noteq> entry_type e"
  obtains s' where "seal_table (let s1 = poke s (16 + k * 36) e;
        s2 = (if k = unat (entryCnt s) then poke s1 6 (bytes16 (entryCnt s1 + 1)) else s1)
      in poke s2 8 (bytes32 (age s2 + 1))) = Some s'" "length s' = 596" "valid_table s'"
    "entries s' = upd_entry e (entries s)" "age s' = age s + 1"
proof -
  have cnt: "unat (entryCnt s) \<le> PT_ENTRY_MAX" and magic: "magicCode s = BFLB_PT_MAGIC_CODE"
    using v by (simp_all add: valid_table_def)
  define s1 where "s1 = poke s (16 + k * 36) e"
  define s2 where "s2 = (if k = unat (entryCnt s) then poke s1 6 (bytes16 (entryCnt s1 + 1)) else s1)"
  define s3 where "s3 = poke s2 8 (bytes32 (age s2 + 1))"
  have fit: "16 + k * 36 + 36 \<le> 596" using room by (simp add: PT_ENTRY_MAX_def)
  have l1: "length s1 = 596" using len e fit by (simp add: s1_def byte_simps)
  have l2: "length s2 = 596" using l1 by (simp add: s2_def byte_simps)
  have l3: "length s3 = 596" using l2 by (simp add: s3_def byte_simps)
  have f1: "magicCode s1 = magicCode s" "entryCnt s1 = entryCnt s" "age s1 = age s"
    using len e fit by (simp_all add: s1_def header_fields)
  have "unat (entryCnt s) < 65535" using cnt by (simp add: PT_ENTRY_MAX_def)
  then have inc: "unat (entryCnt s + 1) = Suc (unat (entryCnt s))"
    using unat_plus_small [of "entryCnt s" 1] by simp
  have f2: "magicCode s2 = magicCode s" "age s2 = age s"
      "unat (entryCnt s2) = (if k = unat (entryCnt s) then Suc k else unat (entryCnt s))"
    using l1 f1 inc by (simp_all add: s2_def magicCode_def age_def entryCnt_def byte_simps)
  have f3: "magicCode s3 = magicCode s" "age s3 = age s + 1" "entryCnt s3 = entryCnt s2"
    using l2 f2 by (simp_all add: s3_def magicCode_def age_def entryCnt_def byte_simps)
  have c3: "unat (entryCnt s3) = (if k = unat (entryCnt s) then Suc k else unat (entryCnt s))" by (simp add: f3 f2)
  have ent: "pt_entry s3 j = (if j = k then e else pt_entry s j)" if "j < unat (entryCnt s3)" for j
  proof -
    have j: "16 + j * 36 + 36 \<le> 596" using that c3 room cnt by (auto simp: PT_ENTRY_MAX_def split: if_splits)
    have "pt_entry s3 j = pt_entry s1 j"
      using j l1 l2 by (simp add: pt_entry_def s3_def s2_def byte_simps)
    also have "\<dots> = (if j = k then e else pt_entry s j)"
    proof (cases "j = k")
      case True
      then show ?thesis using fit len e by (simp add: pt_entry_def s1_def byte_simps)
    next
      case False
      then have "16 + j * 36 + 36 \<le> 16 + k * 36 \<or> 16 + k * 36 + length e \<le> 16 + j * 36" using e by linarith
      then show ?thesis using False fit len e by (auto simp: pt_entry_def s1_def byte_simps)
    qed
    finally show ?thesis .
  qed
  have "entries s3 = upd_entry e (entries s)"
  proof (cases "k = unat (entryCnt s)")
    case True
    have "upd_entry e (entries s) = entries s @ [e]"
      using miss True by (intro upd_entry_miss) (auto simp: in_set_conv_nth)
    moreover have "entries s3 = entries s @ [e]"
      using ent c3 True by (intro nth_equalityI) (auto simp: nth_append nth_entries less_Suc_eq)
    ultimately show ?thesis by simp
  next
    case False
    have "upd_entry e (entries s) = (entries s)[k := e]"
      using False k hit miss by (intro upd_entry_hit) simp_all
    moreover have "entries s3 = (entries s)[k := e]"
      using ent c3 False by (intro nth_equalityI) (auto simp: nth_entries nth_list_update)
    ultimately show ?thesis by simp
  qed
  moreover have "unat (entryCnt s3) \<le> PT_ENTRY_MAX" using c3 room cnt by (auto simp: PT_ENTRY_MAX_def)
  from seal_table_valid [OF l3 this] obtain s' where "seal_table s3 = Some s'" "length s' = 596" "valid_table s'"
      "age s' = age s3" "entries s' = entries s3"
    using f3(1) magic by auto
  moreover have "(let s1 = poke s (16 + k * 36) e;
      s2 = (if k = unat (entryCnt s) then poke s1 6 (bytes16 (entryCnt s1 + 1)) else s1)
    in poke s2 8 (bytes32 (age s2 + 1))) = s3"
    by (simp only: s1_def s2_def s3_def Let_def)
  ultimately show ?thesis using that f3(2) by (simp only:)
qed

lemma entries_len_small: "unat (entryCnt s) \<le> PT_ENTRY_MAX \<Longrightarrow>
  unat (16 + entries_len (entryCnt s) + 4) = 16 + 36 * unat (entryCnt s) + 4"
  using entries_len_eq [of "entryCnt s"] unat_plus_small [of 16 "entries_len (entryCnt s)"]
    unat_plus_small [of "16 + entries_len (entryCnt s)" 4]
  by (simp add: PT_ENTRY_MAX_def)

definition full_for :: "bytes \<Rightarrow> bytes \<Rightarrow> bool" where
  "full_for s e = (unat (entryCnt s) = PT_ENTRY_MAX \<and> (\<forall>x \<in> set (entries s). entry_type x \<noteq> entry_type e))"

lemma update_entry_full:
  assumes "length s = 596" and "valid_table s" and "full_for s e" and "i \<noteq> PT_TABLE_ID_INVALID"
  shows "pt_table_update_entry g i (Some s) (Some e) f = Some (PT_ERROR_ENTRY_UPDATE_FAIL, Some s, f)"
proof -
  have cnt: "unat (entryCnt s) = PT_ENTRY_MAX" and none: "\<And>x. x \<in> set (entries s) \<Longrightarrow> entry_type x \<noteq> entry_type e"
    using assms(3) by (auto simp: full_for_def)
  obtain k where "find_entry (\<lambda>x. Some (entry_type x = entry_type e)) s (unat (entryCnt s)) 0 = Some k"
      "k \<le> unat (entryCnt s)" "k < unat (entryCnt s) \<Longrightarrow> entry_type (entries s ! k) = entry_type e"
    using find_type [OF assms(1), of "\<lambda>t. t = entry_type e"] cnt by auto
  moreover from this have "k = unat (entryCnt s)" using none by (metis length_entries nth_mem le_neq_implies_less)
  ultimately show ?thesis using assms(4) cnt by (simp add: pt_table_update_entry_def)
qed

text \<open>All results of an update on a flash: \<open>(result, table in memory, flash)\<close>.\<close>

lemma update_entry_runs:
  assumes nor: "nor_flash view g" and len: "length s = 596" and v: "valid_table s" and e: "length e = 36"
    and i: "i \<noteq> PT_TABLE_ID_INVALID" and room: "\<not> full_for s e"
  obtains err s' f' where "pt_table_update_entry g i (Some s) (Some e) f = Some (err, Some s', f')"
    "length s' = 596" "valid_table s'" "entries s' = upd_entry e (entries s)" "age s' = age s + 1"
    "err = PT_ERROR_SUCCESS \<or> err = PT_ERROR_FALSH_WRITE" "err = PT_ERROR_SUCCESS \<Longrightarrow> copy_at view f' i = s'"
    "\<And>x. x < unat (table_address i) \<or> unat (table_address i) + 4096 \<le> x \<Longrightarrow> view f' x = view f x"
proof -
  have cnt: "unat (entryCnt s) \<le> PT_ENTRY_MAX" using v by (simp add: valid_table_def)
  obtain k where k: "find_entry (\<lambda>x. Some (entry_type x = entry_type e)) s (unat (entryCnt s)) 0 = Some k"
      "k \<le> unat (entryCnt s)" "\<And>j. j < k \<Longrightarrow> entry_type (entries s ! j) \<noteq> entry_type e"
      "k < unat (entryCnt s) \<Longrightarrow> entry_type (entries s ! k) = entry_type e"
    using find_type [OF len cnt, of "\<lambda>t. t = entry_type e"] by auto
  have fits: "\<not> (k = unat (entryCnt s) \<and> \<not> unat (entryCnt s) < PT_ENTRY_MAX)"
    using room k(3) cnt by (auto simp: full_for_def in_set_conv_nth)
  then have "k < PT_ENTRY_MAX" using k(2) cnt by linarith
  from update_bytes [OF len v e k(2) this k(4,3)] obtain s' where s': "seal_table (let s1 = poke s (16 + k * 36) e;
        s2 = (if k = unat (entryCnt s) then poke s1 6 (bytes16 (entryCnt s1 + 1)) else s1)
      in poke s2 8 (bytes32 (age s2 + 1))) = Some s'" "length s' = 596" "valid_table s'"
    "entries s' = upd_entry e (entries s)" "age s' = age s + 1"
    by blast
  obtain erase where E: "gp_pt_table_flash_erase g = Some erase" and W: "\<exists>w. gp_pt_table_flash_write g = Some w"
    using nor by (auto simp: nor_flash_def)
  then obtain wr where W: "gp_pt_table_flash_write g = Some wr" by blast
  let ?a = "table_address i" and ?n = "16 + entries_len (entryCnt s') + 4"
  have cnt': "unat (entryCnt s') \<le> PT_ENTRY_MAX" using s'(3) by (simp add: valid_table_def)
  then have n: "0 < unat ?n" "unat ?n \<le> 4096" unfolding entries_len_small [OF cnt'] by (simp_all add: PT_ENTRY_MAX_def)
  obtain r1 f1 where e1: "erase ?a ?n f = (r1, f1)" by (cases "erase ?a ?n f")
  obtain r2 f2 where w2: "wr ?a s' f1 = (r2, f2)" by (cases "wr ?a s' f1")
  have "length s' \<le> 4096" using s'(2) by simp
  note ps = program_sector [OF nor E W table_addresses(3) n this e1 w2]
  have run: "pt_table_update_entry g i (Some s) (Some e) f =
      (if r1 \<noteq> 0 then Some (PT_ERROR_FALSH_WRITE, Some s', f1)
       else if r2 \<noteq> 0 then Some (PT_ERROR_FALSH_WRITE, Some s', f2) else Some (PT_ERROR_SUCCESS, Some s', f2))"
    using fits i s'(1) [unfolded Let_def] k(1) E W e1 w2 unfolding pt_table_update_entry_def
    by (auto simp: Let_def)
  show ?thesis
  proof (cases "r1 = 0 \<and> r2 = 0")
    case True
    then have "copy_at view f2 i = s'" using ps(2) s'(2) by (simp add: flash_table_def)
    then show ?thesis using that [of PT_ERROR_SUCCESS s' f2] run True s' ps(1) by simp
  next
    case False
    then show ?thesis using that [of PT_ERROR_FALSH_WRITE s' "if r1 \<noteq> 0 then f1 else f2"] run s' ps(1) by auto
  qed
qed

text \<open>The update of the firmware slot: the active copy with the other slot, in the other copy.\<close>

definition other_id :: "pt_table_id_type \<Rightarrow> pt_table_id_type" where
  "other_id i = (if i = PT_TABLE_ID_0 then PT_TABLE_ID_1 else PT_TABLE_ID_0)"

definition id_index :: "pt_table_id_type \<Rightarrow> u8" where
  "id_index i = (if i = PT_TABLE_ID_0 then 0 else 1)"

lemma get_iap_eq:
  assumes "nor_flash view g" and "length b0 = 596" and "length b1 = 596"
  shows "pt_table_get_iap_para g (b0, b1) para f =
    (if active_at view f = PT_TABLE_ID_INVALID then Some (PT_ERROR_TABLE_NOT_VALID, para, f)
     else Some (PT_ERROR_SUCCESS,
       iap_from (copy_at view f (active_at view f)) (id_index (other_id (active_at view f))) para, f))"
  using read_table_eq [OF assms(1)] assms(2,3)
  by (auto simp: pt_table_get_iap_para_def active_id_def other_id_def id_index_def)

lemma iap_bytes:
  assumes len: "length s = 596" and v: "valid_table s" and "0 < unat (entryCnt s)"
  obtains s' where "seal_table (let s1 = poke s 8 (bytes32 (age s + 1))
      in poke s1 18 [other_index (active_index (pt_entry s1 0))]) = Some s'"
    "length s' = 596" "valid_table s'" "age s' = age s + 1"
    "entries s' = (entries s)[0 := poke (entries s ! 0) 2 [other_index (active_index (entries s ! 0))]]"
proof -
  have cnt: "unat (entryCnt s) \<le> PT_ENTRY_MAX" and magic: "magicCode s = BFLB_PT_MAGIC_CODE"
    using v by (simp_all add: valid_table_def)
  define s1 where "s1 = poke s 8 (bytes32 (age s + 1))"
  define b where "b = other_index (active_index (pt_entry s1 0))"
  define s2 where "s2 = poke s1 18 [b]"
  have l1: "length s1 = 596" using len by (simp add: s1_def byte_simps)
  have l2: "length s2 = 596" using l1 by (simp add: s2_def byte_simps)
  have f1: "magicCode s1 = magicCode s" "entryCnt s1 = entryCnt s" "age s1 = age s + 1"
    using len by (simp_all add: s1_def magicCode_def age_def entryCnt_def byte_simps)
  have f2: "magicCode s2 = magicCode s1" "entryCnt s2 = entryCnt s1" "age s2 = age s1"
    using l1 by (simp_all add: s2_def header_fields)
  have e1: "pt_entry s1 j = pt_entry s j" for j
    using len by (simp add: pt_entry_def s1_def byte_simps)
  have e2: "pt_entry s2 j = (if j = 0 then poke (pt_entry s 0) 2 [b] else pt_entry s j)" if "j < PT_ENTRY_MAX" for j
  proof (cases "j = 0")
    case True
    have "slice (poke s1 18 [b]) 16 36 = poke (slice s1 16 36) 2 [b]"
      using l1 by (intro nth_equalityI) (auto simp: nth_slice nth_poke length_slice byte_simps)
    then show ?thesis using True e1 [of 0] by (simp add: pt_entry_def s2_def)
  next
    case False
    then have "pt_entry s2 j = pt_entry s1 j" using l1 by (simp add: pt_entry_def s2_def byte_simps)
    then show ?thesis using False e1 by simp
  qed
  have b: "b = other_index (active_index (pt_entry s 0))" by (simp add: b_def e1)
  have "entries s2 = (entries s)[0 := poke (entries s ! 0) 2 [b]]"
    using e2 cnt assms(3) f1 f2 by (intro nth_equalityI) (auto simp: nth_entries nth_list_update)
  moreover have "unat (entryCnt s2) \<le> PT_ENTRY_MAX" using cnt f1 f2 by simp
  from seal_table_valid [OF l2 this] obtain s' where "seal_table s2 = Some s'" "length s' = 596" "valid_table s'"
      "age s' = age s2" "entries s' = entries s2"
    using magic f1 f2 by auto
  moreover have "(let s1 = poke s 8 (bytes32 (age s + 1))
      in poke s1 18 [other_index (active_index (pt_entry s1 0))]) = s2"
    by (simp only: s1_def s2_def b_def Let_def)
  ultimately show ?thesis using that f1(3) f2(3) b assms(3) by (simp only: nth_entries)
qed

lemma set_iap_runs:
  assumes nor: "nor_flash view g" and b: "length buf = 596" and v: "valid_table (copy_at view f (other_id j))"
    and cnt: "0 < unat (entryCnt (copy_at view f (other_id j)))" and j: "j \<noteq> PT_TABLE_ID_INVALID"
    and para: "inactive_table_index para = id_index j"
  obtains err f' where "pt_table_set_iap_para g buf para f = Some (err, f')"
    "err \<in> {PT_ERROR_SUCCESS, PT_ERROR_FALSH_ERASE, PT_ERROR_FALSH_WRITE}"
    "\<And>x. x < unat (table_address j) \<or> unat (table_address j) + 4096 \<le> x \<Longrightarrow> view f' x = view f x"
    "err = PT_ERROR_SUCCESS \<Longrightarrow> valid_table (copy_at view f' j) \<and>
       age (copy_at view f' j) = age (copy_at view f (other_id j)) + 1 \<and>
       entries (copy_at view f' j) = (entries (copy_at view f (other_id j)))
         [0 := poke (entries (copy_at view f (other_id j)) ! 0) 2
           [other_index (active_index (entries (copy_at view f (other_id j)) ! 0))]]"
proof -
  let ?s = "copy_at view f (other_id j)"
  from iap_bytes [OF length_flash_table v cnt] obtain s' where s': "seal_table (let s1 = poke ?s 8 (bytes32 (age ?s + 1))
      in poke s1 18 [other_index (active_index (pt_entry s1 0))]) = Some s'"
    "length s' = 596" "valid_table s'" "age s' = age ?s + 1"
    "entries s' = (entries ?s)[0 := poke (entries ?s ! 0) 2 [other_index (active_index (entries ?s ! 0))]]"
    by blast
  obtain erase wr read where E: "gp_pt_table_flash_erase g = Some erase" and W: "gp_pt_table_flash_write g = Some wr"
      and R: "gp_pt_table_flash_read g = Some read"
      and rd: "\<And>a buf f. read a buf f = (0, map (view f) [unat a..<unat a + length buf], f)"
    using nor by (auto simp: nor_flash_def)
  let ?a = "table_address j"
  obtain r1 f1 where e1: "erase ?a (of_nat 596) f = (r1, f1)" by (cases "erase ?a (of_nat 596) f")
  obtain r2 f2 where w2: "wr ?a s' f1 = (r2, f2)" by (cases "wr ?a s' f1")
  have n: "0 < unat (of_nat 596 :: u32)" "unat (of_nat 596 :: u32) \<le> 4096" by simp_all
  have "length s' \<le> 4096" using s'(2) by simp
  note ps = program_sector [OF nor E W table_addresses(3) n this e1 w2]
  have src: "snd (read (table_address (other_id j)) buf f) = (?s, f)"
    using b by (simp add: rd flash_table_def)
  have run: "pt_table_set_iap_para g buf para f =
      (if r1 \<noteq> 0 then Some (PT_ERROR_FALSH_ERASE, f1)
       else if r2 \<noteq> 0 then Some (PT_ERROR_FALSH_WRITE, f2) else Some (PT_ERROR_SUCCESS, f2))"
    using j para src R E W e1 w2 s'(1) unfolding pt_table_set_iap_para_def
    by (cases j) (auto simp: id_index_def other_id_def Let_def)
  show ?thesis
  proof (cases "r1 = 0 \<and> r2 = 0")
    case True
    then have "copy_at view f2 j = s'" using ps(2) s'(2) by (simp add: flash_table_def)
    then show ?thesis using that [of PT_ERROR_SUCCESS f2] run True s' ps(1) by simp
  next
    case False
    then show ?thesis
      using that [of PT_ERROR_FALSH_ERASE f1] that [of PT_ERROR_FALSH_WRITE f2] run ps(1) by (cases "r1 = 0") simp_all
  qed
qed

text \<open>Looking an entry up.\<close>

lemma find_upd_uint: "find (\<lambda>x. uint (entry_type x) = t) (upd_entry e es) =
    (if t = uint (entry_type e) then Some e else find (\<lambda>x. uint (entry_type x) = t) es)"
  by (induction es) (auto simp: word_uint_eq_iff)

definition lookup_result :: "bytes option \<Rightarrow> bytes \<Rightarrow> pt_table_error_type \<times> bytes option" where
  "lookup_result r old = (case r of None \<Rightarrow> (PT_ERROR_ENTRY_NOT_FOUND, Some old) | Some x \<Rightarrow> (PT_ERROR_SUCCESS, Some x))"

lemma find_first:
  "k \<le> length xs \<Longrightarrow> (\<And>j. j < k \<Longrightarrow> \<not> P (xs ! j)) \<Longrightarrow> (k < length xs \<Longrightarrow> P (xs ! k)) \<Longrightarrow>
    find P xs = (if k < length xs then Some (xs ! k) else None)"
  by (auto simp: find_Some_iff find_None_iff in_set_conv_nth)

lemma by_id_eq:
  assumes "length s = 596" and "valid_table s"
  shows "pt_table_get_active_entries_by_id (Some s) t (Some old) =
    Some (lookup_result (find (\<lambda>x. uint (entry_type x) = t) (entries s)) old)"
proof -
  have cnt: "unat (entryCnt s) \<le> PT_ENTRY_MAX" using assms(2) by (simp add: valid_table_def)
  obtain k where k: "find_entry (\<lambda>x. Some (uint (entry_type x) = t)) s (unat (entryCnt s)) 0 = Some k"
      "k \<le> unat (entryCnt s)" "\<And>j. j < k \<Longrightarrow> uint (entry_type (entries s ! j)) \<noteq> t"
      "k < unat (entryCnt s) \<Longrightarrow> uint (entry_type (entries s ! k)) = t"
    using find_type [OF assms(1) cnt, of "\<lambda>x. uint x = t"] by blast
  have "find (\<lambda>x. uint (entry_type x) = t) (entries s) = (if k < length (entries s) then Some (entries s ! k) else None)"
    by (rule find_first) (use k(2-4) in auto)
  then show ?thesis
    using k(1,2) by (auto simp: pt_table_get_active_entries_by_id_def lookup_result_def nth_entries)
qed

lemma map_offset: "length s = n \<Longrightarrow> map (\<lambda>x. if A \<le> x \<and> x < A + n then s ! (x - A) else d) [A..<A + n] = s"
  by (intro nth_equalityI) auto

lemma map_elsewhere: "A + n \<le> B \<Longrightarrow> map (\<lambda>x. if A \<le> x \<and> x < A + n then s ! (x - A) else d) [B..<B + m] = replicate m d"
  by (intro nth_equalityI) auto

lemma replicate_four: "replicate 4 x = [x, x, x, x]"
  by (simp add: numeral_eq_Suc)

text \<open>A flash in memory, which shows that the assumptions can hold.\<close>

definition nor_sim :: "(nat \<Rightarrow> u8) pt_globals" where
  "nor_sim =
     \<lparr>gp_pt_table_flash_erase = Some (\<lambda>a n f. (0, \<lambda>x. if touched (unat a) (unat n) x then 0xFF else f x)),
      gp_pt_table_flash_write = Some (\<lambda>a d f. (0, \<lambda>x. if unat a \<le> x \<and> x < unat a + length d then f x AND d ! (x - unat a) else f x)),
      gp_pt_table_flash_read = Some (\<lambda>a buf f. (0, map f [unat a..<unat a + length buf], f)),
      pt_table_stuff_save = (replicate 596 0, replicate 596 0), pt_active_id = PT_TABLE_ID_INVALID\<rparr>"

lemma nor_sim_flash: "nor_flash (\<lambda>f. f) nor_sim"
  unfolding nor_flash_def nor_sim_def by (intro exI conjI) (rule refl | simp)+

lemma some_table:
  assumes "unat c \<le> PT_ENTRY_MAX"
  obtains s where "length s = 596" "valid_table s" "entryCnt s = c" "age s = a"
proof -
  define s0 where "s0 = bytes32 BFLB_PT_MAGIC_CODE @ bytes16 0 @ bytes16 c @ bytes32 a @ replicate 584 0"
  have l: "length s0 = 596" by (simp add: s0_def byte_simps)
  have "magicCode s0 = BFLB_PT_MAGIC_CODE" "entryCnt s0 = c" "age s0 = a"
    by (simp_all add: s0_def magicCode_def entryCnt_def age_def le32_def le16_def slice_def byte_simps)
  then show ?thesis using seal_table_valid [OF l] assms that by metis
qed

lemma age_grows: "x \<noteq> - 1 \<Longrightarrow> x < x + (1 :: u32)"
proof -
  assume "x \<noteq> - 1"
  moreover have "x = - 1" if "unat x = 4294967295" using word_of_unat [OF that] by simp
  ultimately have "unat x \<noteq> 4294967295" by blast
  then show ?thesis using unat_plus_small [of x 1] unat_u32_less [of x] by (simp add: unat_less_iff)
qed

section \<open>Properties\<close>

text \<open>
  C11: the active copy.  The copies are judged by magic number, number of entries and the two
  checksums; no copy is active exactly when none is valid, and the active one is valid and has
  the greatest age of the valid ones.  The variant that keeps the result in memory returns what
  it found first, whatever happens to the flash later.
\<close>

theorem partition_active:
  assumes "nor_flash view g" and "length b0 = 596" and "length b1 = 596"
  shows "\<exists>i. pt_table_get_active_partition_need_lock g (Some (b0, b1)) f =
      Some (i, Some (copy_at view f PT_TABLE_ID_0, copy_at view f PT_TABLE_ID_1), f) \<and>
    (i = PT_TABLE_ID_INVALID \<longleftrightarrow>
      \<not> valid_table (copy_at view f PT_TABLE_ID_0) \<and> \<not> valid_table (copy_at view f PT_TABLE_ID_1)) \<and>
    (i \<noteq> PT_TABLE_ID_INVALID \<longrightarrow> valid_table (copy_at view f i) \<and>
      (\<forall>j. j \<noteq> PT_TABLE_ID_INVALID \<and> valid_table (copy_at view f j) \<longrightarrow> age (copy_at view f j) \<le> age (copy_at view f i)) \<and>
      (pt_active_id g = PT_TABLE_ID_INVALID \<and> pt_table_stuff_save g = (b0, b1) \<longrightarrow>
        (\<exists>g'. pt_table_get_active_partition_from_ram g f =
            Some (i, (copy_at view f PT_TABLE_ID_0, copy_at view f PT_TABLE_ID_1), g', f) \<and>
          (\<forall>f'. pt_table_get_active_partition_from_ram g' f' =
            Some (i, (copy_at view f PT_TABLE_ID_0, copy_at view f PT_TABLE_ID_1), g', f')))))"
proof -
  let ?t0 = "copy_at view f PT_TABLE_ID_0" and ?t1 = "copy_at view f PT_TABLE_ID_1"
  let ?i = "active_id ?t0 ?t1"
  note need = need_lock_eq [OF assms]
  have best: "valid_table (copy_at view f ?i) \<and>
      (\<forall>j. j \<noteq> PT_TABLE_ID_INVALID \<and> valid_table (copy_at view f j) \<longrightarrow> age (copy_at view f j) \<le> age (copy_at view f ?i))"
    if "?i \<noteq> PT_TABLE_ID_INVALID"
  proof (intro conjI allI impI)
    show "valid_table (copy_at view f ?i)" by (rule active_id_valid [OF that])
    fix j assume "j \<noteq> PT_TABLE_ID_INVALID \<and> valid_table (copy_at view f j)"
    then show "age (copy_at view f j) \<le> age (copy_at view f ?i)" by (intro active_id_oldest) simp_all
  qed
  have ram: "\<exists>g'. pt_table_get_active_partition_from_ram g f = Some (?i, (?t0, ?t1), g', f) \<and>
      (\<forall>f'. pt_table_get_active_partition_from_ram g' f' = Some (?i, (?t0, ?t1), g', f'))"
    if "?i \<noteq> PT_TABLE_ID_INVALID" "pt_active_id g = PT_TABLE_ID_INVALID" "pt_table_stuff_save g = (b0, b1)"
    using need that
    by (intro exI [of _ "g\<lparr>pt_table_stuff_save := (?t0, ?t1), pt_active_id := ?i\<rparr>"])
      (simp add: pt_table_get_active_partition_from_ram_def)
  show ?thesis using need active_id_best(1) [of ?t0 ?t1] best ram by (intro exI [of _ ?i]) blast
qed

theorem partition_active_witness:
  "\<exists>i f. pt_table_get_active_partition_need_lock nor_sim (Some (replicate 596 0, replicate 596 0)) f =
     Some (i, Some (copy_at (\<lambda>f. f) f PT_TABLE_ID_0, copy_at (\<lambda>f. f) f PT_TABLE_ID_1), f)"
  using partition_active [OF nor_sim_flash, of "replicate 596 0" "replicate 596 0" "\<lambda>_. 0"]
  by (simp only: length_replicate simp_thms) blast

text \<open>
  C10: updating an entry.  On a valid table an update fails without any effect when the table is
  full and has no entry of the type.  Otherwise the table in memory becomes a valid table whose
  age is one higher, in which the entry of the given type is the new one and every other type
  finds what it found before; if the function reports success the copy in flash is this table,
  and whatever it reports the other copy is untouched.
\<close>

theorem partition_update:
  assumes "nor_flash view g" and "length s = 596" and "valid_table s" and "length e = 36" and "i \<noteq> PT_TABLE_ID_INVALID"
  shows "\<exists>err s' f'. pt_table_update_entry g i (Some s) (Some e) f = Some (err, Some s', f') \<and>
    copy_at view f' (other_id i) = copy_at view f (other_id i) \<and>
    (if full_for s e then err = PT_ERROR_ENTRY_UPDATE_FAIL \<and> s' = s \<and> f' = f
     else valid_table s' \<and> age s' = age s + 1 \<and>
       (\<forall>t old. pt_table_get_active_entries_by_id (Some s') t (Some old) =
         (if t = uint (entry_type e) then Some (PT_ERROR_SUCCESS, Some e)
          else pt_table_get_active_entries_by_id (Some s) t (Some old))) \<and>
       (err = PT_ERROR_SUCCESS \<and> copy_at view f' i = s' \<or> err = PT_ERROR_FALSH_WRITE))"
proof (cases "full_for s e")
  case True
  then show ?thesis using update_entry_full [OF assms(2,3) True assms(5)] by auto
next
  case False
  from update_entry_runs [OF assms False] obtain err s' f' where r:
    "pt_table_update_entry g i (Some s) (Some e) f = Some (err, Some s', f')"
    "length s' = 596" "valid_table s'" "entries s' = upd_entry e (entries s)" "age s' = age s + 1"
    "err = PT_ERROR_SUCCESS \<or> err = PT_ERROR_FALSH_WRITE" "err = PT_ERROR_SUCCESS \<Longrightarrow> copy_at view f' i = s'"
    "\<And>x. x < unat (table_address i) \<or> unat (table_address i) + 4096 \<le> x \<Longrightarrow> view f' x = view f x"
    by blast
  have "copy_at view f' (other_id i) = copy_at view f (other_id i)"
    using assms(5) by (intro flash_tables_apart [where j = i] r(8)) (auto simp: other_id_def)
  moreover have "find (\<lambda>x. uint (entry_type x) = t) (entries s') =
      (if t = uint (entry_type e) then Some e else find (\<lambda>x. uint (entry_type x) = t) (entries s))" for t
    unfolding r(4) by (rule find_upd_uint)
  ultimately show ?thesis
    using r(1,3,5,6,7) False
    by (auto simp: by_id_eq [OF r(2,3)] by_id_eq [OF assms(2,3)] lookup_result_def)
qed

theorem partition_update_witness:
  "\<exists>s. valid_table s \<and> \<not> full_for s (replicate 36 7) \<and>
    (\<exists>err s' f'. pt_table_update_entry nor_sim PT_TABLE_ID_1 (Some s) (Some (replicate 36 7)) (\<lambda>_. 0) = Some (err, Some s', f') \<and>
      pt_table_get_active_entries_by_id (Some s') 7 (Some []) = Some (PT_ERROR_SUCCESS, Some (replicate 36 7)))"
proof -
  obtain s where s: "length s = 596" "valid_table s" "entryCnt s = 0" using some_table [of 0 0] by auto
  have room: "\<not> full_for s (replicate 36 7)" by (simp add: full_for_def s(3) PT_ENTRY_MAX_def)
  have "uint (entry_type (replicate 36 7)) = 7" by (simp add: entry_type_def)
  then show ?thesis
    using partition_update [OF nor_sim_flash s(1,2), of "replicate 36 7" PT_TABLE_ID_1 "\<lambda>_. 0"] room s(2) by auto
qed

text \<open>
  C2: switching the firmware slot.  If a copy is active (with at least one entry and an age that
  is not the largest word), \<open>pt_table_get_iap_para\<close> and then \<open>pt_table_set_iap_para\<close> never leave
  the device without a valid table: the active copy is untouched, whatever fails.  If success is
  reported the other copy is active, its first entry has the slot index that was announced, and
  the start address that it has for this index is the one at which the new image was to be written.
\<close>

theorem partition_iap_switch:
  assumes "nor_flash view g" and "length b0 = 596" and "length b1 = 596" and "length buf = 596"
    and "active_at view f = i" and "i \<noteq> PT_TABLE_ID_INVALID"
    and "0 < unat (entryCnt (copy_at view f i))" and "age (copy_at view f i) \<noteq> - 1"
  shows "\<exists>para' err f'. pt_table_get_iap_para g (b0, b1) para f = Some (PT_ERROR_SUCCESS, para', f) \<and>
    pt_table_set_iap_para g buf para' f = Some (err, f') \<and>
    copy_at view f' i = copy_at view f i \<and> active_at view f' \<noteq> PT_TABLE_ID_INVALID \<and>
    (err = PT_ERROR_SUCCESS \<longrightarrow> active_at view f' = other_id i \<and>
      active_index (pt_entry (copy_at view f' (other_id i)) 0) = inactive_index para' \<and>
      start_address (pt_entry (copy_at view f' (other_id i)) 0) (unat (inactive_index para')) = iap_write_addr para')"
proof -
  let ?j = "other_id i" and ?s = "copy_at view f i"
  define para' where "para' = iap_from ?s (id_index ?j) para"
  have get: "pt_table_get_iap_para g (b0, b1) para f = Some (PT_ERROR_SUCCESS, para', f)"
    using get_iap_eq [OF assms(1-3), of para f] assms(5,6) by (simp add: para'_def)
  have ij: "other_id ?j = i" "?j \<noteq> PT_TABLE_ID_INVALID" "i \<noteq> ?j" using assms(6) by (cases i; simp add: other_id_def)+
  have v: "valid_table ?s" using active_id_valid [of view f] assms(5,6) by simp
  have "inactive_table_index para' = id_index ?j" by (simp add: para'_def iap_from_def Let_def)
  from set_iap_runs [OF assms(1,4) _ _ ij(2) this, unfolded ij(1), OF v assms(7)] obtain err f' where r:
    "pt_table_set_iap_para g buf para' f = Some (err, f')"
    "\<And>x. x < unat (table_address ?j) \<or> unat (table_address ?j) + 4096 \<le> x \<Longrightarrow> view f' x = view f x"
    "err = PT_ERROR_SUCCESS \<Longrightarrow> valid_table (copy_at view f' ?j) \<and> age (copy_at view f' ?j) = age ?s + 1 \<and>
       entries (copy_at view f' ?j) = (entries ?s)[0 := poke (entries ?s ! 0) 2 [other_index (active_index (entries ?s ! 0))]]"
    by metis
  have same: "copy_at view f' i = ?s"
    using assms(6) ij by (intro flash_tables_apart [where j = ?j] r(2)) auto
  have safe: "active_at view f' \<noteq> PT_TABLE_ID_INVALID"
    using v same ij assms(6) active_id_best(1) by (cases i) auto
  have switched: "active_at view f' = ?j \<and> active_index (pt_entry (copy_at view f' ?j) 0) = inactive_index para' \<and>
      start_address (pt_entry (copy_at view f' ?j) 0) (unat (inactive_index para')) = iap_write_addr para'"
    if "err = PT_ERROR_SUCCESS"
  proof -
    note t = r(3) [OF that]
    have "age ?s < age (copy_at view f' ?j)" using t age_grows [OF assms(8)] by simp
    then have active: "active_at view f' = ?j"
      using t v same assms(6) by (cases i) (auto simp: other_id_def active_id_def)
    have cnt: "0 < unat (entryCnt (copy_at view f' ?j))"
      using t assms(7) by (metis length_entries length_list_update)
    have "pt_entry (copy_at view f' ?j) 0 = entries (copy_at view f' ?j) ! 0"
      using nth_entries [OF cnt] by simp
    also have "\<dots> = poke (pt_entry ?s 0) 2 [other_index (active_index (pt_entry ?s 0))]"
      using t assms(7) by (simp add: nth_entries)
    finally have e: "pt_entry (copy_at view f' ?j) 0 = poke (pt_entry ?s 0) 2 [other_index (active_index (pt_entry ?s 0))]" .
    have len: "length (pt_entry ?s 0) = 36" using entry_at(1) [of ?s 0] by (simp add: PT_ENTRY_MAX_def)
    have "active_index (pt_entry (copy_at view f' ?j) 0) = inactive_index para'"
      using len unfolding e by (simp add: active_index_def nth_poke para'_def iap_from_def Let_def)
    moreover have "start_address (pt_entry (copy_at view f' ?j) 0) k = start_address (pt_entry ?s 0) k" for k
      using len unfolding e by (simp add: start_address_def byte_simps)
    ultimately show ?thesis using active by (simp add: para'_def iap_from_def Let_def)
  qed
  show ?thesis using get r(1) same safe switched by blast
qed

text \<open>
  C40: a table that \<open>pt_table_create\<close> has just written is not valid.  The checksum of its empty list
  of entries is expected in the word behind the header, as the word 0, but only the header is
  written, and the erased flash reads as ones.
\<close>

theorem partition_create_invalid:
  assumes "nor_flash view g" and "i \<noteq> PT_TABLE_ID_INVALID"
  shows "\<exists>err f'. pt_table_create g i f = Some (err, f') \<and>
    (err = PT_ERROR_SUCCESS \<longrightarrow> \<not> valid_table (copy_at view f' i) \<and> magicCode (copy_at view f' i) = BFLB_PT_MAGIC_CODE)"
proof -
  obtain erase where E: "gp_pt_table_flash_erase g = Some erase"
    using assms(1) by (auto simp: nor_flash_def)
  obtain wr where W: "gp_pt_table_flash_write g = Some wr"
    using assms(1) by (auto simp: nor_flash_def)
  define t where "t = bytes32 BFLB_PT_MAGIC_CODE @ bytes16 0 @ bytes16 0 @ bytes32 0 @ bytes32 0"
  have lt: "length t = 16" by (simp add: t_def byte_simps)
  obtain c where c: "bflb_soft_crc32 t 12 = Some c" using soft_crc32_slice [of 0 12 t] lt by auto
  define d where "d = poke t 12 (bytes32 c)"
  have d: "length d = 16" using lt by (simp add: d_def byte_simps)
  let ?a = "table_address i"
  obtain r1 f1 where e1: "erase ?a 16 f = (r1, f1)" by (cases "erase ?a 16 f")
  obtain r2 f2 where w2: "wr ?a d f1 = (r2, f2)" by (cases "wr ?a d f1")
  have n: "0 < unat (16 :: u32)" "unat (16 :: u32) \<le> 4096" by simp_all
  have "length d \<le> 4096" using d by simp
  note ps = program_sector [OF assms(1) E W table_addresses(3) n this e1 w2]
  have run: "pt_table_create g i f =
      (if r1 \<noteq> 0 then Some (PT_ERROR_FALSH_ERASE, f1)
       else if r2 \<noteq> 0 then Some (PT_ERROR_FALSH_WRITE, f2) else Some (PT_ERROR_SUCCESS, f2))"
    using assms(2) c E W e1 w2 by (simp add: pt_table_create_def t_def [symmetric] d_def [symmetric] Let_def)
  show ?thesis
  proof (cases "r1 = 0 \<and> r2 = 0")
    case True
    let ?s = "copy_at view f2 i"
    have head: "slice ?s 0 16 = d"
      using ps(2) True d by (simp add: flash_table_def slice_def take_map)
    have h: "slice ?s k n = slice d k n" if "k + n \<le> 16" for k n
      using slice_slice [of k n 16 ?s 0] that by (simp add: head)
    have "magicCode d = BFLB_PT_MAGIC_CODE" "entryCnt d = 0"
      by (simp_all add: d_def t_def magicCode_def entryCnt_def le32_def le16_def slice_def poke_def byte_simps bytes16_def)
    then have f: "magicCode ?s = BFLB_PT_MAGIC_CODE" "entryCnt ?s = 0"
      by (simp_all add: magicCode_def entryCnt_def le32_def le16_def h)
    have "view f2 x = 0xFF" if "unat ?a + 16 \<le> x" "x < unat ?a + 4096" for x
      using ps(3) True that d by simp
    then have "slice ?s 16 4 = replicate 4 0xFF"
      by (intro nth_equalityI) (simp_all add: flash_table_def slice_def)
    then have "le32 ?s 16 = - 1" unfolding le32_def replicate_four by simp
    moreover have "crc32_spec [] = 0" by (simp add: crc32_spec_def crc_bytes_def)
    ultimately have "\<not> valid_table ?s" using f(2) by (simp add: valid_table_def slice_def)
    then show ?thesis using run True f(1) by simp
  next
    case False
    then show ?thesis using run by auto
  qed
qed

theorem partition_create_invalid_witness:
  "\<exists>f'. pt_table_create nor_sim PT_TABLE_ID_0 (\<lambda>_. 0) = Some (PT_ERROR_SUCCESS, f') \<and>
    \<not> valid_table (copy_at (\<lambda>f. f) f' PT_TABLE_ID_0)"
proof -
  obtain err f' where r: "pt_table_create nor_sim PT_TABLE_ID_0 (\<lambda>_. 0) = Some (err, f')"
      "err = PT_ERROR_SUCCESS \<Longrightarrow> \<not> valid_table (copy_at (\<lambda>f. f) f' PT_TABLE_ID_0)"
    using partition_create_invalid [OF nor_sim_flash, of PT_TABLE_ID_0 "\<lambda>_. 0"] by auto
  moreover have "err = PT_ERROR_SUCCESS"
    using r(1) by (auto simp: pt_table_create_def nor_sim_def Let_def split: Option.bind_splits)
  ultimately show ?thesis by blast
qed

theorem partition_iap_switch_witness:
  "\<exists>f :: nat \<Rightarrow> u8. active_at (\<lambda>f. f) f = PT_TABLE_ID_0 \<and>
    (\<exists>para' err f'. pt_table_set_iap_para nor_sim (replicate 596 0) para' f = Some (err, f') \<and>
      active_at (\<lambda>f. f) f' \<noteq> PT_TABLE_ID_INVALID)"
proof -
  obtain s where s: "length s = 596" "valid_table s" "entryCnt s = 1" "age s = 5"
    using some_table [of 1 5] by (auto simp: PT_ENTRY_MAX_def)
  define f :: "nat \<Rightarrow> u8" where "f = (\<lambda>x. if 0xE000 \<le> x \<and> x < 0xE000 + 596 then s ! (x - 0xE000) else 0)"
  have c0: "copy_at (\<lambda>f. f) f PT_TABLE_ID_0 = s"
    using map_offset [OF s(1), of "0xE000" 0] unfolding flash_table_def f_def table_address_ids table_addresses .
  have "copy_at (\<lambda>f. f) f PT_TABLE_ID_1 = replicate 596 0"
    unfolding flash_table_def f_def table_address_ids table_addresses by (rule map_elsewhere) simp
  then have "magicCode (copy_at (\<lambda>f. f) f PT_TABLE_ID_1) = 0"
    by (simp add: magicCode_def le32_def slice_def replicate_four)
  then have c1: "\<not> valid_table (copy_at (\<lambda>f. f) f PT_TABLE_ID_1)"
    by (simp add: valid_table_def BFLB_PT_MAGIC_CODE_def)
  have a: "active_at (\<lambda>f. f) f = PT_TABLE_ID_0" using c0 c1 s(2) by (simp add: active_id_def)
  have l: "length (replicate 596 (0 :: u8)) = 596" by simp
  have "0 < unat (entryCnt (copy_at (\<lambda>f. f) f PT_TABLE_ID_0))" "age (copy_at (\<lambda>f. f) f PT_TABLE_ID_0) \<noteq> - 1"
    unfolding c0 using s(3,4) by simp_all
  from partition_iap_switch [OF nor_sim_flash l l l a _ this] a show ?thesis by blast
qed

end

