(* ===== verification/Common_Mem.thy ===== *)
theory Common_Mem
  imports SDK_Prelude
begin

text \<open>
  The memory functions of the low-level drivers, \<^verbatim>\<open>drivers/lhal/src/bflb_common.c\<close> (the C code,
  not the ROM variants), and the cache address helpers of the BL616.

  The functions that write work on one flat memory of bytes, since source and destination may
  overlap; an address that is not mapped, or a word access that is not aligned, is \<open>None\<close>.  The
  functions that only read take the bytes from the pointer to the end of its object.
\<close>

section \<open>Comparison\<close>

fun arch_strcmp :: "bytes \<Rightarrow> bytes \<Rightarrow> int option" where
  "arch_strcmp (a # s) (b # t) =
     (if a \<noteq> 0 \<and> a = b then arch_strcmp s t else Some (uint a - uint b))"
| "arch_strcmp s t = None"

fun memcmp_loop :: "bytes \<Rightarrow> bytes \<Rightarrow> nat \<Rightarrow> int option" where
  "memcmp_loop s t 0 = Some 0"
| "memcmp_loop (a # s) (b # t) (Suc n) =
     (let d = uint a - uint b in if d \<noteq> 0 then Some d else memcmp_loop s t n)"
| "memcmp_loop s t (Suc n) = None"

definition arch_memcmp :: "bytes \<Rightarrow> bytes \<Rightarrow> u32 \<Rightarrow> int option" where
  "arch_memcmp s1 s2 n = memcmp_loop s1 s2 (unat n)"

section \<open>Copying and filling\<close>

type_synonym mem = "u32 \<rightharpoonup> u8"

fun memcpy_loop :: "mem \<Rightarrow> u32 \<Rightarrow> u32 \<Rightarrow> nat \<Rightarrow> mem option" where
  "memcpy_loop m q p 0 = Some m"
| "memcpy_loop m q p (Suc n) =
     (case m p of None \<Rightarrow> None
      | Some b \<Rightarrow> if m q = None then None else memcpy_loop (m(q \<mapsto> b)) (q + 1) (p + 1) n)"

definition arch_memcpy :: "mem \<Rightarrow> u32 \<Rightarrow> u32 \<Rightarrow> u32 \<Rightarrow> mem option" where
  "arch_memcpy m dst src n = memcpy_loop m dst src (unat n)"

definition aligned4 :: "u32 \<Rightarrow> bool" where
  "aligned4 a = (a AND 3 = 0)"

text \<open>A word in memory; only its four bytes matter, so it is the tuple of them.\<close>

definition load32 :: "mem \<Rightarrow> u32 \<Rightarrow> (u8 \<times> u8 \<times> u8 \<times> u8) option" where
  "load32 m a =
     (if aligned4 a then
        do { b0 \<leftarrow> m a; b1 \<leftarrow> m (a + 1); b2 \<leftarrow> m (a + 2); b3 \<leftarrow> m (a + 3); Some (b0, b1, b2, b3) }
      else None)"

definition store32 :: "mem \<Rightarrow> u32 \<Rightarrow> u8 \<times> u8 \<times> u8 \<times> u8 \<Rightarrow> mem option" where
  "store32 m a w =
     (if aligned4 a \<and> m a \<noteq> None \<and> m (a + 1) \<noteq> None \<and> m (a + 2) \<noteq> None \<and> m (a + 3) \<noteq> None then
        (case w of (b0, b1, b2, b3) \<Rightarrow> Some (m(a \<mapsto> b0, a + 1 \<mapsto> b1, a + 2 \<mapsto> b2, a + 3 \<mapsto> b3)))
      else None)"

fun memcpy4_loop :: "mem \<Rightarrow> u32 \<Rightarrow> u32 \<Rightarrow> nat \<Rightarrow> mem option" where
  "memcpy4_loop m q p 0 = Some m"
| "memcpy4_loop m q p (Suc n) =
     (case load32 m p of None \<Rightarrow> None
      | Some w \<Rightarrow> (case store32 m q w of None \<Rightarrow> None | Some m \<Rightarrow> memcpy4_loop m (q + 4) (p + 4) n))"

definition arch_memcpy4 :: "mem \<Rightarrow> u32 \<Rightarrow> u32 \<Rightarrow> u32 \<Rightarrow> mem option" where
  "arch_memcpy4 m dst src n = memcpy4_loop m dst src (unat n)"

fun copy_rest :: "mem \<Rightarrow> u32 \<Rightarrow> u32 \<Rightarrow> u32 \<Rightarrow> u32 \<Rightarrow> nat \<Rightarrow> mem option" where
  "copy_rest m dst src dn i 0 = Some m"
| "copy_rest m dst src dn i (Suc left) =
     (case m (src + (dn + i)) of None \<Rightarrow> None
      | Some b \<Rightarrow> if m (dst + (dn + i)) = None then None
                  else copy_rest (m(dst + (dn + i) \<mapsto> b)) dst src dn (i + 1) left)"

definition arch_memcpy_fast :: "mem \<Rightarrow> u32 \<Rightarrow> u32 \<Rightarrow> u32 \<Rightarrow> mem option" where
  "arch_memcpy_fast m dst src n =
     (if dst AND 3 = 0 \<and> src AND 3 = 0 then
        (case arch_memcpy4 m dst src (drop_bit 2 n) of None \<Rightarrow> None
         | Some m \<Rightarrow> (let left = n mod 4; dn = n - left in copy_rest m dst src dn 0 (unat left)))
      else arch_memcpy m dst src n)"

fun memset_loop :: "mem \<Rightarrow> u32 \<Rightarrow> u8 \<Rightarrow> nat \<Rightarrow> mem option" where
  "memset_loop m p c 0 = Some m"
| "memset_loop m p c (Suc n) = (if m p = None then None else memset_loop (m(p \<mapsto> c)) (p + 1) c n)"

definition arch_memset :: "mem \<Rightarrow> u32 \<Rightarrow> u8 \<Rightarrow> u32 \<Rightarrow> mem option" where
  "arch_memset m s c n = memset_loop m s c (unat n)"

definition word_bytes :: "u32 \<Rightarrow> u8 \<times> u8 \<times> u8 \<times> u8" where
  "word_bytes v = (ucast v, ucast (drop_bit 8 v), ucast (drop_bit 16 v), ucast (drop_bit 24 v))"

fun memset4_loop :: "mem \<Rightarrow> u32 \<Rightarrow> u32 \<Rightarrow> nat \<Rightarrow> mem option" where
  "memset4_loop m q v 0 = Some m"
| "memset4_loop m q v (Suc n) =
     (case store32 m q (word_bytes v) of None \<Rightarrow> None | Some m \<Rightarrow> memset4_loop m (q + 4) v n)"

definition arch_memset4 :: "mem \<Rightarrow> u32 \<Rightarrow> u32 \<Rightarrow> u32 \<Rightarrow> mem option" where
  "arch_memset4 m dst val n = memset4_loop m dst val (unat n)"

section \<open>Cache addresses\<close>

definition bflb_check_cache_addr :: "u32 \<Rightarrow> bool" where
  "bflb_check_cache_addr a = (a AND 0xFFFF0000 \<ge> 0x62FC0000)"

definition bflb_get_no_cache_addr :: "u32 \<Rightarrow> u32" where
  "bflb_get_no_cache_addr a =
     (if \<not> bflb_check_cache_addr a then a
      else if a AND 0xF0000000 = 0x60000000 then (a AND NOT 0xF0000000) OR 0x20000000
      else if a AND 0xF0000000 = 0xA0000000 then (a AND NOT 0xF0000000) OR 0x10000000
      else 0)"

section \<open>The fast copy\<close>

lemma aligned4_iff: "aligned4 a = (4 dvd unat a)"
proof -
  have "unat (a AND 3) = unat a mod 4"
  proof -
    have "a AND 3 = take_bit 2 a" by (simp add: take_bit_eq_mask mask_numeral)
    then show ?thesis by (simp add: unsigned_take_bit_eq take_bit_eq_mod unat_mod)
  qed
  then show ?thesis unfolding aligned4_def by (metis dvd_eq_mod_eq_0 unat_eq_0)
qed

lemma aligned4_add: "aligned4 a \<Longrightarrow> aligned4 (a + 4)"
proof -
  assume "aligned4 a"
  then have "4 dvd (unat a + 4) mod 4294967296"
    by (simp add: aligned4_iff dvd_mod)
  then show ?thesis by (simp add: aligned4_iff unat_word_ariths)
qed

lemma aligned4_offset:
  assumes "aligned4 p" and "aligned4 q" and "i < 4" and "j < 4" and "q + of_nat i = p + of_nat j"
  shows "i = j"
proof -
  have "(unat x + k) mod 4294967296 mod 4 = k" if "aligned4 x" and "k < 4" for x and k :: nat
  proof -
    have "(unat x + k) mod 4294967296 mod 4 = (unat x + k) mod 4" by (simp add: mod_mod_cancel)
    also have "\<dots> = k" using that by (auto simp: aligned4_iff elim!: dvdE)
    finally show ?thesis .
  qed
  moreover have "unat (x + of_nat k) = (unat x + k) mod 4294967296" if "k < 4" for x :: u32 and k
    using that by (simp add: unat_word_ariths unat_of_nat mod_add_right_eq)
  ultimately show ?thesis using assms by metis
qed

lemma aligned4_distinct:
  assumes "aligned4 p" and "aligned4 q"
  shows "q \<noteq> p + 1" "q \<noteq> p + 2" "q \<noteq> p + 3" "q + 1 \<noteq> p + 2" "q + 1 \<noteq> p + 3" "q + 2 \<noteq> p + 3"
    "q + 1 \<noteq> p" "q + 2 \<noteq> p" "q + 3 \<noteq> p" "q + 2 \<noteq> p + 1" "q + 3 \<noteq> p + 1" "q + 3 \<noteq> p + 2"
  using aligned4_offset [OF assms, of 0 1] aligned4_offset [OF assms, of 0 2] aligned4_offset [OF assms, of 0 3]
    aligned4_offset [OF assms, of 1 2] aligned4_offset [OF assms, of 1 3] aligned4_offset [OF assms, of 2 3]
    aligned4_offset [OF assms, of 1 0] aligned4_offset [OF assms, of 2 0] aligned4_offset [OF assms, of 3 0]
    aligned4_offset [OF assms, of 2 1] aligned4_offset [OF assms, of 3 1] aligned4_offset [OF assms, of 3 2]
  by auto

text \<open>A word copied at once is four bytes copied in turn, overlap or not.\<close>

lemma memcpy_word:
  assumes "aligned4 p" and "aligned4 q"
  shows "memcpy_loop m q p (4 + n) =
    (case load32 m p of None \<Rightarrow> None
     | Some w \<Rightarrow> (case store32 m q w of None \<Rightarrow> None | Some m \<Rightarrow> memcpy_loop m (q + 4) (p + 4) n))"
proof -
  have steps: "4 + n = Suc (Suc (Suc (Suc n)))" by simp
  have sums: "q + 1 + 1 = q + 2" "q + 2 + 1 = q + 3" "q + 3 + 1 = q + 4" "p + 1 + 1 = p + 2" "p + 2 + 1 = p + 3" "p + 3 + 1 = p + 4"
    by simp_all
  note e = aligned4_distinct [OF assms]
  note d = e e [symmetric] e [unfolded add.commute [of p]] e [symmetric, unfolded add.commute [of p]]
    e [unfolded add.commute [of q]] e [symmetric, unfolded add.commute [of q]]
  show ?thesis
    unfolding steps load32_def store32_def memcpy_loop.simps sums
    apply (cases "m p", simp)
    apply (cases "m q", simp, simp split: option.splits)
    apply (cases "m (p + 1)", simp add: d)
    apply (cases "m (q + 1)", simp add: d, simp split: option.splits)
    apply (cases "m (p + 2)", simp add: d)
    apply (cases "m (q + 2)", simp add: d, simp split: option.splits)
    apply (cases "m (p + 3)", simp add: d)
    apply (cases "m (q + 3)", simp add: d, simp split: option.splits)
    using assms apply (simp add: d fun_upd_twist)
    done
qed

lemma memcpy4_memcpy:
  "aligned4 p \<Longrightarrow> aligned4 q \<Longrightarrow>
   memcpy_loop m q p (4 * k + n) =
     (case memcpy4_loop m q p k of None \<Rightarrow> None
      | Some m' \<Rightarrow> memcpy_loop m' (q + of_nat (4 * k)) (p + of_nat (4 * k)) n)"
proof (induction k arbitrary: m p q)
  case (Suc k)
  have "4 * Suc k + n = 4 + (4 * k + n)" by simp
  then have "memcpy_loop m q p (4 * Suc k + n) =
    (case load32 m p of None \<Rightarrow> None
     | Some w \<Rightarrow> (case store32 m q w of None \<Rightarrow> None | Some m \<Rightarrow> memcpy_loop m (q + 4) (p + 4) (4 * k + n)))"
    by (simp only: memcpy_word [OF Suc.prems])
  moreover have "x + of_nat (4 * Suc k) = x + 4 + of_nat (4 * k)" for x :: u32 by simp
  ultimately show ?case
    using Suc.IH [OF aligned4_add [OF Suc.prems(1)] aligned4_add [OF Suc.prems(2)]]
    by (auto simp del: of_nat_mult of_nat_Suc mult_Suc_right simp: add.assoc split: option.splits)
qed simp

lemma copy_rest_memcpy:
  "copy_rest m dst src d i k = memcpy_loop m (dst + (d + i)) (src + (d + i)) k"
  by (induction k arbitrary: m i) (auto simp: algebra_simps split: option.splits)

text \<open>
  C37: The fast copy of the drivers, which copies whole words when both pointers are aligned and
  the last one to three bytes one by one, does exactly what the copy of single bytes does: for any
  memory, any two regions, overlapping or not, and any length, with the same outcome when it
  leaves the mapped memory.
\<close>

theorem memcpy_fast_is_memcpy: "arch_memcpy_fast m dst src n = arch_memcpy m dst src n"
proof (cases "dst AND 3 = 0 \<and> src AND 3 = 0")
  case True
  then have al: "aligned4 src" "aligned4 dst" by (simp_all add: aligned4_def)
  define k where "k = unat n div 4"
  define r where "r = unat n mod 4"
  have n: "unat n = 4 * k + r" by (simp add: k_def r_def)
  have words: "unat (drop_bit 2 n) = k" by (simp add: k_def unsigned_drop_bit_eq drop_bit_eq_div take_bit_nat_eq_self unat_div)
  have left: "unat (n mod 4) = r" by (simp add: r_def unat_mod)
  have "n mod 4 \<le> n" unfolding word_le_nat_alt left using n by simp
  then have "unat (n - n mod 4) = 4 * k" using n left by (simp add: unat_sub_le)
  then have whole: "n - n mod 4 = of_nat (4 * k)" by (rule word_of_unat)
  show ?thesis
    unfolding arch_memcpy_fast_def arch_memcpy_def arch_memcpy4_def
    using True memcpy4_memcpy [OF al, of m k r]
    by (simp add: words left whole n Let_def copy_rest_memcpy split: option.splits)
qed (auto simp: arch_memcpy_fast_def)

end
