(* ===== verification/Efuse.thy ===== *)
theory Efuse
  imports Common_Mem
begin

text \<open>
  The driver of the one-time programmable fuses, \<^verbatim>\<open>drivers/lhal/src/bflb_ef_ctrl.c\<close>, in its
  configuration for the BL616 (one region of 512 bytes, no second clock to select).

  The driver is written against memory-mapped registers.  \<open>io\<close> holds the two register
  accesses, on a state \<open>'h\<close> of the hardware; all that the driver does to the device is a sequence
  of these.  Interrupt masking and delays have no effect in the model.  The register words are
  those of \<^verbatim>\<open>drivers/lhal/include/hardware/ef_ctrl_reg.h\<close>.
\<close>

section \<open>Registers\<close>

record 'h mmio =
  getreg32 :: "u32 \<Rightarrow> 'h \<Rightarrow> u32 \<times> 'h"
  putreg32 :: "u32 \<Rightarrow> u32 \<Rightarrow> 'h \<Rightarrow> 'h"

definition BFLB_EF_CTRL_BASE :: u32 where "BFLB_EF_CTRL_BASE = 0x20056000"
definition EF_CTRL_EFUSE_CTRL_PROTECT :: u32 where "EF_CTRL_EFUSE_CTRL_PROTECT = push_bit 8 0xbf"
definition EF_CTRL_DFT_TIMEOUT_VAL :: nat where "EF_CTRL_DFT_TIMEOUT_VAL = 160 * 1000"
definition EF_CTRL_EFUSE_R0_SIZE :: u32 where "EF_CTRL_EFUSE_R0_SIZE = 512"
definition EF_CTRL_EF_IF_CTRL_0_OFFSET :: u32 where "EF_CTRL_EF_IF_CTRL_0_OFFSET = 0x800"
definition EF_CTRL_EF_IF_CYC_0_OFFSET :: u32 where "EF_CTRL_EF_IF_CYC_0_OFFSET = 0x804"
definition EF_CTRL_EF_IF_CYC_1_OFFSET :: u32 where "EF_CTRL_EF_IF_CYC_1_OFFSET = 0x808"
definition EF_CTRL_EF_IF_0_AUTOLOAD_DONE_POS :: nat where "EF_CTRL_EF_IF_0_AUTOLOAD_DONE_POS = 1"
definition EF_CTRL_EF_IF_0_BUSY_POS :: nat where "EF_CTRL_EF_IF_0_BUSY_POS = 2"
definition EF_CTRL_EF_IF_0_RW_POS :: nat where "EF_CTRL_EF_IF_0_RW_POS = 3"
definition EF_CTRL_EF_IF_0_TRIG_POS :: nat where "EF_CTRL_EF_IF_0_TRIG_POS = 4"
definition EF_CTRL_EF_IF_POR_DIG_POS :: nat where "EF_CTRL_EF_IF_POR_DIG_POS = 16"
definition EF_CTRL_EF_IF_AUTO_RD_EN_POS :: nat where "EF_CTRL_EF_IF_AUTO_RD_EN_POS = 18"
definition EF_CTRL_EF_IF_0_INT_CLR_POS :: nat where "EF_CTRL_EF_IF_0_INT_CLR_POS = 21"

lemmas ef_positions = EF_CTRL_EF_IF_0_AUTOLOAD_DONE_POS_def EF_CTRL_EF_IF_0_BUSY_POS_def EF_CTRL_EF_IF_0_RW_POS_def
  EF_CTRL_EF_IF_0_TRIG_POS_def EF_CTRL_EF_IF_POR_DIG_POS_def EF_CTRL_EF_IF_AUTO_RD_EN_POS_def
  EF_CTRL_EF_IF_0_INT_CLR_POS_def EF_CTRL_EFUSE_CTRL_PROTECT_def

text \<open>
  The word that is written to the control register, as it is put together a dozen times; the mode
  and the parameters that are 0 in the source (\<open>EF_CTRL_OP_MODE_AUTO\<close>, \<open>EF_CTRL_PARA_DFT\<close>,
  \<open>EF_CTRL_EFUSE_CYCLE_PROTECT\<close>) contribute nothing.
\<close>

definition ctrl_word :: "u32 \<Rightarrow> u32 \<Rightarrow> u32 \<Rightarrow> u32" where
  "ctrl_word por rw trig =
     EF_CTRL_EFUSE_CTRL_PROTECT OR push_bit EF_CTRL_EF_IF_AUTO_RD_EN_POS 1 OR
     push_bit EF_CTRL_EF_IF_POR_DIG_POS por OR push_bit EF_CTRL_EF_IF_0_INT_CLR_POS 1 OR
     push_bit EF_CTRL_EF_IF_0_RW_POS rw OR push_bit EF_CTRL_EF_IF_0_TRIG_POS trig"

definition put_ctrl :: "'h mmio \<Rightarrow> u32 \<Rightarrow> 'h \<Rightarrow> 'h" where
  "put_ctrl io v = putreg32 io v (BFLB_EF_CTRL_BASE + EF_CTRL_EF_IF_CTRL_0_OFFSET)"

definition get_ctrl :: "'h mmio \<Rightarrow> 'h \<Rightarrow> u32 \<times> 'h" where
  "get_ctrl io = getreg32 io (BFLB_EF_CTRL_BASE + EF_CTRL_EF_IF_CTRL_0_OFFSET)"

section \<open>The driver\<close>

definition bflb_ef_ctrl_busy :: "'h mmio \<Rightarrow> 'h \<Rightarrow> bool \<times> 'h" where
  "bflb_ef_ctrl_busy io h =
     (let (reg_val, h) = get_ctrl io h in (reg_val AND push_bit EF_CTRL_EF_IF_0_BUSY_POS 1 \<noteq> 0, h))"

text \<open>\<open>while (busy) { timeout--; if (timeout == 0) break; }\<close>, for a positive timeout.\<close>

fun wait_idle :: "'h mmio \<Rightarrow> nat \<Rightarrow> 'h \<Rightarrow> 'h" where
  "wait_idle io 0 h = h"
| "wait_idle io (Suc timeout) h =
     (let (busy, h) = bflb_ef_ctrl_busy io h in
      if busy then if timeout = 0 then h else wait_idle io timeout h else h)"

definition bflb_ef_ctrl_switch_ahb_clk_r0 :: "'h mmio \<Rightarrow> 'h \<Rightarrow> 'h" where
  "bflb_ef_ctrl_switch_ahb_clk_r0 io h =
     (let h = wait_idle io EF_CTRL_DFT_TIMEOUT_VAL h in put_ctrl io (ctrl_word 0 0 0) h)"

definition bflb_ef_ctrl_program_efuse_r0 :: "'h mmio \<Rightarrow> 'h \<Rightarrow> 'h" where
  "bflb_ef_ctrl_program_efuse_r0 io h =
     (let h = put_ctrl io (ctrl_word 0 0 0) h;
        h = put_ctrl io (ctrl_word 1 1 0) h
      in put_ctrl io (ctrl_word 1 1 1) h)"

fun clear_data :: "'h mmio \<Rightarrow> u32 \<Rightarrow> nat \<Rightarrow> 'h \<Rightarrow> 'h" where
  "clear_data io i 0 h = h"
| "clear_data io i (Suc left) h =
     clear_data io (i + 1) left (putreg32 io 0 (BFLB_EF_CTRL_BASE + 0x00 + 4 * i) h)"

definition bflb_ef_ctrl_clear_data_reg0 :: "'h mmio \<Rightarrow> 'h \<Rightarrow> 'h" where
  "bflb_ef_ctrl_clear_data_reg0 io h =
     (let h = bflb_ef_ctrl_switch_ahb_clk_r0 io h in clear_data io 0 (unat (EF_CTRL_EFUSE_R0_SIZE div 4)) h)"

text \<open>\<open>do { ... timeout--; if (timeout == 0) break; } while (busy or not loaded)\<close>\<close>

fun wait_loaded :: "'h mmio \<Rightarrow> nat \<Rightarrow> 'h \<Rightarrow> 'h" where
  "wait_loaded io 0 h = h"
| "wait_loaded io (Suc timeout) h =
     (let (reg_val, h) = get_ctrl io h in
      if timeout = 0 then h
      else if reg_val AND push_bit EF_CTRL_EF_IF_0_BUSY_POS 1 \<noteq> 0 \<or>
              reg_val AND push_bit EF_CTRL_EF_IF_0_AUTOLOAD_DONE_POS 1 = 0
           then wait_loaded io timeout h else h)"

definition bflb_ef_ctrl_load_efuse_r0 :: "'h mmio \<Rightarrow> 'h \<Rightarrow> 'h" where
  "bflb_ef_ctrl_load_efuse_r0 io h =
     (let h = bflb_ef_ctrl_clear_data_reg0 io h;
        h = put_ctrl io (ctrl_word 0 0 0) h;
        h = put_ctrl io (ctrl_word 0 0 1) h;
        h = wait_loaded io EF_CTRL_DFT_TIMEOUT_VAL h
      in put_ctrl io (ctrl_word 0 0 0) h)"

definition bflb_ef_ctrl_autoload_done :: "'h mmio \<Rightarrow> 'h \<Rightarrow> bool \<times> 'h" where
  "bflb_ef_ctrl_autoload_done io h =
     (let h = bflb_ef_ctrl_switch_ahb_clk_r0 io h;
        (reg_val, h) = get_ctrl io h
      in (reg_val AND push_bit EF_CTRL_EF_IF_0_AUTOLOAD_DONE_POS 1 \<noteq> 0, h))"

record bflb_ef_ctrl_para_t =
  pd_1st :: u16
  pd_cs_s :: u16
  cs :: u16
  rd_adr :: u16
  rd_dat :: u16
  rd_dmy :: u16
  pd_cs_h :: u16
  ps_cs :: u16
  wr_adr :: u16
  pp :: u16
  pi :: u16

definition bflb_ef_ctrl_set_para :: "'h mmio \<Rightarrow> bflb_ef_ctrl_para_t \<Rightarrow> 'h \<Rightarrow> 'h" where
  "bflb_ef_ctrl_set_para io para h =
     (let h = bflb_ef_ctrl_switch_ahb_clk_r0 io h;
        h = putreg32 io (ucast (rd_dmy para) OR push_bit 6 (ucast (rd_dat para)) OR push_bit 12 (ucast (rd_adr para)) OR
          push_bit 18 (ucast (cs para)) OR push_bit 24 (ucast (pd_cs_s para))) (BFLB_EF_CTRL_BASE + EF_CTRL_EF_IF_CYC_0_OFFSET) h;
        h = putreg32 io (ucast (pi para) OR push_bit 6 (ucast (pp para)) OR push_bit 14 (ucast (wr_adr para)) OR
          push_bit 20 (ucast (ps_cs para)) OR push_bit 26 (ucast (pd_cs_h para))) (BFLB_EF_CTRL_BASE + EF_CTRL_EF_IF_CYC_1_OFFSET) h;
        (reg_val, h) = get_ctrl io h
      in put_ctrl io (reg_val OR 0 OR 0) h)"

text \<open>\<open>arch_memcpy4\<close> from the words of the caller to registers and back.\<close>

fun put_words :: "'h mmio \<Rightarrow> u32 \<Rightarrow> u32 list \<Rightarrow> nat \<Rightarrow> 'h \<Rightarrow> 'h option" where
  "put_words io a ws 0 h = Some h"
| "put_words io a [] (Suc n) h = None"
| "put_words io a (w # ws) (Suc n) h = put_words io (a + 4) ws n (putreg32 io w a h)"

fun get_words :: "'h mmio \<Rightarrow> u32 \<Rightarrow> nat \<Rightarrow> 'h \<Rightarrow> u32 list \<times> 'h" where
  "get_words io a 0 h = ([], h)"
| "get_words io a (Suc n) h =
     (let (w, h) = getreg32 io a h; (ws, h) = get_words io (a + 4) n h in (w # ws, h))"

definition program_and_wait :: "'h mmio \<Rightarrow> 'h \<Rightarrow> 'h" where
  "program_and_wait io h = wait_idle io EF_CTRL_DFT_TIMEOUT_VAL (bflb_ef_ctrl_program_efuse_r0 io h)"

definition region0_count :: "u32 \<Rightarrow> u32 \<Rightarrow> u32" where
  "region0_count offset count =
     (if offset < EF_CTRL_EFUSE_R0_SIZE then
        if offset + count * 4 \<le> EF_CTRL_EFUSE_R0_SIZE then count else (EF_CTRL_EFUSE_R0_SIZE - offset) div 4
      else 0)"

definition bflb_ef_ctrl_write_direct ::
  "'h mmio \<Rightarrow> u32 \<Rightarrow> u32 list option \<Rightarrow> u32 \<Rightarrow> u8 \<Rightarrow> 'h \<Rightarrow> 'h option" where
  "bflb_ef_ctrl_write_direct io offset pword count program h =
     (case (if offset > EF_CTRL_EFUSE_R0_SIZE \<or> offset + count * 4 > EF_CTRL_EFUSE_R0_SIZE then None else pword) of
        None \<Rightarrow> Some (if program \<noteq> 0 then program_and_wait io (bflb_ef_ctrl_switch_ahb_clk_r0 io h) else h)
      | Some ws \<Rightarrow>
          if region0_count offset count > 0 then do {
            let h = bflb_ef_ctrl_switch_ahb_clk_r0 io h;
            h \<leftarrow> put_words io (BFLB_EF_CTRL_BASE + offset) ws (unat (region0_count offset count)) h;
            Some (if program \<noteq> 0 then program_and_wait io h else h)
          } else Some h)"

text \<open>The result of a read are the words stored through \<open>pword\<close>; \<open>None\<close> for the pointer is \<open>NULL\<close>.\<close>

definition bflb_ef_ctrl_read_direct ::
  "'h mmio \<Rightarrow> u32 \<Rightarrow> u32 list option \<Rightarrow> u32 \<Rightarrow> u8 \<Rightarrow> 'h \<Rightarrow> (u32 list \<times> 'h) option" where
  "bflb_ef_ctrl_read_direct io offset pword count reload h =
     (case (if offset > EF_CTRL_EFUSE_R0_SIZE \<or> offset + count * 4 > EF_CTRL_EFUSE_R0_SIZE then None else pword) of
        None \<Rightarrow> Some (case pword of None \<Rightarrow> [] | Some ws \<Rightarrow> ws,
          if reload \<noteq> 0 then bflb_ef_ctrl_load_efuse_r0 io h else h)
      | Some ws \<Rightarrow>
          if region0_count offset count > 0 then
            if unat (region0_count offset count) \<le> length ws then
              (let h = (if reload \<noteq> 0 then bflb_ef_ctrl_load_efuse_r0 io h else bflb_ef_ctrl_switch_ahb_clk_r0 io h);
                 (rs, h) = get_words io (BFLB_EF_CTRL_BASE + offset) (unat (region0_count offset count)) h
               in Some (rs @ drop (length rs) ws, h))
            else None
          else Some (ws, h))"

section \<open>Trim values\<close>

text \<open>
  A trim value is a field of the fuses with an enable bit and a parity bit; the table of the fields
  of a chip is an argument.  A name is the string without its terminator.  An undefined shift
  distance is \<open>None\<close>.
\<close>

record bflb_ef_ctrl_com_trim_cfg_t =
  trim_name :: string
  en_addr :: u16
  parity_addr :: u16
  value_addr :: u16
  value_len :: u16

record bflb_ef_ctrl_com_trim_t =
  en :: u8
  parity :: u8
  trim_empty :: u8
  trim_len :: u8
  trim_value :: u32

definition c_string :: "string \<Rightarrow> bytes" where
  "c_string s = map of_char s @ [0]"

fun bflb_ef_ctrl_strlen :: "bytes \<Rightarrow> nat option" where
  "bflb_ef_ctrl_strlen [] = None"
| "bflb_ef_ctrl_strlen (b # bs) = (if b = 0 then Some 0 else map_option Suc (bflb_ef_ctrl_strlen bs))"

fun find_trim ::
  "bytes \<Rightarrow> bflb_ef_ctrl_com_trim_cfg_t list \<Rightarrow> bflb_ef_ctrl_com_trim_cfg_t option option" where
  "find_trim name [] = Some None"
| "find_trim name (cfg # cfgs) =
     do {
       n \<leftarrow> bflb_ef_ctrl_strlen name;
       d \<leftarrow> arch_memcmp name (c_string (trim_name cfg)) (of_nat n);
       if d = 0 then Some (Some cfg) else find_trim name cfgs
     }"

definition bflb_ef_ctrl_is_all_bits_zero :: "u32 \<Rightarrow> u8 \<Rightarrow> u8 \<Rightarrow> u8" where
  "bflb_ef_ctrl_is_all_bits_zero val start len =
     (let val = drop_bit (unat start) val;
        mask = (if len \<ge> 32 then 0xffffffff else push_bit (unat len) 1 - 1)
      in if val AND mask = 0 then 1 else 0)"

fun zero_cnt :: "u8 \<Rightarrow> nat \<Rightarrow> nat \<Rightarrow> u32 \<Rightarrow> u32" where
  "zero_cnt val i 0 cnt = cnt"
| "zero_cnt val i (Suc left) cnt =
     zero_cnt val (Suc i) left (if ucast val AND push_bit i (1 :: u32) = 0 then cnt + 1 else cnt)"

definition bflb_ef_ctrl_get_byte_zero_cnt :: "u8 \<Rightarrow> u32" where
  "bflb_ef_ctrl_get_byte_zero_cnt val = zero_cnt val 0 8 0"

fun one_cnt :: "u32 \<Rightarrow> nat \<Rightarrow> nat \<Rightarrow> u8 \<Rightarrow> u8" where
  "one_cnt val i 0 cnt = cnt"
| "one_cnt val i (Suc left) cnt =
     one_cnt val (Suc i) left (if val AND push_bit i 1 \<noteq> 0 then cnt + 1 else cnt)"

definition bflb_ef_ctrl_get_trim_parity :: "u32 \<Rightarrow> u8 \<Rightarrow> u8 option" where
  "bflb_ef_ctrl_get_trim_parity val len =
     (if len \<le> 32 then Some (one_cnt val 0 (unat len) 0 AND 0x01) else None)"

definition word_of_bit :: "u16 \<Rightarrow> u32" where
  "word_of_bit addr = BFLB_EF_CTRL_BASE + ucast (addr div 32) * 4"

definition read_bit :: "'h mmio \<Rightarrow> u16 \<Rightarrow> 'h \<Rightarrow> u8 \<times> 'h" where
  "read_bit io addr h =
     (let (reg_val, h) = getreg32 io (word_of_bit addr) h
      in (if reg_val AND push_bit (unat (addr mod 32)) 1 \<noteq> 0 then 1 else 0, h))"

definition read_value :: "'h mmio \<Rightarrow> bflb_ef_ctrl_com_trim_cfg_t \<Rightarrow> 'h \<Rightarrow> (u32 \<times> 'h) option" where
  "read_value io cfg h =
     (let pos = unat (value_addr cfg mod 32); len = unat (value_len cfg) in
      if pos + len > 32 then
        (let (lo, h) = getreg32 io (word_of_bit (value_addr cfg)) h;
           (hi, h) = getreg32 io (word_of_bit (value_addr cfg) + 4) h;
           tmpval64 = drop_bit pos (ucast lo OR push_bit 32 (ucast hi) :: u64)
         in if len < 64 then Some (ucast (tmpval64 AND (push_bit len 1 - 1)), h) else None)
      else
        (let (reg_val, h) = getreg32 io (word_of_bit (value_addr cfg)) h
         in if len < 32 then Some (drop_bit pos reg_val AND (push_bit len 1 - 1), h) else None))"

definition bflb_ef_ctrl_read_common_trim ::
  "'h mmio \<Rightarrow> bflb_ef_ctrl_com_trim_cfg_t list \<Rightarrow> bytes \<Rightarrow> bflb_ef_ctrl_com_trim_t \<Rightarrow> u8 \<Rightarrow> 'h \<Rightarrow>
   (bflb_ef_ctrl_com_trim_t \<times> 'h) option" where
  "bflb_ef_ctrl_read_common_trim io trim_list name trim reload h =
     (let h = (if reload \<noteq> 0 then bflb_ef_ctrl_load_efuse_r0 io h else h);
        trim = trim\<lparr>en := 0, parity := 0, trim_empty := 1, trim_len := 0\<rparr>
      in case find_trim name trim_list of
           None \<Rightarrow> None
         | Some None \<Rightarrow> Some (trim, h)
         | Some (Some cfg) \<Rightarrow> do {
             let h = (if ucast (en_addr cfg) < EF_CTRL_EFUSE_R0_SIZE * 8 then bflb_ef_ctrl_switch_ahb_clk_r0 io h else h);
             let (e, h) = read_bit io (en_addr cfg) h;
             let (p, h) = read_bit io (parity_addr cfg) h;
             (v, h) \<leftarrow> read_value io cfg h;
             Some (trim\<lparr>en := e, parity := p, trim_len := ucast (value_len cfg), trim_value := v,
                         trim_empty := (if e = 0 \<and> p = 0 \<and> v = 0 then 1 else 0)\<rparr>, h)
           })"

definition or_reg :: "'h mmio \<Rightarrow> u32 \<Rightarrow> u32 \<Rightarrow> 'h \<Rightarrow> 'h" where
  "or_reg io a v h = (let (reg_val, h) = getreg32 io a h in putreg32 io (reg_val OR v) a h)"

definition write_value :: "'h mmio \<Rightarrow> bflb_ef_ctrl_com_trim_cfg_t \<Rightarrow> u32 \<Rightarrow> 'h \<Rightarrow> 'h" where
  "write_value io cfg val h =
     (let pos = unat (value_addr cfg mod 32); a = word_of_bit (value_addr cfg) in
      if pos + unat (value_len cfg) > 32 then
        (let h = or_reg io a (push_bit pos val) h;
           (reg_val, h) = getreg32 io a h;
           reg_val = reg_val + 4
         in putreg32 io (reg_val OR drop_bit (32 - pos) val) (a + 4) h)
      else or_reg io a (push_bit pos val) h)"

definition bflb_ef_ctrl_write_common_trim ::
  "'h mmio \<Rightarrow> bflb_ef_ctrl_com_trim_cfg_t list \<Rightarrow> bytes \<Rightarrow> u32 \<Rightarrow> u8 \<Rightarrow> 'h \<Rightarrow> 'h option" where
  "bflb_ef_ctrl_write_common_trim io trim_list name val program h =
     (case find_trim name trim_list of
        None \<Rightarrow> None
      | Some None \<Rightarrow> Some h
      | Some (Some cfg) \<Rightarrow> do {
          let region0 = (ucast (en_addr cfg) < EF_CTRL_EFUSE_R0_SIZE * 8);
          let h = (if region0 then bflb_ef_ctrl_switch_ahb_clk_r0 io h else h);
          let h = or_reg io (word_of_bit (en_addr cfg)) (push_bit (unat (en_addr cfg mod 32)) 1) h;
          p \<leftarrow> bflb_ef_ctrl_get_trim_parity val (ucast (value_len cfg));
          let h = (if p \<noteq> 0 then or_reg io (word_of_bit (parity_addr cfg)) (push_bit (unat (parity_addr cfg mod 32)) 1) h else h);
          let h = write_value io cfg val h;
          Some (if program \<noteq> 0 \<and> region0 then program_and_wait io h else h)
        })"

end
