(* ===== verification/Efuse_Device.thy ===== *)
theory Efuse_Device
  imports Efuse
begin

text \<open>
  What the fuse controller promises to its driver, and what the driver makes of it.

  \<open>view\<close> gives what a state of the hardware means: the fuses, the data registers through which they
  are read and programmed (128 words each), and for how many more polls of the control register
  the controller stays busy.  \<open>efuse_dev\<close> states the behaviour that the driver relies on: an
  operation is started by the trigger bit, and polled until it is over; loading copies the fuses to
  cleared data registers, and programming burns every 1 of the data registers, while a fuse that is
  1 stays so.  \<open>wl\<close> and \<open>rl\<close> are the words that are locked against writing and reading.
  \<open>efuse_sim\<close> is a device of this kind; the witnesses run on it.
\<close>

section \<open>The device\<close>

record efuse_view =
  fuses :: "nat \<Rightarrow> u32"
  regs :: "nat \<Rightarrow> u32"
  polls :: nat

definition load_view :: "(nat \<Rightarrow> bool) \<Rightarrow> efuse_view \<Rightarrow> efuse_view" where
  "load_view rl v = v\<lparr>regs := \<lambda>i. if rl i then 0 else fuses v i\<rparr>"

definition burn_view :: "(nat \<Rightarrow> bool) \<Rightarrow> efuse_view \<Rightarrow> efuse_view" where
  "burn_view wl v = v\<lparr>fuses := \<lambda>i. if wl i then fuses v i else fuses v i OR regs v i\<rparr>"

definition data_reg :: "nat \<Rightarrow> u32" where
  "data_reg i = BFLB_EF_CTRL_BASE + of_nat (4 * i)"

definition ctrl_reg :: u32 where
  "ctrl_reg = BFLB_EF_CTRL_BASE + EF_CTRL_EF_IF_CTRL_0_OFFSET"

definition data_law :: "'h mmio \<Rightarrow> ('h \<Rightarrow> efuse_view) \<Rightarrow> bool" where
  "data_law io view = (\<forall>i < 128. \<forall>h. polls (view h) = 0 \<longrightarrow>
     fst (getreg32 io (data_reg i) h) = regs (view h) i \<and> view (snd (getreg32 io (data_reg i) h)) = view h \<and>
     (\<forall>v. view (putreg32 io v (data_reg i) h) = (view h)\<lparr>regs := (regs (view h))(i := v)\<rparr>))"

definition poll_law :: "'h mmio \<Rightarrow> ('h \<Rightarrow> efuse_view) \<Rightarrow> bool" where
  "poll_law io view = (\<forall>h. let (v, h') = getreg32 io ctrl_reg h in
     view h' = (view h)\<lparr>polls := polls (view h) - 1\<rparr> \<and>
     bit v EF_CTRL_EF_IF_0_BUSY_POS = (polls (view h) > 0) \<and>
     (polls (view h) = 0 \<longrightarrow> bit v EF_CTRL_EF_IF_0_AUTOLOAD_DONE_POS))"

definition after :: "('h \<Rightarrow> efuse_view) \<Rightarrow> 'h \<Rightarrow> efuse_view \<Rightarrow> bool" where
  "after view h v = (polls (view h) < EF_CTRL_DFT_TIMEOUT_VAL \<and> (view h)\<lparr>polls := 0\<rparr> = v)"

definition ctrl_law :: "(nat \<Rightarrow> bool) \<Rightarrow> (nat \<Rightarrow> bool) \<Rightarrow> 'h mmio \<Rightarrow> ('h \<Rightarrow> efuse_view) \<Rightarrow> bool" where
  "ctrl_law wl rl io view = (\<forall>h. polls (view h) = 0 \<longrightarrow>
     view (putreg32 io (ctrl_word 0 0 0) ctrl_reg h) = view h \<and> view (putreg32 io (ctrl_word 1 1 0) ctrl_reg h) = view h \<and>
     ((\<forall>i < 128. regs (view h) i = 0) \<longrightarrow> after view (putreg32 io (ctrl_word 0 0 1) ctrl_reg h) (load_view rl (view h))) \<and>
     after view (putreg32 io (ctrl_word 1 1 1) ctrl_reg h) (burn_view wl (view h)))"

definition efuse_dev :: "(nat \<Rightarrow> bool) \<Rightarrow> (nat \<Rightarrow> bool) \<Rightarrow> 'h mmio \<Rightarrow> ('h \<Rightarrow> efuse_view) \<Rightarrow> bool" where
  "efuse_dev wl rl io view = (data_law io view \<and> poll_law io view \<and> ctrl_law wl rl io view)"

section \<open>A device\<close>

definition reg_index :: "u32 \<Rightarrow> nat" where
  "reg_index a = unat (a - BFLB_EF_CTRL_BASE) div 4"

text \<open>Every operation of this device takes \<open>d\<close> polls.\<close>

definition efuse_sim :: "nat \<Rightarrow> efuse_view mmio" where
  "efuse_sim d = \<lparr>
     getreg32 = \<lambda>a h. if a = ctrl_reg then (if polls h > 0 then 4 else 2, h\<lparr>polls := polls h - 1\<rparr>) else (regs h (reg_index a), h),
     putreg32 = \<lambda>v a h. if a = ctrl_reg then
         if \<not> bit v 4 then h
         else if bit v 3 then (burn_view (\<lambda>_. False) h)\<lparr>polls := d\<rparr>
         else (load_view (\<lambda>_. False) h)\<lparr>polls := d\<rparr>
       else h\<lparr>regs := (regs h)(reg_index a := v)\<rparr>\<rparr>"

lemma data_reg_small: "i < 128 \<Longrightarrow> reg_index (data_reg i) = i" "i < 128 \<Longrightarrow> data_reg i \<noteq> ctrl_reg"
proof -
  assume i: "i < 128"
  then have n: "unat (of_nat (4 * i) :: u32) = 4 * i" by (intro unat_of_nat_small) simp
  then show "reg_index (data_reg i) = i" by (simp add: reg_index_def data_reg_def del: of_nat_mult)
  have "of_nat (4 * i) \<noteq> (0x800 :: u32)"
  proof
    assume "of_nat (4 * i) = (0x800 :: u32)"
    then have "unat (of_nat (4 * i) :: u32) = unat (0x800 :: u32)" by (simp only:)
    with n i show False by simp
  qed
  then show "data_reg i \<noteq> ctrl_reg"
    by (simp add: data_reg_def ctrl_reg_def EF_CTRL_EF_IF_CTRL_0_OFFSET_def del: of_nat_mult)
qed

lemma ctrl_words:
  "\<not> bit (ctrl_word 0 0 0) 4" "\<not> bit (ctrl_word 1 1 0) 4" "bit (ctrl_word 0 0 1) 4" "\<not> bit (ctrl_word 0 0 1) 3"
  "bit (ctrl_word 1 1 1) 4" "bit (ctrl_word 1 1 1) 3"
  by (simp_all add: ctrl_word_def ef_positions)

lemma efuse_sim_dev: "d < EF_CTRL_DFT_TIMEOUT_VAL \<Longrightarrow> efuse_dev (\<lambda>_. False) (\<lambda>_. False) (efuse_sim d) id"
  unfolding efuse_dev_def
proof (intro conjI)
  show "data_law (efuse_sim d) id"
    by (auto simp: data_law_def efuse_sim_def data_reg_small)
  show "poll_law (efuse_sim d) id"
    by (auto simp: poll_law_def efuse_sim_def ef_positions)
  assume "d < EF_CTRL_DFT_TIMEOUT_VAL"
  then show "ctrl_law (\<lambda>_. False) (\<lambda>_. False) (efuse_sim d) id"
    by (auto simp: ctrl_law_def efuse_sim_def ctrl_words after_def load_view_def burn_view_def)
qed

section \<open>Waiting\<close>

lemma busy_mask: "(x AND push_bit n 1 \<noteq> 0) = bit x n" for x :: u32
  by (simp add: bit_iff_and_push_bit_not_eq_0)

lemma poll:
  assumes "efuse_dev wl rl io view"
  obtains v h' where "get_ctrl io h = (v, h')" "view h' = (view h)\<lparr>polls := polls (view h) - 1\<rparr>"
    "(v AND push_bit EF_CTRL_EF_IF_0_BUSY_POS 1 \<noteq> 0) = (polls (view h) > 0)"
    "polls (view h) = 0 \<longrightarrow> v AND push_bit EF_CTRL_EF_IF_0_AUTOLOAD_DONE_POS 1 \<noteq> 0"
proof -
  obtain v h' where g: "getreg32 io ctrl_reg h = (v, h')" by fastforce
  with assms have "view h' = (view h)\<lparr>polls := polls (view h) - 1\<rparr> \<and>
     bit v EF_CTRL_EF_IF_0_BUSY_POS = (polls (view h) > 0) \<and>
     (polls (view h) = 0 \<longrightarrow> bit v EF_CTRL_EF_IF_0_AUTOLOAD_DONE_POS)"
    using assms [unfolded efuse_dev_def poll_law_def, THEN conjunct2, THEN conjunct1, THEN spec, of h] by simp
  with g show ?thesis by (intro that) (auto simp: get_ctrl_def ctrl_reg_def busy_mask simp del: push_bit_of_1)
qed

lemma wait_idle_view:
  assumes "efuse_dev wl rl io view"
  shows "polls (view h) \<le> n \<Longrightarrow> 0 < n \<Longrightarrow> view (wait_idle io n h) = (view h)\<lparr>polls := 0\<rparr>"
proof (induction n arbitrary: h)
  case (Suc n)
  obtain v h' where p: "get_ctrl io h = (v, h')" "view h' = (view h)\<lparr>polls := polls (view h) - 1\<rparr>"
    "(v AND push_bit EF_CTRL_EF_IF_0_BUSY_POS 1 \<noteq> 0) = (polls (view h) > 0)"
    "polls (view h) = 0 \<longrightarrow> v AND push_bit EF_CTRL_EF_IF_0_AUTOLOAD_DONE_POS 1 \<noteq> 0"
    by (rule poll [OF assms, of h])
  show ?case
  proof (cases "polls (view h) = 0")
    case True
    then show ?thesis using p by (simp add: bflb_ef_ctrl_busy_def)
  next
    case False
    show ?thesis
    proof (cases "n = 0")
      case True
      then show ?thesis using p False Suc.prems by (simp add: bflb_ef_ctrl_busy_def)
    next
      case n: False
      have "view (wait_idle io n h') = (view h')\<lparr>polls := 0\<rparr>"
        using Suc.IH [of h'] Suc.prems n p(2) by simp
      with p False n show ?thesis by (simp add: bflb_ef_ctrl_busy_def)
    qed
  qed
qed simp

lemma wait_loaded_view:
  assumes "efuse_dev wl rl io view"
  shows "polls (view h) < n \<Longrightarrow> view (wait_loaded io n h) = (view h)\<lparr>polls := 0\<rparr>"
proof (induction n arbitrary: h)
  case (Suc n)
  obtain v h' where p: "get_ctrl io h = (v, h')" "view h' = (view h)\<lparr>polls := polls (view h) - 1\<rparr>"
    "(v AND push_bit EF_CTRL_EF_IF_0_BUSY_POS 1 \<noteq> 0) = (polls (view h) > 0)"
    "polls (view h) = 0 \<longrightarrow> v AND push_bit EF_CTRL_EF_IF_0_AUTOLOAD_DONE_POS 1 \<noteq> 0"
    by (rule poll [OF assms, of h])
  show ?case
  proof (cases "polls (view h) = 0")
    case True
    then show ?thesis using p by simp
  next
    case False
    then have "n \<noteq> 0" using Suc.prems by simp
    have "view (wait_loaded io n h') = (view h')\<lparr>polls := 0\<rparr>"
      using Suc.IH [of h'] Suc.prems False p(2) by simp
    with p False \<open>n \<noteq> 0\<close> show ?thesis by simp
  qed
qed simp

section \<open>Operations of the driver\<close>

text \<open>Every operation starts and ends with an idle controller.\<close>

lemma put_ctrl_quiet:
  assumes "efuse_dev wl rl io view" and "polls (view h) = 0"
  shows "view (put_ctrl io (ctrl_word 0 0 0) h) = view h" "view (put_ctrl io (ctrl_word 1 1 0) h) = view h"
  using assms by (auto simp: efuse_dev_def ctrl_law_def put_ctrl_def ctrl_reg_def)

lemma put_ctrl_trigger:
  assumes dev: "efuse_dev wl rl io view" and h: "polls (view h) = 0"
  shows "\<forall>i < 128. regs (view h) i = 0 \<Longrightarrow> after view (put_ctrl io (ctrl_word 0 0 1) h) (load_view rl (view h))"
    "after view (put_ctrl io (ctrl_word 1 1 1) h) (burn_view wl (view h))"
  using dev [unfolded efuse_dev_def ctrl_law_def, THEN conjunct2, THEN conjunct2, rule_format, OF h]
  by (simp_all add: put_ctrl_def ctrl_reg_def)

lemma timeout_pos: "0 < EF_CTRL_DFT_TIMEOUT_VAL"
  by (simp add: EF_CTRL_DFT_TIMEOUT_VAL_def)

lemma switch_view:
  assumes dev: "efuse_dev wl rl io view" and h: "polls (view h) = 0"
  shows "view (bflb_ef_ctrl_switch_ahb_clk_r0 io h) = view h"
proof -
  have "view (wait_idle io EF_CTRL_DFT_TIMEOUT_VAL h) = view h"
    using wait_idle_view [OF dev, of h EF_CTRL_DFT_TIMEOUT_VAL] timeout_pos h by simp
  then show ?thesis using put_ctrl_quiet [OF dev] h by (simp add: bflb_ef_ctrl_switch_ahb_clk_r0_def)
qed

lemma data_reg_addr: "BFLB_EF_CTRL_BASE + 0x00 + 4 * of_nat i = data_reg i"
  by (simp add: data_reg_def)

lemma put_data:
  assumes "efuse_dev wl rl io view" and "polls (view h) = 0" and "i < 128"
  shows "view (putreg32 io v (data_reg i) h) = (view h)\<lparr>regs := (regs (view h))(i := v)\<rparr>"
  using assms by (simp add: efuse_dev_def data_law_def)

lemma get_data:
  assumes "efuse_dev wl rl io view" and "polls (view h) = 0" and "i < 128"
  obtains h' where "getreg32 io (data_reg i) h = (regs (view h) i, h')" "view h' = view h"
  using assms by (metis (no_types, lifting) data_law_def efuse_dev_def prod.collapse)

lemma clear_data_view:
  assumes dev: "efuse_dev wl rl io view"
  shows "polls (view h) = 0 \<Longrightarrow> i + n \<le> 128 \<Longrightarrow>
    view (clear_data io (of_nat i) n h) = (view h)\<lparr>regs := \<lambda>j. if i \<le> j \<and> j < i + n then 0 else regs (view h) j\<rparr>"
proof (induction n arbitrary: i h)
  case (Suc n)
  let ?h = "putreg32 io 0 (data_reg i) h"
  have v: "view ?h = (view h)\<lparr>regs := (regs (view h))(i := 0)\<rparr>"
    using put_data [OF dev, of h i] Suc.prems by simp
  have "view (clear_data io (of_nat (Suc i)) n ?h) =
      (view ?h)\<lparr>regs := \<lambda>j. if Suc i \<le> j \<and> j < Suc i + n then 0 else regs (view ?h) j\<rparr>"
    using Suc.IH [of ?h "Suc i"] Suc.prems v by simp
  also have "\<dots> = (view h)\<lparr>regs := \<lambda>j. if i \<le> j \<and> j < i + Suc n then 0 else regs (view h) j\<rparr>"
    unfolding v by (auto simp: fun_eq_iff)
  finally show ?case
    by (simp only: clear_data.simps data_reg_addr of_nat_Suc add.commute [of 1])
next
  case 0
  have "(\<lambda>j. if i \<le> j \<and> j < i then 0 else regs (view h) j) = regs (view h)" by (rule ext) auto
  then show ?case by simp
qed

lemma load_ready:
  assumes dev: "efuse_dev wl rl io view" and h: "polls (view h) = 0"
  shows "polls (view (bflb_ef_ctrl_clear_data_reg0 io h)) = 0"
    "fuses (view (bflb_ef_ctrl_clear_data_reg0 io h)) = fuses (view h)"
    "\<forall>i < 128. regs (view (bflb_ef_ctrl_clear_data_reg0 io h)) i = 0"
proof -
  have "unat (EF_CTRL_EFUSE_R0_SIZE div 4) = 128" by (simp add: EF_CTRL_EFUSE_R0_SIZE_def)
  then have "view (bflb_ef_ctrl_clear_data_reg0 io h) = (view h)\<lparr>regs := \<lambda>j. if j < 128 then 0 else regs (view h) j\<rparr>"
    using clear_data_view [OF dev, of "bflb_ef_ctrl_switch_ahb_clk_r0 io h" 0 128, unfolded switch_view [OF dev h]] h
    by (simp add: bflb_ef_ctrl_clear_data_reg0_def)
  then show "polls (view (bflb_ef_ctrl_clear_data_reg0 io h)) = 0"
    "fuses (view (bflb_ef_ctrl_clear_data_reg0 io h)) = fuses (view h)"
    "\<forall>i < 128. regs (view (bflb_ef_ctrl_clear_data_reg0 io h)) i = 0"
    using h by simp_all
qed

lemma load_efuse_view:
  assumes dev: "efuse_dev wl rl io view" and h: "polls (view h) = 0"
  shows "view (bflb_ef_ctrl_load_efuse_r0 io h) = load_view rl (view h)"
proof -
  define c where "c = bflb_ef_ctrl_clear_data_reg0 io h"
  note c = load_ready [OF dev h, folded c_def]
  define a where "a = put_ctrl io (ctrl_word 0 0 0) c"
  have a: "view a = view c" using put_ctrl_quiet [OF dev c(1)] by (simp add: a_def)
  define b where "b = put_ctrl io (ctrl_word 0 0 1) a"
  have "after view b (load_view rl (view a))"
    using put_ctrl_trigger(1) [OF dev, of a] a c by (simp add: b_def)
  then have b: "polls (view b) < EF_CTRL_DFT_TIMEOUT_VAL" "(view b)\<lparr>polls := 0\<rparr> = load_view rl (view c)"
    by (simp_all add: after_def a)
  have w: "view (wait_loaded io EF_CTRL_DFT_TIMEOUT_VAL b) = load_view rl (view c)"
    using wait_loaded_view [OF dev b(1)] b(2) by simp
  then have "view (put_ctrl io (ctrl_word 0 0 0) (wait_loaded io EF_CTRL_DFT_TIMEOUT_VAL b)) = load_view rl (view c)"
    using put_ctrl_quiet [OF dev] c by (simp add: load_view_def)
  also have "load_view rl (view c) = load_view rl (view h)"
    unfolding load_view_def c(2) using c h by (intro efuse_view.equality) simp_all
  finally show ?thesis
    by (simp add: bflb_ef_ctrl_load_efuse_r0_def Let_def a_def b_def c_def)
qed

lemma program_view:
  assumes dev: "efuse_dev wl rl io view" and h: "polls (view h) = 0"
  shows "view (program_and_wait io h) = burn_view wl (view h)"
proof -
  define a where "a = put_ctrl io (ctrl_word 1 1 0) (put_ctrl io (ctrl_word 0 0 0) h)"
  have a: "view a = view h" using put_ctrl_quiet [OF dev] h by (simp add: a_def)
  define b where "b = put_ctrl io (ctrl_word 1 1 1) a"
  have "after view b (burn_view wl (view a))"
    using put_ctrl_trigger(2) [OF dev, of a] a h by (simp add: b_def)
  then have "polls (view b) < EF_CTRL_DFT_TIMEOUT_VAL" "(view b)\<lparr>polls := 0\<rparr> = burn_view wl (view h)"
    by (simp_all add: after_def a)
  then show ?thesis
    using wait_idle_view [OF dev, of b EF_CTRL_DFT_TIMEOUT_VAL] timeout_pos
    by (simp add: program_and_wait_def bflb_ef_ctrl_program_efuse_r0_def Let_def a_def b_def)
qed

section \<open>Reading and writing words\<close>

lemma data_reg_Suc: "data_reg k + 4 = data_reg (Suc k)"
  by (simp add: data_reg_def)

lemma get_words_view:
  assumes dev: "efuse_dev wl rl io view"
  shows "polls (view h) = 0 \<Longrightarrow> k + n \<le> 128 \<Longrightarrow>
    \<exists>h'. get_words io (data_reg k) n h = (map (regs (view h)) [k..<k + n], h') \<and> view h' = view h"
proof (induction n arbitrary: k h)
  case (Suc n)
  obtain h' where g: "getreg32 io (data_reg k) h = (regs (view h) k, h')" "view h' = view h"
    using get_data [OF dev, of h k] Suc.prems by auto
  then obtain h'' where "get_words io (data_reg (Suc k)) n h' = (map (regs (view h)) [Suc k..<Suc k + n], h'')" "view h'' = view h"
    using Suc.IH [of h' "Suc k"] Suc.prems by auto
  with g show ?case by (simp add: data_reg_Suc upt_rec [of k])
qed simp

definition overwrite :: "(nat \<Rightarrow> u32) \<Rightarrow> nat \<Rightarrow> u32 list \<Rightarrow> nat \<Rightarrow> u32" where
  "overwrite f k ws i = (if k \<le> i \<and> i < k + length ws then ws ! (i - k) else f i)"

lemma put_words_view:
  assumes dev: "efuse_dev wl rl io view"
  shows "polls (view h) = 0 \<Longrightarrow> k + length ws \<le> 128 \<Longrightarrow>
    \<exists>h'. put_words io (data_reg k) ws (length ws) h = Some h' \<and> view h' = (view h)\<lparr>regs := overwrite (regs (view h)) k ws\<rparr>"
proof (induction ws arbitrary: k h)
  case (Cons w ws)
  let ?h = "putreg32 io w (data_reg k) h"
  have v: "view ?h = (view h)\<lparr>regs := (regs (view h))(k := w)\<rparr>"
    using put_data [OF dev, of h k] Cons.prems by simp
  have "polls (view ?h) = 0" "Suc k + length ws \<le> 128" using v Cons.prems by simp_all
  from Cons.IH [OF this] obtain h' where h': "put_words io (data_reg (Suc k)) ws (length ws) ?h = Some h'"
      "view h' = (view ?h)\<lparr>regs := overwrite (regs (view ?h)) (Suc k) ws\<rparr>" by blast
  have "overwrite ((regs (view h))(k := w)) (Suc k) ws = overwrite (regs (view h)) k (w # ws)"
    by (auto simp: overwrite_def fun_eq_iff nth_Cons')
  with h' v show ?case by (simp add: data_reg_Suc)
next
  case Nil
  have "overwrite (regs (view h)) k [] = regs (view h)" by (auto simp: overwrite_def fun_eq_iff)
  then show ?case by simp
qed

lemma region0:
  assumes "k + n \<le> 128" and "0 < n"
  shows "\<not> (of_nat (4 * k) > EF_CTRL_EFUSE_R0_SIZE \<or> of_nat (4 * k) + of_nat n * 4 > EF_CTRL_EFUSE_R0_SIZE)"
    "region0_count (of_nat (4 * k)) (of_nat n) = of_nat n" "region0_count (of_nat (4 * k)) (of_nat n) > 0"
    "unat (region0_count (of_nat (4 * k)) (of_nat n)) = n"
    "BFLB_EF_CTRL_BASE + of_nat (4 * k) = data_reg k"
proof -
  have o: "unat (of_nat (4 * k) :: u32) = 4 * k" using assms by (intro unat_of_nat_small) simp
  have n: "unat (of_nat n :: u32) = n" using assms by (intro unat_of_nat_small) simp
  have sum: "of_nat (4 * k) + of_nat n * 4 = (of_nat (4 * k + 4 * n) :: u32)" by simp
  have e: "unat (of_nat (4 * k) + of_nat n * 4 :: u32) = 4 * k + 4 * n"
    unfolding sum using assms by (intro unat_of_nat_small) simp
  have s: "unat EF_CTRL_EFUSE_R0_SIZE = 512" by (simp add: EF_CTRL_EFUSE_R0_SIZE_def)
  show ok: "\<not> (of_nat (4 * k) > EF_CTRL_EFUSE_R0_SIZE \<or> of_nat (4 * k) + of_nat n * 4 > EF_CTRL_EFUSE_R0_SIZE)"
    unfolding word_less_nat_alt o e s using assms by simp
  have "(of_nat (4 * k) :: u32) < EF_CTRL_EFUSE_R0_SIZE"
    unfolding word_less_nat_alt o s using assms by simp
  with ok show c: "region0_count (of_nat (4 * k)) (of_nat n) = of_nat n"
    unfolding region0_count_def by (simp only: not_less de_Morgan_disj if_True)
  show "region0_count (of_nat (4 * k)) (of_nat n) > 0"
    unfolding c word_less_nat_alt n using assms by simp
  show "unat (region0_count (of_nat (4 * k)) (of_nat n)) = n" unfolding c by (rule n)
  show "BFLB_EF_CTRL_BASE + of_nat (4 * k) = data_reg k" by (simp add: data_reg_def)
qed

definition seen :: "(nat \<Rightarrow> bool) \<Rightarrow> efuse_view \<Rightarrow> nat \<Rightarrow> u32" where
  "seen rl v i = (if rl i then 0 else fuses v i)"

lemma read_direct_view:
  assumes dev: "efuse_dev wl rl io view" and h: "polls (view h) = 0" and n: "k + n \<le> 128" "0 < n" "n \<le> length ws"
    and "reload \<noteq> 0"
  obtains h' where "bflb_ef_ctrl_read_direct io (of_nat (4 * k)) (Some ws) (of_nat n) reload h =
      Some (map (seen rl (view h)) [k..<k + n] @ drop n ws, h')" "view h' = load_view rl (view h)"
proof -
  note r = region0 [OF n(1,2)]
  let ?l = "bflb_ef_ctrl_load_efuse_r0 io h"
  have v: "view ?l = load_view rl (view h)" by (rule load_efuse_view [OF dev h])
  then obtain h' where g: "get_words io (data_reg k) n ?l = (map (regs (view ?l)) [k..<k + n], h')" "view h' = view ?l"
    using get_words_view [OF dev, of ?l k n] h n by (auto simp: load_view_def)
  have s: "regs (view ?l) = seen rl (view h)" unfolding v by (auto simp: load_view_def seen_def fun_eq_iff)
  show ?thesis
  proof (rule that)
    show "view h' = load_view rl (view h)" using g(2) v by simp
    show "bflb_ef_ctrl_read_direct io (of_nat (4 * k)) (Some ws) (of_nat n) reload h =
      Some (map (seen rl (view h)) [k..<k + n] @ drop n ws, h')"
      unfolding bflb_ef_ctrl_read_direct_def if_not_P [OF r(1)] option.case(2) if_P [OF r(3)]
      using n(3) g(1) \<open>reload \<noteq> 0\<close> by (simp only: r(4,5) s if_True Let_def prod.case length_map length_upt simp_thms diff_add_inverse)
  qed
qed

lemma write_direct_view:
  assumes dev: "efuse_dev wl rl io view" and h: "polls (view h) = 0" and n: "k + length ws \<le> 128" "0 < length ws"
    and "program \<noteq> 0"
  obtains h' where "bflb_ef_ctrl_write_direct io (of_nat (4 * k)) (Some ws) (of_nat (length ws)) program h = Some h'"
    "view h' = burn_view wl ((view h)\<lparr>regs := overwrite (regs (view h)) k ws\<rparr>)"
proof -
  note r = region0 [OF n]
  let ?s = "bflb_ef_ctrl_switch_ahb_clk_r0 io h"
  have v: "view ?s = view h" by (rule switch_view [OF dev h])
  obtain h' where g: "put_words io (data_reg k) ws (length ws) ?s = Some h'"
      "view h' = (view h)\<lparr>regs := overwrite (regs (view h)) k ws\<rparr>"
    using put_words_view [OF dev, of ?s k ws] h n unfolding v by auto
  show ?thesis
  proof (rule that)
    show "view (program_and_wait io h') = burn_view wl ((view h)\<lparr>regs := overwrite (regs (view h)) k ws\<rparr>)"
      using program_view [OF dev, of h'] h unfolding g(2) by simp
    show "bflb_ef_ctrl_write_direct io (of_nat (4 * k)) (Some ws) (of_nat (length ws)) program h = Some (program_and_wait io h')"
      unfolding bflb_ef_ctrl_write_direct_def if_not_P [OF r(1)] option.case(2) if_P [OF r(3)]
      using g(1) \<open>program \<noteq> 0\<close> by (simp add: r(4) r(5) del: of_nat_mult)
  qed
qed

end
