(* ===== verification/Anti_Rollback.thy ===== *)
theory Anti_Rollback
  imports Efuse_Device
begin

text \<open>
  The version counters that protect against rolling back the application and the second boot
  loader, \<^verbatim>\<open>drivers/lhal/src/bflb_common.c\<close> in its configuration for the BL616.

  A version \<open>v\<close> is stored as the fuse \<open>v - 1\<close>, twice; what is read is the highest fuse of either
  copy.  The bit that enables the feature is fuse 12 of word 31.  A pointer that may be \<open>NULL\<close> is
  an option, and what it points to is returned.
\<close>

section \<open>The code\<close>

definition BFLB_COMMON_UINT32_BIT_LEN :: u8 where "BFLB_COMMON_UINT32_BIT_LEN = 32"
definition BFLB_COMMON_UINT64_BIT_LEN :: u8 where "BFLB_COMMON_UINT64_BIT_LEN = 64"
definition BFLB_COMMON_UINT96_BIT_LEN :: u8 where "BFLB_COMMON_UINT96_BIT_LEN = 96"
definition BFLB_COMMON_UINT128_BIT_LEN :: u8 where "BFLB_COMMON_UINT128_BIT_LEN = 128"
definition ANTI_ROLLBACK_ENABLE_OFFSET :: u32 where "ANTI_ROLLBACK_ENABLE_OFFSET = 0x7C"
definition ANTI_ROLLBACK_ENABLE_MASK :: u32 where "ANTI_ROLLBACK_ENABLE_MASK = 0x01"
definition ANTI_ROLLBACK_ENABLE_POS :: nat where "ANTI_ROLLBACK_ENABLE_POS = 12"
definition ANTI_ROLLBACK_BOOT2_VERSION_OFFSET :: u32 where "ANTI_ROLLBACK_BOOT2_VERSION_OFFSET = 0x170"
definition ANTI_ROLLBACK_APP_VERSION_OFFSET :: u32 where "ANTI_ROLLBACK_APP_VERSION_OFFSET = 0x180"

lemmas bit_lens = BFLB_COMMON_UINT32_BIT_LEN_def BFLB_COMMON_UINT64_BIT_LEN_def
  BFLB_COMMON_UINT96_BIT_LEN_def BFLB_COMMON_UINT128_BIT_LEN_def

text \<open>\<open>__builtin_clz\<close>: the number of leading zeros; undefined for 0, which is not passed.\<close>

fun leading_zeros :: "u32 \<Rightarrow> nat \<Rightarrow> nat" where
  "leading_zeros w 0 = 0"
| "leading_zeros w (Suc n) = (if bit w n then 0 else Suc (leading_zeros w n))"

definition builtin_clz :: "u32 \<Rightarrow> u8" where
  "builtin_clz w = of_nat (leading_zeros w 32)"

definition anti_rollback_enabled :: "u32 \<Rightarrow> bool" where
  "anti_rollback_enabled tmpVal = (drop_bit ANTI_ROLLBACK_ENABLE_POS tmpVal AND ANTI_ROLLBACK_ENABLE_MASK \<noteq> 0)"

definition app_version_of :: "u32 list \<Rightarrow> u8" where
  "app_version_of val =
     (let version_low_low = val ! 0 OR val ! 4;
        version_low = val ! 1 OR val ! 5;
        version_high = val ! 2 OR val ! 6;
        version_high_high = val ! 3 OR val ! 7
      in if version_high_high \<noteq> 0 then BFLB_COMMON_UINT128_BIT_LEN - builtin_clz version_high_high
         else if version_high \<noteq> 0 then BFLB_COMMON_UINT96_BIT_LEN - builtin_clz version_high
         else if version_low \<noteq> 0 then BFLB_COMMON_UINT64_BIT_LEN - builtin_clz version_low
         else if version_low_low \<noteq> 0 then BFLB_COMMON_UINT32_BIT_LEN - builtin_clz version_low_low
         else 0)"

definition bflb_get_app_version_from_efuse :: "'h mmio \<Rightarrow> u8 option \<Rightarrow> 'h \<Rightarrow> (int \<times> u8 option \<times> 'h) option" where
  "bflb_get_app_version_from_efuse io version h =
     (if version = None then Some (1, version, h)
      else do {
        (tmpVal, h) \<leftarrow> bflb_ef_ctrl_read_direct io ANTI_ROLLBACK_ENABLE_OFFSET (Some [0]) 1 1 h;
        if \<not> anti_rollback_enabled (tmpVal ! 0) then Some (1, version, h)
        else do {
          (val, h) \<leftarrow> bflb_ef_ctrl_read_direct io ANTI_ROLLBACK_APP_VERSION_OFFSET (Some (replicate 8 0)) 8 1 h;
          Some (0, Some (app_version_of val), h)
        }
      })"

definition app_version_words :: "u8 \<Rightarrow> u32 list" where
  "app_version_words version =
     (let one = (\<lambda>base. push_bit (unat version - base - 1) 1);
        v = (if version \<le> BFLB_COMMON_UINT32_BIT_LEN then [one 0, 0, 0, 0]
             else if version \<le> BFLB_COMMON_UINT64_BIT_LEN then [0, one 32, 0, 0]
             else if version \<le> BFLB_COMMON_UINT96_BIT_LEN then [0, 0, one 64, 0]
             else if version \<le> BFLB_COMMON_UINT128_BIT_LEN then [0, 0, 0, one 96]
             else [0, 0, 0, 0])
      in v @ v)"

definition set_enable :: "'h mmio \<Rightarrow> 'h \<Rightarrow> 'h option" where
  "set_enable io h = do {
     (tmpVal, h) \<leftarrow> bflb_ef_ctrl_read_direct io ANTI_ROLLBACK_ENABLE_OFFSET (Some [0]) 1 1 h;
     bflb_ef_ctrl_write_direct io ANTI_ROLLBACK_ENABLE_OFFSET
       (Some [tmpVal ! 0 OR push_bit ANTI_ROLLBACK_ENABLE_POS 1]) 1 1 h
   }"

definition bflb_set_app_version_to_efuse :: "'h mmio \<Rightarrow> u8 \<Rightarrow> 'h \<Rightarrow> (int \<times> 'h) option" where
  "bflb_set_app_version_to_efuse io version h = do {
     h \<leftarrow> set_enable io h;
     (ret, version_old, h) \<leftarrow> bflb_get_app_version_from_efuse io (Some 0) h;
     if ret \<noteq> 0 then Some (1, h)
     else if the version_old > version then Some (1, h)
     else if the version_old = version then Some (0, h)
     else do {
       h \<leftarrow> bflb_ef_ctrl_write_direct io ANTI_ROLLBACK_APP_VERSION_OFFSET (Some (app_version_words version)) 8 1 h;
       Some (0, h)
     }
   }"

definition boot2_version_of :: "u32 list \<Rightarrow> u8" where
  "boot2_version_of val =
     (let version_low = val ! 0 OR val ! 2;
        version_high = val ! 1 OR val ! 3
      in if version_high \<noteq> 0 then BFLB_COMMON_UINT64_BIT_LEN - builtin_clz version_high
         else if version_low \<noteq> 0 then BFLB_COMMON_UINT32_BIT_LEN - builtin_clz version_low
         else 0)"

definition bflb_get_boot2_version_from_efuse :: "'h mmio \<Rightarrow> u8 option \<Rightarrow> 'h \<Rightarrow> (int \<times> u8 option \<times> 'h) option" where
  "bflb_get_boot2_version_from_efuse io version h =
     (if version = None then Some (1, version, h)
      else do {
        (tmpVal, h) \<leftarrow> bflb_ef_ctrl_read_direct io ANTI_ROLLBACK_ENABLE_OFFSET (Some [0]) 1 1 h;
        if \<not> anti_rollback_enabled (tmpVal ! 0) then Some (1, version, h)
        else do {
          (val, h) \<leftarrow> bflb_ef_ctrl_read_direct io ANTI_ROLLBACK_BOOT2_VERSION_OFFSET (Some (replicate 4 0)) 4 1 h;
          Some (0, Some (boot2_version_of val), h)
        }
      })"

definition boot2_version_words :: "u8 \<Rightarrow> u32 list" where
  "boot2_version_words version =
     (let one = (\<lambda>base. push_bit (unat version - base - 1) 1);
        v = (if version \<le> BFLB_COMMON_UINT32_BIT_LEN then [one 0, 0]
             else if version \<le> BFLB_COMMON_UINT64_BIT_LEN then [0, one 32]
             else [0, 0])
      in v @ v)"

definition bflb_set_boot2_version_to_efuse :: "'h mmio \<Rightarrow> u8 \<Rightarrow> 'h \<Rightarrow> (int \<times> 'h) option" where
  "bflb_set_boot2_version_to_efuse io version h = do {
     h \<leftarrow> set_enable io h;
     (ret, version_old, h) \<leftarrow> bflb_get_boot2_version_from_efuse io (Some 0) h;
     if ret \<noteq> 0 then Some (1, h)
     else if the version_old > version then Some (1, h)
     else if the version_old = version then Some (0, h)
     else do {
       h \<leftarrow> bflb_ef_ctrl_write_direct io ANTI_ROLLBACK_BOOT2_VERSION_OFFSET (Some (boot2_version_words version)) 4 1 h;
       Some (0, h)
     }
   }"

section \<open>Versions in fuses\<close>

text \<open>The highest set bit of a bit vector of length \<open>n\<close>, counted from 1; 0 if there is none.\<close>

fun highest :: "(nat \<Rightarrow> bool) \<Rightarrow> nat \<Rightarrow> nat" where
  "highest P 0 = 0"
| "highest P (Suc n) = (if P n then Suc n else highest P n)"

lemma highest_le: "highest P n \<le> n"
  by (induction n) auto

lemma highest_above: "highest P n \<le> b \<Longrightarrow> b < n \<Longrightarrow> \<not> P b"
  by (induction n) (auto simp: less_Suc_eq split: if_splits)

lemma highest_set: "0 < highest P n \<Longrightarrow> P (highest P n - 1)"
  by (induction n) auto

lemma highest_unique:
  "v \<le> n \<Longrightarrow> (\<forall>b < n. v \<le> b \<longrightarrow> \<not> P b) \<Longrightarrow> (0 < v \<longrightarrow> P (v - 1)) \<Longrightarrow> highest P n = v"
  by (induction n) (auto simp: le_Suc_eq)

lemma highest_cong: "(\<And>b. b < n \<Longrightarrow> P b = Q b) \<Longrightarrow> highest P n = highest Q n"
  by (induction n) auto

lemma highest_none: "(\<And>b. b < n \<Longrightarrow> \<not> P b) \<Longrightarrow> highest P n = 0"
  by (induction n) auto

lemma highest_add: "highest P (m + n) = (if highest (\<lambda>b. P (m + b)) n = 0 then highest P m else m + highest (\<lambda>b. P (m + b)) n)"
  by (induction n) auto

lemma highest_insert:
  assumes "highest P n < v" and "v \<le> n"
  shows "highest (\<lambda>b. P b \<or> b = v - 1) n = v"
  using assms highest_above [of P n] by (intro highest_unique) auto

lemma leading_zeros_highest: "leading_zeros w n = n - highest (bit w) n"
  using highest_le [of "bit w"] by (induction n) (auto simp: Suc_diff_le)

lemma highest_zero_word: "(highest (bit w) 32 = 0) = (w = 0)" for w :: u32
proof
  assume "highest (bit w) 32 = 0"
  then have "\<not> bit w b" if "b < 32" for b using highest_above [of "bit w" 32 b] that by simp
  then show "w = 0" by (intro bit_word_eqI) simp
qed (simp add: highest_none)

lemma clz_version:
  assumes "unat l = base + 32"
  shows "unat (l - builtin_clz w) = base + highest (bit w) 32"
proof -
  have h: "highest (bit w) 32 \<le> 32" by (rule highest_le)
  have c: "unat (builtin_clz w) = 32 - highest (bit w) 32"
    unfolding builtin_clz_def leading_zeros_highest by (intro unat_of_nat_small) simp
  have "builtin_clz w \<le> l" unfolding word_le_nat_alt c assms by simp
  from unat_sub_le [OF this] show ?thesis using h by (simp add: c assms)
qed

text \<open>Bit \<open>b\<close> of \<open>n\<close> words that are stored twice.\<close>

definition double_bit :: "nat \<Rightarrow> (nat \<Rightarrow> u32) \<Rightarrow> nat \<Rightarrow> bool" where
  "double_bit n f b = bit (f (b div 32) OR f (n + b div 32)) (b mod 32)"

lemma highest_word:
  assumes "m = 32 * k"
  shows "highest (\<lambda>b. double_bit n f (m + b)) 32 = highest (bit (f k OR f (n + k))) 32"
  using assms by (intro highest_cong) (simp add: double_bit_def)

lemma highest_word0: "highest (double_bit n f) 32 = highest (bit (f 0 OR f n)) 32"
  using highest_word [of 0 0 n f] by simp

lemma app_version_of_highest:
  "unat (app_version_of (map f [0..<8])) = highest (double_bit 4 f) 128"
proof -
  have "highest (double_bit 4 f) 128 = highest (double_bit 4 f) (96 + 32)" by simp
  also have "\<dots> = (if highest (bit (f 3 OR f 7)) 32 = 0 then highest (double_bit 4 f) (64 + 32) else 96 + highest (bit (f 3 OR f 7)) 32)"
    unfolding highest_add [of _ 96 32] by (simp add: highest_word [of 96 3])
  also have "highest (double_bit 4 f) (64 + 32) =
      (if highest (bit (f 2 OR f 6)) 32 = 0 then highest (double_bit 4 f) (32 + 32) else 64 + highest (bit (f 2 OR f 6)) 32)"
    unfolding highest_add [of _ 64 32] by (simp add: highest_word [of 64 2])
  also have "highest (double_bit 4 f) (32 + 32) =
      (if highest (bit (f 1 OR f 5)) 32 = 0 then highest (bit (f 0 OR f 4)) 32 else 32 + highest (bit (f 1 OR f 5)) 32)"
    unfolding highest_add [of _ 32 32] by (simp add: highest_word [of 32 1] highest_word0)
  finally have eq: "highest (double_bit 4 f) 128 =
      (if f 3 OR f 7 \<noteq> 0 then 96 + highest (bit (f 3 OR f 7)) 32
       else if f 2 OR f 6 \<noteq> 0 then 64 + highest (bit (f 2 OR f 6)) 32
       else if f 1 OR f 5 \<noteq> 0 then 32 + highest (bit (f 1 OR f 5)) 32
       else highest (bit (f 0 OR f 4)) 32)"
    by (simp only: highest_zero_word if_not_P not_not split: if_split) auto
  have v: "map f [0..<8] = [f 0, f 1, f 2, f 3, f 4, f 5, f 6, f 7]" by (simp add: upt_rec numeral_eq_Suc)
  show ?thesis
    unfolding eq v app_version_of_def Let_def
    by (simp add: bit_lens clz_version [of _ 96] clz_version [of _ 64] clz_version [of _ 32] clz_version [of _ 0]
      highest_none)
qed

lemma boot2_version_of_highest:
  "unat (boot2_version_of (map f [0..<4])) = highest (double_bit 2 f) 64"
proof -
  have "highest (double_bit 2 f) 64 = highest (double_bit 2 f) (32 + 32)" by simp
  also have "\<dots> = (if highest (bit (f 1 OR f 3)) 32 = 0 then highest (bit (f 0 OR f 2)) 32 else 32 + highest (bit (f 1 OR f 3)) 32)"
    unfolding highest_add [of _ 32 32] by (simp add: highest_word [of 32 1] highest_word0)
  finally have eq: "highest (double_bit 2 f) 64 =
      (if f 1 OR f 3 \<noteq> 0 then 32 + highest (bit (f 1 OR f 3)) 32 else highest (bit (f 0 OR f 2)) 32)"
    by (simp only: highest_zero_word if_not_P not_not split: if_split) auto
  have v: "map f [0..<4] = [f 0, f 1, f 2, f 3]" by (simp add: upt_rec numeral_eq_Suc)
  show ?thesis
    unfolding eq v boot2_version_of_def Let_def
    by (simp add: bit_lens clz_version [of _ 32] clz_version [of _ 0] highest_none)
qed

lemma bit_one: "bit (push_bit k (1 :: u32)) b = (b = k \<and> k < 32)"
  by (auto simp: bit_push_bit_iff bit_1_iff simp del: push_bit_of_1)

lemma app_version_words_bit:
  assumes "0 < version" and "b < 128"
  shows "double_bit 4 ((!) (app_version_words version)) b = (b = unat version - 1 \<and> version \<le> 128)"
proof -
  have v: "0 < unat version" using assms(1) by (simp add: word_less_nat_alt)
  define k where "k = b div 32"
  have b: "b = 32 * k + b mod 32" "b mod 32 < 32" by (simp_all add: k_def)
  have k: "k \<in> {0, 1, 2, 3}" using assms(2) by (auto simp: k_def)
  have le: "(version \<le> l) = (unat version \<le> unat l)" for l by (rule word_le_nat_alt)
  show ?thesis
    unfolding double_bit_def k_def [symmetric] app_version_words_def Let_def
    using k b v by (auto simp: bit_lens le bit_one nth_append simp del: push_bit_of_1)
qed

lemma boot2_version_words_bit:
  assumes "0 < version" and "b < 64"
  shows "double_bit 2 ((!) (boot2_version_words version)) b = (b = unat version - 1 \<and> version \<le> 64)"
proof -
  have v: "0 < unat version" using assms(1) by (simp add: word_less_nat_alt)
  define k where "k = b div 32"
  have b: "b = 32 * k + b mod 32" "b mod 32 < 32" by (simp_all add: k_def)
  have k: "k \<in> {0, 1}" using assms(2) by (auto simp: k_def)
  have le: "(version \<le> l) = (unat version \<le> unat l)" for l by (rule word_le_nat_alt)
  show ?thesis
    unfolding double_bit_def k_def [symmetric] boot2_version_words_def Let_def
    using k b v by (auto simp: bit_lens le bit_one nth_append simp del: push_bit_of_1)
qed

section \<open>The counters\<close>

definition app_version :: "(nat \<Rightarrow> u32) \<Rightarrow> nat" where
  "app_version f = highest (double_bit 4 (\<lambda>i. f (96 + i))) 128"

definition boot2_version :: "(nat \<Rightarrow> u32) \<Rightarrow> nat" where
  "boot2_version f = highest (double_bit 2 (\<lambda>i. f (92 + i))) 64"

definition enabled :: "(nat \<Rightarrow> u32) \<Rightarrow> bool" where
  "enabled f = bit (f 31) 12"

text \<open>The words of the feature are locked neither against writing nor against reading.\<close>

definition unlocked :: "(nat \<Rightarrow> bool) \<Rightarrow> (nat \<Rightarrow> bool) \<Rightarrow> bool" where
  "unlocked wl rl = (\<forall>i. i = 31 \<or> 92 \<le> i \<and> i < 104 \<longrightarrow> \<not> wl i \<and> \<not> rl i)"

text \<open>What setting version \<open>v\<close> does to a counter \<open>c\<close> of \<open>n\<close> fuses, and the result it has.\<close>

definition counter_set :: "nat \<Rightarrow> nat \<Rightarrow> nat \<Rightarrow> int \<times> nat" where
  "counter_set n v c = (if v < c then (1, c) else if v = c then (0, c) else if v \<le> n then (0, v) else (0, c))"

lemma offsets:
  "ANTI_ROLLBACK_ENABLE_OFFSET = of_nat (4 * 31)" "ANTI_ROLLBACK_BOOT2_VERSION_OFFSET = of_nat (4 * 92)"
  "ANTI_ROLLBACK_APP_VERSION_OFFSET = of_nat (4 * 96)" "(1 :: u32) = of_nat 1" "(4 :: u32) = of_nat 4" "(8 :: u32) = of_nat 8"
  by (simp_all add: ANTI_ROLLBACK_ENABLE_OFFSET_def ANTI_ROLLBACK_BOOT2_VERSION_OFFSET_def ANTI_ROLLBACK_APP_VERSION_OFFSET_def)

lemma anti_rollback_enabled_iff: "anti_rollback_enabled w = bit w 12"
  by (simp add: anti_rollback_enabled_def ANTI_ROLLBACK_ENABLE_POS_def ANTI_ROLLBACK_ENABLE_MASK_def
      and_one_eq bit_iff_odd_drop_bit odd_iff_mod_2_eq_one)

text \<open>Programming right after a load burns the words that were written, and nothing else.\<close>

lemma burn_loaded:
  "regs v = seen rl v \<Longrightarrow>
   fuses (burn_view wl (v\<lparr>regs := overwrite (regs v) k ws\<rparr>)) i =
     (if k \<le> i \<and> i < k + length ws \<and> \<not> wl i then fuses v i OR ws ! (i - k) else fuses v i)"
  by (auto simp: burn_view_def overwrite_def seen_def)

lemma load_view_simps [simp]:
  "polls (load_view rl v) = polls v" "fuses (load_view rl v) = fuses v" "regs (load_view rl v) = seen rl v"
  "seen rl (load_view rl v) = seen rl v"
  by (auto simp: load_view_def seen_def fun_eq_iff)

lemma polls_burn [simp]: "polls (burn_view wl v) = polls v"
  by (simp add: burn_view_def)

lemma map_upt_offset: "map f [k..<k + n] = map (\<lambda>i. f (k + i)) [0..<n]"
  by (intro nth_equalityI) auto

lemma set_enable_view:
  assumes dev: "efuse_dev wl rl io view" and u: "unlocked wl rl" and h: "polls (view h) = 0"
  obtains h' where "set_enable io h = Some h'" "polls (view h') = 0"
    "fuses (view h') = (fuses (view h))(31 := fuses (view h) 31 OR push_bit 12 1)"
proof -
  obtain h1 where r: "bflb_ef_ctrl_read_direct io (of_nat (4 * 31)) (Some [0]) (of_nat 1) 1 h =
      Some (map (seen rl (view h)) [31..<31 + 1] @ drop 1 [0], h1)" "view h1 = load_view rl (view h)"
    using read_direct_view [OF dev h, of 31 1 "[0]" 1] by auto
  have s: "seen rl (view h) 31 = fuses (view h) 31" using u by (simp add: seen_def unlocked_def)
  let ?w = "fuses (view h) 31 OR push_bit ANTI_ROLLBACK_ENABLE_POS 1"
  have "polls (view h1) = 0" using r(2) h by simp
  from write_direct_view [OF dev this, of 31 "[?w]" 1] obtain h2 where
    w: "bflb_ef_ctrl_write_direct io (of_nat (4 * 31)) (Some [?w]) (of_nat 1) 1 h1 = Some h2"
      "view h2 = burn_view wl ((view h1)\<lparr>regs := overwrite (regs (view h1)) 31 [?w]\<rparr>)"
    by auto
  show ?thesis
  proof (rule that)
    show "set_enable io h = Some h2"
      unfolding set_enable_def offsets r(1) using w(1) s by simp
    show "polls (view h2) = 0" using w(2) r(2) h by simp
    show "fuses (view h2) = (fuses (view h))(31 := fuses (view h) 31 OR push_bit 12 1)"
      using burn_loaded [of "view h1" rl wl 31 "[?w]"] u unfolding w(2)
      by (auto simp: fun_eq_iff r(2) unlocked_def ANTI_ROLLBACK_ENABLE_POS_def)
  qed
qed

lemma get_app_view:
  assumes dev: "efuse_dev wl rl io view" and u: "unlocked wl rl" and h: "polls (view h) = 0"
    and e: "enabled (fuses (view h))"
  obtains v h' where "bflb_get_app_version_from_efuse io (Some x) h = Some (0, Some v, h')"
    "unat v = app_version (fuses (view h))" "view h' = load_view rl (view h)"
proof -
  obtain h1 where r: "bflb_ef_ctrl_read_direct io (of_nat (4 * 31)) (Some [0]) (of_nat 1) 1 h =
      Some (map (seen rl (view h)) [31..<31 + 1] @ drop 1 [0], h1)" "view h1 = load_view rl (view h)"
    using read_direct_view [OF dev h, of 31 1 "[0]" 1] by auto
  obtain h2 where w: "bflb_ef_ctrl_read_direct io (of_nat (4 * 96)) (Some (replicate 8 0)) (of_nat 8) 1 h1 =
      Some (map (seen rl (view h1)) [96..<96 + 8] @ drop 8 (replicate 8 0), h2)" "view h2 = load_view rl (view h1)"
    using read_direct_view [OF dev, of h1 96 8 "replicate 8 0" 1] r(2) h by auto
  have s: "seen rl (view h) 31 = fuses (view h) 31" using u by (simp add: seen_def unlocked_def)
  have m: "map (seen rl (view h1)) [96..<96 + 8] = map (\<lambda>i. fuses (view h) (96 + i)) [0..<8]"
    unfolding map_upt_offset using u by (intro map_cong refl) (auto simp: seen_def unlocked_def r(2))
  let ?v = "app_version_of (map (\<lambda>i. fuses (view h) (96 + i)) [0..<8])"
  show ?thesis
  proof (rule that)
    show "bflb_get_app_version_from_efuse io (Some x) h = Some (0, Some ?v, h2)"
      unfolding bflb_get_app_version_from_efuse_def offsets r(1)
      using e w(1) [unfolded m] s
      by (simp add: anti_rollback_enabled_iff enabled_def)
    show "unat ?v = app_version (fuses (view h))" unfolding app_version_of_highest app_version_def ..
    show "view h2 = load_view rl (view h)"
      unfolding w(2) r(2) by (rule efuse_view.equality) simp_all
  qed
qed

lemma get_boot2_view:
  assumes dev: "efuse_dev wl rl io view" and u: "unlocked wl rl" and h: "polls (view h) = 0"
    and e: "enabled (fuses (view h))"
  obtains v h' where "bflb_get_boot2_version_from_efuse io (Some x) h = Some (0, Some v, h')"
    "unat v = boot2_version (fuses (view h))" "view h' = load_view rl (view h)"
proof -
  obtain h1 where r: "bflb_ef_ctrl_read_direct io (of_nat (4 * 31)) (Some [0]) (of_nat 1) 1 h =
      Some (map (seen rl (view h)) [31..<31 + 1] @ drop 1 [0], h1)" "view h1 = load_view rl (view h)"
    using read_direct_view [OF dev h, of 31 1 "[0]" 1] by auto
  obtain h2 where w: "bflb_ef_ctrl_read_direct io (of_nat (4 * 92)) (Some (replicate 4 0)) (of_nat 4) 1 h1 =
      Some (map (seen rl (view h1)) [92..<92 + 4] @ drop 4 (replicate 4 0), h2)" "view h2 = load_view rl (view h1)"
    using read_direct_view [OF dev, of h1 92 4 "replicate 4 0" 1] r(2) h by auto
  have s: "seen rl (view h) 31 = fuses (view h) 31" using u by (simp add: seen_def unlocked_def)
  have m: "map (seen rl (view h1)) [92..<92 + 4] = map (\<lambda>i. fuses (view h) (92 + i)) [0..<4]"
    unfolding map_upt_offset using u by (intro map_cong refl) (auto simp: seen_def unlocked_def r(2))
  let ?v = "boot2_version_of (map (\<lambda>i. fuses (view h) (92 + i)) [0..<4])"
  show ?thesis
  proof (rule that)
    show "bflb_get_boot2_version_from_efuse io (Some x) h = Some (0, Some ?v, h2)"
      unfolding bflb_get_boot2_version_from_efuse_def offsets r(1)
      using e w(1) [unfolded m] s
      by (simp add: anti_rollback_enabled_iff enabled_def)
    show "unat ?v = boot2_version (fuses (view h))" unfolding boot2_version_of_highest boot2_version_def ..
    show "view h2 = load_view rl (view h)"
      unfolding w(2) r(2) by (rule efuse_view.equality) simp_all
  qed
qed

lemma app_version_le: "app_version f \<le> 128"
  unfolding app_version_def by (rule highest_le)

lemma boot2_version_le: "boot2_version f \<le> 64"
  unfolding boot2_version_def by (rule highest_le)

lemma app_version_cong: "(\<And>i. 96 \<le> i \<Longrightarrow> i < 104 \<Longrightarrow> f i = g i) \<Longrightarrow> app_version f = app_version g"
  unfolding app_version_def double_bit_def by (intro highest_cong) auto

lemma boot2_version_cong: "(\<And>i. 92 \<le> i \<Longrightarrow> i < 96 \<Longrightarrow> f i = g i) \<Longrightarrow> boot2_version f = boot2_version g"
  unfolding boot2_version_def double_bit_def by (intro highest_cong) auto

lemma highest_double_or:
  assumes "highest (double_bit n f) m < v"
    and "\<And>b. b < m \<Longrightarrow> double_bit n g b = (b = v - 1 \<and> v \<le> l)" and "l = m"
  shows "highest (double_bit n (\<lambda>i. f i OR g i)) m = (if v \<le> l then v else highest (double_bit n f) m)"
proof -
  have or: "double_bit n (\<lambda>i. f i OR g i) b = (double_bit n f b \<or> double_bit n g b)" for b
    by (auto simp: double_bit_def bit_or_iff)
  show ?thesis
  proof (cases "v \<le> l")
    case True
    then have "highest (double_bit n (\<lambda>i. f i OR g i)) m = highest (\<lambda>b. double_bit n f b \<or> b = v - 1) m"
      using assms(2) by (intro highest_cong) (simp add: or)
    with highest_insert [OF assms(1)] True assms(3) show ?thesis by simp
  next
    case False
    then have "highest (double_bit n (\<lambda>i. f i OR g i)) m = highest (double_bit n f) m"
      using assms(2) by (intro highest_cong) (simp add: or)
    with False show ?thesis by simp
  qed
qed

lemma set_app_view:
  assumes dev: "efuse_dev wl rl io view" and u: "unlocked wl rl" and h: "polls (view h) = 0"
  obtains ret h' where "bflb_set_app_version_to_efuse io v h = Some (ret, h')" "polls (view h') = 0"
    "(ret, app_version (fuses (view h'))) = counter_set 128 (unat v) (app_version (fuses (view h)))"
    "enabled (fuses (view h'))" "boot2_version (fuses (view h')) = boot2_version (fuses (view h))"
proof -
  obtain h1 where s: "set_enable io h = Some h1" "polls (view h1) = 0"
      "fuses (view h1) = (fuses (view h))(31 := fuses (view h) 31 OR push_bit 12 1)"
    using set_enable_view [OF dev u h] .
  have en: "enabled (fuses (view h1))" by (simp add: s(3) enabled_def bit_or_iff)
  obtain old h2 where g: "bflb_get_app_version_from_efuse io (Some 0) h1 = Some (0, Some old, h2)"
      "unat old = app_version (fuses (view h1))" "view h2 = load_view rl (view h1)"
    using get_app_view [OF dev u s(2) en] .
  have same: "app_version (fuses (view h1)) = app_version (fuses (view h))"
    "boot2_version (fuses (view h1)) = boot2_version (fuses (view h))"
    unfolding s(3) by (auto intro: app_version_cong boot2_version_cong)
  let ?c = "app_version (fuses (view h))"
  show ?thesis
  proof (cases "old < v")
    case False
    then have "bflb_set_app_version_to_efuse io v h = Some (if unat v < ?c then 1 else 0, h2)"
      using g(2) by (auto simp: bflb_set_app_version_to_efuse_def s(1) g(1) same word_less_nat_alt word_unat_eq_iff)
    moreover have "unat v \<le> ?c" using False g(2) by (simp add: word_less_nat_alt same)
    ultimately show ?thesis
      using en s(2) by (intro that [of "if unat v < ?c then 1 else 0" h2]) (auto simp: g(3) same counter_set_def)
  next
    case True
    let ?ws = "app_version_words v"
    have len: "length ?ws = 8" by (simp add: app_version_words_def Let_def)
    have "polls (view h2) = 0" using s(2) by (simp add: g(3))
    from write_direct_view [OF dev this, of 96 ?ws 1] obtain h3 where
      w: "bflb_ef_ctrl_write_direct io (of_nat (4 * 96)) (Some ?ws) (of_nat 8) 1 h2 = Some h3"
        "view h3 = burn_view wl ((view h2)\<lparr>regs := overwrite (regs (view h2)) 96 ?ws\<rparr>)"
      by (auto simp: len)
    have f: "fuses (view h3) i = (if 96 \<le> i \<and> i < 104 then fuses (view h1) i OR ?ws ! (i - 96) else fuses (view h1) i)" for i
      using burn_loaded [of "view h2" rl wl 96 ?ws i] u unfolding w(2)
      by (auto simp: g(3) len unlocked_def)
    have "0 < v" using True by (rule le_less_trans [OF word_zero_le])
    then have bits: "b < 128 \<Longrightarrow> double_bit 4 ((!) ?ws) b = (b = unat v - 1 \<and> unat v \<le> 128)" for b
      using app_version_words_bit [of v b] by (simp add: word_le_nat_alt)
    have "app_version (fuses (view h3)) = highest (double_bit 4 (\<lambda>i. fuses (view h1) (96 + i) OR ?ws ! i)) 128"
      unfolding app_version_def
    proof (rule highest_cong)
      fix b :: nat
      assume "b < 128"
      then have "b div 32 < 4" by (simp add: less_mult_imp_div_less)
      then show "double_bit 4 (\<lambda>i. fuses (view h3) (96 + i)) b = double_bit 4 (\<lambda>i. fuses (view h1) (96 + i) OR ?ws ! i) b"
        by (simp add: f double_bit_def)
    qed
    also have "\<dots> = (if unat v \<le> 128 then unat v else app_version (fuses (view h1)))"
      using True g(2) bits unfolding app_version_def
      by (intro highest_double_or) (simp_all add: word_less_nat_alt app_version_def)
    finally have "(0, app_version (fuses (view h3))) = counter_set 128 (unat v) ?c"
      using True g(2) same by (simp add: counter_set_def word_less_nat_alt)
    moreover have "bflb_set_app_version_to_efuse io v h = Some (0, h3)"
      using True w(1) [folded offsets(3)] by (auto simp: bflb_set_app_version_to_efuse_def s(1) g(1))
    moreover have "polls (view h3) = 0" using s(2) by (simp add: w(2) g(3))
    moreover have "enabled (fuses (view h3))" using en by (simp add: enabled_def f)
    moreover have "boot2_version (fuses (view h3)) = boot2_version (fuses (view h))"
      unfolding same(2) [symmetric] by (rule boot2_version_cong) (simp add: f)
    ultimately show ?thesis by (intro that [of 0 h3])
  qed
qed

lemma set_boot2_view:
  assumes dev: "efuse_dev wl rl io view" and u: "unlocked wl rl" and h: "polls (view h) = 0"
  obtains ret h' where "bflb_set_boot2_version_to_efuse io v h = Some (ret, h')" "polls (view h') = 0"
    "(ret, boot2_version (fuses (view h'))) = counter_set 64 (unat v) (boot2_version (fuses (view h)))"
    "enabled (fuses (view h'))" "app_version (fuses (view h')) = app_version (fuses (view h))"
proof -
  obtain h1 where s: "set_enable io h = Some h1" "polls (view h1) = 0"
      "fuses (view h1) = (fuses (view h))(31 := fuses (view h) 31 OR push_bit 12 1)"
    using set_enable_view [OF dev u h] .
  have en: "enabled (fuses (view h1))" by (simp add: s(3) enabled_def bit_or_iff)
  obtain old h2 where g: "bflb_get_boot2_version_from_efuse io (Some 0) h1 = Some (0, Some old, h2)"
      "unat old = boot2_version (fuses (view h1))" "view h2 = load_view rl (view h1)"
    using get_boot2_view [OF dev u s(2) en] .
  have same: "boot2_version (fuses (view h1)) = boot2_version (fuses (view h))"
    "app_version (fuses (view h1)) = app_version (fuses (view h))"
    unfolding s(3) by (auto intro: boot2_version_cong app_version_cong)
  let ?c = "boot2_version (fuses (view h))"
  show ?thesis
  proof (cases "old < v")
    case False
    then have "bflb_set_boot2_version_to_efuse io v h = Some (if unat v < ?c then 1 else 0, h2)"
      using g(2) by (auto simp: bflb_set_boot2_version_to_efuse_def s(1) g(1) same word_less_nat_alt word_unat_eq_iff)
    moreover have "unat v \<le> ?c" using False g(2) by (simp add: word_less_nat_alt same)
    ultimately show ?thesis
      using en s(2) by (intro that [of "if unat v < ?c then 1 else 0" h2]) (auto simp: g(3) same counter_set_def)
  next
    case True
    let ?ws = "boot2_version_words v"
    have len: "length ?ws = 4" by (simp add: boot2_version_words_def Let_def)
    have "polls (view h2) = 0" using s(2) by (simp add: g(3))
    from write_direct_view [OF dev this, of 92 ?ws 1] obtain h3 where
      w: "bflb_ef_ctrl_write_direct io (of_nat (4 * 92)) (Some ?ws) (of_nat 4) 1 h2 = Some h3"
        "view h3 = burn_view wl ((view h2)\<lparr>regs := overwrite (regs (view h2)) 92 ?ws\<rparr>)"
      by (auto simp: len)
    have f: "fuses (view h3) i = (if 92 \<le> i \<and> i < 96 then fuses (view h1) i OR ?ws ! (i - 92) else fuses (view h1) i)" for i
      using burn_loaded [of "view h2" rl wl 92 ?ws i] u unfolding w(2)
      by (auto simp: g(3) len unlocked_def)
    have "0 < v" using True by (rule le_less_trans [OF word_zero_le])
    then have bits: "b < 64 \<Longrightarrow> double_bit 2 ((!) ?ws) b = (b = unat v - 1 \<and> unat v \<le> 64)" for b
      using boot2_version_words_bit [of v b] by (simp add: word_le_nat_alt)
    have "boot2_version (fuses (view h3)) = highest (double_bit 2 (\<lambda>i. fuses (view h1) (92 + i) OR ?ws ! i)) 64"
      unfolding boot2_version_def
    proof (rule highest_cong)
      fix b :: nat
      assume "b < 64"
      then have "b div 32 < 2" by (simp add: less_mult_imp_div_less)
      then show "double_bit 2 (\<lambda>i. fuses (view h3) (92 + i)) b = double_bit 2 (\<lambda>i. fuses (view h1) (92 + i) OR ?ws ! i) b"
        by (simp add: f double_bit_def)
    qed
    also have "\<dots> = (if unat v \<le> 64 then unat v else boot2_version (fuses (view h1)))"
      using True g(2) bits unfolding boot2_version_def
      by (intro highest_double_or) (simp_all add: word_less_nat_alt boot2_version_def)
    finally have "(0, boot2_version (fuses (view h3))) = counter_set 64 (unat v) ?c"
      using True g(2) same by (simp add: counter_set_def word_less_nat_alt)
    moreover have "bflb_set_boot2_version_to_efuse io v h = Some (0, h3)"
      using True w(1) [folded offsets(2)] by (auto simp: bflb_set_boot2_version_to_efuse_def s(1) g(1))
    moreover have "polls (view h3) = 0" using s(2) by (simp add: w(2) g(3))
    moreover have "enabled (fuses (view h3))" using en by (simp add: enabled_def f)
    moreover have "app_version (fuses (view h3)) = app_version (fuses (view h))"
      unfolding same(2) [symmetric] by (rule app_version_cong) (simp add: f)
    ultimately show ?thesis by (intro that [of 0 h3])
  qed
qed

section \<open>Histories\<close>

datatype version_op = Set_App u8 | Set_Boot2 u8

fun run_op :: "'h mmio \<Rightarrow> version_op \<Rightarrow> 'h \<Rightarrow> (int \<times> 'h) option" where
  "run_op io (Set_App v) h = bflb_set_app_version_to_efuse io v h"
| "run_op io (Set_Boot2 v) h = bflb_set_boot2_version_to_efuse io v h"

fun run_ops :: "'h mmio \<Rightarrow> version_op list \<Rightarrow> 'h \<Rightarrow> (int list \<times> 'h) option" where
  "run_ops io [] h = Some ([], h)"
| "run_ops io (op # ops) h =
     do { (r, h) \<leftarrow> run_op io op h; (rs, h) \<leftarrow> run_ops io ops h; Some (r # rs, h) }"

fun spec_op :: "version_op \<Rightarrow> nat \<times> nat \<Rightarrow> int \<times> nat \<times> nat" where
  "spec_op (Set_App v) (a, b) = (let (r, a) = counter_set 128 (unat v) a in (r, a, b))"
| "spec_op (Set_Boot2 v) (a, b) = (let (r, b) = counter_set 64 (unat v) b in (r, a, b))"

fun spec_ops :: "version_op list \<Rightarrow> nat \<times> nat \<Rightarrow> int list \<times> nat \<times> nat" where
  "spec_ops [] c = ([], c)"
| "spec_ops (op # ops) c = (let (r, c) = spec_op op c; (rs, c) = spec_ops ops c in (r # rs, c))"

definition versions :: "efuse_view \<Rightarrow> nat \<times> nat" where
  "versions v = (app_version (fuses v), boot2_version (fuses v))"

lemma run_op_spec:
  assumes "efuse_dev wl rl io view" and "unlocked wl rl" and "polls (view h) = 0"
  obtains r h' where "run_op io op h = Some (r, h')" "polls (view h') = 0" "enabled (fuses (view h'))"
    "(r, versions (view h')) = spec_op op (versions (view h))"
proof (cases op)
  case (Set_App v)
  obtain r h' where "bflb_set_app_version_to_efuse io v h = Some (r, h')" "polls (view h') = 0"
    "(r, app_version (fuses (view h'))) = counter_set 128 (unat v) (app_version (fuses (view h)))"
    "enabled (fuses (view h'))" "boot2_version (fuses (view h')) = boot2_version (fuses (view h))"
    using set_app_view [OF assms] .
  with Set_App show ?thesis by (intro that) (auto simp: versions_def simp flip: \<open>_ = counter_set _ _ _\<close>)
next
  case (Set_Boot2 v)
  obtain r h' where "bflb_set_boot2_version_to_efuse io v h = Some (r, h')" "polls (view h') = 0"
    "(r, boot2_version (fuses (view h'))) = counter_set 64 (unat v) (boot2_version (fuses (view h)))"
    "enabled (fuses (view h'))" "app_version (fuses (view h')) = app_version (fuses (view h))"
    using set_boot2_view [OF assms] .
  with Set_Boot2 show ?thesis by (intro that) (auto simp: versions_def simp flip: \<open>_ = counter_set _ _ _\<close>)
qed

lemma run_ops_spec:
  assumes dev: "efuse_dev wl rl io view" and u: "unlocked wl rl"
  shows "polls (view h) = 0 \<Longrightarrow>
    \<exists>rs h'. run_ops io ops h = Some (rs, h') \<and> polls (view h') = 0 \<and> (ops \<noteq> [] \<longrightarrow> enabled (fuses (view h'))) \<and>
      (rs, versions (view h')) = spec_ops ops (versions (view h))"
proof (induction ops arbitrary: h)
  case (Cons op ops)
  obtain r h1 where o: "run_op io op h = Some (r, h1)" "polls (view h1) = 0" "enabled (fuses (view h1))"
    "(r, versions (view h1)) = spec_op op (versions (view h))"
    using run_op_spec [OF dev u Cons.prems] .
  from Cons.IH [OF o(2)] obtain rs h' where
    "run_ops io ops h1 = Some (rs, h')" "polls (view h') = 0" "ops \<noteq> [] \<longrightarrow> enabled (fuses (view h'))"
    "(rs, versions (view h')) = spec_ops ops (versions (view h1))"
    by blast
  note r = this
  have "spec_ops (op # ops) (versions (view h)) = (r # rs, versions (view h'))"
    by (simp flip: o(4) r(4))
  moreover have "run_ops io (op # ops) h = Some (r # rs, h')" by (simp add: o(1) r(1))
  moreover have "enabled (fuses (view h'))" using r(1,3) o(3) by (cases "ops = []") auto
  ultimately show ?case using r(2) by metis
qed simp

lemma get_versions:
  assumes "efuse_dev wl rl io view" and "unlocked wl rl" and "polls (view h) = 0" and "enabled (fuses (view h))"
  shows "\<exists>v w h1 h2. bflb_get_app_version_from_efuse io (Some x) h = Some (0, Some v, h1) \<and>
    bflb_get_boot2_version_from_efuse io (Some x) h = Some (0, Some w, h2) \<and> (unat v, unat w) = versions (view h)"
  using get_app_view [OF assms] get_boot2_view [OF assms] unfolding versions_def by metis

text \<open>
  C9: Whatever versions the application and the boot loader are set to, in any order, on a fuse
  controller that behaves as documented and whose words of the feature are not locked, no
  operation fails, and the results and the versions read at the end are those of two independent
  counters that start at the versions burnt so far: setting a smaller version is refused with 1
  and changes nothing, setting the same one succeeds, setting a greater one succeeds and is read
  back from then on, except that a version beyond the last fuse (128 or 64) is reported as a
  success and forgotten.
\<close>

theorem anti_rollback_counters:
  assumes "efuse_dev wl rl io view" and "unlocked wl rl" and "polls (view h) = 0" and "ops \<noteq> []"
  shows "\<exists>rs h' v w h1 h2. run_ops io ops h = Some (rs, h') \<and>
    bflb_get_app_version_from_efuse io (Some x) h' = Some (0, Some v, h1) \<and>
    bflb_get_boot2_version_from_efuse io (Some x) h' = Some (0, Some w, h2) \<and>
    (rs, unat v, unat w) = spec_ops ops (versions (view h))"
proof -
  obtain rs h' where r: "run_ops io ops h = Some (rs, h')" "polls (view h') = 0" "enabled (fuses (view h'))"
      "(rs, versions (view h')) = spec_ops ops (versions (view h))"
    using run_ops_spec [OF assms(1,2,3), of ops] assms(4) by blast
  from get_versions [OF assms(1,2) r(2,3), of x] r(1,4) show ?thesis by metis
qed

lemma blank_versions: "versions \<lparr>fuses = \<lambda>_. 0, regs = \<lambda>_. 0, polls = 0\<rparr> = (0, 0)"
  by (simp add: versions_def app_version_def boot2_version_def double_bit_def highest_none)

theorem anti_rollback_counters_witness:
  "\<exists>rs h' v w h1 h2.
     run_ops (efuse_sim 7) [Set_App 3, Set_Boot2 9, Set_App 2, Set_App 200, Set_App 40]
       \<lparr>fuses = \<lambda>_. 0, regs = \<lambda>_. 0, polls = 0\<rparr> = Some (rs, h') \<and>
     bflb_get_app_version_from_efuse (efuse_sim 7) (Some 0) h' = Some (0, Some v, h1) \<and>
     bflb_get_boot2_version_from_efuse (efuse_sim 7) (Some 0) h' = Some (0, Some w, h2) \<and>
     (rs, unat v, unat w) = ([0, 0, 1, 0, 0], 40, 9)"
proof -
  have "efuse_dev (\<lambda>_. False) (\<lambda>_. False) (efuse_sim 7) id"
    by (rule efuse_sim_dev) (simp add: EF_CTRL_DFT_TIMEOUT_VAL_def)
  from anti_rollback_counters [OF this, of "\<lparr>fuses = \<lambda>_. 0, regs = \<lambda>_. 0, polls = 0\<rparr>"
      "[Set_App 3, Set_Boot2 9, Set_App 2, Set_App 200, Set_App 40]" 0]
  show ?thesis by (simp add: unlocked_def blank_versions counter_set_def)
qed

end
