(* ===== verification/Bl616_Efuse.thy ===== *)
theory Bl616_Efuse
  imports Efuse_Device "HOL-Library.Sublist"
begin

text \<open>
  The fuses of the BL616, \<^verbatim>\<open>drivers/soc/bl616/std/src/bl616_ef_cfg.c\<close>: the table of trim values,
  the three slots for MAC addresses, the trim values of the ADC, the secure boot configuration and
  the lock bits.  The register words are those of
  \<^verbatim>\<open>drivers/soc/bl616/std/include/hardware/ef_data_reg.h\<close>.
\<close>

section \<open>The trim table\<close>

definition cfg :: "string \<Rightarrow> u16 \<Rightarrow> u16 \<Rightarrow> u16 \<Rightarrow> u16 \<Rightarrow> bflb_ef_ctrl_com_trim_cfg_t" where
  "cfg n e p v l = \<lparr>trim_name = n, en_addr = e, parity_addr = p, value_addr = v, value_len = l\<rparr>"

definition trim_list :: "bflb_ef_ctrl_com_trim_cfg_t list" where
  "trim_list = [
    cfg ''ldo15'' (0x68 * 8 + 31) (0x68 * 8 + 30) (0x68 * 8 + 27) 3,
    cfg ''iptat'' (0x74 * 8 + 31) (0x74 * 8 + 30) (0x68 * 8 + 22) 5,
    cfg ''icx'' (0x74 * 8 + 29) (0x74 * 8 + 28) (0x74 * 8 + 22) 6,
    cfg ''dcdc_trim'' (0x78 * 8 + 31) (0x78 * 8 + 30) (0x78 * 8 + 26) 4,
    cfg ''ldo18_sel'' (0x78 * 8 + 25) (0x78 * 8 + 24) (0x78 * 8 + 20) 4,
    cfg ''ldo18_trim'' (0x78 * 8 + 19) (0x78 * 8 + 18) (0x78 * 8 + 14) 4,
    cfg ''ldo33_trim'' (0x78 * 8 + 13) (0x78 * 8 + 12) (0x78 * 8 + 8) 4,
    cfg ''ldo11_tirm'' (0x78 * 8 + 7) (0x78 * 8 + 6) (0x78 * 8 + 2) 4,
    cfg ''rc32m'' (0x78 * 8 + 1) (0x78 * 8 + 0) (0x7C * 8 + 4) 8,
    cfg ''hp_poffset0'' (0xCC * 8 + 26) (0xC0 * 8 + 15) (0xC0 * 8 + 0) 15,
    cfg ''hp_poffset1'' (0xCC * 8 + 27) (0xC0 * 8 + 31) (0xC0 * 8 + 16) 15,
    cfg ''hp_poffset2'' (0xCC * 8 + 28) (0xC4 * 8 + 15) (0xC4 * 8 + 0) 15,
    cfg ''lp_poffset0'' (0xCC * 8 + 29) (0xC4 * 8 + 31) (0xC4 * 8 + 16) 15,
    cfg ''lp_poffset1'' (0xCC * 8 + 30) (0xC8 * 8 + 15) (0xC8 * 8 + 0) 15,
    cfg ''lp_poffset2'' (0xCC * 8 + 31) (0xC8 * 8 + 31) (0xC8 * 8 + 16) 15,
    cfg ''bz_poffset0'' (0xD0 * 8 + 26) (0xCC * 8 + 25) (0xCC * 8 + 0) 25,
    cfg ''bz_poffset1'' (0xD0 * 8 + 27) (0xD0 * 8 + 25) (0xD0 * 8 + 0) 25,
    cfg ''bz_poffset2'' (0xD0 * 8 + 28) (0xD4 * 8 + 25) (0xD4 * 8 + 0) 25,
    cfg ''tmp_mp0'' (0xD8 * 8 + 9) (0xD8 * 8 + 8) (0xD8 * 8 + 0) 8,
    cfg ''tmp_mp1'' (0xD8 * 8 + 19) (0xD8 * 8 + 18) (0xD8 * 8 + 10) 8,
    cfg ''tmp_mp2'' (0xD8 * 8 + 29) (0xD8 * 8 + 28) (0xD8 * 8 + 20) 8,
    cfg ''auadc_gain'' (0xDC * 8 + 25) (0xDC * 8 + 24) (0xDC * 8 + 0) 24,
    cfg ''auadc_offset'' (0xE0 * 8 + 25) (0xE0 * 8 + 24) (0xE0 * 8 + 0) 24,
    cfg ''psram_trim'' (0xE8 * 8 + 12) (0xE8 * 8 + 11) (0xE8 * 8 + 0) 11,
    cfg ''rc32k'' (0xEC * 8 + 19) (0xEC * 8 + 18) (0xEC * 8 + 8) 10,
    cfg ''xtal0'' (0xEC * 8 + 7) (0xEC * 8 + 6) (0xEC * 8 + 0) 6,
    cfg ''xtal1'' (0xF0 * 8 + 31) (0xF0 * 8 + 30) (0xF4 * 8 + 26) 6,
    cfg ''xtal2'' (0xF0 * 8 + 29) (0xF0 * 8 + 28) (0xF4 * 8 + 20) 6,
    cfg ''gpadc_gain'' (0xF0 * 8 + 27) (0xF0 * 8 + 26) (0xF0 * 8 + 14) 12,
    cfg ''tsen'' (0xF0 * 8 + 13) (0xF0 * 8 + 12) (0xF0 * 8 + 0) 12,
    cfg ''dcdc_dis'' (0xF4 * 8 + 19) (0xF4 * 8 + 18) (0xF4 * 8 + 17) 1,
    cfg ''dcdc_vout'' (0xF4 * 8 + 16) (0xF4 * 8 + 15) (0xF4 * 8 + 10) 5,
    cfg ''ldo18_bypass'' (0xF4 * 8 + 9) (0xF4 * 8 + 8) (0xF4 * 8 + 4) 1,
    cfg ''usb20'' (0xF8 * 8 + 15) (0xF8 * 8 + 14) (0xF8 * 8 + 8) 6]"

definition bflb_ef_ctrl_get_common_trim_list :: "bflb_ef_ctrl_com_trim_cfg_t list \<times> nat" where
  "bflb_ef_ctrl_get_common_trim_list = (trim_list, length trim_list)"

section \<open>Reading and writing single words\<close>

text \<open>The initial contents of the local variable that is read into.\<close>

definition read_word :: "'h mmio \<Rightarrow> u32 \<Rightarrow> u32 \<Rightarrow> u8 \<Rightarrow> 'h \<Rightarrow> (u32 \<times> 'h) option" where
  "read_word io offset tmpval reload h =
     do { (ws, h) \<leftarrow> bflb_ef_ctrl_read_direct io offset (Some [tmpval]) 1 reload h; Some (ws ! 0, h) }"

definition write_word :: "'h mmio \<Rightarrow> u32 \<Rightarrow> u32 \<Rightarrow> u8 \<Rightarrow> 'h \<Rightarrow> 'h option" where
  "write_word io offset tmpval program h = bflb_ef_ctrl_write_direct io offset (Some [tmpval]) 1 program h"

section \<open>MAC addresses\<close>

definition EF_DATA_EF_WIFI_MAC_LOW_OFFSET :: u32 where "EF_DATA_EF_WIFI_MAC_LOW_OFFSET = 0x14"
definition EF_DATA_EF_WIFI_MAC_HIGH_OFFSET :: u32 where "EF_DATA_EF_WIFI_MAC_HIGH_OFFSET = 0x18"
definition EF_DATA_EF_SW_USAGE_2_OFFSET :: u32 where "EF_DATA_EF_SW_USAGE_2_OFFSET = 0x64"
definition EF_DATA_EF_SW_USAGE_3_OFFSET :: u32 where "EF_DATA_EF_SW_USAGE_3_OFFSET = 0x68"
definition EF_DATA_EF_KEY_SLOT_11_W1_OFFSET :: u32 where "EF_DATA_EF_KEY_SLOT_11_W1_OFFSET = 0x70"
definition EF_DATA_EF_KEY_SLOT_11_W2_OFFSET :: u32 where "EF_DATA_EF_KEY_SLOT_11_W2_OFFSET = 0x74"

text \<open>The words of a slot; a slot beyond 2 selects none.\<close>

definition slot_low :: "u8 \<Rightarrow> u32 option" where
  "slot_low slot =
     (if slot = 0 then Some EF_DATA_EF_WIFI_MAC_LOW_OFFSET
      else if slot = 1 then Some EF_DATA_EF_SW_USAGE_2_OFFSET
      else if slot = 2 then Some EF_DATA_EF_KEY_SLOT_11_W1_OFFSET else None)"

definition slot_high :: "u8 \<Rightarrow> u32 option" where
  "slot_high slot =
     (if slot = 0 then Some EF_DATA_EF_WIFI_MAC_HIGH_OFFSET
      else if slot = 1 then Some EF_DATA_EF_SW_USAGE_3_OFFSET
      else if slot = 2 then Some EF_DATA_EF_KEY_SLOT_11_W2_OFFSET else None)"

definition read_slot :: "'h mmio \<Rightarrow> u32 option \<Rightarrow> u32 \<Rightarrow> u8 \<Rightarrow> 'h \<Rightarrow> (u32 \<times> 'h) option" where
  "read_slot io offset tmpval reload h =
     (case offset of None \<Rightarrow> Some (tmpval, h) | Some offset \<Rightarrow> read_word io offset tmpval reload h)"

definition write_slot :: "'h mmio \<Rightarrow> u32 option \<Rightarrow> u32 \<Rightarrow> u8 \<Rightarrow> 'h \<Rightarrow> 'h option" where
  "write_slot io offset tmpval program h =
     (case offset of None \<Rightarrow> Some h | Some offset \<Rightarrow> write_word io offset tmpval program h)"

definition bflb_efuse_is_mac_address_slot_empty :: "'h mmio \<Rightarrow> u8 \<Rightarrow> u8 \<Rightarrow> 'h \<Rightarrow> (u8 \<times> 'h) option" where
  "bflb_efuse_is_mac_address_slot_empty io slot reload h = do {
     (tmp1, h) \<leftarrow> read_slot io (slot_low slot) 0xffffffff reload h;
     (tmp2, h) \<leftarrow> read_slot io (slot_high slot) 0xffffffff reload h;
     let part1Empty = bflb_ef_ctrl_is_all_bits_zero tmp1 0 32;
     let part2Empty = bflb_ef_ctrl_is_all_bits_zero tmp2 0 22;
     Some (if part1Empty \<noteq> 0 \<and> part2Empty \<noteq> 0 then 1 else 0, h)
   }"

text \<open>\<open>for (i = 0; i < 3; i++) { tmpval = mac[i]; mac[i] = mac[5 - i]; mac[5 - i] = tmpval; }\<close>\<close>

fun swap_mac :: "nat \<Rightarrow> nat \<Rightarrow> bytes \<Rightarrow> bytes" where
  "swap_mac i 0 mac = mac"
| "swap_mac i (Suc left) mac = swap_mac (Suc i) left (mac[i := mac ! (5 - i), 5 - i := mac ! i])"

fun mac_zero_cnt :: "bytes \<Rightarrow> nat \<Rightarrow> nat \<Rightarrow> u32 \<Rightarrow> u32" where
  "mac_zero_cnt mac i 0 cnt = cnt"
| "mac_zero_cnt mac i (Suc left) cnt = mac_zero_cnt mac (Suc i) left (cnt + bflb_ef_ctrl_get_byte_zero_cnt (mac ! i))"

definition BL_RDWD_FRM_BYTEP :: "bytes \<Rightarrow> u32" where
  "BL_RDWD_FRM_BYTEP p = push_bit 24 (ucast (p ! 3)) OR push_bit 16 (ucast (p ! 2)) OR push_bit 8 (ucast (p ! 1)) OR ucast (p ! 0)"

definition BL_WRWD_TO_BYTEP :: "bytes \<Rightarrow> u32 \<Rightarrow> bytes" where
  "BL_WRWD_TO_BYTEP p val =
     p[0 := ucast (val AND 0xff), 1 := ucast (drop_bit 8 val AND 0xff), 2 := ucast (drop_bit 16 val AND 0xff),
       3 := ucast (drop_bit 24 val AND 0xff)]"

text \<open>Both return the buffer of the caller, 6 bytes, as they leave it.\<close>

definition bflb_efuse_write_mac_address_opt :: "'h mmio \<Rightarrow> u8 \<Rightarrow> bytes \<Rightarrow> u8 \<Rightarrow> 'h \<Rightarrow> (int \<times> bytes \<times> 'h) option" where
  "bflb_efuse_write_mac_address_opt io slot mac program h =
     (if slot \<ge> 3 then Some (-1, mac, h)
      else do {
        let mac = swap_mac 0 3 mac;
        h \<leftarrow> write_slot io (slot_low slot) (BL_RDWD_FRM_BYTEP mac) program h;
        let tmpval = ucast (mac ! 4) + push_bit 8 (ucast (mac ! 5));
        let cnt = mac_zero_cnt mac 0 6 0;
        let tmpval = tmpval OR push_bit 16 (cnt AND 0x3f);
        h \<leftarrow> write_slot io (slot_high slot) tmpval program h;
        Some (0, mac, h)
      })"

definition bflb_efuse_read_mac_address_opt :: "'h mmio \<Rightarrow> u8 \<Rightarrow> bytes \<Rightarrow> u8 \<Rightarrow> 'h \<Rightarrow> (int \<times> bytes \<times> 'h) option" where
  "bflb_efuse_read_mac_address_opt io slot mac reload h =
     (if slot \<ge> 3 then Some (-1, mac, h)
      else do {
        (tmpval, h) \<leftarrow> read_slot io (slot_low slot) 0 reload h;
        let mac = BL_WRWD_TO_BYTEP mac tmpval;
        (tmpval, h) \<leftarrow> read_slot io (slot_high slot) tmpval reload h;
        let mac = mac[4 := ucast (tmpval AND 0xff), 5 := ucast (drop_bit 8 tmpval AND 0xff)];
        let cnt = mac_zero_cnt mac 0 6 0;
        if cnt AND 0x3f = drop_bit 16 tmpval AND 0x3f then Some (0, swap_mac 0 3 mac, h)
        else Some (-1, mac, h)
      })"

definition bflb_efuse_get_chipid :: "'h mmio \<Rightarrow> bytes \<Rightarrow> 'h \<Rightarrow> (int \<times> bytes \<times> 'h) option" where
  "bflb_efuse_get_chipid io chipid h =
     (let chipid = chipid[6 := 0, 7 := 0] in
      do {
        (ret, mac, h) \<leftarrow> bflb_efuse_read_mac_address_opt io 0 (take 6 chipid) 1 h;
        Some (ret, mac @ drop 6 chipid, h)
      })"

section \<open>Configuration and locks\<close>

definition bflb_efuse_get_adc_tsen_trim :: "'h mmio \<Rightarrow> bflb_ef_ctrl_com_trim_t \<Rightarrow> 'h \<Rightarrow> (u32 \<times> 'h) option" where
  "bflb_efuse_get_adc_tsen_trim io trim h = do {
     (trim, h) \<leftarrow> bflb_ef_ctrl_read_common_trim io trim_list (c_string ''tsen'') trim 1 h;
     if en trim \<noteq> 0 then do {
       p \<leftarrow> bflb_ef_ctrl_get_trim_parity (trim_value trim) (trim_len trim);
       Some (if parity trim = p then trim_value trim else 2042, h)
     } else Some (2042, h)
   }"

definition bflb_efuse_read_secure_boot :: "'h mmio \<Rightarrow> 'h \<Rightarrow> (u8 \<times> u8 \<times> 'h) option" where
  "bflb_efuse_read_secure_boot io h = do {
     (tmpval, h) \<leftarrow> read_word io 0x0 0 1 h;
     let sign = drop_bit 7 (tmpval AND push_bit 7 (push_bit 1 1 - 1)) AND 0x01;
     let aes = drop_bit 0 (tmpval AND push_bit 0 (push_bit 2 1 - 1));
     Some (ucast sign, ucast aes, h)
   }"

definition bflb_efuse_enable_aes :: "'h mmio \<Rightarrow> u8 \<Rightarrow> u8 \<Rightarrow> 'h \<Rightarrow> (int \<times> 'h) option" where
  "bflb_efuse_enable_aes io aes_type xts_mode h =
     (let tmpval = ucast aes_type;
        tmpval = (if xts_mode \<noteq> 0 then tmpval OR push_bit 2 (ucast xts_mode) else tmpval)
      in do { h \<leftarrow> write_word io 0x00 tmpval 1 h; Some (0, h) })"

definition lock_bits :: "u8 \<Rightarrow> u8 \<Rightarrow> nat \<Rightarrow> nat \<Rightarrow> u32" where
  "lock_bits rd_lock wr_lock rd wr =
     (if wr_lock \<noteq> 0 then push_bit wr 1 else 0) OR (if rd_lock \<noteq> 0 then push_bit rd 1 else 0)"

definition bflb_efuse_rw_lock_aes_key :: "'h mmio \<Rightarrow> u8 \<Rightarrow> u8 \<Rightarrow> u8 \<Rightarrow> 'h \<Rightarrow> (int \<times> 'h) option" where
  "bflb_efuse_rw_lock_aes_key io key_index rd_lock wr_lock h = do {
     h \<leftarrow> (if key_index = 0 then write_word io 0x7C (lock_bits rd_lock wr_lock 29 19) 1 h
          else if key_index = 1 then write_word io 0x7C (lock_bits rd_lock wr_lock 30 20) 1 h
          else if key_index = 2 then write_word io 0xFC (lock_bits rd_lock wr_lock 25 15) 1 h
          else if key_index = 3 then write_word io 0xFC (lock_bits rd_lock wr_lock 26 16) 1 h
          else Some h);
     Some (0, h)
   }"

definition bflb_efuse_rw_lock_dbg_key :: "'h mmio \<Rightarrow> u8 \<Rightarrow> u8 \<Rightarrow> 'h \<Rightarrow> (int \<times> 'h) option" where
  "bflb_efuse_rw_lock_dbg_key io rd_lock wr_lock h =
     do { h \<leftarrow> write_word io 0x7C (lock_bits rd_lock wr_lock 26 15) 1 h; Some (0, h) }"

definition bflb_efuse_write_lock_pk_hash :: "'h mmio \<Rightarrow> u32 \<Rightarrow> 'h \<Rightarrow> (int \<times> 'h) option" where
  "bflb_efuse_write_lock_pk_hash io pkhash_len h =
     do {
       h \<leftarrow> write_word io 0x7C (if pkhash_len = 256 then push_bit 17 1 OR push_bit 18 1 else push_bit 17 1) 1 h;
       Some (0, h)
     }"

section \<open>Fields of the fuses\<close>

text \<open>Fuse \<open>a\<close> of the device, as it is seen through the data registers.\<close>

definition fuse :: "(nat \<Rightarrow> u32) \<Rightarrow> nat \<Rightarrow> bool" where
  "fuse f a = bit (f (a div 32)) (a mod 32)"

definition or_word :: "(nat \<Rightarrow> u32) \<Rightarrow> nat \<Rightarrow> u32 \<Rightarrow> nat \<Rightarrow> u32" where
  "or_word f i v = f(i := f i OR v)"

lemma or_word_zero [simp]: "or_word f i 0 = f"
  by (simp add: or_word_def)

definition addr_word :: "u16 \<Rightarrow> nat" where "addr_word a = unat a div 32"
definition addr_bit :: "u16 \<Rightarrow> nat" where "addr_bit a = unat a mod 32"

lemma addr_bit_eq: "unat (a mod 32) = addr_bit a" for a :: u16
  by (simp add: addr_bit_def unat_mod)

lemma addr_bit_less: "addr_bit a < 32"
  by (simp add: addr_bit_def)

lemma word_of_bit_eq: "word_of_bit a = data_reg (addr_word a)"
proof -
  have "of_nat (unat (a div 32)) = (ucast (a div 32) :: u32)" by (rule of_nat_unat)
  then have "(ucast (a div 32) :: u32) = of_nat (unat a div 32)" by (simp add: unat_div)
  then show ?thesis by (simp add: word_of_bit_def data_reg_def addr_word_def mult.commute)
qed

section \<open>Names\<close>

lemma unat_of_char: "unat (of_char c :: u8) = of_char c"
proof -
  have "(of_char c :: nat) < 256" by (metis of_char_mod_256 mod_less_divisor zero_less_numeral)
  then have "unat (of_nat (of_char c) :: u8) = of_char c" by (intro unat_of_nat_small) simp
  then show ?thesis by (simp only: of_nat_of_char)
qed

lemma of_char_eq: "(of_char a :: u8) = of_char b \<longleftrightarrow> a = b"
  by (metis unat_of_char of_char_eq_iff)

lemma of_char_zero: "(of_char a :: u8) = 0 \<longleftrightarrow> a = CHR 0x00"
  using of_char_eq [of a "CHR 0x00"] by simp

lemma strlen_c_string: "CHR 0x00 \<notin> set s \<Longrightarrow> bflb_ef_ctrl_strlen (c_string s) = Some (length s)"
  unfolding c_string_def by (induction s) (auto simp: of_char_zero)

lemma memcmp_c_string:
  "CHR 0x00 \<notin> set s \<Longrightarrow> \<exists>d. memcmp_loop (c_string s) (c_string t) (length s) = Some d \<and> (d = 0) = prefix s t"
proof (induction s arbitrary: t)
  case (Cons a s)
  then have a: "(of_char a :: u8) \<noteq> 0" using of_char_zero [of a] by auto
  show ?case
  proof (cases t)
    case Nil
    with a show ?thesis by (simp add: c_string_def Let_def uint_0_iff)
  next
    case (Cons b t')
    then show ?thesis
      using Cons.IH [of t'] Cons.prems of_char_eq [of a b, unfolded word_uint_eq_iff] by (auto simp: c_string_def Let_def)
  qed
qed (simp add: c_string_def)

fun find_prefix :: "string \<Rightarrow> bflb_ef_ctrl_com_trim_cfg_t list \<Rightarrow> bflb_ef_ctrl_com_trim_cfg_t option" where
  "find_prefix s [] = None"
| "find_prefix s (c # cl) = (if prefix s (trim_name c) then Some c else find_prefix s cl)"

text \<open>A trim value is looked up by a prefix of its name; the first one is found.\<close>

lemma find_trim_prefix:
  assumes "CHR 0x00 \<notin> set s" and "length s < 2 ^ 32"
  shows "find_trim (c_string s) cl = Some (find_prefix s cl)"
proof (induction cl)
  case (Cons c cl)
  have "unat (of_nat (length s) :: u32) = length s" using assms(2) by (intro unat_of_nat_small) simp
  with memcmp_c_string [OF assms(1), of "trim_name c"] Cons show ?case
    by (auto simp: strlen_c_string [OF assms(1)] arch_memcmp_def)
qed simp

text \<open>What the table promises: no name is a prefix of another, and the fields of an entry are disjoint and within words.\<close>

definition trim_sane :: "bflb_ef_ctrl_com_trim_cfg_t \<Rightarrow> bool" where
  "trim_sane c = (let v = unat (value_addr c); l = unat (value_len c); e = unat (en_addr c); p = unat (parity_addr c) in
     v mod 32 + l \<le> 32 \<and> l < 32 \<and> e < 4096 \<and> p < 4096 \<and> v < 4096 \<and> e \<noteq> p \<and> \<not> (v \<le> e \<and> e < v + l) \<and> \<not> (v \<le> p \<and> p < v + l))"

lemma trim_table: "list_all (\<lambda>c. CHR 0x00 \<notin> set (trim_name c) \<and> length (trim_name c) < 32 \<and> find_prefix (trim_name c) trim_list = Some c) trim_list"
  unfolding trim_list_def cfg_def by simp

lemma trim_table_sane: "list_all trim_sane trim_list"
  unfolding trim_list_def cfg_def by (simp add: trim_sane_def)

section \<open>Writing and reading trim values\<close>

lemma addr_word_less: "unat a < 4096 \<Longrightarrow> addr_word a < 128"
  by (simp add: addr_word_def less_mult_imp_div_less)

lemma or_reg_view:
  assumes dev: "efuse_dev wl rl io view" and h: "polls (view h) = 0" and i: "i < 128"
  shows "view (or_reg io (data_reg i) v h) = (view h)\<lparr>regs := or_word (regs (view h)) i v\<rparr>"
proof -
  obtain h' where g: "getreg32 io (data_reg i) h = (regs (view h) i, h')" "view h' = view h"
    using get_data [OF dev h i] .
  have "polls (view h') = 0" using g(2) h by simp
  from put_data [OF dev this i, of "regs (view h) i OR v"] show ?thesis
    by (simp add: or_reg_def g or_word_def)
qed

lemma read_bit_view:
  assumes dev: "efuse_dev wl rl io view" and h: "polls (view h) = 0" and a: "unat a < 4096"
  obtains h' where "read_bit io a h = (if fuse (regs (view h)) (unat a) then 1 else 0, h')" "view h' = view h"
proof -
  obtain h' where g: "getreg32 io (data_reg (addr_word a)) h = (regs (view h) (addr_word a), h')" "view h' = view h"
    using get_data [OF dev h addr_word_less [OF a]] .
  have "read_bit io a h = (if fuse (regs (view h)) (unat a) then 1 else 0, h')"
    unfolding read_bit_def word_of_bit_eq addr_bit_eq g(1) Let_def prod.case busy_mask
    by (simp add: fuse_def addr_word_def addr_bit_def)
  with g(2) show ?thesis by (intro that)
qed

definition field :: "(nat \<Rightarrow> u32) \<Rightarrow> bflb_ef_ctrl_com_trim_cfg_t \<Rightarrow> u32" where
  "field f c = drop_bit (addr_bit (value_addr c)) (f (addr_word (value_addr c))) AND mask (unat (value_len c))"

lemma read_value_view:
  assumes dev: "efuse_dev wl rl io view" and h: "polls (view h) = 0" and c: "trim_sane c"
  obtains h' where "read_value io c h = Some (field (regs (view h)) c, h')" "view h' = view h"
proof -
  have s: "addr_bit (value_addr c) + unat (value_len c) \<le> 32" "unat (value_len c) < 32" "unat (value_addr c) < 4096"
    using c by (simp_all add: trim_sane_def Let_def addr_bit_def)
  let ?i = "addr_word (value_addr c)"
  obtain h' where g: "getreg32 io (data_reg ?i) h = (regs (view h) ?i, h')" "view h' = view h"
    using get_data [OF dev h addr_word_less [OF s(3)]] .
  have "read_value io c h = Some (field (regs (view h)) c, h')"
    unfolding read_value_def word_of_bit_eq addr_bit_eq Let_def g(1) prod.case field_def
    using s by (simp add: mask_eq_decr_exp)
  with g(2) show ?thesis by (intro that)
qed

lemma write_value_view:
  assumes dev: "efuse_dev wl rl io view" and h: "polls (view h) = 0" and c: "trim_sane c"
  shows "view (write_value io c v h) =
    (view h)\<lparr>regs := or_word (regs (view h)) (addr_word (value_addr c)) (push_bit (addr_bit (value_addr c)) v)\<rparr>"
proof -
  have s: "addr_bit (value_addr c) + unat (value_len c) \<le> 32" "unat (value_addr c) < 4096"
    using c by (simp_all add: trim_sane_def Let_def addr_bit_def)
  then show ?thesis
    using or_reg_view [OF dev h addr_word_less [OF s(2)]]
    by (simp add: write_value_def word_of_bit_eq addr_bit_eq Let_def)
qed

text \<open>The field of an entry after its bits were put into it, over whatever enable and parity bits.\<close>

definition or_trim :: "(nat \<Rightarrow> u32) \<Rightarrow> bflb_ef_ctrl_com_trim_cfg_t \<Rightarrow> u32 \<Rightarrow> u8 \<Rightarrow> nat \<Rightarrow> u32" where
  "or_trim f c v p =
     or_word (or_word (or_word f (addr_word (en_addr c)) (push_bit (addr_bit (en_addr c)) 1))
       (addr_word (parity_addr c)) (if p \<noteq> 0 then push_bit (addr_bit (parity_addr c)) 1 else 0))
       (addr_word (value_addr c)) (push_bit (addr_bit (value_addr c)) v)"

lemma fuse_or_word: "fuse (or_word f i v) a = (fuse f a \<or> a div 32 = i \<and> bit v (a mod 32))"
  by (auto simp: fuse_def or_word_def bit_or_iff)

lemma addr_split: "a div 32 = addr_word x \<Longrightarrow> a mod 32 = addr_bit x \<Longrightarrow> a = unat x"
  unfolding addr_word_def addr_bit_def by (metis mult_div_mod_eq)

lemma bit_single: "bit (push_bit (addr_bit x) (1 :: u32)) b = (b = addr_bit x)"
  using addr_bit_less [of x] by (auto simp: bit_push_bit_iff bit_1_iff simp del: push_bit_of_1)

lemma fuse_single: "fuse (or_word f (addr_word x) (push_bit (addr_bit x) 1)) a = (fuse f a \<or> a = unat x)"
  unfolding fuse_or_word bit_single using addr_split [of a x] by (auto simp: addr_word_def addr_bit_def)

lemma unat_bit_value: "l < 32 \<Longrightarrow> unat (push_bit l 1 :: u32) = 2 ^ l"
proof -
  assume l: "l < 32"
  have "(2 :: nat) ^ l < 2 ^ 32" using l by (intro power_strict_increasing) simp_all
  then have "unat (of_nat (2 ^ l) :: u32) = 2 ^ l" by (intro unat_of_nat_small) simp
  then show ?thesis by simp
qed

lemma small_bits: "v < push_bit l 1 \<Longrightarrow> l < 32 \<Longrightarrow> bit v b \<Longrightarrow> b < l" for v :: u32
proof (rule ccontr)
  assume v: "v < push_bit l 1" "l < 32" "bit v b" "\<not> b < l"
  have "unat v < 2 ^ l" using v(1) unfolding word_less_nat_alt unat_bit_value [OF v(2)] .
  then have "unat v < 2 ^ b" using v(4) by (meson le_less_trans not_less power_increasing one_le_numeral less_le_trans)
  then have "\<not> bit (unat v) b" by (simp add: bit_iff_odd)
  with v(3) show False by (simp add: bit_unsigned_iff bit_imp_le_length)
qed

lemma fuse_value:
  assumes c: "trim_sane c" and v: "v < push_bit (unat (value_len c)) 1"
  shows "fuse (or_word f (addr_word (value_addr c)) (push_bit (addr_bit (value_addr c)) v)) a =
    (fuse f a \<or> unat (value_addr c) \<le> a \<and> a < unat (value_addr c) + unat (value_len c) \<and> bit v (a - unat (value_addr c)))"
proof -
  let ?w = "addr_word (value_addr c)" and ?b = "addr_bit (value_addr c)" and ?l = "unat (value_len c)"
  have s: "?b + ?l \<le> 32" "?l < 32" using c by (simp_all add: trim_sane_def Let_def addr_bit_def)
  have va: "unat (value_addr c) = 32 * ?w + ?b" by (simp add: addr_word_def addr_bit_def)
  have a: "a = 32 * (a div 32) + a mod 32" "a mod 32 < 32" by simp_all
  have "(a div 32 = ?w \<and> bit (push_bit ?b v) (a mod 32)) =
      (32 * ?w + ?b \<le> a \<and> a < 32 * ?w + ?b + ?l \<and> bit v (a - (32 * ?w + ?b)))" (is "?L = ?R")
  proof
    assume L: ?L
    then have "?b \<le> a mod 32" "bit v (a mod 32 - ?b)" by (auto simp: bit_push_bit_iff)
    moreover have "a - (32 * ?w + ?b) = a mod 32 - ?b" using L a by linarith
    moreover have "a mod 32 - ?b < ?l" using small_bits [OF v s(2) \<open>bit v (a mod 32 - ?b)\<close>] .
    ultimately show ?R using L a by (metis add.assoc add_le_cancel_left add_less_cancel_left le_add_diff_inverse)
  next
    assume R: ?R
    then obtain k where k: "a = 32 * ?w + (?b + k)" "k < ?l" "bit v k"
      by (metis add.assoc add_less_cancel_left diff_add_inverse le_add_diff_inverse)
    then have "a div 32 = ?w" "a mod 32 = ?b + k" using s by simp_all
    with k show ?L by (simp add: bit_push_bit_iff)
  qed
  then show ?thesis unfolding fuse_or_word va by blast
qed

lemma fuse_or_trim:
  assumes c: "trim_sane c" and v: "v < push_bit (unat (value_len c)) 1"
  shows "fuse (or_trim f c v p) a =
    (fuse f a \<or> a = unat (en_addr c) \<or> p \<noteq> 0 \<and> a = unat (parity_addr c) \<or>
     unat (value_addr c) \<le> a \<and> a < unat (value_addr c) + unat (value_len c) \<and> bit v (a - unat (value_addr c)))"
  unfolding or_trim_def fuse_value [OF assms] by (auto simp: fuse_single simp del: push_bit_of_1)

lemma word_split: "b + k < 32 \<Longrightarrow> (32 * w + b + k) div 32 = w \<and> (32 * w + b + k) mod 32 = b + k" for b k w :: nat
proof -
  assume "b + k < 32"
  then have "(32 * w + (b + k)) div 32 = w \<and> (32 * w + (b + k)) mod 32 = b + k" by simp
  then show ?thesis by (simp only: add.assoc)
qed

lemma bit_field:
  assumes "trim_sane c"
  shows "bit (field f c) n = (n < unat (value_len c) \<and> fuse f (unat (value_addr c) + n))"
proof (cases "n < unat (value_len c)")
  case True
  have s: "addr_bit (value_addr c) + unat (value_len c) \<le> 32"
    using assms by (simp add: trim_sane_def Let_def addr_bit_def)
  have v: "unat (value_addr c) = 32 * addr_word (value_addr c) + addr_bit (value_addr c)"
    by (simp add: addr_word_def addr_bit_def)
  have "(unat (value_addr c) + n) div 32 = addr_word (value_addr c) \<and> (unat (value_addr c) + n) mod 32 = addr_bit (value_addr c) + n"
    unfolding v using True s by (intro word_split) simp
  with True show ?thesis
    using s by (auto simp: field_def fuse_def bit_and_iff bit_mask_iff bit_drop_bit_eq)
qed (simp add: field_def bit_and_iff bit_mask_iff)

lemma region0_trim: "unat a < 4096 \<Longrightarrow> (ucast a :: u32) < EF_CTRL_EFUSE_R0_SIZE * 8" for a :: u16
  by (simp add: EF_CTRL_EFUSE_R0_SIZE_def word_less_nat_alt unsigned_ucast_eq take_bit_nat_eq_self)

lemma write_trim_view:
  assumes dev: "efuse_dev wl rl io view" and h: "polls (view h) = 0" and c: "trim_sane c"
    and f: "find_trim name trims = Some (Some c)" and p: "bflb_ef_ctrl_get_trim_parity v (ucast (value_len c)) = Some p"
    and "program \<noteq> 0"
  obtains h' where "bflb_ef_ctrl_write_common_trim io trims name v program h = Some h'"
    "view h' = burn_view wl ((view h)\<lparr>regs := or_trim (regs (view h)) c v p\<rparr>)"
proof -
  have s: "unat (en_addr c) < 4096" "unat (parity_addr c) < 4096" using c by (simp_all add: trim_sane_def Let_def)
  define h1 where "h1 = bflb_ef_ctrl_switch_ahb_clk_r0 io h"
  have h1: "view h1 = view h" unfolding h1_def by (rule switch_view [OF dev h])
  define h2 where "h2 = or_reg io (word_of_bit (en_addr c)) (push_bit (unat (en_addr c mod 32)) 1) h1"
  have h2: "view h2 = (view h)\<lparr>regs := or_word (regs (view h)) (addr_word (en_addr c)) (push_bit (addr_bit (en_addr c)) 1)\<rparr>"
    using or_reg_view [OF dev _ addr_word_less [OF s(1)], of h1] h h1 unfolding h2_def word_of_bit_eq addr_bit_eq by simp
  define h3 where "h3 = (if p \<noteq> 0 then or_reg io (word_of_bit (parity_addr c)) (push_bit (unat (parity_addr c mod 32)) 1) h2 else h2)"
  have h3: "view h3 = (view h)\<lparr>regs := or_word (or_word (regs (view h)) (addr_word (en_addr c)) (push_bit (addr_bit (en_addr c)) 1))
      (addr_word (parity_addr c)) (if p \<noteq> 0 then push_bit (addr_bit (parity_addr c)) 1 else 0)\<rparr>"
    using or_reg_view [OF dev _ addr_word_less [OF s(2)], of h2] h h2 unfolding h3_def word_of_bit_eq addr_bit_eq by simp
  have h4: "view (write_value io c v h3) = (view h)\<lparr>regs := or_trim (regs (view h)) c v p\<rparr>"
    using write_value_view [OF dev _ c, of h3 v] h h3 unfolding or_trim_def by simp
  show ?thesis
  proof (rule that)
    show "bflb_ef_ctrl_write_common_trim io trims name v program h = Some (program_and_wait io (write_value io c v h3))"
      using region0_trim [OF s(1)] \<open>program \<noteq> 0\<close>
      by (simp add: bflb_ef_ctrl_write_common_trim_def f p h1_def h2_def h3_def)
    show "view (program_and_wait io (write_value io c v h3)) = burn_view wl ((view h)\<lparr>regs := or_trim (regs (view h)) c v p\<rparr>)"
      using program_view [OF dev, of "write_value io c v h3"] h unfolding h4 by simp
  qed
qed

lemma read_trim_view:
  assumes dev: "efuse_dev wl rl io view" and h: "polls (view h) = 0" and c: "trim_sane c"
    and f: "find_trim name trims = Some (Some c)" and "reload \<noteq> 0"
  obtains h' where "bflb_ef_ctrl_read_common_trim io trims name trim reload h = Some
    (let s = seen rl (view h); e = fuse s (unat (en_addr c)); p = fuse s (unat (parity_addr c)) in
      trim\<lparr>en := if e then 1 else 0, parity := if p then 1 else 0,
        trim_empty := if \<not> e \<and> \<not> p \<and> field s c = 0 then 1 else 0, trim_len := ucast (value_len c), trim_value := field s c\<rparr>, h')"
    "view h' = load_view rl (view h)"
proof -
  have s: "unat (en_addr c) < 4096" "unat (parity_addr c) < 4096" using c by (simp_all add: trim_sane_def Let_def)
  define h1 where "h1 = bflb_ef_ctrl_switch_ahb_clk_r0 io (bflb_ef_ctrl_load_efuse_r0 io h)"
  have l: "view (bflb_ef_ctrl_load_efuse_r0 io h) = load_view rl (view h)" by (rule load_efuse_view [OF dev h])
  then have h1: "view h1 = load_view rl (view h)"
    using switch_view [OF dev, of "bflb_ef_ctrl_load_efuse_r0 io h"] h by (simp add: h1_def load_view_def)
  then have z: "polls (view h1) = 0" "regs (view h1) = seen rl (view h)" using h by (auto simp: load_view_def seen_def)
  obtain h2 where h2: "read_bit io (en_addr c) h1 = (if fuse (seen rl (view h)) (unat (en_addr c)) then 1 else 0, h2)" "view h2 = view h1"
    using read_bit_view [OF dev z(1) s(1)] unfolding z(2) .
  obtain h3 where h3: "read_bit io (parity_addr c) h2 = (if fuse (seen rl (view h)) (unat (parity_addr c)) then 1 else 0, h3)" "view h3 = view h1"
    using read_bit_view [OF dev _ s(2), of h2] z unfolding h2(2) by auto
  obtain h4 where h4: "read_value io c h3 = Some (field (seen rl (view h)) c, h4)" "view h4 = view h1"
    using read_value_view [OF dev _ c, of h3] z unfolding h3(2) by auto
  show ?thesis
  proof (rule that)
    show "view h4 = load_view rl (view h)" using h4(2) h1 by simp
    show "bflb_ef_ctrl_read_common_trim io trims name trim reload h = Some
      (let s = seen rl (view h); e = fuse s (unat (en_addr c)); p = fuse s (unat (parity_addr c)) in
        trim\<lparr>en := if e then 1 else 0, parity := if p then 1 else 0,
          trim_empty := if \<not> e \<and> \<not> p \<and> field s c = 0 then 1 else 0, trim_len := ucast (value_len c), trim_value := field s c\<rparr>, h4)"
      using region0_trim [OF s(1)] \<open>reload \<noteq> 0\<close>
      by (simp add: bflb_ef_ctrl_read_common_trim_def f h1_def [symmetric] h2(1) h3(1) h4(1) Let_def)
  qed
qed

definition trim_words :: "bflb_ef_ctrl_com_trim_cfg_t \<Rightarrow> nat set" where
  "trim_words c = {addr_word (en_addr c), addr_word (parity_addr c), addr_word (value_addr c)}"

lemma seen_burnt:
  assumes "regs v = seen rl v" and "\<forall>i \<in> trim_words c. \<not> wl i \<and> \<not> rl i"
  shows "seen rl (burn_view wl (v\<lparr>regs := or_trim (regs v) c x p\<rparr>)) = or_trim (seen rl v) c x p"
proof
  fix i
  have other: "or_trim f c x p i = f i" if "i \<notin> trim_words c" for f
    using that by (simp add: or_trim_def or_word_def trim_words_def)
  have or: "f i OR or_trim f c x p i = or_trim f c x p i" for f
    by (rule bit_word_eqI) (auto simp: or_trim_def or_word_def bit_or_iff)
  show "seen rl (burn_view wl (v\<lparr>regs := or_trim (regs v) c x p\<rparr>)) i = or_trim (seen rl v) c x p i"
  proof (cases "i \<in> trim_words c")
    case True
    have "or_trim (seen rl v) c x p i = or_trim (seen rl v) c x p i OR seen rl v i" using or [of "seen rl v"] by (simp add: or.commute)
    with True assms show ?thesis by (simp add: seen_def burn_view_def or.commute)
  next
    case False
    with other assms(1) show ?thesis by (simp add: seen_def burn_view_def)
  qed
qed

lemma trim_entry:
  assumes "c \<in> set trim_list"
  shows "find_trim (c_string (trim_name c)) trim_list = Some (Some c)" "trim_sane c"
proof -
  have t: "CHR 0x00 \<notin> set (trim_name c)" "length (trim_name c) < 32" "find_prefix (trim_name c) trim_list = Some c" "trim_sane c"
    using trim_table trim_table_sane assms by (auto simp: list_all_iff)
  then show "find_trim (c_string (trim_name c)) trim_list = Some (Some c)" "trim_sane c"
    using find_trim_prefix [OF t(1)] by simp_all
qed

lemma trim_parity_defined:
  assumes "trim_sane c"
  obtains p where "bflb_ef_ctrl_get_trim_parity v (ucast (value_len c)) = Some p" "p \<in> {0, 1}"
proof -
  have "unat (value_len c) < 32" using assms by (simp add: trim_sane_def Let_def)
  then have "(ucast (value_len c) :: u8) \<le> 32"
    by (simp add: word_le_nat_alt unsigned_ucast_eq take_bit_nat_eq_self)
  moreover have "x AND 1 = 0 \<or> x AND 1 = 1" for x :: u8
    by (simp add: and_one_eq mod_2_eq_odd)
  ultimately show ?thesis by (intro that) (auto simp: bflb_ef_ctrl_get_trim_parity_def)
qed

text \<open>The fuses of an entry: its enable bit, its parity bit and its field.\<close>

definition trim_fuse :: "bflb_ef_ctrl_com_trim_cfg_t \<Rightarrow> nat \<Rightarrow> bool" where
  "trim_fuse c a = (a = unat (en_addr c) \<or> a = unat (parity_addr c) \<or>
     unat (value_addr c) \<le> a \<and> a < unat (value_addr c) + unat (value_len c))"

section \<open>Properties\<close>

text \<open>
  C13: Each of the 34 trim values of the chip that has not been written can be written, by its
  name, with any value that fits its field, and is then read back from the fuses as enabled, not
  empty, with that value, its length and the parity that the driver computes for it; no fuse
  outside of the enable bit, the parity bit and the field of this entry appears changed.
\<close>

theorem trim_write_read:
  assumes "efuse_dev wl rl io view" and "polls (view h) = 0" and "regs (view h) = seen rl (view h)"
    and "c \<in> set trim_list" and "\<forall>i \<in> trim_words c. \<not> wl i \<and> \<not> rl i" and "\<forall>a. trim_fuse c a \<longrightarrow> \<not> fuse (fuses (view h)) a"
    and "v < push_bit (unat (value_len c)) 1"
  shows "\<exists>h1 h2 p. bflb_ef_ctrl_write_common_trim io trim_list (c_string (trim_name c)) v 1 h = Some h1 \<and>
    bflb_ef_ctrl_get_trim_parity v (ucast (value_len c)) = Some p \<and>
    bflb_ef_ctrl_read_common_trim io trim_list (c_string (trim_name c)) trim 1 h1 =
      Some (trim\<lparr>en := 1, parity := p, trim_empty := 0, trim_len := ucast (value_len c), trim_value := v\<rparr>, h2) \<and>
    (\<forall>a. \<not> trim_fuse c a \<longrightarrow> fuse (seen rl (view h2)) a = fuse (seen rl (view h)) a)"
proof -
  note c = trim_entry [OF assms(4)]
  obtain p where p: "bflb_ef_ctrl_get_trim_parity v (ucast (value_len c)) = Some p" "p \<in> {0, 1}"
    using trim_parity_defined [OF c(2)] .
  obtain h1 where w: "bflb_ef_ctrl_write_common_trim io trim_list (c_string (trim_name c)) v 1 h = Some h1"
      "view h1 = burn_view wl ((view h)\<lparr>regs := or_trim (regs (view h)) c v p\<rparr>)"
    using write_trim_view [OF assms(1,2) c(2,1) p(1), of 1] by auto
  have s: "seen rl (view h1) = or_trim (seen rl (view h)) c v p"
    unfolding w(2) by (rule seen_burnt [OF assms(3,5)])
  have z: "polls (view h1) = 0" using assms(2) by (simp add: w(2) burn_view_def)
  obtain h2 where r: "bflb_ef_ctrl_read_common_trim io trim_list (c_string (trim_name c)) trim 1 h1 = Some
    (let s = seen rl (view h1); e = fuse s (unat (en_addr c)); p = fuse s (unat (parity_addr c)) in
      trim\<lparr>en := if e then 1 else 0, parity := if p then 1 else 0,
        trim_empty := if \<not> e \<and> \<not> p \<and> field s c = 0 then 1 else 0, trim_len := ucast (value_len c), trim_value := field s c\<rparr>, h2)"
    "view h2 = load_view rl (view h1)"
    using read_trim_view [OF assms(1) z c(2,1), of 1 trim] by auto
  note o = fuse_or_trim [OF c(2) assms(7)]
  have blank: "\<not> fuse (seen rl (view h)) a" if "trim_fuse c a" for a
    using that assms(6) by (simp add: seen_def fuse_def)
  have len: "unat (value_len c) < 32" using c(2) by (simp add: trim_sane_def Let_def)
  have d: "unat (parity_addr c) \<noteq> unat (en_addr c)"
    "\<not> (unat (value_addr c) \<le> unat (parity_addr c) \<and> unat (parity_addr c) < unat (value_addr c) + unat (value_len c))"
    using c(2) by (auto simp: trim_sane_def Let_def)
  have e: "fuse (seen rl (view h1)) (unat (en_addr c))" unfolding s o by simp
  have q: "fuse (seen rl (view h1)) (unat (parity_addr c)) = (p \<noteq> 0)"
    using d blank [of "unat (parity_addr c)"] unfolding s o by (auto simp: trim_fuse_def)
  have f: "field (seen rl (view h1)) c = v"
  proof (rule bit_word_eqI)
    fix n
    have sane: "unat (value_addr c) + n \<noteq> unat (en_addr c)" "unat (value_addr c) + n \<noteq> unat (parity_addr c)" if "n < unat (value_len c)"
      using c(2) that by (auto simp: trim_sane_def Let_def)
    have "\<not> fuse (seen rl (view h)) (unat (value_addr c) + n)" if "n < unat (value_len c)"
      using blank [of "unat (value_addr c) + n"] that by (simp add: trim_fuse_def)
    then show "bit (field (seen rl (view h1)) c) n = bit v n"
      using sane small_bits [OF assms(7) len, of n] unfolding bit_field [OF c(2)] s o by auto
  qed
  have "fuse (seen rl (view h2)) a = fuse (seen rl (view h)) a" if "\<not> trim_fuse c a" for a
  proof -
    have "seen rl (view h2) = seen rl (view h1)" by (auto simp: r(2) seen_def load_view_def)
    with that show ?thesis unfolding s o by (auto simp: trim_fuse_def o s)
  qed
  with w(1) p r(1) e q f show ?thesis by (auto simp: Let_def)
qed

theorem trim_write_read_witness:
  "\<exists>h1 h2 p. bflb_ef_ctrl_write_common_trim (efuse_sim 3) trim_list (c_string ''tsen'') 2042 1
      \<lparr>fuses = \<lambda>_. 0, regs = \<lambda>_. 0, polls = 0\<rparr> = Some h1 \<and>
    bflb_ef_ctrl_get_trim_parity 2042 12 = Some p \<and>
    bflb_ef_ctrl_read_common_trim (efuse_sim 3) trim_list (c_string ''tsen'')
      \<lparr>en = 7, parity = 7, trim_empty = 7, trim_len = 7, trim_value = 7\<rparr> 1 h1 =
      Some (\<lparr>en = 1, parity = p, trim_empty = 0, trim_len = 12, trim_value = 2042\<rparr>, h2)"
proof -
  have dev: "efuse_dev (\<lambda>_. False) (\<lambda>_. False) (efuse_sim 3) id"
    by (rule efuse_sim_dev) (simp add: EF_CTRL_DFT_TIMEOUT_VAL_def)
  let ?c = "cfg ''tsen'' (0xF0 * 8 + 13) (0xF0 * 8 + 12) (0xF0 * 8 + 0) 12"
  have c: "?c \<in> set trim_list" by (simp add: trim_list_def)
  have v: "(2042 :: u32) < push_bit (unat (value_len ?c)) 1" by (simp add: cfg_def)
  have s: "seen (\<lambda>_. False) \<lparr>fuses = \<lambda>_. 0, regs = \<lambda>_. 0, polls = 0\<rparr> = (\<lambda>_. 0)"
    by (auto simp: seen_def fun_eq_iff)
  from trim_write_read [OF dev, of "\<lparr>fuses = \<lambda>_. 0, regs = \<lambda>_. 0, polls = 0\<rparr>" ?c 2042
      "\<lparr>en = 7, parity = 7, trim_empty = 7, trim_len = 7, trim_value = 7\<rparr>", OF _ _ c _ _ v] s
  show ?thesis by (fastforce simp: fuse_def cfg_def)
qed

end
