(* ===== verification/Mac_Address.thy ===== *)
theory Mac_Address
  imports Bl616_Efuse
begin

text \<open>
  The MAC addresses in the fuses of the BL616: the functions of \<^verbatim>\<open>bl616_ef_cfg.c\<close> that are
  modelled in \<open>Bl616_Efuse\<close>.  An address is stored with the number of its 0 bits.  A fuse can only
  change from 0 to 1, which takes zeros away from the address and never makes the count smaller,
  so no later change of the slot can produce another address that is accepted.
\<close>

section \<open>Counting zeros\<close>

definition mac_bit :: "bytes \<Rightarrow> nat \<Rightarrow> bool" where
  "mac_bit mac b = bit (mac ! (b div 8)) (b mod 8)"

fun zeros :: "(nat \<Rightarrow> bool) \<Rightarrow> nat \<Rightarrow> nat \<Rightarrow> nat" where
  "zeros P i 0 = 0"
| "zeros P i (Suc n) = (if P i then 0 else 1) + zeros P (Suc i) n"

lemma zeros_add: "zeros P i (m + n) = zeros P i m + zeros P (i + m) n"
  by (induction m arbitrary: i) auto

lemma zeros_le: "zeros P i n \<le> n"
proof (induction n arbitrary: i)
  case (Suc n)
  from Suc [of "Suc i"] show ?case by simp
qed simp

lemma zeros_cong: "(\<And>k. k < n \<Longrightarrow> P (i + k) = Q (j + k)) \<Longrightarrow> zeros P i n = zeros Q j n"
proof (induction n arbitrary: i j)
  case (Suc n)
  have "P (Suc i + k) = Q (Suc j + k)" if "k < n" for k using Suc.prems [of "Suc k"] that by simp
  with Suc.IH [of "Suc i" "Suc j"] Suc.prems [of 0] show ?case by simp
qed simp

lemma zeros_mono:
  "(\<And>b. i \<le> b \<Longrightarrow> b < i + n \<Longrightarrow> P b \<Longrightarrow> Q b) \<Longrightarrow> zeros Q i n \<le> zeros P i n"
proof (induction n arbitrary: i)
  case (Suc n)
  have "zeros Q (Suc i) n \<le> zeros P (Suc i) n" using Suc.prems by (intro Suc.IH) auto
  with Suc.prems [of i] show ?case by auto
qed simp

lemma zeros_strict:
  "(\<And>b. i \<le> b \<Longrightarrow> b < i + n \<Longrightarrow> P b \<Longrightarrow> Q b) \<Longrightarrow> zeros Q i n = zeros P i n \<Longrightarrow> i \<le> b \<Longrightarrow> b < i + n \<Longrightarrow> Q b = P b"
proof (induction n arbitrary: i)
  case (Suc n)
  have le: "zeros Q (Suc i) n \<le> zeros P (Suc i) n" using Suc.prems(1) by (intro zeros_mono) auto
  have imp: "P i \<Longrightarrow> Q i" using Suc.prems(1) by simp
  have "zeros Q (Suc i) n = zeros P (Suc i) n" "Q i = P i"
    using Suc.prems(2) le imp by (auto split: if_splits)
  with Suc.IH [of "Suc i"] Suc.prems(1,3,4) show ?case by (cases "b = i") auto
qed simp

lemma ucast_bit: "(ucast val AND push_bit i (1 :: u32) = 0) = (\<not> bit val i)" for val :: u8
  using busy_mask [of "ucast val" i] by (auto simp: bit_ucast_iff dest: bit_imp_le_length)

lemma zero_cnt_zeros: "zero_cnt val i n cnt = cnt + of_nat (zeros (bit val) i n)"
  by (induction n arbitrary: i cnt) (simp_all add: ucast_bit del: push_bit_of_1)

lemma byte_zeros: "bflb_ef_ctrl_get_byte_zero_cnt (mac ! i) = of_nat (zeros (mac_bit mac) (8 * i) 8)"
proof -
  have "zeros (bit (mac ! i)) 0 8 = zeros (mac_bit mac) (8 * i) 8"
    by (rule zeros_cong) (simp add: mac_bit_def)
  then show ?thesis by (simp add: bflb_ef_ctrl_get_byte_zero_cnt_def zero_cnt_zeros)
qed

lemma mac_zero_cnt_zeros: "mac_zero_cnt mac i n cnt = cnt + of_nat (zeros (mac_bit mac) (8 * i) (8 * n))"
proof (induction n arbitrary: i cnt)
  case (Suc n)
  have "zeros (mac_bit mac) (8 * i) (8 * Suc n) = zeros (mac_bit mac) (8 * i) 8 + zeros (mac_bit mac) (8 * Suc i) (8 * n)"
    using zeros_add [of "mac_bit mac" "8 * i" 8 "8 * n"] by (simp add: add.commute)
  then show ?case using Suc.IH by (simp add: byte_zeros)
qed simp

definition mac_zeros :: "bytes \<Rightarrow> nat" where
  "mac_zeros mac = zeros (mac_bit mac) 0 48"

lemma mac_zero_cnt_total: "mac_zero_cnt mac 0 6 0 = of_nat (mac_zeros mac)"
  using mac_zero_cnt_zeros [of mac 0 6 0] by (simp add: mac_zeros_def)

lemma mac_zeros_le: "mac_zeros mac \<le> 48"
  unfolding mac_zeros_def by (rule zeros_le)

lemma mac_zeros_field: "mac_zero_cnt mac 0 6 0 AND 0x3f = of_nat (mac_zeros mac)"
proof -
  have "mac_zeros mac < 64" using mac_zeros_le [of mac] by simp
  then have "unat (of_nat (mac_zeros mac) :: u32) = mac_zeros mac" by (intro unat_of_nat_small) simp
  moreover have "x AND 0x3f = take_bit 6 x" for x :: u32 by (simp add: take_bit_eq_mask mask_numeral)
  ultimately show ?thesis
    using \<open>mac_zeros mac < 64\<close> unfolding mac_zero_cnt_total
    by (simp add: word_unat_eq_iff unsigned_take_bit_eq take_bit_nat_eq_self)
qed

section \<open>The words of an address\<close>

definition mac_low :: "bytes \<Rightarrow> u32" where
  "mac_low m = BL_RDWD_FRM_BYTEP m"

definition mac_high :: "bytes \<Rightarrow> u32" where
  "mac_high m = (ucast (m ! 4) + push_bit 8 (ucast (m ! 5))) OR push_bit 16 (mac_zero_cnt m 0 6 0 AND 0x3f)"

definition mac_bytes :: "u32 \<Rightarrow> u32 \<Rightarrow> bytes" where
  "mac_bytes lo hi = [ucast lo, ucast (drop_bit 8 lo), ucast (drop_bit 16 lo), ucast (drop_bit 24 lo), ucast hi, ucast (drop_bit 8 hi)]"

lemma six: "length m = 6 \<Longrightarrow> \<exists>a b c d e f. m = [a, b, c, d, e, f]"
  by (auto simp: numeral_eq_Suc length_Suc_conv)

lemma below_8k: "b < 8 * Suc k \<Longrightarrow> b < 8 * k \<or> (\<exists>r < 8. b = 8 * k + r)" for b k :: nat
  by (cases "b < 8 * k") (auto intro: exI [of _ "b - 8 * k"])

lemma byte_cases:
  assumes "b < (32 :: nat)"
  obtains r where "r < 8" "b = r" | r where "r < 8" "b = 8 + r" | r where "r < 8" "b = 16 + r" | r where "r < 8" "b = 24 + r"
  using assms below_8k [of b 3] below_8k [of b 2] below_8k [of b 1] that by auto

lemma mac_byte_index:
  fixes r :: nat
  assumes "r < 8"
  shows "(8 + r) div 8 = 1" "(16 + r) div 8 = 2" "(24 + r) div 8 = 3" "(32 + r) div 8 = 4" "(40 + r) div 8 = 5"
    "(8 + r) mod 8 = r" "(16 + r) mod 8 = r" "(24 + r) mod 8 = r" "(32 + r) mod 8 = r" "(40 + r) mod 8 = r"
proof -
  have "(8 * k + r) div 8 = k \<and> (8 * k + r) mod 8 = r" for k :: nat using assms by simp
  from this [of 1] this [of 2] this [of 3] this [of 4] this [of 5] show
    "(8 + r) div 8 = 1" "(16 + r) div 8 = 2" "(24 + r) div 8 = 3" "(32 + r) div 8 = 4" "(40 + r) div 8 = 5"
    "(8 + r) mod 8 = r" "(16 + r) mod 8 = r" "(24 + r) mod 8 = r" "(32 + r) mod 8 = r" "(40 + r) mod 8 = r"
    by simp_all
qed

lemma bit_mac_low: "b < 32 \<Longrightarrow> bit (mac_low m) b = mac_bit m b"
  by (erule byte_cases)
    (auto simp: mac_low_def BL_RDWD_FRM_BYTEP_def mac_bit_def bit_or_iff bit_push_bit_iff bit_ucast_iff mac_byte_index dest: bit_imp_le_length)

lemma mac_high_or:
  "mac_high m = ucast (m ! 4) OR push_bit 8 (ucast (m ! 5)) OR push_bit 16 (of_nat (mac_zeros m))"
proof -
  have "(ucast (m ! 4) :: u32) AND push_bit 8 (ucast (m ! 5)) = 0"
    by (rule bit_word_eqI) (auto simp: bit_and_iff bit_push_bit_iff bit_ucast_iff dest: bit_imp_le_length)
  then show ?thesis
    unfolding mac_high_def mac_zeros_field by (simp add: disjunctive_add_eq_or or.assoc)
qed

lemma bit_zero_count: "bit (of_nat (mac_zeros m) :: u32) b \<Longrightarrow> b < 6"
proof (rule ccontr)
  assume b: "bit (of_nat (mac_zeros m) :: u32) b" "\<not> b < 6"
  have "mac_zeros m < 2 ^ 6" using mac_zeros_le [of m] by simp
  also have "(2 :: nat) ^ 6 \<le> 2 ^ b" using b(2) by (intro power_increasing) simp_all
  finally have "\<not> bit (mac_zeros m) b" by (simp add: bit_iff_odd)
  with b(1) show False by (simp add: bit_of_nat_iff)
qed

lemma bit_mac_high:
  "bit (mac_high m) b = (if b < 16 then mac_bit m (32 + b) else b < 22 \<and> bit (of_nat (mac_zeros m) :: u32) (b - 16))"
proof (cases "b < 16")
  case True
  then have "b < 8 \<or> (\<exists>r < 8. b = 8 + r)" using below_8k [of b 1] by auto
  with True show ?thesis
    by (auto simp: mac_high_or mac_bit_def bit_or_iff bit_push_bit_iff bit_ucast_iff mac_byte_index dest: bit_imp_le_length)
next
  case False
  have "bit (of_nat (mac_zeros m) :: u32) (b - 16) \<Longrightarrow> b < 22" using bit_zero_count [of m "b - 16"] by auto
  with False show ?thesis
    by (auto simp: mac_high_or bit_or_iff bit_push_bit_iff bit_ucast_iff dest: bit_imp_le_length)
qed

lemma bit_mac_bytes: "b < 48 \<Longrightarrow> mac_bit (mac_bytes lo hi) b = (if b < 32 then bit lo b else bit hi (b - 32))"
proof (cases "b < 32")
  case True
  then show ?thesis
    by (cases rule: byte_cases) (auto simp: mac_bytes_def mac_bit_def bit_ucast_iff bit_drop_bit_eq mac_byte_index)
next
  case False
  assume "b < 48"
  with False have "(\<exists>r < 8. b = 32 + r) \<or> (\<exists>r < 8. b = 40 + r)"
    using below_8k [of b 5] below_8k [of b 4] by auto
  with False show ?thesis by (auto simp: mac_bytes_def mac_bit_def bit_ucast_iff bit_drop_bit_eq mac_byte_index)
qed

lemma mac_eqI:
  assumes "length m = 6" and "length m' = 6" and "\<And>b. b < 48 \<Longrightarrow> mac_bit m b = mac_bit m' b"
  shows "m = m'"
proof (rule nth_equalityI)
  show "length m = length m'" using assms by simp
  fix i assume i: "i < length m"
  show "m ! i = m' ! i"
  proof (rule bit_word_eqI)
    fix j assume "j < LENGTH(8)"
    with i assms(1) have "8 * i + j < 48" by simp
    from assms(3) [OF this] \<open>j < LENGTH(8)\<close> show "bit (m ! i) j = bit (m' ! i) j" by (simp add: mac_bit_def)
  qed
qed

text \<open>
  An address that lost some of its zeros, or whose count gained a bit, is not accepted.
\<close>

lemma berger:
  assumes m: "length m = 6" and lo: "mac_low m OR lo = lo" and hi: "mac_high m OR hi = hi"
  shows "(of_nat (mac_zeros (mac_bytes lo hi)) = drop_bit 16 hi AND 0x3f) = (lo = mac_low m \<and> take_bit 22 hi = mac_high m)"
    "lo = mac_low m \<Longrightarrow> take_bit 22 hi = mac_high m \<Longrightarrow> mac_bytes lo hi = m"
proof -
  let ?m = "mac_bytes lo hi" and ?c = "drop_bit 16 hi AND 0x3f"
  have len: "length ?m = 6" by (simp add: mac_bytes_def)
  have lo': "bit lo b" if "b < 32" "mac_bit m b" for b
    using that lo by (metis bit_mac_low bit_or_iff)
  have hi': "bit (mac_high m) b \<Longrightarrow> bit hi b" for b
    using hi by (metis bit_or_iff)
  have c: "?c = take_bit 6 (drop_bit 16 hi)" by (simp add: take_bit_eq_mask mask_numeral)
  have grow: "mac_bit ?m b" if "b < 48" "mac_bit m b" for b
  proof (cases "b < 32")
    case True
    with that lo' show ?thesis by (simp add: bit_mac_bytes)
  next
    case False
    then have "b - 32 < 16" "32 + (b - 32) = b" using that(1) by linarith+
    with that(2) have "bit (mac_high m) (b - 32)" by (simp add: bit_mac_high)
    with hi' False that show ?thesis by (simp add: bit_mac_bytes)
  qed
  then have le: "mac_zeros ?m \<le> mac_zeros m" unfolding mac_zeros_def by (intro zeros_mono) simp
  have count: "of_nat (mac_zeros m) OR ?c = ?c"
  proof (rule bit_word_eqI)
    fix b
    have "bit ?c b" if "bit (of_nat (mac_zeros m) :: u32) b"
    proof -
      have "b < 6" using that by (rule bit_zero_count)
      moreover have "bit hi (16 + b)" using that \<open>b < 6\<close> by (intro hi') (simp add: bit_mac_high)
      ultimately show ?thesis by (simp add: c bit_take_bit_iff bit_drop_bit_eq)
    qed
    then show "bit (of_nat (mac_zeros m) OR ?c) b = bit ?c b" by (auto simp: bit_or_iff)
  qed
  have nat: "unat (of_nat (mac_zeros x) :: u32) = mac_zeros x" for x
    using mac_zeros_le [of x] by (intro unat_of_nat_small) simp
  have ge: "mac_zeros m \<le> unat ?c"
    using le_word_or2 [of "of_nat (mac_zeros m)" ?c] unfolding count by (simp add: word_le_nat_alt nat)
  show bytes: "mac_bytes lo hi = m" if "lo = mac_low m" "take_bit 22 hi = mac_high m"
  proof (rule mac_eqI)
    fix b :: nat assume b: "b < 48"
    have "bit hi k = bit (mac_high m) k" if "k < 22" for k
      using that \<open>take_bit 22 hi = mac_high m\<close> by (metis bit_take_bit_iff)
    moreover have "b < 32 \<or> b - 32 < 16 \<and> 32 + (b - 32) = b" using b by linarith
    ultimately show "mac_bit (mac_bytes lo hi) b = mac_bit m b"
      using b \<open>lo = mac_low m\<close> by (auto simp: bit_mac_bytes bit_mac_low bit_mac_high)
  qed (use len m in simp_all)
  show "(of_nat (mac_zeros ?m) = ?c) = (lo = mac_low m \<and> take_bit 22 hi = mac_high m)"
  proof
    assume "of_nat (mac_zeros ?m) = ?c"
    then have "mac_zeros ?m = unat ?c" by (metis nat)
    with le ge have eq: "mac_zeros ?m = mac_zeros m" "unat ?c = mac_zeros m" by simp_all
    then have same: "mac_bit ?m b = mac_bit m b" if "b < 48" for b
      using zeros_strict [of 0 48 "mac_bit m" "mac_bit ?m" b] grow that unfolding mac_zeros_def by simp
    have l: "lo = mac_low m"
    proof (rule bit_word_eqI)
      fix b assume "b < LENGTH(32)"
      with same [of b] show "bit lo b = bit (mac_low m) b" by (simp add: bit_mac_bytes bit_mac_low)
    qed
    have cz: "?c = of_nat (mac_zeros m)" using eq(2) by (rule word_of_unat)
    have h: "take_bit 22 hi = mac_high m"
    proof (rule bit_word_eqI)
      fix b
      show "bit (take_bit 22 hi) b = bit (mac_high m) b"
      proof (cases "b < 16")
        case True
        with same [of "32 + b"] show ?thesis by (simp add: bit_take_bit_iff bit_mac_high bit_mac_bytes)
      next
        case False
        have "bit (take_bit 6 (drop_bit 16 hi)) (b - 16) = bit (of_nat (mac_zeros m) :: u32) (b - 16)"
          using cz unfolding c by simp
        with False show ?thesis by (auto simp: bit_take_bit_iff bit_mac_high bit_drop_bit_eq)
      qed
    qed
    from l h show "lo = mac_low m \<and> take_bit 22 hi = mac_high m" ..
  next
    assume eq: "lo = mac_low m \<and> take_bit 22 hi = mac_high m"
    have "?c = of_nat (mac_zeros m)"
    proof (rule bit_word_eqI)
      fix b
      have "bit hi k = bit (mac_high m) k" if "k < 22" for k
        using that eq by (metis bit_take_bit_iff)
      then show "bit ?c b = bit (of_nat (mac_zeros m) :: u32) b"
        unfolding c using bit_zero_count [of m b] by (auto simp: bit_take_bit_iff bit_drop_bit_eq bit_mac_high)
    qed
    with bytes eq show "of_nat (mac_zeros ?m) = ?c" by simp
  qed
qed

section \<open>Slots\<close>

definition slot_words :: "u8 \<Rightarrow> nat \<times> nat" where
  "slot_words slot = (if slot = 0 then (5, 6) else if slot = 1 then (25, 26) else (28, 29))"

lemma slot_offsets:
  assumes "slot < 3"
  shows "slot_low slot = Some (of_nat (4 * fst (slot_words slot)))" "slot_high slot = Some (of_nat (4 * snd (slot_words slot)))"
    "fst (slot_words slot) < 128" "snd (slot_words slot) < 128" "fst (slot_words slot) \<noteq> snd (slot_words slot)"
proof -
  have "unat slot \<in> {0, 1, 2}" using assms by (auto simp: word_less_nat_alt)
  then have "slot = 0 \<or> slot = 1 \<or> slot = 2" by (auto simp: word_unat_eq_iff)
  then show "slot_low slot = Some (of_nat (4 * fst (slot_words slot)))" "slot_high slot = Some (of_nat (4 * snd (slot_words slot)))"
    "fst (slot_words slot) < 128" "snd (slot_words slot) < 128" "fst (slot_words slot) \<noteq> snd (slot_words slot)"
    by (auto simp: slot_low_def slot_high_def slot_words_def EF_DATA_EF_WIFI_MAC_LOW_OFFSET_def
        EF_DATA_EF_WIFI_MAC_HIGH_OFFSET_def EF_DATA_EF_SW_USAGE_2_OFFSET_def EF_DATA_EF_SW_USAGE_3_OFFSET_def
        EF_DATA_EF_KEY_SLOT_11_W1_OFFSET_def EF_DATA_EF_KEY_SLOT_11_W2_OFFSET_def)
qed

lemma read_word_view:
  assumes dev: "efuse_dev wl rl io view" and h: "polls (view h) = 0" and k: "k < 128"
  obtains h' where "read_word io (of_nat (4 * k)) t 1 h = Some (seen rl (view h) k, h')" "view h' = load_view rl (view h)"
proof -
  obtain h' where "bflb_ef_ctrl_read_direct io (of_nat (4 * k)) (Some [t]) (of_nat 1) 1 h =
      Some (map (seen rl (view h)) [k..<k + 1] @ drop 1 [t], h')" "view h' = load_view rl (view h)"
    using read_direct_view [OF dev h, of k 1 "[t]" 1] k by auto
  then show ?thesis by (intro that) (simp_all add: read_word_def del: of_nat_mult)
qed

lemma write_word_view:
  assumes dev: "efuse_dev wl rl io view" and h: "polls (view h) = 0" and k: "k < 128"
  obtains h' where "write_word io (of_nat (4 * k)) w 1 h = Some h'"
    "view h' = burn_view wl ((view h)\<lparr>regs := (regs (view h))(k := w)\<rparr>)"
proof -
  have "overwrite f k [w] = f(k := w)" for f by (auto simp: overwrite_def fun_eq_iff)
  with write_direct_view [OF dev h, of k "[w]" 1] k that show ?thesis
    by (auto simp: write_word_def simp del: of_nat_mult)
qed

lemma swap_mac_rev: "length m = 6 \<Longrightarrow> swap_mac 0 3 m = rev m"
  using six [of m] by (auto simp: numeral_eq_Suc)

lemma ucast_byte: "ucast (x AND 0xff) = (ucast x :: u8)" for x :: u32
proof -
  have "x AND 0xff = take_bit 8 x" by (simp add: take_bit_eq_mask mask_numeral)
  then show ?thesis by (simp only:) (rule bit_word_eqI, auto simp: bit_ucast_iff bit_take_bit_iff)
qed

lemma stored_bytes:
  "length buf = 6 \<Longrightarrow> (BL_WRWD_TO_BYTEP buf lo)[4 := ucast (hi AND 0xff), 5 := ucast (drop_bit 8 hi AND 0xff)] = mac_bytes lo hi"
  using six [of buf] by (auto simp: BL_WRWD_TO_BYTEP_def mac_bytes_def ucast_byte numeral_eq_Suc)

lemma or_below: "(a OR b) OR c = c \<Longrightarrow> a OR c = c \<and> b OR c = c" for a b c :: u32
  by (auto simp: bit_eq_iff bit_or_iff)

lemma slot_below: "\<not> slot \<ge> 3 \<longleftrightarrow> slot < 3" for slot :: u8
  by (simp add: not_le)

lemma write_mac_view:
  assumes dev: "efuse_dev wl rl io view" and h: "polls (view h) = 0" and r: "regs (view h) = seen rl (view h)"
    and slot: "slot < 3" and mac: "length mac = 6"
    and u: "\<forall>i \<in> {fst (slot_words slot), snd (slot_words slot)}. \<not> wl i \<and> \<not> rl i"
  obtains h' where "bflb_efuse_write_mac_address_opt io slot mac 1 h = Some (0, rev mac, h')" "polls (view h') = 0"
    "fuses (view h') = (fuses (view h))
       (fst (slot_words slot) := fuses (view h) (fst (slot_words slot)) OR mac_low (rev mac),
        snd (slot_words slot) := fuses (view h) (snd (slot_words slot)) OR mac_high (rev mac))"
proof -
  note o = slot_offsets [OF slot]
  let ?l = "fst (slot_words slot)" and ?k = "snd (slot_words slot)" and ?L = "mac_low (rev mac)" and ?H = "mac_high (rev mac)"
  obtain h1 where h1: "write_word io (of_nat (4 * ?l)) ?L 1 h = Some h1"
      "view h1 = burn_view wl ((view h)\<lparr>regs := (regs (view h))(?l := ?L)\<rparr>)"
    using write_word_view [OF dev h o(3)] .
  have z1: "polls (view h1) = 0" using h by (simp add: h1(2) burn_view_def)
  obtain h2 where h2: "write_word io (of_nat (4 * ?k)) ?H 1 h1 = Some h2"
      "view h2 = burn_view wl ((view h1)\<lparr>regs := (regs (view h1))(?k := ?H)\<rparr>)"
    using write_word_view [OF dev z1 o(4)] .
  show ?thesis
  proof (rule that)
    show "bflb_efuse_write_mac_address_opt io slot mac 1 h = Some (0, rev mac, h2)"
      unfolding bflb_efuse_write_mac_address_opt_def Let_def swap_mac_rev [OF mac] write_slot_def o(1,2) option.case
        mac_low_def [symmetric] mac_high_def [symmetric]
      using h1(1) h2(1) slot by (simp add: slot_below [symmetric] del: of_nat_mult)
    show "polls (view h2) = 0" using z1 by (simp add: h2(2) burn_view_def)
    show "fuses (view h2) = (fuses (view h))(?l := fuses (view h) ?l OR ?L, ?k := fuses (view h) ?k OR ?H)"
      using u o(5) by (auto simp: fun_eq_iff h2(2) h1(2) burn_view_def r seen_def or.assoc)
  qed
qed

lemma read_mac_view:
  assumes dev: "efuse_dev wl rl io view" and h: "polls (view h) = 0"
    and slot: "slot < 3" and buf: "length buf = 6"
    and u: "\<forall>i \<in> {fst (slot_words slot), snd (slot_words slot)}. \<not> wl i \<and> \<not> rl i"
  obtains h' where "bflb_efuse_read_mac_address_opt io slot buf 1 h =
     (let lo = fuses (view h) (fst (slot_words slot)); hi = fuses (view h) (snd (slot_words slot)) in
      if of_nat (mac_zeros (mac_bytes lo hi)) = drop_bit 16 hi AND 0x3f then Some (0, rev (mac_bytes lo hi), h')
      else Some (-1, mac_bytes lo hi, h'))"
proof -
  note o = slot_offsets [OF slot]
  let ?l = "fst (slot_words slot)" and ?k = "snd (slot_words slot)"
  obtain h1 where h1: "read_word io (of_nat (4 * ?l)) 0 1 h = Some (seen rl (view h) ?l, h1)" "view h1 = load_view rl (view h)"
    using read_word_view [OF dev h o(3)] .
  have z1: "polls (view h1) = 0" using h by (simp add: h1(2) load_view_def)
  obtain h2 where h2: "read_word io (of_nat (4 * ?k)) (seen rl (view h) ?l) 1 h1 = Some (seen rl (view h1) ?k, h2)"
    using read_word_view [OF dev z1 o(4)] .
  have s: "seen rl (view h) ?l = fuses (view h) ?l" "seen rl (view h1) ?k = fuses (view h) ?k"
    using u by (simp_all add: seen_def h1(2) load_view_def)
  have len: "length (mac_bytes lo hi) = 6" for lo hi by (simp add: mac_bytes_def)
  show ?thesis
  proof (rule that [of h2])
    show "bflb_efuse_read_mac_address_opt io slot buf 1 h =
     (let lo = fuses (view h) ?l; hi = fuses (view h) ?k in
      if of_nat (mac_zeros (mac_bytes lo hi)) = drop_bit 16 hi AND 0x3f then Some (0, rev (mac_bytes lo hi), h2)
      else Some (-1, mac_bytes lo hi, h2))"
      unfolding bflb_efuse_read_mac_address_opt_def Let_def read_slot_def o(1,2) option.case
      using h1(1) h2 slot unfolding s
      by (simp add: slot_below [symmetric] stored_bytes [OF buf] mac_zeros_field swap_mac_rev [OF len] del: of_nat_mult)
  qed
qed

section \<open>Properties\<close>

text \<open>The slot of a device that holds no address.\<close>

definition slot_blank :: "u8 \<Rightarrow> efuse_view \<Rightarrow> bool" where
  "slot_blank slot v =
     (fuses v (fst (slot_words slot)) = 0 \<and> take_bit 22 (fuses v (snd (slot_words slot))) = 0)"

text \<open>The part of two words that a slot occupies.\<close>

definition slot_content :: "u8 \<Rightarrow> efuse_view \<Rightarrow> u32 \<times> u32" where
  "slot_content slot v = (fuses v (fst (slot_words slot)), take_bit 22 (fuses v (snd (slot_words slot))))"

definition fuses_grow :: "efuse_view \<Rightarrow> efuse_view \<Rightarrow> bool" where
  "fuses_grow v v' = (\<forall>i. fuses v i OR fuses v' i = fuses v' i)"

text \<open>
  C12: Writing an address into a blank slot of the fuses succeeds, with the buffer of the caller
  left in reverse.  However the fuses age or are programmed after that (no fuse ever goes back),
  reading the slot returns either the address that was written or the error, and the error
  exactly when the content of the slot is no longer what was written; in particular, a second
  address written over the first one is never read back as any address.
\<close>

theorem mac_slot_safe:
  assumes "efuse_dev wl rl io view" and "polls (view h) = 0" and "regs (view h) = seen rl (view h)"
    and "slot < 3" and "length mac = 6" and "slot_blank slot (view h)"
    and "\<forall>i \<in> {fst (slot_words slot), snd (slot_words slot)}. \<not> wl i \<and> \<not> rl i"
  shows "\<exists>h1. bflb_efuse_write_mac_address_opt io slot mac 1 h = Some (0, rev mac, h1) \<and>
    (\<forall>h2 buf. polls (view h2) = 0 \<and> fuses_grow (view h1) (view h2) \<and> length buf = 6 \<longrightarrow>
      (\<exists>ret mac' h3. bflb_efuse_read_mac_address_opt io slot buf 1 h2 = Some (ret, mac', h3) \<and>
        (if slot_content slot (view h2) = slot_content slot (view h1) then ret = 0 \<and> mac' = mac else ret = -1)))"
proof -
  obtain h1 where w: "bflb_efuse_write_mac_address_opt io slot mac 1 h = Some (0, rev mac, h1)"
    "fuses (view h1) = (fuses (view h))
       (fst (slot_words slot) := fuses (view h) (fst (slot_words slot)) OR mac_low (rev mac),
        snd (slot_words slot) := fuses (view h) (snd (slot_words slot)) OR mac_high (rev mac))"
    using write_mac_view [OF assms(1-5,7)] by blast
  note o = slot_offsets [OF assms(4)]
  have m: "length (rev mac) = 6" using assms(5) by simp
  have high: "take_bit 22 (mac_high (rev mac)) = mac_high (rev mac)"
    by (rule bit_word_eqI) (auto simp: bit_take_bit_iff bit_mac_high)
  have c1: "slot_content slot (view h1) = (mac_low (rev mac), mac_high (rev mac))"
    using assms(6) o(5) high by (simp add: slot_content_def slot_blank_def w(2) take_bit_or)
  have "\<exists>ret mac' h3. bflb_efuse_read_mac_address_opt io slot buf 1 h2 = Some (ret, mac', h3) \<and>
      (if slot_content slot (view h2) = slot_content slot (view h1) then ret = 0 \<and> mac' = mac else ret = -1)"
    if h2: "polls (view h2) = 0" "fuses_grow (view h1) (view h2)" "length buf = 6" for h2 buf
  proof -
    let ?lo = "fuses (view h2) (fst (slot_words slot))" and ?hi = "fuses (view h2) (snd (slot_words slot))"
    have "fuses (view h1) i OR fuses (view h2) i = fuses (view h2) i" for i
      using h2(2) by (simp add: fuses_grow_def)
    from this [of "fst (slot_words slot)"] this [of "snd (slot_words slot)"]
    have "mac_low (rev mac) OR ?lo = ?lo" "mac_high (rev mac) OR ?hi = ?hi"
      using assms(6) o(5) by (auto simp: w(2) slot_blank_def dest: or_below)
    note b = berger [OF m this]
    obtain h3 where r: "bflb_efuse_read_mac_address_opt io slot buf 1 h2 =
       (if of_nat (mac_zeros (mac_bytes ?lo ?hi)) = drop_bit 16 ?hi AND 0x3f then Some (0, rev (mac_bytes ?lo ?hi), h3)
        else Some (-1, mac_bytes ?lo ?hi, h3))"
      using read_mac_view [OF assms(1) h2(1) assms(4) h2(3) assms(7)] unfolding Let_def .
    show ?thesis
      unfolding r b(1) c1 using b(2) by (auto simp: slot_content_def)
  qed
  with w(1) show ?thesis by blast
qed

theorem mac_slot_safe_witness:
  "\<exists>h1 h3. bflb_efuse_write_mac_address_opt (efuse_sim 3) 1 [0x18, 0xB9, 0x05, 1, 2, 0xFF] 1
      \<lparr>fuses = \<lambda>_. 0, regs = \<lambda>_. 0, polls = 0\<rparr> = Some (0, [0xFF, 2, 1, 0x05, 0xB9, 0x18], h1) \<and>
    bflb_efuse_read_mac_address_opt (efuse_sim 3) 1 [0, 0, 0, 0, 0, 0] 1 (h1\<lparr>polls := 0\<rparr>) = Some (0, [0x18, 0xB9, 0x05, 1, 2, 0xFF], h3)"
proof -
  have dev: "efuse_dev (\<lambda>_. False) (\<lambda>_. False) (efuse_sim 3) id"
    by (rule efuse_sim_dev) (simp add: EF_CTRL_DFT_TIMEOUT_VAL_def)
  have s: "seen (\<lambda>_. False) \<lparr>fuses = \<lambda>_. 0, regs = \<lambda>_. 0, polls = 0\<rparr> = (\<lambda>_. 0)"
    by (auto simp: seen_def fun_eq_iff)
  obtain h1 where h1: "bflb_efuse_write_mac_address_opt (efuse_sim 3) 1 [0x18, 0xB9, 0x05, 1, 2, 0xFF] 1
        \<lparr>fuses = \<lambda>_. 0, regs = \<lambda>_. 0, polls = 0\<rparr> = Some (0, rev [0x18, 0xB9, 0x05, 1, 2, 0xFF], h1)"
    "\<forall>h2 buf. polls (id h2) = 0 \<and> fuses_grow (id h1) (id h2) \<and> length buf = 6 \<longrightarrow>
      (\<exists>ret mac' h3. bflb_efuse_read_mac_address_opt (efuse_sim 3) 1 buf 1 h2 = Some (ret, mac', h3) \<and>
        (if slot_content 1 (id h2) = slot_content 1 (id h1) then ret = 0 \<and> mac' = [0x18, 0xB9, 0x05, 1, 2, 0xFF] else ret = -1))"
    using mac_slot_safe [OF dev, of "\<lparr>fuses = \<lambda>_. 0, regs = \<lambda>_. 0, polls = 0\<rparr>" 1 "[0x18, 0xB9, 0x05, 1, 2, 0xFF]"]
    by (auto simp: s slot_blank_def)
  from h1(2) [rule_format, of "h1\<lparr>polls := 0\<rparr>" "[0, 0, 0, 0, 0, 0]"] h1(1)
  show ?thesis by (auto simp: fuses_grow_def slot_content_def)
qed

end
