(* ===== verification/Dump_Output.thy ===== *)
theory Dump_Output
  imports Bytes_LE
begin

text \<open>
  What the two encoders of a core dump share: the console of
  \<^verbatim>\<open>components/libc/printf.c\<close>, the memory that is dumped, and the cutting of a region into blocks
  (\<open>coredump_print_n_k\<close> of \<^verbatim>\<open>components/utils/coredump/coredump.c\<close>).

  The memory is the byte at every address of the 32-bit machine and does not change during a
  dump.  The state \<open>'s\<close> of an encoder extends that of the console.
\<close>

section \<open>The console\<close>

record uart =
  console :: bool
  written :: bytes

definition chars :: "string \<Rightarrow> bytes" where
  "chars t = map of_char t"

text \<open>Without a device nothing is written.  \<open>puts\<close> of the SDK appends no new line.\<close>

definition putchar :: "u8 \<Rightarrow> 'a uart_scheme \<Rightarrow> 'a uart_scheme" where
  "putchar c s = (if \<not> console s then s else s\<lparr>written := written s @ [c]\<rparr>)"

definition puts :: "bytes \<Rightarrow> 'a uart_scheme \<Rightarrow> 'a uart_scheme" where
  "puts t s = (if \<not> console s then s else s\<lparr>written := written s @ t\<rparr>)"

text \<open>\<open>printf\<close> of the text that its format yields.\<close>

definition printf :: "bytes \<Rightarrow> 'a uart_scheme \<Rightarrow> 'a uart_scheme" where
  "printf t s = (if \<not> console s then s else s\<lparr>written := written s @ t\<rparr>)"

fun hex_digits :: "string \<Rightarrow> nat \<Rightarrow> bytes" where
  "hex_digits digits n = (if n < 16 then [] else hex_digits digits (n div 16)) @ [of_char (digits ! (n mod 16))]"

declare hex_digits.simps [simp del]

definition fmt_02X :: "u32 \<Rightarrow> bytes" where
  "fmt_02X n = (let t = hex_digits ''0123456789ABCDEF'' (unat n) in replicate (2 - length t) 0x30 @ t)"

definition fmt_02x :: "u32 \<Rightarrow> bytes" where
  "fmt_02x n = (let t = hex_digits ''0123456789abcdef'' (unat n) in replicate (2 - length t) 0x30 @ t)"

lemma console_simps [simp]:
  "console (putchar c s) = console s" "console (puts t s) = console s" "console (printf t s) = console s"
  "uart.more (putchar c s) = uart.more s" "uart.more (puts t s) = uart.more s" "uart.more (printf t s) = uart.more s"
  by (simp_all add: putchar_def puts_def printf_def)

lemma written_simps [simp]:
  "console s \<Longrightarrow> written (putchar c s) = written s @ [c]"
  "console s \<Longrightarrow> written (puts t s) = written s @ t"
  "console s \<Longrightarrow> written (printf t s) = written s @ t"
  by (simp_all add: putchar_def puts_def printf_def)

section \<open>Memory\<close>

type_synonym memory = "u32 \<Rightarrow> u8"

definition mem_bytes :: "memory \<Rightarrow> u32 \<Rightarrow> nat \<Rightarrow> bytes" where
  "mem_bytes mem p n = map (\<lambda>i. mem (p + of_nat i)) [0..<n]"

text \<open>A memory image as a list of an address and the bytes there, loaded in that order.\<close>

definition load_block :: "u32 \<times> bytes \<Rightarrow> memory \<Rightarrow> memory" where
  "load_block = (\<lambda>(a, d) m x. if unat (x - a) < length d then d ! unat (x - a) else m x)"

definition load :: "(u32 \<times> bytes) list \<Rightarrow> memory \<Rightarrow> memory" where
  "load bs m = fold load_block bs m"

text \<open>\<open>n\<close> bytes at \<open>p\<close> of \<open>mem\<close>, seen at \<open>a\<close>.\<close>

definition overlay :: "memory \<Rightarrow> u32 \<Rightarrow> u32 \<Rightarrow> u32 \<Rightarrow> memory \<Rightarrow> memory" where
  "overlay mem p a n m x = (if unat (x - a) < unat n then mem (p + (x - a)) else m x)"

lemma length_mem_bytes [simp]: "length (mem_bytes mem p n) = n"
  by (simp add: mem_bytes_def)

lemma load_simps [simp]: "load [] m = m" "load (b # bs) m = load bs (load_block b m)" "load (bs @ cs) m = load cs (load bs m)"
  by (simp_all add: load_def)

lemma load_mem_bytes: "load_block (a, mem_bytes mem p (unat n)) m = overlay mem p a n m"
proof
  fix x show "load_block (a, mem_bytes mem p (unat n)) m x = overlay mem p a n m x"
    by (simp add: load_block_def overlay_def mem_bytes_def)
qed

lemma overlay_0 [simp]: "overlay mem p a 0 m = m"
  by (rule ext) (simp add: overlay_def)

lemma unat_uminus: "d \<noteq> 0 \<Longrightarrow> unat (- d) = 2 ^ 32 - unat d" for d :: u32
proof -
  assume "d \<noteq> 0"
  then have "0 < unat d" by (simp add: unat_gt_0)
  have "(unat (- d) + unat d) mod 2 ^ 32 = unat (- d + d)" by (simp only: unat_word_ariths) simp
  then have "(2 :: nat) ^ 32 dvd unat (- d) + unat d" by (simp add: dvd_eq_mod_eq_0)
  then obtain q where q: "unat (- d) + unat d = 2 ^ 32 * q" by blast
  have b: "unat (- d) < 4294967296" "unat d < 4294967296" by (rule unat_u32_less)+
  have "0 < q" using q \<open>0 < unat d\<close> by (simp add: gr0I)
  moreover have "q < 2" using q b by (simp del: unat_u32_less)
  ultimately have "q = 1" by simp
  with q show ?thesis by simp
qed

lemma overlay_split:
  assumes "unat k \<le> unat n"
  shows "overlay mem (p + k) (a + k) (n - k) (overlay mem p a k m) = overlay mem p a n m"
proof
  fix x
  have nk: "unat (n - k) = unat n - unat k" using assms by (simp add: unat_sub_le word_le_nat_alt)
  show "overlay mem (p + k) (a + k) (n - k) (overlay mem p a k m) x = overlay mem p a n m x"
  proof (cases "unat k \<le> unat (x - a)")
    case True
    then have "unat (x - a - k) = unat (x - a) - unat k" by (simp add: unat_sub_le word_le_nat_alt)
    moreover have "x - (a + k) = x - a - k" by simp
    ultimately have u: "unat (x - (a + k)) = unat (x - a) - unat k" by metis
    have "p + k + (x - (a + k)) = p + (x - a)" by simp
    moreover have "unat (x - a) - unat k < unat n - unat k \<longleftrightarrow> unat (x - a) < unat n" using True assms by linarith
    ultimately show ?thesis using True by (simp add: overlay_def u nk)
  next
    case False
    let ?d = "k - (x - a)"
    have d: "unat ?d = unat k - unat (x - a)" using False by (simp add: unat_sub_le word_le_nat_alt)
    have e: "x - (a + k) = - ?d" by simp
    have "?d \<noteq> 0" using d False by (metis unat_0 diff_is_0_eq)
    then have "unat (x - (a + k)) = 2 ^ 32 - unat ?d" using unat_uminus [of ?d] unfolding e by blast
    moreover have "unat n < 2 ^ 32" by simp
    ultimately have "\<not> unat (x - (a + k)) < unat (n - k)" using d nk False assms by linarith
    then show ?thesis using False assms by (simp add: overlay_def)
  qed
qed

section \<open>Cutting a region into blocks\<close>

text \<open>
  \<open>coredump_print_n_k\<close>, for the encoder \<open>print\<close> that the build selects.  The counter \<open>seg\<close> has 32
  bits and \<open>seg * 1024\<close> wraps, so the loop may run for ever: then its value is \<open>None\<close>.
\<close>

definition COREDUMP_PRINT_SEG_N_K :: u32 where "COREDUMP_PRINT_SEG_N_K = 1"

type_synonym 's encoder = "u32 \<Rightarrow> u32 \<Rightarrow> u32 \<Rightarrow> bytes option \<Rightarrow> 's \<Rightarrow> 's option"

partial_function (option) print_n_k_loop :: "'s encoder \<Rightarrow> u32 \<Rightarrow> u32 \<Rightarrow> u32 \<Rightarrow> bytes option \<Rightarrow> u32 \<Rightarrow> 's \<Rightarrow> 's option" where
  "print_n_k_loop print addr lma_addr len desc seg s =
     (if seg * COREDUMP_PRINT_SEG_N_K * 1024 < len then do {
        let printed_len = seg * COREDUMP_PRINT_SEG_N_K * 1024;
        s \<leftarrow> print (addr + printed_len) (lma_addr + printed_len)
               (if len - printed_len \<ge> COREDUMP_PRINT_SEG_N_K * 1024 then COREDUMP_PRINT_SEG_N_K * 1024 else len - printed_len)
               desc s;
        print_n_k_loop print addr lma_addr len desc (seg + 1) s
      } else Some s)"

definition coredump_print_n_k :: "'s encoder \<Rightarrow> u32 \<Rightarrow> u32 \<Rightarrow> u32 \<Rightarrow> bytes option \<Rightarrow> 's \<Rightarrow> 's option" where
  "coredump_print_n_k print addr lma_addr len desc s = print_n_k_loop print addr lma_addr len desc 0 s"

text \<open>
  What an encoder promises: from \<open>s\<close> to \<open>s'\<close> the output shows the blocks \<open>bs\<close>, and these load to
  the bytes of the region.  \<open>fits\<close> are the regions that the encoder can print.
\<close>

locale dump_encoder =
  fixes print :: "memory \<Rightarrow> 's encoder" and displays :: "'s \<Rightarrow> (u32 \<times> bytes) list \<Rightarrow> 's \<Rightarrow> bool"
    and fits :: "u32 \<Rightarrow> u32 \<Rightarrow> bool" and ok :: "'s \<Rightarrow> bool"
  assumes displays_nil: "ok s \<Longrightarrow> displays s [] s"
    and displays_append: "displays s bs s' \<Longrightarrow> displays s' cs s'' \<Longrightarrow> displays s (bs @ cs) s''"
    and prints: "ok s \<Longrightarrow> fits lma len \<Longrightarrow>
      \<exists>s' bs. print mem a lma len desc s = Some s' \<and> ok s' \<and> displays s bs s' \<and> (\<forall>m. load bs m = overlay mem lma a len m)"
    and fits_part: "fits lma len \<Longrightarrow> 1024 * k + unat n \<le> unat len \<Longrightarrow> fits (lma + of_nat (1024 * k)) n"
begin

lemma print_loop:
  assumes "ok s" and fits: "fits lma len" and len: "unat len \<le> 2 ^ 32 - 1024" and "1024 * k \<le> unat len"
  shows "\<exists>s' bs. print_n_k_loop (print mem) a lma len desc (of_nat k) s = Some s' \<and> ok s' \<and> displays s bs s' \<and>
    (\<forall>m. load bs m = overlay mem (lma + of_nat (1024 * k)) (a + of_nat (1024 * k)) (len - of_nat (1024 * k)) m)"
  using assms(1,4)
proof (induction "unat len - 1024 * k" arbitrary: k s rule: less_induct)
  case less
  define off where "off = (of_nat (1024 * k) :: u32)"
  have k: "1024 * k < 2 ^ 32" using less.prems(2) unat_u32_less [of len] by (simp del: unat_u32_less)
  have p: "of_nat k * COREDUMP_PRINT_SEG_N_K * 1024 = off" by (simp add: off_def COREDUMP_PRINT_SEG_N_K_def mult.commute)
  have up: "unat off = 1024 * k" unfolding off_def using k by (intro unat_of_nat_small) simp
  have sub: "unat (len - off) = unat len - 1024 * k" using less.prems(2) by (simp add: unat_sub_le word_le_nat_alt up)
  show ?case
  proof (cases "off < len")
    case False
    then have "unat (len - off) = 0" using up sub by (simp add: word_less_nat_alt)
    then have "len - off = 0" by (rule iffD1 [OF unat_eq_0])
    then show ?thesis
      unfolding off_def [symmetric] using False less.prems(1) displays_nil [OF less.prems(1)]
      by (subst print_n_k_loop.simps) (auto simp: p intro!: exI [of _ "[]"])
  next
    case True
    then have lt: "1024 * k < unat len" by (simp only: word_less_nat_alt up)
    define n where "n = (if len - off \<ge> COREDUMP_PRINT_SEG_N_K * 1024 then COREDUMP_PRINT_SEG_N_K * 1024 else len - off)"
    have n: "unat n = min 1024 (unat len - 1024 * k)"
      by (simp add: n_def COREDUMP_PRINT_SEG_N_K_def word_le_nat_alt sub min_def)
    obtain s1 b1 where s1: "print mem (a + off) (lma + off) n desc s = Some s1" "ok s1" "displays s b1 s1"
        "\<And>m. load b1 m = overlay mem (lma + off) (a + off) n m"
      using prints [OF less.prems(1) fits_part [OF fits], of k n, folded off_def] n lt by fastforce
    have step: "print_n_k_loop (print mem) a lma len desc (of_nat k) s = print_n_k_loop (print mem) a lma len desc (of_nat (Suc k)) s1"
      using True s1(1) by (subst print_n_k_loop.simps) (simp add: p n_def [symmetric] add.commute)
    show ?thesis
    proof (cases "1024 * Suc k \<le> unat len")
      case inside: True
      let ?q = "of_nat (1024 * Suc k) :: u32"
      have n': "n = 1024" using n inside by (simp add: word_unat_eq_iff)
      have "?q = off + n" by (simp add: n' off_def)
      then have split: "overlay mem (lma + ?q) (a + ?q) (len - ?q) (overlay mem (lma + off) (a + off) n m) =
          overlay mem (lma + off) (a + off) (len - off) m" for m
        using overlay_split [of n "len - off" mem "lma + off" "a + off" m] n sub by (simp only: \<open>?q = off + n\<close>) (simp add: algebra_simps)
      have "unat len - 1024 * Suc k < unat len - 1024 * k" using lt by simp
      from less.hyps [OF this s1(2) inside] obtain s2 b2 where
        "print_n_k_loop (print mem) a lma len desc (of_nat (Suc k)) s1 = Some s2" "ok s2" "displays s1 b2 s2"
        "\<And>m. load b2 m = overlay mem (lma + ?q) (a + ?q) (len - ?q) m" by blast
      with step s1 displays_append [OF s1(3)] split show ?thesis unfolding off_def [symmetric] by (intro exI [of _ s2] exI [of _ "b1 @ b2"]) simp
    next
      case last: False
      have "1024 * Suc k < 2 ^ 32" using lt len by simp
      then have "unat (of_nat (1024 * Suc k) :: u32) = 1024 * Suc k" by (intro unat_of_nat_small) simp
      then have "\<not> of_nat (Suc k) * COREDUMP_PRINT_SEG_N_K * 1024 < len"
        using last by (simp add: COREDUMP_PRINT_SEG_N_K_def word_less_nat_alt mult.commute)
      then have "print_n_k_loop (print mem) a lma len desc (of_nat (Suc k)) s1 = Some s1"
        by (subst print_n_k_loop.simps) simp
      moreover have "n = len - off" using last n sub lt by (simp add: word_unat_eq_iff)
      ultimately show ?thesis unfolding off_def [symmetric] using step s1 by auto
    qed
  qed
qed

lemma prints_n_k:
  assumes "ok s" and "fits lma len" and "unat len \<le> 2 ^ 32 - 1024"
  shows "\<exists>s' bs. coredump_print_n_k (print mem) a lma len desc s = Some s' \<and> ok s' \<and> displays s bs s' \<and>
    (\<forall>m. load bs m = overlay mem lma a len m)"
  using print_loop [OF assms, of 0] by (simp add: coredump_print_n_k_def)

end

end
