(* ===== verification/Dump_Srec.thy ===== *)
theory Dump_Srec
  imports Dump_Output Hex
begin

text \<open>
  The encoder of core dumps as Motorola S-records, \<^verbatim>\<open>components/utils/coredump/encoder_v2.c\<close>, and
  a reader of S-records that checks the byte count and the checksum of every line.
\<close>

section \<open>The encoder\<close>

record srec_encoder = uart +
  started :: int

definition COREDUMP_START_STR :: bytes where
  "COREDUMP_START_STR = [13, 10] @ chars ''-+-+-+- BFLB COREDUMP v1.0.0 +-+-+-+'' @ [13, 10, 13, 10]"

definition MAX_LINE_LENGTH :: u32 where "MAX_LINE_LENGTH = 100"
definition MAX_DATA_LENGTH :: u32 where "MAX_DATA_LENGTH = MAX_LINE_LENGTH div 2"

fun add_up :: "u8 \<Rightarrow> bytes \<Rightarrow> u8" where
  "add_up s [] = s"
| "add_up s (b # bs) = add_up (s + b) bs"

fun print_bytes :: "bytes \<Rightarrow> 'a uart_scheme \<Rightarrow> 'a uart_scheme" where
  "print_bytes [] s = s"
| "print_bytes (b # bs) s = print_bytes bs (printf (fmt_02X (ucast b)) s)"

definition srec_line :: "bytes \<Rightarrow> u32 \<Rightarrow> u32 \<Rightarrow> 'a uart_scheme \<Rightarrow> 'a uart_scheme" where
  "srec_line line bytes_to_read addr s =
     (let addr_bytes = map (\<lambda>i. ucast (drop_bit (8 * (3 - i)) addr AND 0xFF)) [0..<4];
        sum = add_up 0 line;
        sum = add_up sum addr_bytes;
        sum = sum + ucast (bytes_to_read + 4 + 1);
        s = printf (chars ''S3'' @ fmt_02X (bytes_to_read + 4 + 1) @ fmt_02X (ucast (addr_bytes ! 0)) @
              fmt_02X (ucast (addr_bytes ! 1)) @ fmt_02X (ucast (addr_bytes ! 2)) @ fmt_02X (ucast (addr_bytes ! 3))) s;
        s = print_bytes line s
      in printf (fmt_02X (NOT (ucast sum) AND 0xFF) @ [13, 10]) s)"

function srec_encode :: "memory \<Rightarrow> u32 \<Rightarrow> u32 \<Rightarrow> u32 \<Rightarrow> 'a uart_scheme \<Rightarrow> 'a uart_scheme" where
  "srec_encode mem data_ptr bytes_remaining addr s =
     (if bytes_remaining > 0 then
        let bytes_to_read = (if bytes_remaining > MAX_DATA_LENGTH then MAX_DATA_LENGTH else bytes_remaining);
          line = mem_bytes mem data_ptr (unat bytes_to_read)
        in srec_encode mem (data_ptr + bytes_to_read) (bytes_remaining - bytes_to_read) (addr + bytes_to_read)
             (srec_line line bytes_to_read addr s)
      else s)"
  by pat_completeness auto
termination
proof (relation "measure (\<lambda>(mem, data_ptr, bytes_remaining, addr, s). unat bytes_remaining)")
  fix n k :: u32
  assume "0 < n" and k: "k = (if n > MAX_DATA_LENGTH then MAX_DATA_LENGTH else n)"
  have "MAX_DATA_LENGTH > 0" by (simp add: MAX_DATA_LENGTH_def MAX_LINE_LENGTH_def)
  with \<open>0 < n\<close> have "0 < k" "k \<le> n" by (auto simp: k)
  then have "unat (n - k) < unat n" by (simp add: unat_sub_le word_less_nat_alt word_le_nat_alt)
  then show "((mem, p, n - k, a, t), (mem, p', n, a', t')) \<in> measure (\<lambda>(mem, data_ptr, bytes_remaining, addr, s). unat bytes_remaining)"
    for mem :: memory and p a p' a' t t'
    by simp
qed simp

declare srec_encode.simps [simp del]

definition coredump_print :: "memory \<Rightarrow> u32 \<Rightarrow> u32 \<Rightarrow> u32 \<Rightarrow> bytes option \<Rightarrow> 'a srec_encoder_scheme \<Rightarrow> 'a srec_encoder_scheme option" where
  "coredump_print mem addr lma_addr len desc s =
     (let s = (if started s = 0 then (puts COREDUMP_START_STR s)\<lparr>started := 1\<rparr> else s)
      in Some (srec_encode mem lma_addr len addr s))"

section \<open>Reading S-records\<close>

text \<open>
  A record of type 3: the count of the bytes that follow, an address of four bytes, the data and
  a byte that makes all of them add up to 255.
\<close>

definition be_address :: "bytes \<Rightarrow> u32" where
  "be_address bs = foldl (\<lambda>w b. push_bit 8 w OR ucast b) 0 bs"

definition read_record :: "bytes \<Rightarrow> ((u32 \<times> bytes) \<times> bytes) option" where
  "read_record t = do {
     head \<leftarrow> hex_decode (take 2 (drop 2 t));
     let count = unat (hd head);
     body \<leftarrow> hex_decode (take (2 * count) (drop 4 t));
     if take 2 t = chars ''S3'' \<and> length head = 1 \<and> 5 \<le> count \<and> length body = count \<and>
        sum_list (head @ body) = 255 \<and> take 2 (drop (4 + 2 * count) t) = [13, 10]
     then Some ((be_address (take 4 body), drop 4 (butlast body)), drop (6 + 2 * count) t)
     else None
   }"

function read_records :: "bytes \<Rightarrow> (u32 \<times> bytes) list option" where
  "read_records t =
     (if t = [] then Some []
      else do { (r, t') \<leftarrow> read_record t; rs \<leftarrow> read_records t'; Some (r # rs) })"
  by pat_completeness auto
termination
  by (relation "measure length") (auto simp: read_record_def bind_eq_Some_conv Let_def split: if_splits)

declare read_records.simps [simp del]

section \<open>Lines\<close>

lemma hex_pair_digits: "hex_pair b = [of_char (''0123456789ABCDEF'' ! (unat b div 16)), of_char (''0123456789ABCDEF'' ! (unat b mod 16))]"
proof -
  have table: "hex_asc_upper ! k = of_char (''0123456789ABCDEF'' ! k)" if "k < 16" for k
  proof -
    have "list_all (\<lambda>k. hex_asc_upper ! k = of_char (''0123456789ABCDEF'' ! k)) [0..<16]"
      by (simp add: hex_asc_upper_def upt_rec)
    with that show ?thesis by (simp add: list_all_iff)
  qed
  have "unat (b AND 0x0f) = unat b mod 16"
    using unat_bits [of 0 b 4] by (simp add: mask_numeral)
  moreover have "unat (drop_bit 4 (b AND 0xf0)) = unat b div 16"
  proof -
    have "drop_bit 4 (b AND 0xf0) = drop_bit 4 b AND mask 4"
      by (simp add: mask_numeral)
    moreover have "unat b div 16 < 16" using unat_u8_less [of b] by simp
    ultimately show ?thesis using unat_bits [of 4 b 4] by simp
  qed
  moreover have "unat b div 16 < 16" "unat b mod 16 < 16" using unat_u8_less [of b] by simp_all
  ultimately show ?thesis by (simp add: hex_pair_def hex_asc_hi_def hex_asc_lo_def table)
qed

lemma fmt_02X_pair: "fmt_02X (ucast b) = hex_pair b" for b :: u8
proof -
  have u: "unat (ucast b :: u32) = unat b" by simp
  show ?thesis
  proof (cases "unat b < 16")
    case True
    then show ?thesis by (simp add: fmt_02X_def u hex_digits.simps [of _ "unat b"] hex_pair_digits)
  next
    case False
    moreover have "unat b div 16 < 16" using unat_u8_less [of b] by simp
    ultimately show ?thesis
      by (simp add: fmt_02X_def u hex_digits.simps [of _ "unat b"] hex_digits.simps [of _ "unat b div 16"] hex_pair_digits)
  qed
qed

lemma print_bytes_console [simp]: "console (print_bytes bs s) = console s" "uart.more (print_bytes bs s) = uart.more s"
  by (induction bs arbitrary: s) simp_all

lemma print_bytes_written: "console s \<Longrightarrow> written (print_bytes bs s) = written s @ concat (map hex_pair bs)"
  by (induction bs arbitrary: s) (simp_all add: fmt_02X_pair)

lemma add_up_eq: "add_up s bs = s + sum_list bs"
  by (induction bs arbitrary: s) (simp_all add: add.assoc)

definition addr_bytes :: "u32 \<Rightarrow> bytes" where
  "addr_bytes a = [ucast (drop_bit 24 a), ucast (drop_bit 16 a), ucast (drop_bit 8 a), ucast a]"

definition line_body :: "u32 \<Rightarrow> bytes \<Rightarrow> bytes" where
  "line_body a d = of_nat (length d + 5) # addr_bytes a @ d"

definition line_text :: "u32 \<Rightarrow> bytes \<Rightarrow> bytes" where
  "line_text a d = chars ''S3'' @ concat (map hex_pair (line_body a d @ [NOT (sum_list (line_body a d))])) @ [13, 10]"

lemma srec_line_text:
  assumes "console s" and n: "n \<le> 50" and d: "length d = unat n"
  shows "srec_line d n a s = s\<lparr>written := written s @ line_text a d\<rparr>"
proof -
  let ?s = "srec_line d n a s"
  have bytes: "map (\<lambda>i. ucast (drop_bit (8 * (3 - i)) a AND 0xFF)) [0..<4] = addr_bytes a"
  proof -
    have m: "(0xFF :: u32) = mask 8" by (simp add: mask_numeral)
    have "ucast (x AND 0xFF) = (ucast x :: u8)" for x :: u32
      unfolding m by (rule bit_word_eqI) (auto simp: bit_ucast_iff bit_and_iff bit_mask_iff)
    then show ?thesis by (simp add: addr_bytes_def upt_rec numeral_eq_Suc)
  qed
  have count: "(ucast (n + 4 + 1) :: u8) = of_nat (length d + 5)" "n + 4 + 1 = ucast (of_nat (length d + 5) :: u8)"
  proof -
    have "unat n \<le> 50" using n by (simp add: word_le_nat_alt)
    then have u: "unat (n + 4 + 1) = length d + 5" "length d + 5 < 256"
      using unat_plus_small [of 5 n] d by simp_all
    show "(ucast (n + 4 + 1) :: u8) = of_nat (length d + 5)"
      unfolding u(1) [symmetric] by (rule of_nat_unat [symmetric])
    have "unat (of_nat (length d + 5) :: u8) = length d + 5" using u(2) by (intro unat_of_nat_small) simp
    then show "n + 4 + 1 = ucast (of_nat (length d + 5) :: u8)"
      using u(1) by (simp add: word_unat_eq_iff)
  qed
  define sum where "sum = add_up (add_up 0 d) (addr_bytes a) + ucast (n + 4 + 1)"
  have sum: "sum = sum_list (line_body a d)"
    unfolding sum_def add_up_eq line_body_def count(1) by (simp add: ac_simps)
  have neg: "NOT (ucast sum :: u32) AND 0xFF = ucast (NOT sum)"
  proof -
    have m: "(0xFF :: u32) = mask 8" by (simp add: mask_numeral)
    show ?thesis
      unfolding m by (rule bit_word_eqI) (auto simp: bit_ucast_iff bit_and_iff bit_mask_iff bit_not_iff)
  qed
  have "written ?s = written s @ line_text a d"
    unfolding srec_line_def Let_def bytes sum_def [symmetric]
    unfolding neg fmt_02X_pair
    unfolding count(2) fmt_02X_pair sum
    using assms(1) by (simp add: print_bytes_written fmt_02X_pair line_text_def line_body_def addr_bytes_def)
  moreover have "console ?s = console s" "uart.more ?s = uart.more s" by (simp_all add: srec_line_def Let_def)
  ultimately show ?thesis by simp
qed

section \<open>Texts\<close>

lemma be_address_bytes: "be_address (addr_bytes a) = a"
proof (rule bit_word_eqI)
  fix n assume n: "n < LENGTH(32)"
  then consider "n < 8" | "8 \<le> n" "n < 16" | "16 \<le> n" "n < 24" | "24 \<le> n" by linarith
  then show "bit (be_address (addr_bytes a)) n = bit a n"
    using n unfolding be_address_def addr_bytes_def foldl.simps
    by cases (auto simp: bit_or_iff bit_push_bit_iff bit_ucast_iff bit_drop_bit_eq)
qed

lemma read_record_parts:
  assumes "take 2 t = chars ''S3''" and c: "take 2 (drop 2 t) = hex_pair c"
    and b: "take (2 * unat c) (drop 4 t) = concat (map hex_pair body)"
    and "length body = unat c" and "5 \<le> unat c" and "sum_list (c # body) = 255"
    and "take 2 (drop (4 + 2 * unat c) t) = [13, 10]"
  shows "read_record t = Some ((be_address (take 4 body), drop 4 (butlast body)), drop (6 + 2 * unat c) t)"
proof -
  have "hex_decode (hex_pair c) = Some [c]" using hex_decode_pairs [of "[c]"] by simp
  with assms show ?thesis by (simp add: read_record_def Let_def hex_decode_pairs)
qed

lemma read_line:
  assumes "length d \<le> 50"
  shows "read_record (line_text a d @ t) = Some ((a, d), t)"
proof -
  let ?b = "addr_bytes a @ d" and ?c = "of_nat (length d + 5) :: u8"
  let ?x = "NOT (sum_list (line_body a d))"
  have la: "length (addr_bytes a) = 4" by (simp add: addr_bytes_def)
  have c: "unat ?c = length d + 5" using assms by (intro unat_of_nat_small) simp
  have lt: "line_text a d @ t = chars ''S3'' @ hex_pair ?c @ concat (map hex_pair (?b @ [?x])) @ [13, 10] @ t"
    by (simp add: line_text_def line_body_def)
  have two: "length (chars ''S3'') = 2" "length (hex_pair ?c) = 2" by (simp_all add: chars_def hex_pair_def)
  have parts: "take 2 (line_text a d @ t) = chars ''S3''" "take 2 (drop 2 (line_text a d @ t)) = hex_pair ?c"
    "drop 4 (line_text a d @ t) = concat (map hex_pair (?b @ [?x])) @ [13, 10] @ t"
    unfolding lt using two by (simp_all add: drop_append)
  have len: "length (concat (map hex_pair (?b @ [?x]))) = 2 * unat ?c"
    unfolding length_hex_pairs c using la by simp
  have body: "take (2 * unat ?c) (drop 4 (line_text a d @ t)) = concat (map hex_pair (?b @ [?x]))"
    "drop (4 + 2 * unat ?c) (line_text a d @ t) = [13, 10] @ t" "drop (6 + 2 * unat ?c) (line_text a d @ t) = t"
  proof -
    show "take (2 * unat ?c) (drop 4 (line_text a d @ t)) = concat (map hex_pair (?b @ [?x]))"
      unfolding parts len [symmetric] by simp
    have "drop (4 + 2 * unat ?c) (line_text a d @ t) = drop (2 * unat ?c) (drop 4 (line_text a d @ t))"
      by (simp only: drop_drop add.commute [of 4])
    then show d4: "drop (4 + 2 * unat ?c) (line_text a d @ t) = [13, 10] @ t"
      unfolding parts len [symmetric] by simp
    have "drop (6 + 2 * unat ?c) (line_text a d @ t) = drop 2 (drop (4 + 2 * unat ?c) (line_text a d @ t))"
      by (simp only: drop_drop) simp
    then show "drop (6 + 2 * unat ?c) (line_text a d @ t) = t" unfolding d4 by simp
  qed
  have "sum_list ([c] @ b @ [x]) = sum_list (c # b) + x" for c x :: u8 and b by (simp add: add.assoc)
  from this [of ?c ?b ?x] have "sum_list ([?c] @ ?b @ [?x]) = sum_list (line_body a d) + ?x" by (simp only: line_body_def)
  also have "\<dots> = 255"
  proof -
    have "x + NOT x = 255" for x :: u8 by (simp add: not_eq_complement)
    then show ?thesis .
  qed
  finally have sum: "sum_list ([?c] @ ?b @ [?x]) = 255" .
  have "read_record (line_text a d @ t) = Some ((be_address (take 4 (?b @ [?x])), drop 4 (butlast (?b @ [?x]))), drop (6 + 2 * unat ?c) (line_text a d @ t))"
  proof (rule read_record_parts [OF parts(1,2) body(1)])
    show "take 2 (drop (4 + 2 * unat ?c) (line_text a d @ t)) = [13, 10]" unfolding body(2) by simp
    show "sum_list (?c # ?b @ [?x]) = 255" using sum by (simp only: append_Cons append_Nil)
  qed (use la c in simp_all)
  then show ?thesis unfolding body(3) using la by (simp add: be_address_bytes butlast_append)
qed

text \<open>A text that holds the blocks \<open>bs\<close>, whatever follows it.\<close>

definition srec_text :: "bytes \<Rightarrow> (u32 \<times> bytes) list \<Rightarrow> bool" where
  "srec_text t bs = (\<forall>u. read_records (t @ u) = map_option ((@) bs) (read_records u))"

lemma srec_text_read: "srec_text t bs \<Longrightarrow> read_records t = Some bs"
  by (drule srec_text_def [THEN iffD1, THEN spec, of _ _ "[]"]) (simp add: read_records.simps)

lemma srec_text_nil: "srec_text [] []"
proof -
  have "((@) [] :: (u32 \<times> bytes) list \<Rightarrow> _) = (\<lambda>x. x)" by (rule ext) simp
  then show ?thesis by (simp add: srec_text_def option.map_ident)
qed

lemma srec_text_append: "srec_text t bs \<Longrightarrow> srec_text u cs \<Longrightarrow> srec_text (t @ u) (bs @ cs)"
proof -
  have "(@) (bs @ cs) = (@) bs \<circ> (@) cs" by (rule ext) simp
  then show "srec_text t bs \<Longrightarrow> srec_text u cs \<Longrightarrow> srec_text (t @ u) (bs @ cs)"
    by (simp add: srec_text_def option.map_comp)
qed

lemma srec_text_line: "length d \<le> 50 \<Longrightarrow> srec_text (line_text a d) [(a, d)]"
proof -
  assume d: "length d \<le> 50"
  have "line_text a d @ u \<noteq> []" for u by (simp add: line_text_def)
  then show ?thesis
    using read_line [OF d, of a]
    by (simp add: srec_text_def read_records.simps [of "line_text a d @ _"] map_option_case split: option.splits)
qed

lemma encode_text:
  "console s \<Longrightarrow> \<exists>t bs. srec_encode mem p n a s = s\<lparr>written := written s @ t\<rparr> \<and> srec_text t bs \<and>
    (\<forall>m. load bs m = overlay mem p a n m)"
proof (induction mem p n a s rule: srec_encode.induct)
  case (1 mem p n a s)
  show ?case
  proof (cases "n > 0")
    case False
    then have "n = 0" by (simp add: word_gt_0)
    then show ?thesis
      by (intro exI [of _ "[]"] exI [of _ "[]"]) (simp add: srec_encode.simps [of mem p 0] srec_text_nil)
  next
    case True
    define k where "k = (if n > MAX_DATA_LENGTH then MAX_DATA_LENGTH else n)"
    have k: "k \<le> 50" "k \<le> n" by (auto simp: k_def MAX_DATA_LENGTH_def MAX_LINE_LENGTH_def)
    let ?d = "mem_bytes mem p (unat k)"
    let ?s = "s\<lparr>written := written s @ line_text a ?d\<rparr>"
    have ld: "length ?d \<le> 50" using k(1) by (simp add: word_le_nat_alt)
    have line: "srec_line ?d k a s = ?s" using srec_line_text [OF "1.prems" k(1)] by simp
    obtain t bs where t: "srec_encode mem (p + k) (n - k) (a + k) ?s = ?s\<lparr>written := written ?s @ t\<rparr>"
        "srec_text t bs" "\<And>m. load bs m = overlay mem (p + k) (a + k) (n - k) m"
      using "1.IH" [OF True k_def refl, unfolded line] "1.prems" by auto
    have "srec_encode mem p n a s = srec_encode mem (p + k) (n - k) (a + k) ?s"
      using True by (simp add: srec_encode.simps [of mem p n] Let_def line k_def [symmetric])
    moreover have "srec_text (line_text a ?d @ t) ((a, ?d) # bs)"
      using srec_text_append [OF srec_text_line [OF ld] t(2)] by simp
    moreover have "load ((a, ?d) # bs) m = overlay mem p a n m" for m
      using overlay_split [of k n mem p a m] k(2) by (simp add: t(3) load_mem_bytes word_le_nat_alt)
    ultimately show ?thesis
      using t(1) by (intro exI [of _ "line_text a ?d @ t"] exI [of _ "(a, ?d) # bs"]) simp
  qed
qed

section \<open>Dumps\<close>

definition srec_displays :: "srec_encoder \<Rightarrow> (u32 \<times> bytes) list \<Rightarrow> srec_encoder \<Rightarrow> bool" where
  "srec_displays s bs s' =
     (console s' = console s \<and> (s' = s \<and> bs = [] \<or>
      started s' \<noteq> 0 \<and>
      (\<exists>t. srec_text t bs \<and> written s' = written s @ (if started s = 0 then COREDUMP_START_STR else []) @ t)))"

interpretation srec: dump_encoder coredump_print srec_displays "\<lambda>lma len. True" console
proof unfold_locales
  show "srec_displays s [] s" for s by (simp add: srec_displays_def)
next
  fix s bs s' cs s''
  assume a: "srec_displays s bs s'" and b: "srec_displays s' cs s''"
  show "srec_displays s (bs @ cs) s''"
  proof (cases "s' = s \<and> bs = [] \<or> s'' = s' \<and> cs = []")
    case True
    with a b show ?thesis by auto
  next
    case False
    with a obtain t where t: "srec_text t bs" "started s' \<noteq> 0"
        "written s' = written s @ (if started s = 0 then COREDUMP_START_STR else []) @ t"
      by (auto simp: srec_displays_def)
    from False b obtain u where "srec_text u cs" "started s'' \<noteq> 0" "written s'' = written s' @ u"
      using t(2) by (auto simp: srec_displays_def)
    with srec_text_append [OF t(1)] t(3) a b show ?thesis by (auto simp: srec_displays_def)
  qed
next
  fix s :: srec_encoder and mem lma len a desc
  assume c: "console s"
  define s1 where "s1 = (if started s = 0 then (puts COREDUMP_START_STR s)\<lparr>started := 1\<rparr> else s)"
  have s1: "console s1" "started s1 \<noteq> 0" "written s1 = written s @ (if started s = 0 then COREDUMP_START_STR else [])"
    using c by (auto simp: s1_def puts_def)
  obtain t bs where t: "srec_encode mem lma len a s1 = s1\<lparr>written := written s1 @ t\<rparr>" "srec_text t bs"
      "\<forall>m. load bs m = overlay mem lma a len m"
    using encode_text [OF s1(1)] by blast
  have "coredump_print mem a lma len desc s = Some (s1\<lparr>written := written s1 @ t\<rparr>)"
    unfolding coredump_print_def s1_def [symmetric] Let_def t(1) ..
  then show "\<exists>s' bs. coredump_print mem a lma len desc s = Some s' \<and> console s' \<and> srec_displays s bs s' \<and>
      (\<forall>m. load bs m = overlay mem lma a len m)"
    using s1 t(2,3) c by (auto simp: srec_displays_def)
qed simp

text \<open>What is printed before the records, and the memory that a reader gets from an output behind a prefix.\<close>

definition greeting :: "srec_encoder \<Rightarrow> bytes" where
  "greeting s = (if started s = 0 then COREDUMP_START_STR else [])"

definition srec_image :: "bytes \<Rightarrow> bytes \<Rightarrow> memory \<Rightarrow> memory option" where
  "srec_image prefix out m =
     (if take (length prefix) out = prefix then map_option (\<lambda>bs. load bs m) (read_records (drop (length prefix) out)) else None)"

text \<open>
  C22: a region of any length up to 4 GiB less 1 KiB, printed by \<open>coredump_print_n_k\<close> on a console, is
  a text of S-records (after the greeting, the first time) with correct byte counts and checksums
  that load to the bytes of the region at its address, and nowhere else.
\<close>

theorem srec_dump_loads:
  assumes "console s" and "unat len \<le> 2 ^ 32 - 1024" and "0 < len"
  shows "map_option (\<lambda>s'. srec_image (written s @ greeting s) (written s') m)
      (coredump_print_n_k (coredump_print mem) addr lma len desc s) = Some (Some (overlay mem lma addr len m))"
proof -
  obtain s' bs where d: "coredump_print_n_k (coredump_print mem) addr lma len desc s = Some s'" "srec_displays s bs s'"
      "load bs m = overlay mem lma addr len m" for m
    using srec.prints_n_k [OF assms(1) TrueI assms(2)] by metis
  have "bs \<noteq> []"
  proof
    assume "bs = []"
    then have "overlay mem lma addr len (\<lambda>x. mem lma + 1) addr = mem lma + 1" using d(3) [of "\<lambda>x. mem lma + 1"] by (simp add: fun_eq_iff)
    then show False using assms(3) by (simp add: overlay_def word_less_nat_alt)
  qed
  then obtain t where t: "srec_text t bs" "written s' = (written s @ greeting s) @ t"
    using d(2) by (auto simp: srec_displays_def greeting_def)
  show ?thesis using t(2) srec_text_read [OF t(1)] d(3) by (simp add: d(1) srec_image_def)
qed

theorem srec_dump_loads_witness:
  "map_option (\<lambda>s'. srec_image COREDUMP_START_STR (written s') (\<lambda>x. 0))
     (coredump_print_n_k (coredump_print (\<lambda>a. ucast a)) 0x1000 0x2000 3000 (Some (chars ''predefined''))
       \<lparr>console = True, written = [], started = 0\<rparr>) =
   Some (Some (overlay (\<lambda>a. ucast a) 0x2000 0x1000 3000 (\<lambda>x. 0)))"
  using srec_dump_loads [where s = "\<lparr>console = True, written = [], started = 0\<rparr>" and len = 3000 and mem = "\<lambda>a. ucast a"
      and addr = "0x1000" and lma = "0x2000" and desc = "Some (chars ''predefined'')" and m = "\<lambda>x. 0"]
  by (simp add: greeting_def)

end
