(* ===== verification/Dump_Base64.thy ===== *)
theory Dump_Base64
  imports Dump_Output Hex Base64 Crc
begin

text \<open>
  The encoder of core dumps as blocks of Base64, \<^verbatim>\<open>components/utils/coredump/encoder_v1.c\<close>: the
  client of the streaming encoder and of the streaming CRC-32.
\<close>

section \<open>The encoder\<close>

definition REVERSE :: "u32 \<Rightarrow> u32" where
  "REVERSE a = push_bit 24 (a AND 0xff) OR push_bit 8 (a AND 0xff00) OR drop_bit 8 (a AND 0xff0000) OR
     drop_bit 24 (a AND 0xff000000)"

definition COREDUMP_BLOCK_START_STR :: bytes where
  "COREDUMP_BLOCK_START_STR = [13, 10] @ chars ''------ DATA BEGIN ''"

definition COREDUMP_BLOCK_END_STR :: bytes where
  "COREDUMP_BLOCK_END_STR = [13, 10] @ chars ''------ END ''"

definition COREDUMP_BLOCK_CLOSE_STR :: bytes where
  "COREDUMP_BLOCK_CLOSE_STR = chars '' ------'' @ [13, 10]"

definition COREDUMP_START_STR_V1 :: bytes where
  "COREDUMP_START_STR_V1 = [13, 10] @ chars ''-+-+-+- BFLB COREDUMP v0.0.1 +-+-+-+'' @ [13, 10]"

definition BASE64_LINE_WRAP :: int where "BASE64_LINE_WRAP = 100"

text \<open>
  The object behind \<open>opaque\<close>, with the console, the memory and the checksum context it points to.
  \<open>line_wrap\<close> is its first member, so \<open>cd_base64_write_block\<close> may take it for an \<open>int\<close>.
\<close>

record base64_word_ctx = uart +
  line_wrap :: int
  addr_base :: u32
  addr_curr :: u32
  addr_end :: u32
  buf :: bytes
  crc_ctx :: crc32_stream_ctx

definition cd_base64_write_block :: "bytes \<Rightarrow> base64_word_ctx \<Rightarrow> base64_word_ctx" where
  "cd_base64_write_block b ctx =
     (let ctx = putchar (b ! 3) (putchar (b ! 2) (putchar (b ! 1) (putchar (b ! 0) ctx)));
        ctx = ctx\<lparr>line_wrap := line_wrap ctx + 1\<rparr>
      in if line_wrap ctx > BASE64_LINE_WRAP div 4 then (puts [13, 10] ctx)\<lparr>line_wrap := 0\<rparr> else ctx)"

text \<open>An aligned word of the memory, byte by byte.\<close>

definition load_word :: "memory \<Rightarrow> u32 \<Rightarrow> bytes" where
  "load_word mem base = map (\<lambda>i. mem (base + of_nat i)) [0..<4]"

text \<open>On the end of the data the byte is not stored: the reader does not use it.\<close>

definition read_word_cb :: "memory \<Rightarrow> base64_word_ctx \<Rightarrow> int \<times> u8 \<times> base64_word_ctx" where
  "read_word_cb mem ctx =
     (if addr_curr ctx < addr_end ctx then
        let base = push_bit 2 (drop_bit 2 (addr_curr ctx));
          ctx = (if base \<noteq> addr_base ctx then ctx\<lparr>addr_base := base, buf := load_word mem base\<rparr> else ctx);
          data = buf ctx ! unat (addr_curr ctx AND 0x3);
          ctx = ctx\<lparr>addr_curr := addr_curr ctx + 1\<rparr>;
          ctx = ctx\<lparr>crc_ctx := utils_crc32_stream_feed (crc_ctx ctx) data\<rparr>
        in (0, data, ctx)
      else (1, 0, ctx))"

definition dump_base64_word :: "memory \<Rightarrow> u32 \<Rightarrow> u32 \<Rightarrow> 'a uart_scheme \<times> crc32_stream_ctx \<Rightarrow> ('a uart_scheme \<times> crc32_stream_ctx) option" where
  "dump_base64_word mem data len = (\<lambda>(s, crc). do {
     let base = push_bit 2 (drop_bit 2 data);
     ctx \<leftarrow> utils_base64_encode_stream (read_word_cb mem) cd_base64_write_block
       \<lparr>console = console s, written = written s, line_wrap = 0, addr_base = base, addr_curr = data,
        addr_end = base + len, buf = load_word mem base, crc_ctx = crc\<rparr>;
     Some (s\<lparr>written := written ctx\<rparr>, crc_ctx ctx)
   })"

record encoder_v1 = uart +
  initialized :: int

fun put_chars :: "bytes \<Rightarrow> 'a uart_scheme \<Rightarrow> 'a uart_scheme" where
  "put_chars [] s = s"
| "put_chars (c # cs) s = put_chars cs (putchar c s)"

text \<open>
  The hexadecimal text of a word, through \<open>tmp\<close> and \<open>tmp_buf\<close>.  \<open>sp\<close> is the address of the local
  variable \<open>crc\<close>, which \<open>dump_base64_word\<close> reads as it reads the memory.
\<close>

definition print_reversed :: "u32 \<Rightarrow> 'a uart_scheme \<Rightarrow> 'a uart_scheme option" where
  "print_reversed x s = do {
     (tmp_buf, _) \<leftarrow> utils_bin2hex (replicate 8 0) 0 (bytes32 (REVERSE x)) 4;
     Some (put_chars tmp_buf s)
   }"

definition coredump_print_v1 :: "u32 \<Rightarrow> memory \<Rightarrow> u32 \<Rightarrow> u32 \<Rightarrow> u32 \<Rightarrow> bytes option \<Rightarrow> encoder_v1 \<Rightarrow> encoder_v1 option" where
  "coredump_print_v1 sp mem addr lma_addr len desc s = do {
     let s = (if initialized s = 0 then (puts COREDUMP_START_STR_V1 s)\<lparr>initialized := 1\<rparr> else s);
     let s = puts COREDUMP_BLOCK_START_STR s;
     s \<leftarrow> print_reversed addr s;
     let s = putchar (of_char CHR ''@'') s;
     s \<leftarrow> print_reversed len s;
     let s = (case desc of None \<Rightarrow> s | Some d \<Rightarrow> puts d (putchar (of_char CHR ''@'') s));
     let s = puts COREDUMP_BLOCK_CLOSE_STR s;
     (s, ctx) \<leftarrow> dump_base64_word mem lma_addr len (s, utils_crc32_stream_init \<lparr>crc = 0\<rparr>);
     let s = puts COREDUMP_BLOCK_END_STR s;
     let crc = utils_crc32_stream_results ctx;
     (s, ctx) \<leftarrow> dump_base64_word (load_block (sp, bytes32 crc) mem) sp 4 (s, ctx);
     Some (puts COREDUMP_BLOCK_CLOSE_STR s)
   }"

section \<open>The data of a block\<close>

lemma word_of_address:
  "push_bit 2 (drop_bit 2 x) + (x AND 3) = x" "unat (x AND 3) < 4" for x :: u32
proof -
  have m: "x AND 3 = take_bit 2 x" by (simp add: take_bit_eq_mask mask_numeral)
  then show "push_bit 2 (drop_bit 2 x) + (x AND 3) = x" by (simp add: bits_ident)
  show "unat (x AND 3) < 4" unfolding m by (simp add: take_bit_eq_mod unat_mod)
qed

lemma load_word_at: "load_word mem (push_bit 2 (drop_bit 2 x)) ! unat (x AND 3) = mem x"
  using word_of_address(2) [of x] by (simp add: load_word_def word_of_address(1))

text \<open>What is still to be read, and what has been written behind \<open>w0\<close>, without the line breaks.\<close>

definition pending :: "memory \<Rightarrow> base64_word_ctx \<Rightarrow> bytes" where
  "pending mem ctx = mem_bytes mem (addr_curr ctx) (unat (addr_end ctx - addr_curr ctx))"

definition text_behind :: "bytes \<Rightarrow> base64_word_ctx \<Rightarrow> bytes" where
  "text_behind w0 ctx = filter (\<lambda>c. c \<noteq> 13 \<and> c \<noteq> 10) (drop (length w0) (written ctx))"

text \<open>
  The cached word is that of the memory, and the checksum is that of the bytes read so far, from
  \<open>p\<close> on, begun with \<open>c0\<close>.
\<close>

definition dumping :: "memory \<Rightarrow> u32 \<Rightarrow> u32 \<Rightarrow> bytes \<Rightarrow> u32 \<Rightarrow> base64_word_ctx \<Rightarrow> bool" where
  "dumping mem p e w0 c0 ctx =
     (console ctx \<and> take (length w0) (written ctx) = w0 \<and> addr_end ctx = e \<and> p \<le> addr_curr ctx \<and> addr_curr ctx \<le> e \<and>
      buf ctx = load_word mem (addr_base ctx) \<and>
      crc (crc_ctx ctx) = crc_bytes 0xEDB88320 c0 (mem_bytes mem p (unat (addr_curr ctx - p))))"

lemma mem_bytes_Cons: "mem_bytes mem p (Suc n) = mem p # mem_bytes mem (p + 1) n"
  by (simp add: mem_bytes_def upt_conv_Cons map_Suc_upt [symmetric] add.assoc del: upt_Suc)

lemma mem_bytes_Suc: "mem_bytes mem p (Suc n) = mem_bytes mem p n @ [mem (p + of_nat n)]"
  by (simp add: mem_bytes_def)

lemma pending_step:
  assumes "addr_curr ctx < addr_end ctx"
  shows "pending mem ctx = mem (addr_curr ctx) # mem_bytes mem (addr_curr ctx + 1) (unat (addr_end ctx - (addr_curr ctx + 1)))"
proof -
  have le: "addr_curr ctx \<le> addr_end ctx" "addr_curr ctx + 1 \<le> addr_end ctx"
    using assms by (simp_all add: inc_le order_less_imp_le)
  have u: "unat (addr_curr ctx + 1) = Suc (unat (addr_curr ctx))" by (rule unat_Suc_below [OF assms])
  have "unat (addr_end ctx - addr_curr ctx) = Suc (unat (addr_end ctx - (addr_curr ctx + 1)))"
    using assms u by (simp add: unat_sub_le le word_less_nat_alt del: diff_diff_eq)
  then show ?thesis by (simp add: pending_def mem_bytes_Cons)
qed

lemma b64_no_break: "q \<subseteq> b64_chars \<Longrightarrow> 13 \<notin> q \<and> 10 \<notin> q"
  by (auto simp: b64_chars_def g_encodingTable_def)

lemma read_word_next:
  assumes d: "dumping mem p e w0 c0 ctx" and lt: "addr_curr ctx < addr_end ctx"
  shows "\<exists>ctx'. read_word_cb mem ctx = (0, mem (addr_curr ctx), ctx') \<and> dumping mem p e w0 c0 ctx' \<and>
    addr_curr ctx' = addr_curr ctx + 1 \<and> written ctx' = written ctx"
proof -
  let ?base = "push_bit 2 (drop_bit 2 (addr_curr ctx))" and ?c = "addr_curr ctx"
  let ?ctx = "ctx\<lparr>addr_base := ?base, buf := load_word mem ?base\<rparr>"
  have cache: "(if ?base \<noteq> addr_base ctx then ?ctx else ctx) = ?ctx" using d by (simp add: dumping_def)
  have read: "read_word_cb mem ctx =
      (0, mem ?c, ?ctx\<lparr>addr_curr := ?c + 1, crc_ctx := utils_crc32_stream_feed (crc_ctx ctx) (mem ?c)\<rparr>)"
    unfolding read_word_cb_def Let_def cache using lt by (simp add: load_word_at)
  have b: "p \<le> ?c" "addr_end ctx = e" using d by (simp_all add: dumping_def)
  have le: "p \<le> ?c + 1" "?c + 1 \<le> e"
    using lt b unat_Suc_below [OF lt] by (simp_all add: word_le_nat_alt word_less_nat_alt)
  have "unat (?c + 1 - p) = Suc (unat (?c - p))"
    using unat_Suc_below [OF lt] b(1) by (simp add: unat_sub_le le word_le_nat_alt Suc_diff_le)
  moreover have "p + of_nat (unat (?c - p)) = ?c" by simp
  ultimately have "mem_bytes mem p (unat (?c + 1 - p)) = mem_bytes mem p (unat (?c - p)) @ [mem ?c]"
    by (simp only: mem_bytes_Suc)
  then show ?thesis
    unfolding read using d le by (simp add: dumping_def feed_eq crc_bytes_def)
qed

lemma write_block:
  assumes d: "dumping mem p e w0 c0 ctx" and q: "length q = 4" "set q \<subseteq> b64_chars"
  shows "dumping mem p e w0 c0 (cd_base64_write_block q ctx)" "pending mem (cd_base64_write_block q ctx) = pending mem ctx"
    "text_behind w0 (cd_base64_write_block q ctx) = text_behind w0 ctx @ q"
proof -
  have "q = [q ! 0, q ! 1, q ! 2, q ! 3]"
    using q(1) by (intro nth_equalityI) (auto simp: less_Suc_eq numeral_eq_Suc)
  then obtain w b c x where l: "q = [w, b, c, x]" by blast
  have chars: "filter (\<lambda>c. c \<noteq> 13 \<and> c \<noteq> 10) q = q" using b64_no_break [OF q(2)] by (auto simp: filter_id_conv)
  have c: "console ctx" using d by (simp add: dumping_def)
  define n where "n = line_wrap ctx + 1"
  define brk where "brk = (if n > BASE64_LINE_WRAP div 4 then [13, 10] else [] :: bytes)"
  have run: "cd_base64_write_block q ctx =
      ctx\<lparr>written := written ctx @ q @ brk, line_wrap := (if n > BASE64_LINE_WRAP div 4 then 0 else n)\<rparr>"
    using c by (simp add: cd_base64_write_block_def Let_def l putchar_def puts_def n_def brk_def)
  have long: "length w0 \<le> length (written ctx)" using d by (auto simp: dumping_def dest: arg_cong [of _ _ length])
  show "dumping mem p e w0 c0 (cd_base64_write_block q ctx)" "pending mem (cd_base64_write_block q ctx) = pending mem ctx"
    using d long unfolding run by (simp_all add: dumping_def pending_def)
  have "filter (\<lambda>c. c \<noteq> 13 \<and> c \<noteq> 10) brk = []" by (simp add: brk_def)
  then show "text_behind w0 (cd_base64_write_block q ctx) = text_behind w0 ctx @ q"
    using long chars unfolding run by (simp add: text_behind_def)
qed

interpretation dumper: base64_stream "read_word_cb mem" cd_base64_write_block "pending mem" "text_behind w0" "dumping mem p e w0 c0"
  for mem p e w0 c0
proof unfold_locales
  fix ctx x xs
  assume d: "dumping mem p e w0 c0 ctx" and inp: "pending mem ctx = x # xs"
  have lt: "addr_curr ctx < addr_end ctx"
    using d inp by (auto simp: dumping_def pending_def mem_bytes_def order_less_le)
  obtain ctx' where r: "read_word_cb mem ctx = (0, mem (addr_curr ctx), ctx')" "dumping mem p e w0 c0 ctx'"
      "addr_curr ctx' = addr_curr ctx + 1" "written ctx' = written ctx"
    using read_word_next [OF d lt] by blast
  have "addr_end ctx' = addr_end ctx" using d r(2) by (simp add: dumping_def)
  with r inp pending_step [OF lt] show "\<exists>ctx'. read_word_cb mem ctx = (0, x, ctx') \<and> dumping mem p e w0 c0 ctx' \<and>
      pending mem ctx' = xs \<and> text_behind w0 ctx' = text_behind w0 ctx"
    by (simp add: text_behind_def pending_def)
next
  fix ctx
  assume d: "dumping mem p e w0 c0 ctx" and inp: "pending mem ctx = []"
  then have "\<not> addr_curr ctx < addr_end ctx" using pending_step [of ctx mem] by auto
  then show "\<exists>r c ctx'. read_word_cb mem ctx = (r, c, ctx') \<and> r \<noteq> 0 \<and> dumping mem p e w0 c0 ctx' \<and>
      pending mem ctx' = [] \<and> text_behind w0 ctx' = text_behind w0 ctx"
    using d inp by (simp add: read_word_cb_def)
next
  fix ctx q
  assume "dumping mem p e w0 c0 ctx" and "length (q :: bytes) = 4" and "set q \<subseteq> b64_chars"
  from write_block [OF this] show "dumping mem p e w0 c0 (cd_base64_write_block q ctx) \<and>
      pending mem (cd_base64_write_block q ctx) = pending mem ctx \<and>
      text_behind w0 (cd_base64_write_block q ctx) = text_behind w0 ctx @ q" by blast
qed

section \<open>Blocks\<close>

lemma dump_word:
  assumes c: "console s" and al: "data AND 3 = 0" and fit: "unat data + unat len < 2 ^ 32"
  shows "\<exists>w ctx. dump_base64_word mem data len (s, crc0) = Some (s\<lparr>written := written s @ w\<rparr>, ctx) \<and>
    filter (\<lambda>c. c \<noteq> 13 \<and> c \<noteq> 10) w = base64 (mem_bytes mem data (unat len)) \<and>
    crc ctx = crc_bytes 0xEDB88320 (crc crc0) (mem_bytes mem data (unat len))"
proof -
  have base: "push_bit 2 (drop_bit 2 data) = data" using word_of_address(1) [of data] al by simp
  let ?ctx = "\<lparr>console = console s, written = written s, line_wrap = 0, addr_base = data, addr_curr = data,
        addr_end = data + len, buf = load_word mem data, crc_ctx = crc0\<rparr>"
  have top: "unat (data + len) = unat data + unat len" using fit by (intro unat_plus_small) simp
  then have le: "data \<le> data + len" by (simp add: word_le_nat_alt)
  have "dumping mem data (data + len) (written s) (crc crc0) ?ctx"
    using c le by (simp add: dumping_def mem_bytes_def crc_bytes_def)
  from dumper.stream_encodes [OF this] obtain ctx where r: "utils_base64_encode_stream (read_word_cb mem) cd_base64_write_block ?ctx = Some ctx"
      "dumping mem data (data + len) (written s) (crc crc0) ctx" "pending mem ctx = []"
      "text_behind (written s) ctx = text_behind (written s) ?ctx @ base64 (pending mem ?ctx)" by blast
  have "addr_end ctx = data + len" using r(2) by (simp add: dumping_def)
  moreover have "\<not> addr_curr ctx < addr_end ctx" using pending_step [of ctx mem] r(3) by auto
  ultimately have "addr_curr ctx = data + len" using r(2) by (simp add: dumping_def)
  then have "crc (crc_ctx ctx) = crc_bytes 0xEDB88320 (crc crc0) (mem_bytes mem data (unat len))"
    using r(2) by (simp add: dumping_def)
  moreover have wr: "written ctx = written s @ drop (length (written s)) (written ctx)"
    using r(2) append_take_drop_id [of "length (written s)" "written ctx"] by (simp add: dumping_def)
  moreover have "filter (\<lambda>c. c \<noteq> 13 \<and> c \<noteq> 10) (drop (length (written s)) (written ctx)) = base64 (mem_bytes mem data (unat len))"
    using r(4) by (simp add: text_behind_def pending_def)
  moreover have "dump_base64_word mem data len (s, crc0) = Some (s\<lparr>written := written ctx\<rparr>, crc_ctx ctx)"
    using r(1) by (simp add: dump_base64_word_def base)
  ultimately show ?thesis
    by (intro exI [of _ "drop (length (written s)) (written ctx)"] exI [of _ "crc_ctx ctx"]) (simp flip: wr)
qed

definition be_bytes :: "u32 \<Rightarrow> bytes" where
  "be_bytes a = [ucast (drop_bit 24 a), ucast (drop_bit 16 a), ucast (drop_bit 8 a), ucast a]"

lemma bit_REVERSE:
  assumes "n < 8"
  shows "bit (REVERSE a) n = bit a (24 + n)" "bit (REVERSE a) (8 + n) = bit a (16 + n)"
    "bit (REVERSE a) (16 + n) = bit a (8 + n)" "bit (REVERSE a) (24 + n) = bit a n"
proof -
  have m: "(0xff :: u32) = mask 8" "(0xff00 :: u32) = push_bit 8 (mask 8)" "(0xff0000 :: u32) = push_bit 16 (mask 8)"
    "(0xff000000 :: u32) = push_bit 24 (mask 8)" by (simp_all add: mask_numeral)
  show "bit (REVERSE a) n = bit a (24 + n)" "bit (REVERSE a) (8 + n) = bit a (16 + n)"
    "bit (REVERSE a) (16 + n) = bit a (8 + n)" "bit (REVERSE a) (24 + n) = bit a n"
    using assms unfolding REVERSE_def m bit_or_iff bit_moved by simp_all
qed

lemma reversed: "bytes32 (REVERSE a) = be_bytes a"
proof -
  have "(ucast (drop_bit k (REVERSE a)) :: u8) = ucast (drop_bit l a)"
    if "\<And>n. n < 8 \<Longrightarrow> bit (REVERSE a) (k + n) = bit a (l + n)" for k l
    by (rule bit_word_eqI) (simp add: bit_ucast_iff bit_drop_bit_eq that)
  from this [of 0 24] this [of 8 16] this [of 16 8] this [of 24 0] show ?thesis
    by (simp add: bytes32_def be_bytes_def bit_REVERSE)
qed

lemma put_chars_written: "console s \<Longrightarrow> put_chars cs s = s\<lparr>written := written s @ cs\<rparr>"
  by (induction cs arbitrary: s) (simp_all add: putchar_def)

lemma print_reversed_written:
  assumes "console s"
  shows "print_reversed x s = Some (s\<lparr>written := written s @ concat (map hex_pair (be_bytes x))\<rparr>)"
proof -
  have l: "length (be_bytes x) = 4" by (simp add: be_bytes_def)
  then have "utils_bin2hex (replicate 8 0) 0 (be_bytes x) 4 = Some (concat (map hex_pair (be_bytes x)), 8)"
    using bin2hex_eq [of 4 "be_bytes x" 0 "replicate 8 0"] by simp
  then show ?thesis using assms by (simp add: print_reversed_def reversed put_chars_written)
qed

text \<open>
  The format that the comment at the head of the encoder gives: address, length, description, the
  bytes in Base64 broken into lines, their CRC-32 in Base64.
\<close>

definition dump_block :: "u32 \<Rightarrow> bytes \<Rightarrow> bytes option \<Rightarrow> bytes \<Rightarrow> bool" where
  "dump_block a d desc t =
     (\<exists>w v. filter (\<lambda>c. c \<noteq> 13 \<and> c \<noteq> 10) w = base64 d \<and>
       filter (\<lambda>c. c \<noteq> 13 \<and> c \<noteq> 10) v = base64 (bytes32 (crc32_spec d)) \<and>
       t = COREDUMP_BLOCK_START_STR @ concat (map hex_pair (be_bytes a)) @ [of_char CHR ''@''] @
         concat (map hex_pair (be_bytes (of_nat (length d)))) @
         (case desc of None \<Rightarrow> [] | Some n \<Rightarrow> [of_char CHR ''@''] @ n) @ COREDUMP_BLOCK_CLOSE_STR @ w @
         COREDUMP_BLOCK_END_STR @ v @ COREDUMP_BLOCK_CLOSE_STR)"

lemma crc_initial: "crc (utils_crc32_stream_init c) = 0xffffffff"
  by (simp add: utils_crc32_stream_init_def)

lemma print_block:
  assumes c: "console s" and al: "lma AND 3 = 0" and fit: "unat lma + unat len < 2 ^ 32"
    and sp: "sp AND 3 = 0" "unat sp + 4 < 2 ^ 32"
  defines "g \<equiv> (if initialized s = 0 then COREDUMP_START_STR_V1 else [])"
  shows "\<exists>t. coredump_print_v1 sp mem a lma len desc s = Some (s\<lparr>initialized := (if initialized s = 0 then 1 else initialized s), written := written s @ g @ t\<rparr>) \<and>
    dump_block a (mem_bytes mem lma (unat len)) desc t"
proof -
  define s1 where "s1 = (if initialized s = 0 then (puts COREDUMP_START_STR_V1 s)\<lparr>initialized := 1\<rparr> else s)"
  have s1: "s1 = s\<lparr>written := written s @ g, initialized := (if initialized s = 0 then 1 else initialized s)\<rparr>"
    using c by (simp add: s1_def puts_def g_def)
  define head where "head = COREDUMP_BLOCK_START_STR @ concat (map hex_pair (be_bytes a)) @ [of_char CHR ''@''] @
    concat (map hex_pair (be_bytes len)) @ (case desc of None \<Rightarrow> [] | Some n \<Rightarrow> [of_char CHR ''@''] @ n) @ COREDUMP_BLOCK_CLOSE_STR"
  let ?d = "mem_bytes mem lma (unat len)"
  let ?s2 = "s1\<lparr>written := written s1 @ head\<rparr>"
  have c2: "console ?s2" using c by (simp add: s1)
  obtain w ctx where w: "dump_base64_word mem lma len (?s2, utils_crc32_stream_init \<lparr>crc = 0\<rparr>) = Some (?s2\<lparr>written := written ?s2 @ w\<rparr>, ctx)"
      "filter (\<lambda>c. c \<noteq> 13 \<and> c \<noteq> 10) w = base64 ?d" "crc ctx = crc_bytes 0xEDB88320 0xffffffff ?d"
    using dump_word [OF c2 al fit, of mem "utils_crc32_stream_init \<lparr>crc = 0\<rparr>"] unfolding crc_initial by blast
  have r: "utils_crc32_stream_results ctx = crc32_spec ?d"
    by (simp add: utils_crc32_stream_results_def w(3) crc32_spec_def)
  let ?m = "load_block (sp, bytes32 (crc32_spec ?d)) mem"
  let ?s3 = "?s2\<lparr>written := written ?s2 @ w @ COREDUMP_BLOCK_END_STR\<rparr>"
  have crc: "mem_bytes ?m sp (unat (4 :: u32)) = bytes32 (crc32_spec ?d)"
    by (simp add: mem_bytes_def load_block_def bytes32_def upt_rec)
  obtain v ctx' where v: "dump_base64_word ?m sp 4 (?s3, ctx) = Some (?s3\<lparr>written := written ?s3 @ v\<rparr>, ctx')"
      "filter (\<lambda>c. c \<noteq> 13 \<and> c \<noteq> 10) v = base64 (bytes32 (crc32_spec ?d))"
    using dump_word [of ?s3 sp 4 ?m ctx] c2 sp crc by auto
  let ?t = "head @ w @ COREDUMP_BLOCK_END_STR @ v @ COREDUMP_BLOCK_CLOSE_STR"
  have c1: "console s1" using c by (simp add: s1)
  have "coredump_print_v1 sp mem a lma len desc s = Some (s1\<lparr>written := written s1 @ ?t\<rparr>)"
    using c1 w(1) v(1) unfolding coredump_print_v1_def Let_def s1_def [symmetric]
    by (cases desc) (simp_all add: print_reversed_written puts_def putchar_def head_def r)
  moreover have "dump_block a ?d desc ?t"
    using w(2) v(2) by (auto simp: dump_block_def head_def)
  ultimately show ?thesis by (auto simp: s1)
qed

section \<open>Dumps\<close>

definition block_displays :: "encoder_v1 \<Rightarrow> (u32 \<times> bytes) list \<Rightarrow> encoder_v1 \<Rightarrow> bool" where
  "block_displays s bs s' =
     (console s' = console s \<and> (s' = s \<and> bs = [] \<or>
      initialized s' \<noteq> 0 \<and>
      (\<exists>ts. list_all2 (\<lambda>(a, d) t. \<exists>desc. dump_block a d desc t) bs ts \<and>
         written s' = written s @ (if initialized s = 0 then COREDUMP_START_STR_V1 else []) @ concat ts)))"

text \<open>The address of the local variable is that of a word on the stack.\<close>

definition stack_word :: "u32 \<Rightarrow> bool" where
  "stack_word sp = (sp AND 3 = 0 \<and> unat sp + 4 < 2 ^ 32)"

definition aligned_region :: "u32 \<Rightarrow> u32 \<Rightarrow> bool" where
  "aligned_region lma len = (lma AND 3 = 0 \<and> unat lma + unat len < 2 ^ 32)"

lemma aligned_part:
  assumes "aligned_region lma len" and "1024 * k + unat n \<le> unat len"
  shows "aligned_region (lma + of_nat (1024 * k)) n"
proof -
  have b: "1024 * k < 2 ^ 32" using assms(2) unat_u32_less [of len] by (simp del: unat_u32_less)
  then have u: "unat (of_nat (1024 * k) :: u32) = 1024 * k" by (intro unat_of_nat_small) simp
  moreover have "unat lma + 1024 * k < 2 ^ 32" using assms by (simp add: aligned_region_def)
  ultimately have "unat (lma + of_nat (1024 * k)) = unat lma + 1024 * k" by (subst unat_plus_small) simp_all
  moreover have "(lma + of_nat (1024 * k)) AND 3 = 0"
  proof -
    have m: "x AND 3 = take_bit 2 x" for x :: u32 by (simp add: take_bit_eq_mask mask_numeral)
    have z: "x AND 3 = 0 \<longleftrightarrow> 4 dvd unat x" for x :: u32
      unfolding m by (simp add: take_bit_eq_mod word_unat_eq_iff unat_mod dvd_eq_mod_eq_0)
    have "4 dvd unat lma" using assms(1) by (simp add: aligned_region_def z)
    then show ?thesis unfolding z \<open>unat (lma + of_nat (1024 * k)) = unat lma + 1024 * k\<close> by simp
  qed
  ultimately show ?thesis using assms by (simp add: aligned_region_def)
qed

lemma block_displays_append:
  assumes a: "block_displays s bs s'" and b: "block_displays s' cs s''"
  shows "block_displays s (bs @ cs) s''"
proof (cases "s' = s \<and> bs = [] \<or> s'' = s' \<and> cs = []")
  case True
  with a b show ?thesis by auto
next
  case False
  with a obtain ts where t: "list_all2 (\<lambda>(a, d) t. \<exists>desc. dump_block a d desc t) bs ts" "initialized s' \<noteq> 0"
      "written s' = written s @ (if initialized s = 0 then COREDUMP_START_STR_V1 else []) @ concat ts"
    by (auto simp: block_displays_def)
  from False b obtain us where "list_all2 (\<lambda>(a, d) t. \<exists>desc. dump_block a d desc t) cs us" "initialized s'' \<noteq> 0"
      "written s'' = written s' @ concat us"
    using t(2) by (auto simp: block_displays_def)
  then have "list_all2 (\<lambda>(a, d) t. \<exists>desc. dump_block a d desc t) (bs @ cs) (ts @ us)" "initialized s'' \<noteq> 0"
    "written s'' = written s @ (if initialized s = 0 then COREDUMP_START_STR_V1 else []) @ concat (ts @ us)"
    using t by (simp_all add: list_all2_appendI)
  moreover have "console s'' = console s" using a b by (simp add: block_displays_def)
  ultimately show ?thesis unfolding block_displays_def by blast
qed

lemma block_prints:
  assumes c: "console s" and "stack_word sp" and "aligned_region lma len"
  shows "\<exists>s' bs. coredump_print_v1 sp mem a lma len desc s = Some s' \<and> console s' \<and> block_displays s bs s' \<and>
    (\<forall>m. load bs m = overlay mem lma a len m)"
proof -
  obtain t where t: "coredump_print_v1 sp mem a lma len desc s =
      Some (s\<lparr>initialized := (if initialized s = 0 then 1 else initialized s),
        written := written s @ (if initialized s = 0 then COREDUMP_START_STR_V1 else []) @ t\<rparr>)"
      "dump_block a (mem_bytes mem lma (unat len)) desc t"
    using print_block [OF c, of lma len sp mem a desc] assms(2,3) by (auto simp: stack_word_def aligned_region_def)
  let ?d = "mem_bytes mem lma (unat len)"
  have "list_all2 (\<lambda>(a, d) t. \<exists>desc. dump_block a d desc t) [(a, ?d)] [t]" using t(2) by auto
  then have "block_displays s [(a, ?d)] (s\<lparr>initialized := (if initialized s = 0 then 1 else initialized s),
        written := written s @ (if initialized s = 0 then COREDUMP_START_STR_V1 else []) @ t\<rparr>)"
    unfolding block_displays_def by (intro conjI disjI2 exI [of _ "[t]"]) simp_all
  then show ?thesis
    using t(1) c by (intro exI [of _ "s\<lparr>initialized := (if initialized s = 0 then 1 else initialized s),
        written := written s @ (if initialized s = 0 then COREDUMP_START_STR_V1 else []) @ t\<rparr>"]
        exI [of _ "[(a, ?d)]"]) (simp add: load_mem_bytes)
qed

interpretation block_dump: dump_encoder "coredump_print_v1 sp" block_displays
  "\<lambda>lma len. stack_word sp \<and> aligned_region lma len" console for sp
proof unfold_locales
  show "block_displays s [] s" for s by (simp add: block_displays_def)
qed (blast intro: block_displays_append block_prints aligned_part)+

text \<open>
  C23: an aligned region, printed by \<open>coredump_print_n_k\<close> on a console with the encoder of Base64, is
  (after the greeting, the first time) a sequence of blocks in the documented format, each with the
  address, the length, the bytes and their CRC-32, that load to the bytes of the region.
\<close>

theorem base64_dump_loads:
  assumes "console s" and "stack_word sp" and "aligned_region lma len" and "unat len \<le> 2 ^ 32 - 1024" and "0 < len"
  shows "\<exists>s' bs ts. coredump_print_n_k (coredump_print_v1 sp mem) addr lma len desc s = Some s' \<and>
    written s' = written s @ (if initialized s = 0 then COREDUMP_START_STR_V1 else []) @ concat ts \<and>
    list_all2 (\<lambda>(a, d) t. \<exists>desc. dump_block a d desc t) bs ts \<and> load bs m = overlay mem lma addr len m"
proof -
  obtain s' bs where d: "coredump_print_n_k (coredump_print_v1 sp mem) addr lma len desc s = Some s'" "block_displays s bs s'"
      "load bs m = overlay mem lma addr len m" for m
    using block_dump.prints_n_k [OF assms(1) conjI [OF assms(2,3)] assms(4)] by metis
  have "bs \<noteq> []"
  proof
    assume "bs = []"
    then have "overlay mem lma addr len (\<lambda>x. mem lma + 1) addr = mem lma + 1" using d(3) [of "\<lambda>x. mem lma + 1"] by (simp add: fun_eq_iff)
    then show False using assms(5) by (simp add: overlay_def word_less_nat_alt)
  qed
  with d show ?thesis unfolding block_displays_def by blast
qed

theorem base64_dump_loads_witness:
  "\<exists>s' bs ts. coredump_print_n_k (coredump_print_v1 0x42000000 (\<lambda>a. ucast a)) 0x1000 0x2000 3001 (Some (chars ''predefined''))
      \<lparr>console = True, written = [7], initialized = 1\<rparr> = Some s' \<and>
    written s' = [7] @ concat ts \<and>
    list_all2 (\<lambda>(a, d) t. \<exists>desc. dump_block a d desc t) bs ts \<and>
    load bs (\<lambda>x. 0) = overlay (\<lambda>a. ucast a) 0x2000 0x1000 3001 (\<lambda>x. 0)"
  using base64_dump_loads [where s = "\<lparr>console = True, written = [7], initialized = 1\<rparr>" and sp = "0x42000000" and lma = "0x2000"
      and len = 3001 and mem = "\<lambda>a. ucast a" and addr = "0x1000" and desc = "Some (chars ''predefined'')" and m = "\<lambda>x. 0"]
  by (simp add: stack_word_def aligned_region_def)

end
