(* ===== verification/Coredump.thy ===== *)
theory Coredump
  imports Dump_Output Nor_Flash
begin

text \<open>
  The core dump, \<^verbatim>\<open>components/utils/coredump/coredump.c\<close>: all sections of the table
  \<open>_dump_sections\<close> are printed, and written to a partition of the flash when they fit.

  The encoder and the format in flash are chosen by the build; they are parameters here, and the
  locales state what the dump relies on.  So are the operations of the flash.  The state of a format
  extends that of the flash, so that it can hold the format's own variables.
\<close>

section \<open>Model\<close>

record dump_section =
  sec_addr :: u32
  sec_len :: u32

record 'f dump_flash =
  flash :: 'f

text \<open>\<open>lma_xip\<close> is a pointer, given by the bytes behind it.\<close>

function xip_write_loop :: "(u32 \<Rightarrow> bytes \<Rightarrow> 'f \<Rightarrow> int \<times> 'f) \<Rightarrow> u32 \<Rightarrow> (nat \<Rightarrow> u8) \<Rightarrow> u32 \<Rightarrow> u32 \<Rightarrow> int \<Rightarrow>
    ('f, 'a) dump_flash_scheme \<Rightarrow> int \<times> ('f, 'a) dump_flash_scheme" where
  "xip_write_loop write lma lma_xip len rest ret st =
     (if rest > 0 then
        let buf_len = (if 32 > rest then rest else 32);
          write_buf = map (\<lambda>i. lma_xip (unat (len - rest) + i)) [0..<unat buf_len];
          (ret, f) = write (lma + (len - rest)) write_buf (flash st);
          st = st\<lparr>flash := f\<rparr>
        in if ret \<noteq> 0 then (ret, st) else xip_write_loop write lma lma_xip len (rest - buf_len) ret st
      else (ret, st))"
  by pat_completeness auto
termination
proof (relation "measure (\<lambda>(write, lma, lma_xip, len, rest, ret, st). unat rest)")
  fix rest k :: u32
  assume "0 < rest" and "k = (if 32 > rest then rest else 32)"
  then have "0 < k" "k \<le> rest" by auto
  then have "unat (rest - k) < unat rest" by (simp add: unat_sub_le word_less_nat_alt word_le_nat_alt)
  then show "((w, lma, xip, len, rest - k, ret', st'), (w, lma, xip, len, rest, ret, st)) \<in>
      measure (\<lambda>(write, lma, lma_xip, len, rest, ret, st). unat rest)"
    for w lma xip len ret' st' ret st by simp
qed simp

declare xip_write_loop.simps [simp del]

definition coredump_xip_flash_write :: "(u32 \<Rightarrow> bytes \<Rightarrow> 'f \<Rightarrow> int \<times> 'f) \<Rightarrow> u32 \<Rightarrow> (nat \<Rightarrow> u8) \<Rightarrow> u32 \<Rightarrow>
    ('f, 'a) dump_flash_scheme \<Rightarrow> int \<times> ('f, 'a) dump_flash_scheme" where
  "coredump_xip_flash_write write lma lma_xip len st = xip_write_loop write lma lma_xip len len 0 st"

text \<open>A table without an end marker is read past its end.\<close>

fun get_size_of_sections :: "dump_section list \<Rightarrow> u32 \<Rightarrow> u32 option" where
  "get_size_of_sections [] dump_sections_size = None"
| "get_size_of_sections (s # secs) dump_sections_size =
     (if sec_addr s \<noteq> 0xffffffff then get_size_of_sections secs (dump_sections_size + sec_len s)
      else Some dump_sections_size)"

record core_partition =
  coredump_flash_addr :: u32
  coredump_flash_size :: u32

definition core_partition_init :: "u32 \<Rightarrow> u32 \<Rightarrow> core_partition" where
  "core_partition_init flash_addr flash_size = \<lparr>coredump_flash_addr = flash_addr, coredump_flash_size = flash_size\<rparr>"

fun print_hex :: "bytes \<Rightarrow> 'a uart_scheme \<Rightarrow> 'a uart_scheme" where
  "print_hex [] s = s"
| "print_hex (b # bs) s = print_hex bs (printf (fmt_02x (ucast b)) s)"

definition print_build_id_fmt :: "bytes \<Rightarrow> 'a uart_scheme \<Rightarrow> 'a uart_scheme" where
  "print_build_id_fmt build_id s =
     (let s = printf ([13, 10] @ chars ''check build_id with `riscv64-unknown-elf-readelf -n *.elf` output '' @ [13, 10]) s;
        s = printf (chars ''build_id: '') s;
        s = print_hex build_id s
      in printf [13, 10] s)"

text \<open>The hooks of a format: they see the table, or the memory, and may move the address in flash.\<close>

record 'c dump_hooks =
  core_bin_start_hook :: "dump_section list \<Rightarrow> u32 \<Rightarrow> u32 \<Rightarrow> 'c \<Rightarrow> (u32 \<times> 'c) option"
  core_bin_sections_hook :: "memory \<Rightarrow> u32 \<Rightarrow> u32 \<Rightarrow> u32 \<Rightarrow> 'c \<Rightarrow> u32 \<times> 'c"
  core_bin_end_hook :: "u32 \<Rightarrow> 'c \<Rightarrow> 'c"

fun dump_sections :: "'s encoder \<Rightarrow> 'c dump_hooks \<Rightarrow> memory \<Rightarrow> bool \<Rightarrow> dump_section list \<Rightarrow> 's \<times> u32 \<times> 'c \<Rightarrow>
    ('s \<times> u32 \<times> 'c) option" where
  "dump_sections print hooks mem coredump_flash_disable [] st = None"
| "dump_sections print hooks mem coredump_flash_disable (s # secs) st =
     (if sec_addr s = 0xffffffff then Some st
      else if sec_addr s = 0 then Some st
      else if sec_len s = 0 then dump_sections print hooks mem coredump_flash_disable secs st
      else do {
        let (out, lma, c) = st;
        out \<leftarrow> coredump_print_n_k print (sec_addr s) (sec_addr s) (sec_len s) (Some (chars ''predefined'')) out;
        dump_sections print hooks mem coredump_flash_disable secs
          (if \<not> coredump_flash_disable
           then (out, core_bin_sections_hook hooks mem lma (sec_addr s) (sec_len s) c) else (out, lma, c))
      })"

text \<open>
  The run up to the endless loop that follows it: the build identifier that is kept in memory, the
  output and the flash.
\<close>

definition bl_coredump_run ::
  "core_partition \<Rightarrow> (u32 \<Rightarrow> u32 \<Rightarrow> 'f \<Rightarrow> int \<times> 'f) \<Rightarrow> 'a uart_scheme encoder \<Rightarrow> ('f, 'b) dump_flash_scheme dump_hooks \<Rightarrow>
   dump_section list \<Rightarrow> memory \<Rightarrow> bytes \<Rightarrow> 'a uart_scheme \<times> ('f, 'b) dump_flash_scheme \<Rightarrow>
   (bytes \<times> 'a uart_scheme \<times> ('f, 'b) dump_flash_scheme) option" where
  "bl_coredump_run p erase print hooks secs mem elf_build_id = (\<lambda>(out, c). do {
     let lma = coredump_flash_addr p;
     sz \<leftarrow> get_size_of_sections secs 0;
     let coredump_flash_disable = (coredump_flash_size p < sz + 4096);
     (lma, c) \<leftarrow> (if coredump_flash_disable then Some (lma, c)
        else let (ret, f) = erase lma (coredump_flash_size p) (flash c)
             in core_bin_start_hook hooks secs lma (coredump_flash_size p) (c\<lparr>flash := f\<rparr>));
     core_build_id \<leftarrow> mem_read elf_build_id 0 20;
     let out = print_build_id_fmt core_build_id out;
     (out, lma, c) \<leftarrow> dump_sections print hooks mem coredump_flash_disable secs (out, lma, c);
     let c = (if \<not> coredump_flash_disable then core_bin_end_hook hooks (coredump_flash_addr p) c else c);
     Some (core_build_id, printf ([13, 10] @ chars ''-+-+-+- BFLB COREDUMP END +-+-+-+'' @ [13, 10]) out, c)
   })"

section \<open>Writing to erased flash\<close>

lemma poke_poke:
  "i + length d + length e \<le> length a \<Longrightarrow> poke (poke a i d) (i + length d) e = poke a i (d @ e)"
  by (simp add: poke_def ac_simps)

lemma poke_Nil: "i \<le> length a \<Longrightarrow> poke a i [] = a"
  by (simp add: poke_def)

lemma xip_write_loop_area:
  assumes dev: "healthy_flash view erase write" and "unat lma = base + i" and "i + unat len \<le> sz" and "base + sz \<le> 2 ^ 32"
  shows "rest \<le> len \<Longrightarrow> ret = 0 \<Longrightarrow>
    slice (area view (flash st) base sz) (i + (unat len - unat rest)) (unat rest) = blank (unat rest) \<Longrightarrow>
    \<exists>f. xip_write_loop write lma src len rest ret st = (0, st\<lparr>flash := f\<rparr>) \<and>
      area view f base sz = poke (area view (flash st) base sz) (i + (unat len - unat rest)) (map src [unat len - unat rest..<unat len])"
proof (induction "unat rest" arbitrary: rest ret st rule: less_induct)
  case less
  let ?A = "area view (flash st) base sz"
  show ?case
  proof (cases "rest > 0")
    case False
    then have "rest = 0" by (simp add: word_gt_0)
    then show ?thesis
      using less.prems(2) assms(3) by (intro exI [of _ "flash st"]) (simp add: xip_write_loop.simps [of _ _ _ _ 0] poke_Nil)
  next
    case True
    define k where "k = (if 32 > rest then rest else 32)"
    have k: "k \<le> rest" "0 < k" using True by (auto simp: k_def)
    then have uk: "unat k \<le> unat rest" "0 < unat k" by (simp_all add: word_le_nat_alt word_less_nat_alt)
    have ur: "unat rest \<le> unat len" using less.prems(1) by (simp add: word_le_nat_alt)
    define pos where "pos = unat len - unat rest"
    have pos: "unat (len - rest) = pos" "pos + unat rest = unat len" using less.prems(1) ur by (simp_all add: pos_def unat_sub_le)
    let ?d = "map (\<lambda>j. src (pos + j)) [0..<unat k]"
    define f1 where "f1 = snd (write (lma + (len - rest)) ?d (flash st))"
    have w: "write (lma + (len - rest)) ?d (flash st) = (0, f1)"
      using dev by (simp add: f1_def healthy_flash_def prod_eq_iff)
    have a: "unat (lma + (len - rest)) = base + (i + pos)"
    proof -
      have "unat lma + unat (len - rest) < 2 ^ 32" using assms pos ur uk by linarith
      then show ?thesis using unat_plus_small [of lma "len - rest"] assms(2) pos(1) by simp
    qed
    have bl: "slice ?A (i + pos) (unat rest) = blank (unat rest)" using less.prems(3) by (simp add: pos_def)
    then have "slice ?A (i + pos) (unat k) = blank (unat k)" "slice ?A (i + pos + unat k) (unat rest - unat k) = blank (unat rest - unat k)"
      using slice_split [of ?A "i + pos" "unat k" "unat rest - unat k"] blank_add [of "unat k" "unat rest - unat k"] uk
        length_slice [of "i + pos" "unat k" ?A] assms(3) pos by (simp_all add: append_eq_append_conv)
    note bl = this
    have A1: "area view f1 base sz = poke ?A (i + pos) ?d"
      unfolding f1_def by (rule area_write [OF dev a]) (use bl(1) assms(3) pos uk in simp_all)
    let ?st = "st\<lparr>flash := f1\<rparr>"
    have rk: "unat (rest - k) = unat rest - unat k" using k by (simp add: unat_sub_le)
    have step: "xip_write_loop write lma src len rest ret st = xip_write_loop write lma src len (rest - k) 0 ?st"
      using True w by (simp add: xip_write_loop.simps [of _ _ _ _ rest] Let_def k_def [symmetric] pos(1))
    have next_pos: "unat len - unat (rest - k) = pos + unat k" using rk uk pos by simp
    have sl: "slice (area view (flash ?st) base sz) (i + (unat len - unat (rest - k))) (unat (rest - k)) = blank (unat (rest - k))"
    proof -
      have "slice (poke ?A (i + pos) ?d) (i + pos + unat k) (unat rest - unat k) = slice ?A (i + pos + unat k) (unat rest - unat k)"
        by (rule slice_poke_after) (use assms(3) pos(2) uk in simp_all)
      moreover have "flash ?st = f1" by simp
      ultimately show ?thesis unfolding next_pos unfolding rk using bl(2) A1 by (simp add: add.assoc)
    qed
    have le: "rest - k \<le> len" using rk ur by (simp add: word_le_nat_alt)
    have less: "unat (rest - k) < unat rest" using rk uk by simp
    from less.hyps [OF less le refl sl] obtain f where f: "xip_write_loop write lma src len (rest - k) 0 ?st = (0, ?st\<lparr>flash := f\<rparr>)"
        "area view f base sz = poke (area view (flash ?st) base sz) (i + (pos + unat k)) (map src [pos + unat k..<unat len])"
      unfolding next_pos by blast
    have d: "?d = map src [pos..<pos + unat k]" by (rule nth_equalityI) simp_all
    have "[pos..<pos + unat k + (unat rest - unat k)] = [pos..<pos + unat k] @ [pos + unat k..<pos + unat k + (unat rest - unat k)]"
      by (rule upt_add_eq_append) simp
    then have "map src [pos..<unat len] = ?d @ map src [pos + unat k..<unat len]"
      unfolding d map_append [symmetric] using uk pos by simp
    then have "area view f base sz = poke ?A (i + pos) (map src [pos..<unat len])"
      using f(2) A1 poke_poke [of "i + pos" ?d "map src [pos + unat k..<unat len]" ?A] assms(3) pos uk by (simp add: add.assoc)
    then show ?thesis using step f(1) by (intro exI [of _ f]) (simp add: pos_def)
  qed
qed

lemma xip_write_area:
  assumes "healthy_flash view erase write" and "unat lma = base + i" and "i + unat len \<le> sz" and "base + sz \<le> 2 ^ 32"
    and "slice (area view (flash st) base sz) i (unat len) = blank (unat len)"
  shows "\<exists>f. coredump_xip_flash_write write lma src len st = (0, st\<lparr>flash := f\<rparr>) \<and>
    area view f base sz = poke (area view (flash st) base sz) i (map src [0..<unat len])"
  using xip_write_loop_area [OF assms(1-4), of len 0 st src] assms(5) by (simp add: coredump_xip_flash_write_def)

lemma xip_write_blank:
  assumes "healthy_flash view erase write" and a: "area view (flash st) base sz = p @ blank m @ q" and "unat lma = base + length p"
    and "unat len \<le> m" and "base + sz \<le> 2 ^ 32"
  shows "\<exists>f. coredump_xip_flash_write write lma src len st = (0, st\<lparr>flash := f\<rparr>) \<and>
    area view f base sz = p @ map src [0..<unat len] @ blank (m - unat len) @ q"
proof -
  have "length (area view (flash st) base sz) = sz" by simp
  then have "length p + unat len \<le> sz" using assms(4) unfolding a by simp
  moreover have "slice (area view (flash st) base sz) (length p) (unat len) = blank (unat len)"
    unfolding a using assms(4) by (rule slice_blank) simp
  ultimately obtain f where "coredump_xip_flash_write write lma src len st = (0, st\<lparr>flash := f\<rparr>)"
      "area view f base sz = poke (area view (flash st) base sz) (length p) (map src [0..<unat len])"
    using xip_write_area [OF assms(1,3) _ assms(5)] by blast
  then show ?thesis unfolding a using poke_blank [of "map src [0..<unat len]" m "length p" p q] assms(4)
    by (intro exI [of _ f]) simp
qed

lemma map_nth_all: "length xs = n \<Longrightarrow> map (\<lambda>i. xs ! i) [0..<n] = xs"
  using map_nth by blast

section \<open>The table of sections\<close>

fun active :: "dump_section list \<Rightarrow> dump_section list" where
  "active [] = []"
| "active (s # secs) =
     (if sec_addr s = 0xffffffff \<or> sec_addr s = 0 then []
      else if sec_len s = 0 then active secs else s # active secs)"

fun terminated :: "dump_section list \<Rightarrow> bool" where
  "terminated [] = False"
| "terminated (s # secs) = (sec_addr s = 0xffffffff \<or> terminated secs)"

text \<open>All lengths up to the end marker, those behind an entry with address 0 included.\<close>

fun table_size :: "dump_section list \<Rightarrow> nat" where
  "table_size [] = 0"
| "table_size (s # secs) = (if sec_addr s \<noteq> 0xffffffff then unat (sec_len s) + table_size secs else 0)"

definition sections_size :: "dump_section list \<Rightarrow> nat" where
  "sections_size secs = (\<Sum>s\<leftarrow>secs. unat (sec_len s))"

lemma get_size_eq: "terminated secs \<Longrightarrow> get_size_of_sections secs n = Some (n + of_nat (table_size secs))"
  by (induction secs arbitrary: n) (auto simp: add.assoc)

lemma active_size: "sections_size (active secs) \<le> table_size secs"
  by (induction secs) (auto simp: sections_size_def)

lemma active_nonempty: "s \<in> set (active secs) \<Longrightarrow> sec_len s \<noteq> 0"
  by (induction secs) (auto split: if_splits)

text \<open>A section as a block of a dump, and the memory that holds the sections.\<close>

definition section_block :: "memory \<Rightarrow> dump_section \<Rightarrow> u32 \<times> bytes" where
  "section_block mem s = (sec_addr s, mem_bytes mem (sec_addr s) (unat (sec_len s)))"

lemma load_section: "load_block (section_block mem s) m = overlay mem (sec_addr s) (sec_addr s) (sec_len s) m"
  by (simp add: section_block_def load_mem_bytes)

section \<open>Interfaces\<close>

text \<open>
  What the dump relies on in a format: \<open>dumped mem all done base sz lma c\<close> is that of the sections
  \<open>all\<close> those in \<open>done\<close> are in flash and the next one goes to \<open>lma\<close>; \<open>image\<close> is a reader.
\<close>

locale dump_format =
  fixes hooks :: "'c dump_hooks" and erased :: "u32 \<Rightarrow> u32 \<Rightarrow> 'c \<Rightarrow> bool"
    and holds :: "dump_section list \<Rightarrow> u32 \<Rightarrow> u32 \<Rightarrow> bool"
    and dumped :: "memory \<Rightarrow> dump_section list \<Rightarrow> dump_section list \<Rightarrow> u32 \<Rightarrow> u32 \<Rightarrow> u32 \<Rightarrow> 'c \<Rightarrow> bool"
    and image :: "u32 \<Rightarrow> u32 \<Rightarrow> 'c \<Rightarrow> (u32 \<times> bytes) list option"
  assumes start: "terminated secs \<Longrightarrow> erased base sz c \<Longrightarrow> holds (active secs) base sz \<Longrightarrow>
      \<exists>lma c'. core_bin_start_hook hooks secs base sz c = Some (lma, c') \<and> dumped mem (active secs) [] base sz lma c'"
    and step: "dumped mem (ds @ s # es) ds base sz lma c \<Longrightarrow> core_bin_sections_hook hooks mem lma (sec_addr s) (sec_len s) c = (lma', c') \<Longrightarrow>
      dumped mem (ds @ s # es) (ds @ [s]) base sz lma' c'"
    and finish: "dumped mem ss ss base sz lma c \<Longrightarrow>
      image base sz (core_bin_end_hook hooks base c) = Some (map (section_block mem) ss)"

locale core_dump =
  dump_encoder print displays fits console + dump_format hooks erased holds dumped image
  for print :: "memory \<Rightarrow> 'a uart_scheme encoder" and displays fits
    and hooks :: "('f, 'b) dump_flash_scheme dump_hooks" and erased holds dumped image
begin

lemma dump_all:
  assumes "terminated secs" and "console out" and "\<forall>s \<in> set (active secs). fits (sec_addr s) (sec_len s) \<and> unat (sec_len s) \<le> 2 ^ 32 - 1024"
    and "\<not> off \<longrightarrow> dumped mem (ds @ active secs) ds base sz lma c"
  shows "\<exists>out' bs lma' c'. dump_sections (print mem) hooks mem off secs (out, lma, c) = Some (out', lma', c') \<and> console out' \<and>
    displays out bs out' \<and> (\<forall>m. load bs m = load (map (section_block mem) (active secs)) m) \<and>
    (if off then c' = c else dumped mem (ds @ active secs) (ds @ active secs) base sz lma' c')"
  using assms
proof (induction secs arbitrary: out lma c ds)
  case Nil
  then show ?case by simp
next
  case (Cons s secs)
  consider "sec_addr s = 0xffffffff \<or> sec_addr s = 0" | "sec_addr s \<noteq> 0xffffffff" "sec_addr s \<noteq> 0" "sec_len s = 0"
    | "sec_addr s \<noteq> 0xffffffff" "sec_addr s \<noteq> 0" "sec_len s \<noteq> 0" by blast
  then show ?case
  proof cases
    case 1
    then show ?thesis using Cons.prems displays_nil [OF Cons.prems(2)] by (intro exI [of _ out] exI [of _ "[]"] exI [of _ lma] exI [of _ c]) auto
  next
    case 2
    then have e: "active (s # secs) = active secs" "terminated secs"
      "dump_sections (print mem) hooks mem off (s # secs) (out, lma, c) = dump_sections (print mem) hooks mem off secs (out, lma, c)"
      using Cons.prems(1) by simp_all
    show ?thesis using Cons.IH [OF e(2) Cons.prems(2)] Cons.prems(3,4) unfolding e by blast
  next
    case 3
    have prems: "terminated secs" "fits (sec_addr s) (sec_len s)" "unat (sec_len s) \<le> 2 ^ 32 - 1024"
      "\<forall>s \<in> set (active secs). fits (sec_addr s) (sec_len s) \<and> unat (sec_len s) \<le> 2 ^ 32 - 1024"
      using Cons.prems 3 by simp_all
    obtain out1 b1 where o: "coredump_print_n_k (print mem) (sec_addr s) (sec_addr s) (sec_len s) (Some (chars ''predefined'')) out = Some out1"
        "console out1" "displays out b1 out1" "\<And>m. load b1 m = overlay mem (sec_addr s) (sec_addr s) (sec_len s) m"
      using prints_n_k [OF Cons.prems(2) prems(2,3)] by blast
    obtain lma1 c1 where h: "(lma1, c1) = (if \<not> off then core_bin_sections_hook hooks mem lma (sec_addr s) (sec_len s) c else (lma, c))"
      by (metis surj_pair)
    have d: "\<not> off \<longrightarrow> dumped mem ((ds @ [s]) @ active secs) (ds @ [s]) base sz lma1 c1"
      using step [of mem ds s "active secs" base sz lma c lma1 c1] Cons.prems(4) 3 h by auto
    obtain out' b2 lma' c' where r: "dump_sections (print mem) hooks mem off secs (out1, lma1, c1) = Some (out', lma', c')" "console out'"
        "displays out1 b2 out'" "\<And>m. load b2 m = load (map (section_block mem) (active secs)) m"
        "if off then c' = c1 else dumped mem ((ds @ [s]) @ active secs) ((ds @ [s]) @ active secs) base sz lma' c'"
      using Cons.IH [OF prems(1) o(2) prems(4) d] by blast
    have "dump_sections (print mem) hooks mem off (s # secs) (out, lma, c) = Some (out', lma', c')"
      using 3 o(1) r(1) h by (cases off) (simp_all add: Let_def)
    moreover have "load (b1 @ b2) m = load (map (section_block mem) (active (s # secs))) m" for m
      using 3 o(4) r(4) by (simp add: load_section)
    moreover have "off \<Longrightarrow> c' = c" using r(5) h by simp
    ultimately show ?thesis
      using 3 r(2,5) displays_append [OF o(3) r(3)]
      by (intro exI [of _ out'] exI [of _ "b1 @ b2"] exI [of _ lma'] exI [of _ c']) auto
  qed
qed

text \<open>A dump that fits is both printed and kept in flash, one that does not is only printed.\<close>

lemma run:
  assumes "terminated secs" and "console out" and "length elf_build_id = 20"
    and "\<forall>s \<in> set (active secs). fits (sec_addr s) (sec_len s) \<and> unat (sec_len s) \<le> 2 ^ 32 - 1024"
    and size: "table_size secs + 4096 < 2 ^ 32"
    and er: "erased (coredump_flash_addr p) (coredump_flash_size p) (c\<lparr>flash := snd (erase (coredump_flash_addr p) (coredump_flash_size p) (flash c))\<rparr>)"
    and holds: "table_size secs + 4096 \<le> unat (coredump_flash_size p) \<Longrightarrow> holds (active secs) (coredump_flash_addr p) (coredump_flash_size p)"
  shows "\<exists>out' bs c'. bl_coredump_run p erase (print mem) hooks secs mem elf_build_id (out, c) =
      Some (elf_build_id, printf ([13, 10] @ chars ''-+-+-+- BFLB COREDUMP END +-+-+-+'' @ [13, 10]) out', c') \<and>
    displays (print_build_id_fmt elf_build_id out) bs out' \<and>
    (\<forall>m. load bs m = load (map (section_block mem) (active secs)) m) \<and>
    (if table_size secs + 4096 \<le> unat (coredump_flash_size p)
     then image (coredump_flash_addr p) (coredump_flash_size p) c' = Some (map (section_block mem) (active secs)) else c' = c)"
proof -
  let ?a = "coredump_flash_addr p" and ?z = "coredump_flash_size p"
  define off where "off = (?z < of_nat (table_size secs) + 4096)"
  have "unat (of_nat (table_size secs) + 4096 :: u32) = table_size secs + 4096"
    using size unat_of_nat_small [of "table_size secs + 4096", where ?'a = 32] by simp
  then have off: "off = (\<not> table_size secs + 4096 \<le> unat ?z)" by (simp add: off_def word_less_nat_alt not_le)
  define c0 where "c0 = c\<lparr>flash := snd (erase ?a ?z (flash c))\<rparr>"
  obtain lma1 c1 where s: "(if off then Some (?a, c) else core_bin_start_hook hooks secs ?a ?z c0) = Some (lma1, c1)"
      "\<not> off \<longrightarrow> dumped mem ([] @ active secs) [] ?a ?z lma1 c1" "off \<longrightarrow> c1 = c"
  proof (cases off)
    case False
    then show ?thesis using start [OF assms(1) er [folded c0_def] holds] off that by auto
  qed (use that in auto)
  let ?out = "print_build_id_fmt elf_build_id out"
  have "console (print_hex bs out) = console out" for bs and out :: "'a uart_scheme" by (induction bs arbitrary: out) simp_all
  then have con: "console ?out" using assms(2) by (simp add: print_build_id_fmt_def Let_def)
  obtain out' bs lma' c2 where d: "dump_sections (print mem) hooks mem off secs (?out, lma1, c1) = Some (out', lma', c2)"
      "displays ?out bs out'" "\<And>m. load bs m = load (map (section_block mem) (active secs)) m"
      "if off then c2 = c1 else dumped mem (active secs) (active secs) ?a ?z lma' c2"
    using dump_all [OF assms(1) con assms(4) s(2), unfolded append_Nil] by blast
  have id: "mem_read elf_build_id 0 20 = Some elf_build_id" using assms(3) by (simp add: mem_read_def)
  have hook: "(if off then Some (?a, c) else let (ret, f) = erase ?a ?z (flash c) in core_bin_start_hook hooks secs ?a ?z (c\<lparr>flash := f\<rparr>)) = Some (lma1, c1)"
    using s(1) by (cases off) (simp_all add: c0_def split_beta)
  have "bl_coredump_run p erase (print mem) hooks secs mem elf_build_id (out, c) =
      Some (elf_build_id, printf ([13, 10] @ chars ''-+-+-+- BFLB COREDUMP END +-+-+-+'' @ [13, 10]) out', if \<not> off then core_bin_end_hook hooks ?a c2 else c2)"
    using hook d(1) by (simp add: bl_coredump_run_def get_size_eq [OF assms(1)] off_def [symmetric] id Let_def cong: if_cong)
  moreover have "if \<not> off then image ?a ?z (core_bin_end_hook hooks ?a c2) = Some (map (section_block mem) (active secs)) else c2 = c"
    using d(4) s(3) finish by auto
  ultimately show ?thesis
    using d(2,3) unfolding off by (intro exI [of _ out'] exI [of _ bs] exI [of _ "if \<not> off then core_bin_end_hook hooks ?a c2 else c2"]) (auto simp: off)
qed

end

end
