(* ===== verification/Dump_Format_V1.thy ===== *)
theory Dump_Format_V1
  imports Coredump
begin

text \<open>
  The first format of core dumps in flash, \<^verbatim>\<open>components/utils/coredump/bin_fmt_v1.c\<close>: a header, the
  addresses and lengths of the segments, and their bytes.  The magic number is written last.
\<close>

section \<open>Model\<close>

definition bytes64 :: "u64 \<Rightarrow> bytes" where
  "bytes64 w = map (\<lambda>i. ucast (drop_bit (8 * i) w)) [0..<8]"

record binfmt_header =
  magic :: bytes
  version :: u32
  segment_count :: u32

record binfmt_seg_desc =
  seg_addr :: u64
  seg_length :: u64

definition header_bytes :: "binfmt_header \<Rightarrow> bytes" where
  "header_bytes h = magic h @ bytes32 (version h) @ bytes32 (segment_count h)"

definition seg_desc_bytes :: "binfmt_seg_desc \<Rightarrow> bytes" where
  "seg_desc_bytes d = bytes64 (seg_addr d) @ bytes64 (seg_length d)"

type_synonym 'f flash_write = "u32 \<Rightarrow> bytes \<Rightarrow> 'f \<Rightarrow> int \<times> 'f"

fun write_seg_descs :: "'f flash_write \<Rightarrow> dump_section list \<Rightarrow> u32 \<Rightarrow> u32 \<Rightarrow> 'f dump_flash \<Rightarrow> (u32 \<times> 'f dump_flash) option" where
  "write_seg_descs write [] lma seg_cnt c = None"
| "write_seg_descs write (s # secs) lma seg_cnt c =
     (if sec_addr s = 0xffffffff then Some (seg_cnt, c)
      else if sec_addr s = 0 then Some (seg_cnt, c)
      else if sec_len s = 0 then write_seg_descs write secs lma seg_cnt c
      else
        let seg_desc = \<lparr>seg_addr = ucast (sec_addr s), seg_length = ucast (sec_len s)\<rparr>;
          (ret, c) = coredump_xip_flash_write write (lma + 12 + seg_cnt * 16) (\<lambda>i. seg_desc_bytes seg_desc ! i) 16 c
        in write_seg_descs write secs lma (seg_cnt + 1) c)"

definition core_bin_start_hook_v1 :: "'f flash_write \<Rightarrow> dump_section list \<Rightarrow> u32 \<Rightarrow> u32 \<Rightarrow> 'f dump_flash \<Rightarrow>
    (u32 \<times> 'f dump_flash) option" where
  "core_bin_start_hook_v1 write secs lma len c = do {
     let header = \<lparr>magic = [0xff, 0xff, 0xff, 0xff], version = 1, segment_count = 0xffffffff\<rparr>;
     (seg_cnt, c) \<leftarrow> write_seg_descs write secs lma 0 c;
     let header = header\<lparr>segment_count := seg_cnt\<rparr>;
     let (ret, c) = coredump_xip_flash_write write lma (\<lambda>i. header_bytes header ! i) 12 c;
     Some (if ret = 0 then lma + (12 + seg_cnt * 16) else lma, c)
   }"

definition core_bin_sections_hook_v1 :: "'f flash_write \<Rightarrow> memory \<Rightarrow> u32 \<Rightarrow> u32 \<Rightarrow> u32 \<Rightarrow> 'f dump_flash \<Rightarrow> u32 \<times> 'f dump_flash" where
  "core_bin_sections_hook_v1 write mem lma lma_xip len c =
     (let (ret, c) = coredump_xip_flash_write write lma (\<lambda>i. mem (lma_xip + of_nat i)) len c
      in (if ret = 0 then lma + len else lma, c))"

definition core_bin_end_hook_v1 :: "'f flash_write \<Rightarrow> u32 \<Rightarrow> 'f dump_flash \<Rightarrow> 'f dump_flash" where
  "core_bin_end_hook_v1 write header_lma c =
     snd (coredump_xip_flash_write write header_lma (\<lambda>i. chars ''BKCD'' ! i) 4 c)"

definition hooks_v1 :: "'f flash_write \<Rightarrow> 'f dump_flash dump_hooks" where
  "hooks_v1 write = \<lparr>core_bin_start_hook = core_bin_start_hook_v1 write, core_bin_sections_hook = core_bin_sections_hook_v1 write,
     core_bin_end_hook = core_bin_end_hook_v1 write\<rparr>"

section \<open>Reading a dump\<close>

text \<open>A reader of the format, on the bytes of the partition.\<close>

definition le64 :: "bytes \<Rightarrow> nat \<Rightarrow> u64" where
  "le64 s i = le_word (slice s i 8)"

fun read_segments :: "bytes \<Rightarrow> nat \<Rightarrow> nat \<Rightarrow> nat \<Rightarrow> (u32 \<times> bytes) list" where
  "read_segments A desc data 0 = []"
| "read_segments A desc data (Suc n) =
     (ucast (le64 A desc), slice A data (unat (le64 A (desc + 8)))) #
     read_segments A (desc + 16) (data + unat (le64 A (desc + 8))) n"

definition read_dump_v1 :: "bytes \<Rightarrow> (u32 \<times> bytes) list option" where
  "read_dump_v1 A =
     (if slice A 0 4 = chars ''BKCD'' \<and> le32 A 4 = 1
      then let n = unat (le32 A 8) in Some (read_segments A 12 (12 + 16 * n) n)
      else None)"

section \<open>Writing a dump\<close>

definition desc_bytes :: "dump_section \<Rightarrow> bytes" where
  "desc_bytes s = seg_desc_bytes \<lparr>seg_addr = ucast (sec_addr s), seg_length = ucast (sec_len s)\<rparr>"

definition data_bytes :: "memory \<Rightarrow> dump_section \<Rightarrow> bytes" where
  "data_bytes mem s = snd (section_block mem s)"

lemma length_bytes64 [simp]: "length (bytes64 w) = 8"
  by (simp add: bytes64_def)

lemma length_desc [simp]: "length (desc_bytes s) = 16"
  by (simp add: desc_bytes_def seg_desc_bytes_def)

lemma length_data [simp]: "length (data_bytes mem s) = unat (sec_len s)"
  by (simp add: data_bytes_def section_block_def)

lemma length_descs [simp]: "length (concat (map desc_bytes ss)) = 16 * length ss"
  by (induction ss) simp_all

lemma length_datas [simp]: "length (concat (map (data_bytes mem) ss)) = sections_size ss"
  by (induction ss) (simp_all add: sections_size_def)

lemma le_word_bytes64 [simp]: "le_word (bytes64 w) = w"
proof (rule bit_word_eqI)
  fix n assume n: "n < LENGTH(64)"
  have b: "bytes64 w = [ucast w, ucast (drop_bit 8 w), ucast (drop_bit 16 w), ucast (drop_bit 24 w),
      ucast (drop_bit 32 w), ucast (drop_bit 40 w), ucast (drop_bit 48 w), ucast (drop_bit 56 w)]"
    by (simp add: bytes64_def upt_rec)
  from n consider "n < 8" | "8 \<le> n" "n < 16" | "16 \<le> n" "n < 24" | "24 \<le> n" "n < 32" | "32 \<le> n" "n < 40" | "40 \<le> n" "n < 48"
    | "48 \<le> n" "n < 56" | "56 \<le> n" by linarith
  then show "bit (le_word (bytes64 w) :: u64) n = bit w n"
    using n unfolding b le_word.simps
    by cases (auto simp: bit_or_iff bit_push_bit_iff bit_ucast_iff bit_drop_bit_eq)
qed

lemma write_seg_descs_area:
  assumes dev: "healthy_flash view erase write" and top: "unat lma + sz \<le> 2 ^ 32"
  shows "terminated secs \<Longrightarrow> area view (flash c) (unat lma) sz = blank 12 @ d @ blank m @ q \<Longrightarrow> length d = 16 * k \<Longrightarrow>
    16 * length (active secs) \<le> m \<Longrightarrow>
    \<exists>f. write_seg_descs write secs lma (of_nat k) c = Some (of_nat (k + length (active secs)), c\<lparr>flash := f\<rparr>) \<and>
      area view f (unat lma) sz = blank 12 @ d @ concat (map desc_bytes (active secs)) @ blank (m - 16 * length (active secs)) @ q"
proof (induction secs arbitrary: c d m k)
  case (Cons s secs)
  consider "sec_addr s = 0xffffffff \<or> sec_addr s = 0" | "sec_addr s \<noteq> 0xffffffff" "sec_addr s \<noteq> 0" "sec_len s = 0"
    | "sec_addr s \<noteq> 0xffffffff" "sec_addr s \<noteq> 0" "sec_len s \<noteq> 0" by blast
  then show ?case
  proof cases
    case 1
    then show ?thesis using Cons.prems by (intro exI [of _ "flash c"]) auto
  next
    case 2
    then show ?thesis using Cons.IH [of c d m k] Cons.prems by simp
  next
    case 3
    have len: "12 + 16 * k + m + length q = sz" using arg_cong [OF Cons.prems(2), of length] Cons.prems(3) by simp
    have m: "16 \<le> m" "16 * length (active secs) \<le> m - 16" using Cons.prems(4) 3 by simp_all
    have k: "12 + 16 * k + 16 \<le> sz" using len m by linarith
    have u: "unat (lma + 12 + of_nat k * 16) = unat lma + (12 + 16 * k)"
    proof -
      have "unat (of_nat (12 + 16 * k) :: u32) = 12 + 16 * k" using top k by (intro unat_of_nat_small) simp
      then have "unat (lma + of_nat (12 + 16 * k)) = unat lma + (12 + 16 * k)" using top k by (subst unat_plus_small) simp_all
      then show ?thesis by (simp add: add.assoc mult.commute)
    qed
    have d: "map (\<lambda>i. seg_desc_bytes \<lparr>seg_addr = ucast (sec_addr s), seg_length = ucast (sec_len s)\<rparr> ! i) [0..<16] = desc_bytes s"
      unfolding desc_bytes_def [symmetric] by (rule map_nth_all) simp
    obtain f where f: "coredump_xip_flash_write write (lma + 12 + of_nat k * 16)
          (\<lambda>i. seg_desc_bytes \<lparr>seg_addr = ucast (sec_addr s), seg_length = ucast (sec_len s)\<rparr> ! i) 16 c = (0, c\<lparr>flash := f\<rparr>)"
        "area view f (unat lma) sz = blank 12 @ (d @ desc_bytes s) @ blank (m - 16) @ q"
      using xip_write_blank [OF dev, of c "unat lma" sz "blank 12 @ d" m q "lma + 12 + of_nat k * 16" 16
          "\<lambda>i. seg_desc_bytes \<lparr>seg_addr = ucast (sec_addr s), seg_length = ucast (sec_len s)\<rparr> ! i"]
        Cons.prems(2,3) u m(1) top d by auto
    let ?c = "c\<lparr>flash := f\<rparr>"
    have "terminated secs" using Cons.prems(1) 3 by simp
    moreover have "area view (flash ?c) (unat lma) sz = blank 12 @ (d @ desc_bytes s) @ blank (m - 16) @ q" using f(2) by simp
    moreover have "length (d @ desc_bytes s) = 16 * Suc k" using Cons.prems(3) by simp
    ultimately obtain g where g: "write_seg_descs write secs lma (of_nat (Suc k)) ?c = Some (of_nat (Suc k + length (active secs)), ?c\<lparr>flash := g\<rparr>)"
        "area view g (unat lma) sz = blank 12 @ (d @ desc_bytes s) @ concat (map desc_bytes (active secs)) @ blank (m - 16 - 16 * length (active secs)) @ q"
      using Cons.IH [of ?c "d @ desc_bytes s" "m - 16" "Suc k"] m(2) by blast
    have "write_seg_descs write (s # secs) lma (of_nat k) c = write_seg_descs write secs lma (of_nat (Suc k)) ?c"
      using 3 f(1) by (simp add: Let_def add.commute)
    then show ?thesis using g 3 by (intro exI [of _ g]) simp
  qed
qed simp

definition v1_head :: "u8 list \<Rightarrow> dump_section list \<Rightarrow> bytes" where
  "v1_head mg ss = mg @ bytes32 1 @ bytes32 (of_nat (length ss)) @ concat (map desc_bytes ss)"

definition dumped_v1 :: "('f \<Rightarrow> nat \<Rightarrow> u8) \<Rightarrow> memory \<Rightarrow> dump_section list \<Rightarrow> dump_section list \<Rightarrow> u32 \<Rightarrow> u32 \<Rightarrow> u32 \<Rightarrow> 'f dump_flash \<Rightarrow> bool" where
  "dumped_v1 view mem ss ds base sz lma c =
     (unat base + unat sz < 2 ^ 32 \<and> 12 + 16 * length ss + sections_size ss \<le> unat sz \<and>
      unat lma = unat base + (12 + 16 * length ss + sections_size ds) \<and> 
      area view (flash c) (unat base) (unat sz) =
        v1_head (blank 4) ss @ concat (map (data_bytes mem) ds) @ blank (unat sz - (12 + 16 * length ss + sections_size ds)))"

lemma length_v1_head: "length mg = 4 \<Longrightarrow> length (v1_head mg ss) = 12 + 16 * length ss"
  by (simp add: v1_head_def length_bytes)

section \<open>The format\<close>

definition erased_at :: "('f \<Rightarrow> nat \<Rightarrow> u8) \<Rightarrow> u32 \<Rightarrow> u32 \<Rightarrow> ('f, 'a) dump_flash_scheme \<Rightarrow> bool" where
  "erased_at view base sz c = (area view (flash c) (unat base) (unat sz) = blank (unat sz))"

definition holds_v1 :: "dump_section list \<Rightarrow> u32 \<Rightarrow> u32 \<Rightarrow> bool" where
  "holds_v1 ss base sz = (unat base + unat sz < 2 ^ 32 \<and> 12 + 16 * length ss + sections_size ss \<le> unat sz)"

lemma start_v1:
  assumes dev: "healthy_flash view erase write" and t: "terminated secs" and e: "erased_at view base sz c"
    and h: "holds_v1 (active secs) base sz"
  shows "\<exists>lma c'. core_bin_start_hook_v1 write secs base sz c = Some (lma, c') \<and> dumped_v1 view mem (active secs) [] base sz lma c'"
proof -
  let ?ss = "active secs" and ?n = "length (active secs)"
  have top: "unat base + unat sz \<le> 2 ^ 32" "12 + 16 * ?n \<le> unat sz" "unat base + unat sz < 2 ^ 32" using h by (simp_all add: holds_v1_def)
  have "area view (flash c) (unat base) (unat sz) = blank 12 @ [] @ blank (unat sz - 12) @ []"
    using e top(2) blank_add [of 12 "unat sz - 12"] by (simp add: erased_at_def)
  moreover have "16 * ?n \<le> unat sz - 12" using top(2) by simp
  ultimately obtain f where f: "write_seg_descs write secs base (of_nat 0) c = Some (of_nat (0 + ?n), c\<lparr>flash := f\<rparr>)"
      "area view f (unat base) (unat sz) = blank 12 @ [] @ concat (map desc_bytes ?ss) @ blank (unat sz - 12 - 16 * ?n) @ []"
    using write_seg_descs_area [OF dev top(1) t, of c "[]" "unat sz - 12" "[]" 0] by auto
  let ?h = "header_bytes \<lparr>magic = [0xff, 0xff, 0xff, 0xff], version = 1, segment_count = of_nat ?n\<rparr>"
  have lh: "length ?h = 12" by (simp add: header_bytes_def length_bytes)
  obtain g where g: "coredump_xip_flash_write write base (\<lambda>i. ?h ! i) 12 (c\<lparr>flash := f\<rparr>) = (0, c\<lparr>flash := f\<rparr>\<lparr>flash := g\<rparr>)"
      "area view g (unat base) (unat sz) = ?h @ concat (map desc_bytes ?ss) @ blank (unat sz - (12 + 16 * ?n))"
    using xip_write_blank [OF dev, of "c\<lparr>flash := f\<rparr>" "unat base" "unat sz" "[]" 12 "concat (map desc_bytes ?ss) @ blank (unat sz - 12 - 16 * ?n)"
        base 12 "\<lambda>i. ?h ! i"] f(2) top map_nth_all [OF lh] by auto
  have u: "unat (base + of_nat (12 + 16 * ?n)) = unat base + (12 + 16 * ?n)"
  proof -
    have "unat (of_nat (12 + 16 * ?n) :: u32) = 12 + 16 * ?n" using top by (intro unat_of_nat_small) simp
    then show ?thesis using top unat_plus_small [of base "of_nat (12 + 16 * ?n)"] by simp
  qed
  have hd: "?h = blank 4 @ bytes32 1 @ bytes32 (of_nat ?n)"
    by (simp add: header_bytes_def blank_def numeral_eq_Suc)
  have "core_bin_start_hook_v1 write secs base sz c = Some (base + of_nat (12 + 16 * ?n), c\<lparr>flash := g\<rparr>)"
    using f(1) g(1) by (simp add: core_bin_start_hook_v1_def Let_def mult.commute)
  moreover have "dumped_v1 view mem ?ss [] base sz (base + of_nat (12 + 16 * ?n)) (c\<lparr>flash := g\<rparr>)"
    unfolding dumped_v1_def using g(2) h u by (simp add: holds_v1_def hd v1_head_def sections_size_def del: of_nat_mult of_nat_add)
  ultimately show ?thesis by blast
qed

lemma step_v1:
  assumes dev: "healthy_flash view erase write" and d: "dumped_v1 view mem (ds @ s # es) ds base sz lma c"
    and r: "core_bin_sections_hook_v1 write mem lma (sec_addr s) (sec_len s) c = (lma', c')"
  shows "dumped_v1 view mem (ds @ s # es) (ds @ [s]) base sz lma' c'"
proof -
  let ?ss = "ds @ s # es" and ?p = "v1_head (blank 4) (ds @ s # es) @ concat (map (data_bytes mem) ds)"
  let ?o = "12 + 16 * length ?ss + sections_size ds"
  have f: "unat base + unat sz < 2 ^ 32" "12 + 16 * length ?ss + sections_size ?ss \<le> unat sz" "unat lma = unat base + ?o"
    "area view (flash c) (unat base) (unat sz) = ?p @ blank (unat sz - ?o) @ []"
    using d by (simp_all add: dumped_v1_def)
  have fit: "?o + unat (sec_len s) \<le> unat sz" using f(2) by (simp add: sections_size_def)
  have lp: "length ?p = ?o" by (simp add: length_v1_head)
  have data: "map (\<lambda>i. mem (sec_addr s + of_nat i)) [0..<unat (sec_len s)] = data_bytes mem s"
    by (simp add: data_bytes_def section_block_def mem_bytes_def)
  have len: "unat (sec_len s) \<le> unat sz - ?o" using fit by simp
  obtain g where g: "coredump_xip_flash_write write lma (\<lambda>i. mem (sec_addr s + of_nat i)) (sec_len s) c = (0, c\<lparr>flash := g\<rparr>)"
      "area view g (unat base) (unat sz) = ?p @ data_bytes mem s @ blank (unat sz - ?o - unat (sec_len s)) @ []"
    using xip_write_blank [OF dev f(4) f(3) [folded lp] len order_less_imp_le [OF f(1)], of "\<lambda>i. mem (sec_addr s + of_nat i)"]
    unfolding data by blast
  have "lma' = lma + sec_len s" "c' = c\<lparr>flash := g\<rparr>" using r g(1) by (simp_all add: core_bin_sections_hook_v1_def)
  moreover have "unat (lma + sec_len s) = unat base + (?o + unat (sec_len s))"
    using unat_plus_small [of lma "sec_len s"] f(1,3) fit by simp
  moreover have "sections_size (ds @ [s]) = sections_size ds + unat (sec_len s)" by (simp add: sections_size_def)
  ultimately show ?thesis using f(1,2) g(2) by (simp add: dumped_v1_def add.assoc)
qed

lemma le64_at: "i = length p \<Longrightarrow> le64 (p @ bytes64 w @ q) i = w"
  by (simp add: le64_def slice_at)

lemma read_segments_blocks:
  "A = p @ concat (map desc_bytes es) @ q \<Longrightarrow> A = p' @ concat (map (data_bytes mem) es) @ q' \<Longrightarrow>
    read_segments A (length p) (length p') (length es) = map (section_block mem) es"
proof (induction es arbitrary: p p' q q')
  case (Cons s es)
  have "desc_bytes s = bytes64 (ucast (sec_addr s)) @ bytes64 (ucast (sec_len s))"
    by (simp add: desc_bytes_def seg_desc_bytes_def)
  then have A: "A = p @ bytes64 (ucast (sec_addr s)) @ bytes64 (ucast (sec_len s)) @ concat (map desc_bytes es) @ q"
    "A = (p @ bytes64 (ucast (sec_addr s))) @ bytes64 (ucast (sec_len s)) @ concat (map desc_bytes es) @ q"
    "A = p' @ data_bytes mem s @ concat (map (data_bytes mem) es) @ q'"
    using Cons.prems by simp_all
  have "le64 A (length p) = ucast (sec_addr s)" by (subst A(1)) (rule le64_at, rule refl)
  moreover have "le64 A (length p + 8) = ucast (sec_len s)" by (subst A(2)) (rule le64_at, simp)
  moreover have "slice A (length p') (unat (sec_len s)) = data_bytes mem s"
    by (subst A(3)) (rule slice_at, simp_all)
  moreover have "ucast (ucast x :: u64) = x" "unat (ucast x :: u64) = unat x" for x :: u32
  proof -
    show "ucast (ucast x :: u64) = x" by (rule bit_word_eqI) (simp add: bit_ucast_iff)
    have "unat x < 2 ^ 64" by (rule less_trans [OF unat_u32_less]) simp
    then show "unat (ucast x :: u64) = unat x" by (simp add: unsigned_ucast_eq take_bit_nat_eq_self_iff)
  qed
  moreover have "section_block mem s = (sec_addr s, data_bytes mem s)" by (simp add: data_bytes_def section_block_def)
  ultimately show ?case
    using Cons.IH [of "p @ desc_bytes s" q "p' @ data_bytes mem s" q'] Cons.prems by simp
qed simp

lemma finish_v1:
  assumes dev: "healthy_flash view erase write" and d: "dumped_v1 view mem ss ss base sz lma c"
  shows "read_dump_v1 (area view (flash (core_bin_end_hook_v1 write base c)) (unat base) (unat sz)) = Some (map (section_block mem) ss)"
proof -
  let ?r = "bytes32 1 @ bytes32 (of_nat (length ss)) @ concat (map desc_bytes ss) @ concat (map (data_bytes mem) ss) @
      blank (unat sz - (12 + 16 * length ss + sections_size ss))"
  have f: "unat base + unat sz < 2 ^ 32" "12 + 16 * length ss + sections_size ss \<le> unat sz"
    "area view (flash c) (unat base) (unat sz) = [] @ blank 4 @ ?r"
    using d by (simp_all add: dumped_v1_def v1_head_def)
  have mg: "map (\<lambda>i. chars ''BKCD'' ! i) [0..<unat (4 :: u32)] = chars ''BKCD''" by (rule map_nth_all) (simp add: chars_def)
  have base: "unat base = unat base + length ([] :: bytes)" and four: "unat (4 :: u32) \<le> 4" by simp_all
  obtain g where g: "coredump_xip_flash_write write base (\<lambda>i. chars ''BKCD'' ! i) 4 c = (0, c\<lparr>flash := g\<rparr>)"
      "area view g (unat base) (unat sz) = chars ''BKCD'' @ ?r"
    using xip_write_blank [OF dev f(3) base four order_less_imp_le [OF f(1)], of "\<lambda>i. chars ''BKCD'' ! i"]
    unfolding mg by auto
  let ?A = "chars ''BKCD'' @ ?r"
  have l4: "length (chars ''BKCD'') = 4" by (simp add: chars_def)
  have n: "unat (of_nat (length ss) :: u32) = length ss" using f(1,2) by (intro unat_of_nat_small) simp
  have "slice ?A 0 4 = chars ''BKCD''" using slice_at [of 0 "[]" 4 "chars ''BKCD''" ?r] l4 by simp
  moreover have "le32 ?A 4 = 1" by (rule le32_at) (simp add: l4)
  moreover have "le32 ?A 8 = of_nat (length ss)"
    using le32_at [of 8 "chars ''BKCD'' @ bytes32 1" "of_nat (length ss)"] l4 by (simp add: length_bytes)
  moreover have "read_segments ?A 12 (12 + 16 * length ss) (length ss) = map (section_block mem) ss"
    using read_segments_blocks [of ?A "chars ''BKCD'' @ bytes32 1 @ bytes32 (of_nat (length ss))" ss _ "v1_head (chars ''BKCD'') ss" mem]
      l4 by (simp add: length_bytes v1_head_def)
  ultimately show ?thesis using g n by (simp add: core_bin_end_hook_v1_def read_dump_v1_def)
qed

interpretation v1_format: dump_format "hooks_v1 write"
  "\<lambda>base sz c. healthy_flash view erase write \<and> erased_at view base sz c" holds_v1
  "\<lambda>mem ss ds base sz lma c. healthy_flash view erase write \<and> dumped_v1 view mem ss ds base sz lma c"
  "\<lambda>base sz c. read_dump_v1 (area view (flash c) (unat base) (unat sz))"
  for view erase and "write" :: "'f flash_write"
proof unfold_locales
qed (auto simp: hooks_v1_def dest: start_v1 intro: step_v1 finish_v1)

end
