(* ===== verification/Dump_Format_Elf.thy ===== *)
theory Dump_Format_Elf
  imports Dump_Format_V1
begin

text \<open>
  The second format of core dumps in flash, \<^verbatim>\<open>components/utils/coredump/bin_fmt_v2.c\<close>: a core file in
  ELF, with a program header and a section header for every section that is dumped.
\<close>

section \<open>Model\<close>

record elf32_ehdr =
  e_ident :: bytes
  e_type :: u16
  e_machine :: u16
  e_version :: u32
  e_entry :: u32
  e_phoff :: u32
  e_shoff :: u32
  e_flags :: u32
  e_ehsize :: u16
  e_phentsize :: u16
  e_phnum :: u16
  e_shentsize :: u16
  e_shnum :: u16
  e_shstrndx :: u16

record elf32_phdr =
  p_type :: u32
  p_offset :: u32
  p_vaddr :: u32
  p_paddr :: u32
  p_filesz :: u32
  p_memsz :: u32
  p_flags :: u32
  p_align :: u32

record elf32_shdr =
  sh_name :: u32
  sh_type :: u32
  sh_flags :: u32
  sh_addr :: u32
  sh_offset :: u32
  sh_size :: u32
  sh_link :: u32
  sh_info :: u32
  sh_addralign :: u32
  sh_entsize :: u32

text \<open>The objects in memory.\<close>

definition ehdr_bytes :: "elf32_ehdr \<Rightarrow> bytes" where
  "ehdr_bytes h = e_ident h @ bytes16 (e_type h) @ bytes16 (e_machine h) @ bytes32 (e_version h) @ bytes32 (e_entry h) @
     bytes32 (e_phoff h) @ bytes32 (e_shoff h) @ bytes32 (e_flags h) @ bytes16 (e_ehsize h) @ bytes16 (e_phentsize h) @
     bytes16 (e_phnum h) @ bytes16 (e_shentsize h) @ bytes16 (e_shnum h) @ bytes16 (e_shstrndx h)"

definition phdr_bytes :: "elf32_phdr \<Rightarrow> bytes" where
  "phdr_bytes h = bytes32 (p_type h) @ bytes32 (p_offset h) @ bytes32 (p_vaddr h) @ bytes32 (p_paddr h) @
     bytes32 (p_filesz h) @ bytes32 (p_memsz h) @ bytes32 (p_flags h) @ bytes32 (p_align h)"

definition shdr_bytes :: "elf32_shdr \<Rightarrow> bytes" where
  "shdr_bytes h = bytes32 (sh_name h) @ bytes32 (sh_type h) @ bytes32 (sh_flags h) @ bytes32 (sh_addr h) @
     bytes32 (sh_offset h) @ bytes32 (sh_size h) @ bytes32 (sh_link h) @ bytes32 (sh_info h) @
     bytes32 (sh_addralign h) @ bytes32 (sh_entsize h)"

definition SYMBOL_TABLE :: bytes where "SYMBOL_TABLE = chars ''section'' @ [0]"
definition SYMBOL_TABLE_SIZE :: u32 where "SYMBOL_TABLE_SIZE = 8"

definition zero_ehdr :: elf32_ehdr where
  "zero_ehdr = \<lparr>e_ident = replicate 16 0, e_type = 0, e_machine = 0, e_version = 0, e_entry = 0, e_phoff = 0, e_shoff = 0,
     e_flags = 0, e_ehsize = 0, e_phentsize = 0, e_phnum = 0, e_shentsize = 0, e_shnum = 0, e_shstrndx = 0\<rparr>"

definition zero_phdr :: elf32_phdr where
  "zero_phdr = \<lparr>p_type = 0, p_offset = 0, p_vaddr = 0, p_paddr = 0, p_filesz = 0, p_memsz = 0, p_flags = 0, p_align = 0\<rparr>"

definition zero_shdr :: elf32_shdr where
  "zero_shdr = \<lparr>sh_name = 0, sh_type = 0, sh_flags = 0, sh_addr = 0, sh_offset = 0, sh_size = 0, sh_link = 0, sh_info = 0,
     sh_addralign = 0, sh_entsize = 0\<rparr>"

definition create_elf_header :: "u32 \<Rightarrow> u32 \<Rightarrow> elf32_ehdr" where
  "create_elf_header section_num section_size =
     zero_ehdr\<lparr>e_ident := (e_ident zero_ehdr)[0 := 0x7f, 1 := of_char CHR ''E'', 2 := of_char CHR ''L'', 3 := of_char CHR ''F'',
         4 := 1, 5 := 1, 6 := 1],
       e_type := 2, e_machine := 0xf3, e_version := 1, e_phoff := 52, e_phentsize := 32, e_phnum := ucast section_num,
       e_shoff := 52 + section_num * 32 + SYMBOL_TABLE_SIZE + section_size,
       e_shentsize := 40, e_shnum := ucast (section_num + 2), e_shstrndx := 1\<rparr>"

definition table_end :: "elf32_ehdr \<Rightarrow> u32" where
  "table_end h = e_phoff h + ucast (e_phnum h) * ucast (e_phentsize h)"

definition create_elf_section :: "elf32_ehdr \<Rightarrow> u32 \<Rightarrow> u32 \<Rightarrow> u32 \<Rightarrow> elf32_phdr \<times> elf32_shdr" where
  "create_elf_section elf_header vma len offset =
     (zero_phdr\<lparr>p_type := 1, p_offset := table_end elf_header + SYMBOL_TABLE_SIZE + offset, p_vaddr := vma, p_paddr := vma,
        p_filesz := len, p_memsz := len, p_flags := 5, p_align := 1\<rparr>,
      zero_shdr\<lparr>sh_name := 0, sh_type := 1, sh_flags := 6, sh_addr := vma,
        sh_offset := table_end elf_header + SYMBOL_TABLE_SIZE + offset, sh_size := len, sh_link := 1, sh_addralign := 1\<rparr>)"

record 'f elf_state = "'f dump_flash" +
  elf_header :: elf32_ehdr
  flash_addr_start :: u32
  offset_len :: u32
  seg_num :: u32

fun count_sections :: "dump_section list \<Rightarrow> u32 \<Rightarrow> u32 \<Rightarrow> (u32 \<times> u32) option" where
  "count_sections [] seg_cnt sz = None"
| "count_sections (s # secs) seg_cnt sz =
     (if sec_addr s = 0xffffffff then Some (seg_cnt, sz)
      else if sec_addr s = 0 then Some (seg_cnt, sz)
      else if sec_len s = 0 then count_sections secs seg_cnt sz
      else count_sections secs (seg_cnt + 1) (sz + sec_len s))"

definition core_bin_start_hook_v2 :: "dump_section list \<Rightarrow> u32 \<Rightarrow> u32 \<Rightarrow> 'f elf_state \<Rightarrow> (u32 \<times> 'f elf_state) option" where
  "core_bin_start_hook_v2 secs lma len c = do {
     let c = c\<lparr>flash_addr_start := lma\<rparr>;
     (seg_cnt, sz) \<leftarrow> count_sections secs 0 0;
     let c = c\<lparr>elf_header := create_elf_header seg_cnt sz\<rparr>;
     Some (lma + (table_end (elf_header c) + SYMBOL_TABLE_SIZE), c)
   }"

definition core_bin_sections_hook_v2 :: "'f flash_write \<Rightarrow> memory \<Rightarrow> u32 \<Rightarrow> u32 \<Rightarrow> u32 \<Rightarrow> 'f elf_state \<Rightarrow> u32 \<times> 'f elf_state" where
  "core_bin_sections_hook_v2 write mem lma lma_xip len c =
     (let h = elf_header c;
        (prog_hdr, sec_hdr) = create_elf_section h lma_xip len (offset_len c);
        (_, c) = coredump_xip_flash_write write (flash_addr_start c + e_phoff h + seg_num c * ucast (e_phentsize h))
          (\<lambda>i. phdr_bytes prog_hdr ! i) (ucast (e_phentsize h)) c;
        (_, c) = coredump_xip_flash_write write (flash_addr_start c + e_shoff h + (seg_num c + 2) * ucast (e_shentsize h))
          (\<lambda>i. shdr_bytes sec_hdr ! i) (ucast (e_shentsize h)) c;
        c = c\<lparr>offset_len := offset_len c + len\<rparr>;
        c = c\<lparr>seg_num := seg_num c + 1\<rparr>;
        (ret, c) = coredump_xip_flash_write write lma (\<lambda>i. mem (lma_xip + of_nat i)) len c
      in (if ret = 0 then lma + len else lma, c))"

definition string_section :: "elf32_ehdr \<Rightarrow> elf32_shdr" where
  "string_section h = zero_shdr\<lparr>sh_name := 7, sh_type := 3, sh_offset := table_end h, sh_size := SYMBOL_TABLE_SIZE, sh_addralign := 1\<rparr>"

definition core_bin_end_hook_v2 :: "'f flash_write \<Rightarrow> u32 \<Rightarrow> 'f elf_state \<Rightarrow> 'f elf_state" where
  "core_bin_end_hook_v2 write header_lma c =
     (let h = elf_header c;
        (_, c) = coredump_xip_flash_write write header_lma (\<lambda>i. ehdr_bytes h ! i) 52 c;
        (_, c) = coredump_xip_flash_write write (header_lma + e_shoff h) (\<lambda>i. shdr_bytes zero_shdr ! i) (ucast (e_shentsize h)) c;
        (_, c) = coredump_xip_flash_write write (header_lma + e_shoff h + 1 * ucast (e_shentsize h))
          (\<lambda>i. shdr_bytes (string_section h) ! i) (ucast (e_shentsize h)) c;
        (_, c) = coredump_xip_flash_write write (header_lma + table_end h) (\<lambda>i. SYMBOL_TABLE ! i) SYMBOL_TABLE_SIZE c
      in c)"

definition hooks_v2 :: "'f flash_write \<Rightarrow> 'f elf_state dump_hooks" where
  "hooks_v2 write = \<lparr>core_bin_start_hook = core_bin_start_hook_v2, core_bin_sections_hook = core_bin_sections_hook_v2 write,
     core_bin_end_hook = core_bin_end_hook_v2 write\<rparr>"

section \<open>Reading a core file\<close>

text \<open>
  The segments that the program headers name, and those that the section headers of type 1 name.
\<close>

fun read_phdrs :: "bytes \<Rightarrow> nat \<Rightarrow> nat \<Rightarrow> nat \<Rightarrow> (u32 \<times> bytes) list" where
  "read_phdrs A h ent 0 = []"
| "read_phdrs A h ent (Suc n) =
     (le32 A (h + 8), slice A (unat (le32 A (h + 4))) (unat (le32 A (h + 16)))) # read_phdrs A (h + ent) ent n"

fun read_shdrs :: "bytes \<Rightarrow> nat \<Rightarrow> nat \<Rightarrow> nat \<Rightarrow> (u32 \<times> bytes) list" where
  "read_shdrs A h ent 0 = []"
| "read_shdrs A h ent (Suc n) =
     (if le32 A (h + 4) = 1 then [(le32 A (h + 12), slice A (unat (le32 A (h + 16))) (unat (le32 A (h + 20))))] else []) @
     read_shdrs A (h + ent) ent n"

definition read_elf :: "bytes \<Rightarrow> (u32 \<times> bytes) list option" where
  "read_elf A =
     (let ps = read_phdrs A (unat (le32 A 28)) (unat (le16 A 42)) (unat (le16 A 44));
        ss = read_shdrs A (unat (le32 A 32)) (unat (le16 A 46)) (unat (le16 A 48))
      in if slice A 0 7 = [0x7f] @ chars ''ELF'' @ [1, 1, 1] \<and> ps = ss then Some ps else None)"

section \<open>The layout of a file\<close>

lemma length_headers [simp]: "length (phdr_bytes p) = 32" "length (shdr_bytes h) = 40"
  "length (e_ident h') = 16 \<Longrightarrow> length (ehdr_bytes h') = 52"
  by (simp_all add: phdr_bytes_def shdr_bytes_def ehdr_bytes_def length_bytes)

lemma length_SYMBOL_TABLE [simp]: "length SYMBOL_TABLE = 8"
  by (simp add: SYMBOL_TABLE_def chars_def)

lemma phdr_fields:
  "i = length p \<Longrightarrow> le32 (p @ phdr_bytes h @ q) (i + 4) = p_offset h"
  "i = length p \<Longrightarrow> le32 (p @ phdr_bytes h @ q) (i + 8) = p_vaddr h"
  "i = length p \<Longrightarrow> le32 (p @ phdr_bytes h @ q) (i + 16) = p_filesz h"
  unfolding phdr_bytes_def
  using le32_at [of "i + 4" "p @ bytes32 (p_type h)"]
    le32_at [of "i + 8" "p @ bytes32 (p_type h) @ bytes32 (p_offset h)"]
    le32_at [of "i + 16" "p @ bytes32 (p_type h) @ bytes32 (p_offset h) @ bytes32 (p_vaddr h) @ bytes32 (p_paddr h)"]
  by (simp_all add: length_bytes)

lemma shdr_fields:
  "i = length p \<Longrightarrow> le32 (p @ shdr_bytes h @ q) (i + 4) = sh_type h"
  "i = length p \<Longrightarrow> le32 (p @ shdr_bytes h @ q) (i + 12) = sh_addr h"
  "i = length p \<Longrightarrow> le32 (p @ shdr_bytes h @ q) (i + 16) = sh_offset h"
  "i = length p \<Longrightarrow> le32 (p @ shdr_bytes h @ q) (i + 20) = sh_size h"
  unfolding shdr_bytes_def
  using le32_at [of "i + 4" "p @ bytes32 (sh_name h)"]
    le32_at [of "i + 12" "p @ bytes32 (sh_name h) @ bytes32 (sh_type h) @ bytes32 (sh_flags h)"]
    le32_at [of "i + 16" "p @ bytes32 (sh_name h) @ bytes32 (sh_type h) @ bytes32 (sh_flags h) @ bytes32 (sh_addr h)"]
    le32_at [of "i + 20" "p @ bytes32 (sh_name h) @ bytes32 (sh_type h) @ bytes32 (sh_flags h) @ bytes32 (sh_addr h) @ bytes32 (sh_offset h)"]
  by (simp_all add: length_bytes)

lemma ehdr_fields:
  assumes "length (e_ident h) = 16"
  shows "le32 (ehdr_bytes h @ q) 28 = e_phoff h" "le32 (ehdr_bytes h @ q) 32 = e_shoff h" "le16 (ehdr_bytes h @ q) 42 = e_phentsize h"
    "le16 (ehdr_bytes h @ q) 44 = e_phnum h" "le16 (ehdr_bytes h @ q) 46 = e_shentsize h" "le16 (ehdr_bytes h @ q) 48 = e_shnum h"
    "slice (ehdr_bytes h @ q) 0 7 = take 7 (e_ident h)"
proof -
  let ?a = "e_ident h @ bytes16 (e_type h) @ bytes16 (e_machine h) @ bytes32 (e_version h) @ bytes32 (e_entry h)"
  let ?b = "?a @ bytes32 (e_phoff h) @ bytes32 (e_shoff h) @ bytes32 (e_flags h) @ bytes16 (e_ehsize h)"
  show "le32 (ehdr_bytes h @ q) 28 = e_phoff h" "le32 (ehdr_bytes h @ q) 32 = e_shoff h" "le16 (ehdr_bytes h @ q) 42 = e_phentsize h"
    "le16 (ehdr_bytes h @ q) 44 = e_phnum h" "le16 (ehdr_bytes h @ q) 46 = e_shentsize h" "le16 (ehdr_bytes h @ q) 48 = e_shnum h"
    unfolding ehdr_bytes_def
    using le32_at [of 28 ?a] le32_at [of 32 "?a @ bytes32 (e_phoff h)"] le16_at [of 42 ?b] le16_at [of 44 "?b @ bytes16 (e_phentsize h)"]
      le16_at [of 46 "?b @ bytes16 (e_phentsize h) @ bytes16 (e_phnum h)"]
      le16_at [of 48 "?b @ bytes16 (e_phentsize h) @ bytes16 (e_phnum h) @ bytes16 (e_shentsize h)"] assms
    by (simp_all add: length_bytes)
  show "slice (ehdr_bytes h @ q) 0 7 = take 7 (e_ident h)" using assms by (simp add: ehdr_bytes_def slice_def)
qed

fun headers :: "(nat \<Rightarrow> dump_section \<Rightarrow> bytes) \<Rightarrow> nat \<Rightarrow> dump_section list \<Rightarrow> bytes" where
  "headers f i [] = []"
| "headers f i (s # ss) = f i s @ headers f (i + unat (sec_len s)) ss"

lemma headers_snoc: "headers f i (ds @ [s]) = headers f i ds @ f (i + sections_size ds) s"
  by (induction ds arbitrary: i) (simp_all add: sections_size_def add.assoc)

definition elf_hdr :: "dump_section list \<Rightarrow> elf32_ehdr" where
  "elf_hdr ss = create_elf_header (of_nat (length ss)) (of_nat (sections_size ss))"

definition seg_phdr :: "dump_section list \<Rightarrow> nat \<Rightarrow> dump_section \<Rightarrow> bytes" where
  "seg_phdr ss i s = phdr_bytes (fst (create_elf_section (elf_hdr ss) (sec_addr s) (sec_len s) (of_nat i)))"

definition seg_shdr :: "dump_section list \<Rightarrow> nat \<Rightarrow> dump_section \<Rightarrow> bytes" where
  "seg_shdr ss i s = shdr_bytes (snd (create_elf_section (elf_hdr ss) (sec_addr s) (sec_len s) (of_nat i)))"

lemma length_segs [simp]:
  "length (headers (seg_phdr ss) i ds) = 32 * length ds" "length (headers (seg_shdr ss) i ds) = 40 * length ds"
  by (induction ds arbitrary: i) (simp_all add: seg_phdr_def seg_shdr_def)

definition holds_elf :: "dump_section list \<Rightarrow> u32 \<Rightarrow> u32 \<Rightarrow> bool" where
  "holds_elf ss base sz =
     (unat base + unat sz < 2 ^ 32 \<and> length ss + 2 < 2 ^ 16 \<and> 140 + 72 * length ss + sections_size ss \<le> unat sz)"

lemma elf_hdr_fields:
  assumes "length ss + 2 < 2 ^ 16"
  shows "e_phoff (elf_hdr ss) = 52" "e_phentsize (elf_hdr ss) = 32" "e_shentsize (elf_hdr ss) = 40"
    "table_end (elf_hdr ss) = of_nat (52 + 32 * length ss)" "e_shoff (elf_hdr ss) = of_nat (60 + 32 * length ss + sections_size ss)"
    "unat (e_phnum (elf_hdr ss)) = length ss" "unat (e_shnum (elf_hdr ss)) = length ss + 2"
    "e_ident (elf_hdr ss) = [0x7f] @ chars ''ELF'' @ [1, 1, 1] @ replicate 9 0"
proof -
  have u: "unat (ucast (of_nat k :: u32) :: u16) = k" if "k < 2 ^ 16" for k
  proof -
    have "unat (of_nat k :: u32) = k" using that by (intro unat_of_nat_small) simp
    then show ?thesis using that by (simp add: unsigned_ucast_eq take_bit_nat_eq_self_iff)
  qed
  have w: "ucast (ucast (of_nat k :: u32) :: u16) = (of_nat k :: u32)" if "k < 2 ^ 16" for k
    using u [OF that] by (metis of_nat_unat)
  show "e_phoff (elf_hdr ss) = 52" "e_phentsize (elf_hdr ss) = 32" "e_shentsize (elf_hdr ss) = 40"
    by (simp_all add: elf_hdr_def create_elf_header_def)
  show "table_end (elf_hdr ss) = of_nat (52 + 32 * length ss)"
    using w [of "length ss"] assms by (simp add: table_end_def elf_hdr_def create_elf_header_def)
  show "e_shoff (elf_hdr ss) = of_nat (60 + 32 * length ss + sections_size ss)"
    by (simp add: elf_hdr_def create_elf_header_def SYMBOL_TABLE_SIZE_def)
  show "unat (e_phnum (elf_hdr ss)) = length ss" using u [of "length ss"] assms by (simp add: elf_hdr_def create_elf_header_def)
  show "unat (e_shnum (elf_hdr ss)) = length ss + 2"
    using u [of "length ss + 2"] assms by (simp add: elf_hdr_def create_elf_header_def add.commute)
  show "e_ident (elf_hdr ss) = [0x7f] @ chars ''ELF'' @ [1, 1, 1] @ replicate 9 0"
    by (simp add: elf_hdr_def create_elf_header_def zero_ehdr_def chars_def numeral_eq_Suc)
qed

definition dumped_elf :: "('f \<Rightarrow> nat \<Rightarrow> u8) \<Rightarrow> memory \<Rightarrow> dump_section list \<Rightarrow> dump_section list \<Rightarrow> u32 \<Rightarrow> u32 \<Rightarrow> u32 \<Rightarrow> 'f elf_state \<Rightarrow> bool" where
  "dumped_elf view mem ss ds base sz lma c =
     (holds_elf ss base sz \<and> elf_header c = elf_hdr ss \<and> flash_addr_start c = base \<and> offset_len c = of_nat (sections_size ds) \<and>
      seg_num c = of_nat (length ds) \<and> unat lma = unat base + (60 + 32 * length ss + sections_size ds) \<and>
      area view (flash c) (unat base) (unat sz) =
        blank 52 @ headers (seg_phdr ss) 0 ds @ blank (32 * (length ss - length ds)) @ blank 8 @
        concat (map (data_bytes mem) ds) @ blank (sections_size ss - sections_size ds) @ blank 80 @
        headers (seg_shdr ss) 0 ds @ blank (unat sz - (140 + 32 * length ss + sections_size ss + 40 * length ds)))"

definition erased_elf :: "('f \<Rightarrow> nat \<Rightarrow> u8) \<Rightarrow> u32 \<Rightarrow> u32 \<Rightarrow> 'f elf_state \<Rightarrow> bool" where
  "erased_elf view base sz c = (erased_at view base sz c \<and> offset_len c = 0 \<and> seg_num c = 0)"

lemma count_sections_eq:
  "terminated secs \<Longrightarrow> count_sections secs (of_nat n) (of_nat z) =
     Some (of_nat (n + length (active secs)), of_nat (z + sections_size (active secs)))"
proof (induction secs arbitrary: n z)
  case (Cons s secs)
  have "of_nat n + 1 = (of_nat (Suc n) :: u32)" "of_nat z + sec_len s = (of_nat (z + unat (sec_len s)) :: u32)" by simp_all
  then show ?case using Cons.IH [of n z] Cons.IH [of "Suc n" "z + unat (sec_len s)"] Cons.prems
    by (auto simp: sections_size_def add.assoc simp del: of_nat_Suc of_nat_add)
qed simp

lemma unat_at: "unat (a :: u32) + k < 2 ^ 32 \<Longrightarrow> unat (a + of_nat k) = unat a + k"
proof -
  assume k: "unat a + k < 2 ^ 32"
  then have "unat (of_nat k :: u32) = k" by (intro unat_of_nat_small) simp
  with k show ?thesis using unat_plus_small [of a "of_nat k"] by simp
qed

lemma start_v2:
  assumes t: "terminated secs" and e: "erased_elf view base sz c" and h: "holds_elf (active secs) base sz"
  shows "\<exists>lma c'. core_bin_start_hook_v2 secs base sz c = Some (lma, c') \<and> dumped_elf view mem (active secs) [] base sz lma c'"
proof -
  let ?ss = "active secs"
  define n z where "n = length ?ss" and "z = sections_size ?ss"
  have b: "unat base + unat sz < 2 ^ 32" "n + 2 < 2 ^ 16" "140 + 72 * n + z \<le> unat sz" using h by (simp_all add: holds_elf_def n_def z_def)
  let ?c = "c\<lparr>flash_addr_start := base, elf_header := elf_hdr ?ss\<rparr>"
  have "table_end (elf_hdr ?ss) + SYMBOL_TABLE_SIZE = of_nat (60 + 32 * n)"
    using elf_hdr_fields(4) [of ?ss] b(2) by (simp add: SYMBOL_TABLE_SIZE_def n_def)
  then have "core_bin_start_hook_v2 secs base sz c = Some (base + of_nat (60 + 32 * n), ?c)"
    using count_sections_eq [OF t, of 0 0] by (simp add: core_bin_start_hook_v2_def elf_hdr_def Let_def)
  moreover have "dumped_elf view mem ?ss [] base sz (base + of_nat (60 + 32 * n)) ?c"
  proof -
    have "52 + (32 * n + (8 + (z + (80 + (unat sz - (140 + 32 * n + z)))))) = unat sz" using b(3) by simp
    then have "blank (unat sz) = blank 52 @ blank (32 * n) @ blank 8 @ blank z @ blank 80 @ blank (unat sz - (140 + 32 * n + z))"
      by (simp only: flip: blank_add)
    moreover have "unat (base + of_nat (60 + 32 * n)) = unat base + (60 + 32 * n)" by (rule unat_at) (use b in simp)
    ultimately show ?thesis
      using e h by (simp add: dumped_elf_def erased_elf_def erased_at_def sections_size_def [of "[]"] n_def z_def del: of_nat_add of_nat_mult)
  qed
  ultimately show ?thesis by blast
qed

lemma step_v2:
  assumes dev: "healthy_flash view erase write" and d: "dumped_elf view mem (ds @ s # es) ds base sz lma c"
    and r: "core_bin_sections_hook_v2 write mem lma (sec_addr s) (sec_len s) c = (lma', c')"
  shows "dumped_elf view mem (ds @ s # es) (ds @ [s]) base sz lma' c'"
proof -
  let ?ss = "ds @ s # es" and ?h = "elf_hdr (ds @ s # es)"
  define n z k i l where "n = length ?ss" and "z = sections_size ?ss" and "k = length ds" and "i = sections_size ds" and "l = unat (sec_len s)"
  let ?p = "headers (seg_phdr ?ss) 0 ds" and ?d = "concat (map (data_bytes mem) ds)" and ?q = "headers (seg_shdr ?ss) 0 ds"
  let ?ph = "seg_phdr ?ss i s" and ?sh = "seg_shdr ?ss i s"
  have b: "unat base + unat sz < 2 ^ 32" "n + 2 < 2 ^ 16" "140 + 72 * n + z \<le> unat sz" "k < n" "i + l \<le> z"
    using d by (simp_all add: dumped_elf_def holds_elf_def n_def z_def k_def i_def l_def sections_size_def)
  have st: "elf_header c = ?h" "flash_addr_start c = base" "offset_len c = of_nat i" "seg_num c = of_nat k"
    "unat lma = unat base + (60 + 32 * n + i)"
    using d by (simp_all add: dumped_elf_def n_def i_def k_def)
  have A: "area view (flash c) (unat base) (unat sz) = (blank 52 @ ?p) @ blank (32 * (n - k)) @
      blank 8 @ ?d @ blank (z - i) @ blank 80 @ ?q @ blank (unat sz - (140 + 32 * n + z + 40 * k))"
    using d by (simp add: dumped_elf_def n_def z_def k_def i_def)
  have len: "length ?p = 32 * k" "length ?d = i" "length ?q = 40 * k" "length ?ph = 32" "length ?sh = 40"
    by (simp_all add: k_def i_def seg_phdr_def seg_shdr_def)
  note hf = elf_hdr_fields [of ?ss, folded n_def z_def]
  have a1: "unat (base + of_nat (52 + 32 * k)) = unat base + (52 + 32 * k)" by (rule unat_at) (use b in simp)
  have a2: "unat (base + of_nat (140 + 32 * n + z + 40 * k)) = unat base + (140 + 32 * n + z + 40 * k)" by (rule unat_at) (use b in simp)
  have e1: "flash_addr_start c + e_phoff ?h + seg_num c * ucast (e_phentsize ?h) = base + of_nat (52 + 32 * k)"
    by (simp add: st hf(1,2) [OF b(2)])
  have e2: "flash_addr_start c + e_shoff ?h + (seg_num c + 2) * ucast (e_shentsize ?h) = base + of_nat (140 + 32 * n + z + 40 * k)"
  proof -
    have "140 + 32 * n + z + 40 * k = (60 + 32 * n + z) + (k + 2) * 40" by simp
    then have "(of_nat (140 + 32 * n + z + 40 * k) :: u32) = of_nat (60 + 32 * n + z) + (of_nat k + 2) * 40"
      by (simp only: of_nat_add of_nat_mult of_nat_numeral)
    moreover have "ucast (40 :: u16) = (40 :: u32)" by simp
    ultimately show ?thesis unfolding st hf(3,5) [OF b(2)] by (simp only: add.assoc)
  qed
  obtain P S where PS: "create_elf_section ?h (sec_addr s) (sec_len s) (of_nat i) = (P, S)" by (rule prod.exhaust)
  then have hs: "?ph = phdr_bytes P" "?sh = shdr_bytes S" by (simp_all add: seg_phdr_def seg_shdr_def)
  have src: "map (\<lambda>j. ?ph ! j) [0..<unat (32 :: u32)] = ?ph" "map (\<lambda>j. ?sh ! j) [0..<unat (40 :: u32)] = ?sh"
    "map (\<lambda>i. mem (sec_addr s + of_nat i)) [0..<unat (sec_len s)] = data_bytes mem s"
    using map_nth_all [OF len(4)] map_nth_all [OF len(5)] by (simp_all add: data_bytes_def section_block_def mem_bytes_def)
  have top: "unat base + unat sz \<le> 2 ^ 32" using b(1) by simp
  have p1: "unat (base + of_nat (52 + 32 * k)) = unat base + length (blank 52 @ ?p)" "unat (32 :: u32) \<le> 32 * (n - k)"
    using a1 b(4) len(1) by simp_all
  obtain f1 where w1: "coredump_xip_flash_write write (base + of_nat (52 + 32 * k)) (\<lambda>j. ?ph ! j) 32 c = (0, c\<lparr>flash := f1\<rparr>)"
      "area view f1 (unat base) (unat sz) = (blank 52 @ ?p) @ ?ph @ blank (32 * (n - k) - 32) @
        blank 8 @ ?d @ blank (z - i) @ blank 80 @ ?q @ blank (unat sz - (140 + 32 * n + z + 40 * k))"
    using xip_write_blank [OF dev A p1 top, of "\<lambda>j. ?ph ! j"] unfolding src(1) by auto
  let ?p2 = "blank 52 @ ?p @ ?ph @ blank (32 * (n - k) - 32) @ blank 8 @ ?d @ blank (z - i) @ blank 80 @ ?q"
  have A2: "area view (flash (c\<lparr>flash := f1\<rparr>)) (unat base) (unat sz) = ?p2 @ blank (unat sz - (140 + 32 * n + z + 40 * k)) @ []"
    using w1(2) by simp
  have l2: "length ?p2 = 140 + 32 * n + z + 40 * k" using b len by simp
  have p2: "unat (base + of_nat (140 + 32 * n + z + 40 * k)) = unat base + length ?p2"
    "unat (40 :: u32) \<le> unat sz - (140 + 32 * n + z + 40 * k)"
    unfolding a2 l2 using b by simp_all
  obtain f2 where w2: "coredump_xip_flash_write write (base + of_nat (140 + 32 * n + z + 40 * k)) (\<lambda>j. ?sh ! j) 40 (c\<lparr>flash := f1\<rparr>) = (0, c\<lparr>flash := f2\<rparr>)"
      "area view f2 (unat base) (unat sz) = ?p2 @ ?sh @ blank (unat sz - (140 + 32 * n + z + 40 * k) - 40) @ []"
    using xip_write_blank [OF dev A2 p2 top, of "\<lambda>j. ?sh ! j"] unfolding src(2) by auto
  let ?c = "c\<lparr>flash := f2, offset_len := of_nat i + sec_len s, seg_num := of_nat k + 1\<rparr>"
  let ?p3 = "blank 52 @ ?p @ ?ph @ blank (32 * (n - k) - 32) @ blank 8 @ ?d"
  have A3: "area view (flash ?c) (unat base) (unat sz) = ?p3 @ blank (z - i) @ blank 80 @ ?q @ ?sh @ blank (unat sz - (140 + 32 * n + z + 40 * k) - 40)"
    using w2(2) by simp
  have p3: "unat lma = unat base + length ?p3" "unat (sec_len s) \<le> z - i"
    using b len st(5) by (simp_all add: l_def)
  obtain f3 where w3: "coredump_xip_flash_write write lma (\<lambda>i. mem (sec_addr s + of_nat i)) (sec_len s) ?c = (0, ?c\<lparr>flash := f3\<rparr>)"
      "area view f3 (unat base) (unat sz) = ?p3 @ data_bytes mem s @ blank (z - i - l) @ blank 80 @ ?q @ ?sh @ blank (unat sz - (140 + 32 * n + z + 40 * k) - 40)"
    using xip_write_blank [OF dev A3 p3 top, of "\<lambda>i. mem (sec_addr s + of_nat i)", unfolded src(3), folded l_def]
    by (rule exE) (erule conjE, rule that)
  have h: "ucast (e_phentsize ?h) = (32 :: u32)" "ucast (e_shentsize ?h) = (40 :: u32)" by (simp_all add: hf(2,3) [OF b(2)])
  have "lma' = lma + sec_len s" "c' = ?c\<lparr>flash := f3\<rparr>"
    using r w1(1) [folded e1 [unfolded st]] w2(1) [folded e2 [unfolded st]] w3(1)
    unfolding core_bin_sections_hook_v2_def Let_def st(1,3) PS prod.case hs
    by (simp_all add: st h)
  moreover have "unat (lma + sec_len s) = unat base + (60 + 32 * n + (i + l))"
    using unat_plus_small [of lma "sec_len s"] st(5) b by (simp add: l_def)
  moreover have "sections_size (ds @ [s]) = i + l" by (simp add: sections_size_def i_def l_def)
  moreover have "headers (seg_phdr ?ss) 0 (ds @ [s]) = ?p @ ?ph" "headers (seg_shdr ?ss) 0 (ds @ [s]) = ?q @ ?sh"
    by (simp_all add: headers_snoc i_def)
  moreover have "32 * (n - k) - 32 = 32 * (n - length (ds @ [s]))" "z - i - l = z - (i + l)"
    "unat sz - (140 + 32 * n + z + 40 * k) - 40 = unat sz - (140 + 32 * n + z + 40 * length (ds @ [s]))"
    using b by (simp_all add: k_def)
  moreover have "holds_elf ?ss base sz" using d by (simp add: dumped_elf_def)
  ultimately show ?thesis
    unfolding dumped_elf_def n_def [symmetric] z_def [symmetric]
    using w3(2) st(1,2) by (simp add: k_def [symmetric] l_def)
qed

section \<open>Reading the file back\<close>

lemma read_phdrs_blocks:
  assumes n: "length ss + 2 < 2 ^ 16" and fit: "60 + 32 * length ss + sections_size ss < 2 ^ 32"
  shows "A = p @ headers (seg_phdr ss) i es @ q \<Longrightarrow> A = p' @ concat (map (data_bytes mem) es) @ q' \<Longrightarrow>
    length p' = 60 + 32 * length ss + i \<Longrightarrow> i + sections_size es \<le> sections_size ss \<Longrightarrow>
    read_phdrs A (length p) 32 (length es) = map (section_block mem) es"
proof (induction es arbitrary: p p' i)
  case (Cons s es)
  let ?h = "fst (create_elf_section (elf_hdr ss) (sec_addr s) (sec_len s) (of_nat i))"
  have A: "A = p @ phdr_bytes ?h @ headers (seg_phdr ss) (i + unat (sec_len s)) es @ q"
    "A = p' @ data_bytes mem s @ concat (map (data_bytes mem) es) @ q'"
    using Cons.prems(1,2) by (simp_all add: seg_phdr_def [of ss i s])
  have f: "p_vaddr ?h = sec_addr s" "p_filesz ?h = sec_len s" "p_offset ?h = of_nat (60 + 32 * length ss + i)"
    using elf_hdr_fields(4) [OF n] by (simp_all add: create_elf_section_def SYMBOL_TABLE_SIZE_def)
  have "i \<le> sections_size ss" using Cons.prems(4) by simp
  then have off: "unat (p_offset ?h) = length p'"
    unfolding f(3) Cons.prems(3) using fit by (intro unat_of_nat_small) simp
  have "le32 A (length p + 8) = sec_addr s" "le32 A (length p + 4) = p_offset ?h" "le32 A (length p + 16) = sec_len s"
    by (subst A(1), simp only: phdr_fields f)+
  moreover have "slice A (length p') (unat (sec_len s)) = data_bytes mem s"
    by (subst A(2)) (rule slice_at, simp_all)
  moreover have "section_block mem s = (sec_addr s, data_bytes mem s)" by (simp add: data_bytes_def section_block_def)
  moreover have "i + unat (sec_len s) + sections_size es \<le> sections_size ss" using Cons.prems(4) by (simp add: sections_size_def)
  ultimately show ?case
    using Cons.IH [of "p @ phdr_bytes ?h" "i + unat (sec_len s)" "p' @ data_bytes mem s"] A Cons.prems(3) off
    by (simp add: add.assoc)
qed simp

lemma read_shdrs_blocks:
  assumes n: "length ss + 2 < 2 ^ 16" and fit: "60 + 32 * length ss + sections_size ss < 2 ^ 32"
  shows "A = p @ headers (seg_shdr ss) i es @ q \<Longrightarrow> A = p' @ concat (map (data_bytes mem) es) @ q' \<Longrightarrow>
    length p' = 60 + 32 * length ss + i \<Longrightarrow> i + sections_size es \<le> sections_size ss \<Longrightarrow>
    read_shdrs A (length p) 40 (length es) = map (section_block mem) es"
proof (induction es arbitrary: p p' i)
  case (Cons s es)
  let ?h = "snd (create_elf_section (elf_hdr ss) (sec_addr s) (sec_len s) (of_nat i))"
  have A: "A = p @ shdr_bytes ?h @ headers (seg_shdr ss) (i + unat (sec_len s)) es @ q"
    "A = p' @ data_bytes mem s @ concat (map (data_bytes mem) es) @ q'"
    using Cons.prems(1,2) by (simp_all add: seg_shdr_def [of ss i s])
  have f: "sh_type ?h = 1" "sh_addr ?h = sec_addr s" "sh_size ?h = sec_len s" "sh_offset ?h = of_nat (60 + 32 * length ss + i)"
    using elf_hdr_fields(4) [OF n] by (simp_all add: create_elf_section_def SYMBOL_TABLE_SIZE_def)
  have "i \<le> sections_size ss" using Cons.prems(4) by simp
  then have off: "unat (sh_offset ?h) = length p'"
    unfolding f(4) Cons.prems(3) using fit by (intro unat_of_nat_small) simp
  have "le32 A (length p + 4) = 1" "le32 A (length p + 12) = sec_addr s" "le32 A (length p + 16) = sh_offset ?h" "le32 A (length p + 20) = sec_len s"
    by (subst A(1), simp only: shdr_fields f)+
  moreover have "slice A (length p') (unat (sec_len s)) = data_bytes mem s"
    by (subst A(2)) (rule slice_at, simp_all)
  moreover have "section_block mem s = (sec_addr s, data_bytes mem s)" by (simp add: data_bytes_def section_block_def)
  moreover have "i + unat (sec_len s) + sections_size es \<le> sections_size ss" using Cons.prems(4) by (simp add: sections_size_def)
  ultimately show ?case
    using Cons.IH [of "p @ shdr_bytes ?h" "i + unat (sec_len s)" "p' @ data_bytes mem s"] A Cons.prems(3) off
    by (simp add: add.assoc)
qed simp

lemma read_shdrs_skip:
  "le32 A (h + 4) \<noteq> 1 \<Longrightarrow> read_shdrs A h ent (Suc n) = read_shdrs A (h + ent) ent n"
  by simp

lemma read_elf_file:
  assumes n: "length ss + 2 < 2 ^ 16" and fit: "60 + 32 * length ss + sections_size ss < 2 ^ 32"
  shows "read_elf (ehdr_bytes (elf_hdr ss) @ headers (seg_phdr ss) 0 ss @ SYMBOL_TABLE @ concat (map (data_bytes mem) ss) @
      shdr_bytes zero_shdr @ shdr_bytes (string_section (elf_hdr ss)) @ headers (seg_shdr ss) 0 ss @ q) = Some (map (section_block mem) ss)"
proof -
  let ?h = "elf_hdr ss" and ?d = "concat (map (data_bytes mem) ss)"
  let ?e = "ehdr_bytes ?h" and ?p = "headers (seg_phdr ss) 0 ss" and ?q = "headers (seg_shdr ss) 0 ss"
  let ?z = "shdr_bytes zero_shdr" and ?s = "shdr_bytes (string_section ?h)"
  define A where "A = ?e @ ?p @ SYMBOL_TABLE @ ?d @ ?z @ ?s @ ?q @ q"
  note hf = elf_hdr_fields [OF n]
  have id: "length (e_ident ?h) = 16" by (simp add: hf(8) chars_def)
  have le: "length ?e = 52" using id by simp
  note ef = ehdr_fields [OF id, of "?p @ SYMBOL_TABLE @ ?d @ ?z @ ?s @ ?q @ q", folded A_def]
  have us: "unat (e_shoff ?h) = 60 + 32 * length ss + sections_size ss" unfolding hf(5) using fit by (intro unat_of_nat_small) simp
  have A1: "A = ?e @ ?p @ (SYMBOL_TABLE @ ?d @ ?z @ ?s @ ?q @ q)" "A = (?e @ ?p @ SYMBOL_TABLE) @ ?d @ (?z @ ?s @ ?q @ q)"
    "A = (?e @ ?p @ SYMBOL_TABLE @ ?d) @ ?z @ (?s @ ?q @ q)" "A = (?e @ ?p @ SYMBOL_TABLE @ ?d @ ?z) @ ?s @ (?q @ q)"
    "A = (?e @ ?p @ SYMBOL_TABLE @ ?d @ ?z @ ?s) @ ?q @ q" by (simp_all add: A_def)
  have lp: "length (?e @ ?p @ SYMBOL_TABLE) = 60 + 32 * length ss + 0" using le by simp
  have ph: "read_phdrs A 52 32 (length ss) = map (section_block mem) ss"
    using read_phdrs_blocks [OF n fit A1(1,2) lp] le by simp
  let ?o = "60 + 32 * length ss + sections_size ss"
  have lz: "length (?e @ ?p @ SYMBOL_TABLE @ ?d) = ?o" using le by simp
  have "le32 A (?o + 4) = sh_type zero_shdr" by (subst A1(3)) (rule shdr_fields(1), simp only: lz)
  moreover have "le32 A (?o + 40 + 4) = sh_type (string_section ?h)"
    by (subst A1(4)) (rule shdr_fields(1), use lz in simp)
  moreover have "read_shdrs A (?o + 40 + 40) 40 (length ss) = map (section_block mem) ss"
    using read_shdrs_blocks [OF n fit A1(5,2) lp] lz by simp
  ultimately have sh: "read_shdrs A ?o 40 (length ss + 2) = map (section_block mem) ss"
    by (simp add: zero_shdr_def string_section_def numeral_2_eq_2)
  have "slice A 0 7 = [0x7f] @ chars ''ELF'' @ [1, 1, 1]" unfolding ef(7) hf(8) by (simp add: chars_def)
  then show ?thesis
    unfolding A_def [symmetric] read_elf_def ef hf(1-3,6,7) us using ph sh by simp
qed

lemma finish_v2:
  assumes dev: "healthy_flash view erase write" and d: "dumped_elf view mem ss ss base sz lma c"
  shows "read_elf (area view (flash (core_bin_end_hook_v2 write base c)) (unat base) (unat sz)) = Some (map (section_block mem) ss)"
proof -
  let ?h = "elf_hdr ss" and ?d = "concat (map (data_bytes mem) ss)"
  let ?e = "ehdr_bytes ?h" and ?p = "headers (seg_phdr ss) 0 ss" and ?q = "headers (seg_shdr ss) 0 ss"
  let ?z = "shdr_bytes zero_shdr" and ?s = "shdr_bytes (string_section ?h)"
  define n z where "n = length ss" and "z = sections_size ss"
  have b: "unat base + unat sz < 2 ^ 32" "n + 2 < 2 ^ 16" "140 + 72 * n + z \<le> unat sz" "elf_header c = ?h"
    using d by (simp_all add: dumped_elf_def holds_elf_def n_def z_def)
  define r where "r = blank (unat sz - (140 + 32 * n + z + 40 * n))"
  have A: "area view (flash c) (unat base) (unat sz) = [] @ blank 52 @ ?p @ blank 8 @ ?d @ blank 80 @ ?q @ r"
    using d by (simp add: dumped_elf_def n_def z_def r_def)
  note hf = elf_hdr_fields [of ss, folded n_def z_def, OF b(2)]
  have id: "length (e_ident ?h) = 16" by (simp add: hf(8) chars_def)
  have len: "length ?e = 52" "length ?p = 32 * n" "length ?d = z" "length ?z = 40" "length ?s = 40" using id by (simp_all add: n_def z_def)
  have top: "unat base + unat sz \<le> 2 ^ 32" using b(1) by simp
  have src: "map (\<lambda>i. ?e ! i) [0..<unat (52 :: u32)] = ?e" "map (\<lambda>i. ?z ! i) [0..<unat (40 :: u32)] = ?z"
    "map (\<lambda>i. ?s ! i) [0..<unat (40 :: u32)] = ?s" "map (\<lambda>i. SYMBOL_TABLE ! i) [0..<unat (8 :: u32)] = SYMBOL_TABLE"
    using map_nth_all [OF len(1)] map_nth_all [OF len(4)] map_nth_all [OF len(5)] map_nth_all [OF length_SYMBOL_TABLE] by simp_all
  have p1: "unat base = unat base + length ([] :: bytes)" "unat (52 :: u32) \<le> 52" by simp_all
  obtain f1 where w1: "coredump_xip_flash_write write base (\<lambda>i. ?e ! i) 52 c = (0, c\<lparr>flash := f1\<rparr>)"
      "area view f1 (unat base) (unat sz) = ?e @ ?p @ blank 8 @ ?d @ blank 80 @ ?q @ r"
    using xip_write_blank [OF dev A p1 top, of "\<lambda>i. ?e ! i"] unfolding src by auto
  let ?p2 = "?e @ ?p @ blank 8 @ ?d"
  have A2: "area view (flash (c\<lparr>flash := f1\<rparr>)) (unat base) (unat sz) = ?p2 @ blank 80 @ ?q @ r" using w1(2) by simp
  have p2: "unat (base + of_nat (60 + 32 * n + z)) = unat base + length ?p2" "unat (40 :: u32) \<le> 80"
    using unat_at [of base "60 + 32 * n + z"] b len by simp_all
  obtain f2 where w2: "coredump_xip_flash_write write (base + of_nat (60 + 32 * n + z)) (\<lambda>i. ?z ! i) 40 (c\<lparr>flash := f1\<rparr>) = (0, c\<lparr>flash := f2\<rparr>)"
      "area view f2 (unat base) (unat sz) = ?p2 @ ?z @ blank 40 @ ?q @ r"
    using xip_write_blank [OF dev A2 p2 top, of "\<lambda>i. ?z ! i"] unfolding src by auto
  let ?p3 = "?p2 @ ?z"
  have A3: "area view (flash (c\<lparr>flash := f2\<rparr>)) (unat base) (unat sz) = ?p3 @ blank 40 @ ?q @ r" using w2(2) by simp
  have p3: "unat (base + of_nat (100 + 32 * n + z)) = unat base + length ?p3" "unat (40 :: u32) \<le> 40"
    using unat_at [of base "100 + 32 * n + z"] b len by simp_all
  obtain f3 where w3: "coredump_xip_flash_write write (base + of_nat (100 + 32 * n + z)) (\<lambda>i. ?s ! i) 40 (c\<lparr>flash := f2\<rparr>) = (0, c\<lparr>flash := f3\<rparr>)"
      "area view f3 (unat base) (unat sz) = ?p3 @ ?s @ ?q @ r"
    using xip_write_blank [OF dev A3 p3 top, of "\<lambda>i. ?s ! i"] unfolding src by auto
  have A4: "area view (flash (c\<lparr>flash := f3\<rparr>)) (unat base) (unat sz) = (?e @ ?p) @ blank 8 @ ?d @ ?z @ ?s @ ?q @ r" using w3(2) by simp
  have p4: "unat (base + of_nat (52 + 32 * n)) = unat base + length (?e @ ?p)" "unat (8 :: u32) \<le> 8"
    using unat_at [of base "52 + 32 * n"] b len by simp_all
  obtain f4 where w4: "coredump_xip_flash_write write (base + of_nat (52 + 32 * n)) (\<lambda>i. SYMBOL_TABLE ! i) 8 (c\<lparr>flash := f3\<rparr>) = (0, c\<lparr>flash := f4\<rparr>)"
      "area view f4 (unat base) (unat sz) = (?e @ ?p) @ SYMBOL_TABLE @ ?d @ ?z @ ?s @ ?q @ r"
    using xip_write_blank [OF dev A4 p4 top, of "\<lambda>i. SYMBOL_TABLE ! i"] unfolding src by auto
  have a3: "base + of_nat (60 + 32 * n + z) + 40 = base + of_nat (100 + 32 * n + z)" by simp
  have "core_bin_end_hook_v2 write base c = c\<lparr>flash := f4\<rparr>"
    using w1(1) w2(1) w3(1) [folded a3] w4(1)
    unfolding core_bin_end_hook_v2_def Let_def b(4) hf(3,4,5) SYMBOL_TABLE_SIZE_def by simp
  then show ?thesis
    using w4(2) read_elf_file [of ss mem r] b by (simp add: n_def z_def)
qed

interpretation elf_format: dump_format "hooks_v2 write"
  "\<lambda>base sz c. healthy_flash view erase write \<and> erased_elf view base sz c" holds_elf
  "\<lambda>mem ss ds base sz lma c. healthy_flash view erase write \<and> dumped_elf view mem ss ds base sz lma c"
  "\<lambda>base sz c. read_elf (area view (flash c) (unat base) (unat sz))"
  for view erase and "write" :: "'f flash_write"
proof unfold_locales
qed (auto simp: hooks_v2_def dest: start_v2 intro: step_v2 finish_v2)

end
