(* ===== verification/Coredump_Run.thy ===== *)
theory Coredump_Run
  imports Dump_Srec Dump_Base64 Dump_Format_Elf
begin

text \<open>
  Whole core dumps: the two encoders and the two formats put together as the build does, and the
  termination of the loop that cuts a region into blocks.
\<close>

section \<open>Termination of \<open>coredump_print_n_k\<close>\<close>

lemma printed_below: "seg * COREDUMP_PRINT_SEG_N_K * 1024 \<le> 0xFFFFFC00"
proof -
  have "seg * COREDUMP_PRINT_SEG_N_K * 1024 = push_bit 10 seg"
    by (simp add: COREDUMP_PRINT_SEG_N_K_def push_bit_eq_mult)
  moreover have "push_bit 10 seg AND 0xFFFFFC00 = push_bit 10 seg"
  proof -
    have m: "0xFFFFFC00 = push_bit 10 (mask 22 :: u32)" by (simp add: mask_numeral)
    show ?thesis unfolding m by (rule bit_word_eqI) (auto simp: bit_and_iff bit_push_bit_iff bit_mask_iff)
  qed
  ultimately show ?thesis by (metis word_and_le1)
qed

lemma loop_forever:
  assumes "print_n_k_loop print addr lma len desc seg s = Some s'"
  shows "len \<le> 0xFFFFFC00"
proof (rule print_n_k_loop.raw_induct [where P = "\<lambda>print addr lma len desc seg s s'. len \<le> 0xFFFFFC00", OF _ assms])
  fix loop :: "'a encoder \<Rightarrow> u32 \<Rightarrow> u32 \<Rightarrow> u32 \<Rightarrow> bytes option \<Rightarrow> u32 \<Rightarrow> 'a \<Rightarrow> 'a option"
  fix print :: "'a encoder" and addr lma len desc seg s r
  assume IH: "\<And>print addr lma len desc seg s s'. loop print addr lma len desc seg s = Some s' \<Longrightarrow> len \<le> 0xFFFFFC00"
    and r: "(if seg * COREDUMP_PRINT_SEG_N_K * 1024 < len
      then let printed_len = seg * COREDUMP_PRINT_SEG_N_K * 1024
           in print (addr + printed_len) (lma + printed_len)
               (if COREDUMP_PRINT_SEG_N_K * 1024 \<le> len - printed_len then COREDUMP_PRINT_SEG_N_K * 1024 else len - printed_len)
               desc s \<bind> loop print addr lma len desc (seg + 1)
      else Some s) = Some r"
  show "len \<le> 0xFFFFFC00"
  proof (cases "seg * COREDUMP_PRINT_SEG_N_K * 1024 < len")
    case True
    with r obtain s1 where "loop print addr lma len desc (seg + 1) s1 = Some r" by (auto simp: Let_def bind_eq_Some_conv)
    then show ?thesis by (rule IH)
  next
    case False
    then show ?thesis by (intro order_trans [OF leI printed_below])
  qed
qed

lemma loop_ends:
  assumes "\<And>a l n d s. print a l n d s \<noteq> None" and len: "len \<le> 0xFFFFFC00"
  shows "1024 * k \<le> unat len + 1023 \<Longrightarrow> print_n_k_loop print addr lma len desc (of_nat k) s \<noteq> None"
proof (induction "unat len + 1024 - 1024 * k" arbitrary: k s rule: less_induct)
  case less
  have len': "unat len \<le> 4294966272" using len by (simp add: word_le_nat_alt)
  then have "unat (of_nat (1024 * k) :: u32) = 1024 * k" using less.prems by (intro unat_of_nat_small) simp
  moreover have "of_nat k * COREDUMP_PRINT_SEG_N_K * 1024 = (of_nat (1024 * k) :: u32)"
    by (simp add: COREDUMP_PRINT_SEG_N_K_def mult.commute)
  ultimately have c: "of_nat k * COREDUMP_PRINT_SEG_N_K * 1024 < len \<longleftrightarrow> 1024 * k < unat len" by (simp only: word_less_nat_alt)
  show ?case
  proof (cases "1024 * k < unat len")
    case False
    then have "\<not> of_nat k * COREDUMP_PRINT_SEG_N_K * 1024 < len" using c by simp
    then show ?thesis by (subst print_n_k_loop.simps) simp
  next
    case True
    then have "of_nat k * COREDUMP_PRINT_SEG_N_K * 1024 < len" using c by simp
    moreover have "of_nat k + 1 = (of_nat (Suc k) :: u32)" by simp
    moreover have "print_n_k_loop print addr lma len desc (of_nat (Suc k)) s' \<noteq> None" for s'
      using less.hyps [of "Suc k" s'] True by simp
    ultimately show ?thesis
      using assms(1) by (subst print_n_k_loop.simps) (auto simp: Let_def bind_eq_None_conv simp del: of_nat_Suc)
  qed
qed

text \<open>
  C38: cutting a region into blocks of 1 KiB ends, with an encoder that returns, exactly when the
  region is not longer than 4 GiB less 1 KiB; beyond that the 32-bit product of the counter wraps
  before it reaches the length, and the loop runs for ever.
\<close>

theorem print_n_k_terminates:
  assumes "\<And>a l n d s. print a l n d s \<noteq> None"
  shows "coredump_print_n_k print addr lma len desc s \<noteq> None \<longleftrightarrow> len \<le> 0xFFFFFC00"
  using loop_ends [where print = print and k = 0, OF assms] loop_forever [where print = print and seg = 0]
  by (auto simp: coredump_print_n_k_def)

theorem print_n_k_terminates_witness:
  "coredump_print_n_k (\<lambda>a l n d s. Some (s + n)) 0 0 0xFFFFFC00 None (0 :: u32) \<noteq> None \<and>
   coredump_print_n_k (\<lambda>a l n d s. Some (s + n)) 0 0 0xFFFFFC01 None (0 :: u32) = None"
  using print_n_k_terminates [where print = "\<lambda>a l n d s. Some (s + n)" and len = "0xFFFFFC00"]
    print_n_k_terminates [where print = "\<lambda>a l n d s. Some (s + n)" and len = "0xFFFFFC01"] by simp

section \<open>Whole dumps\<close>

interpretation srec_elf: core_dump coredump_print srec_displays "\<lambda>lma len. True" "hooks_v2 write"
  "\<lambda>base sz c. healthy_flash view erase write \<and> erased_elf view base sz c" holds_elf
  "\<lambda>mem ss ds base sz lma c. healthy_flash view erase write \<and> dumped_elf view mem ss ds base sz lma c"
  "\<lambda>base sz c. read_elf (area view (flash c) (unat base) (unat sz))"
  for view erase and "write" :: "'f flash_write"
  by unfold_locales

interpretation base64_v1: core_dump "coredump_print_v1 sp" block_displays "\<lambda>lma len. stack_word sp \<and> aligned_region lma len"
  "hooks_v1 write" "\<lambda>base sz c. healthy_flash view erase write \<and> erased_at view base sz c" holds_v1
  "\<lambda>mem ss ds base sz lma c. healthy_flash view erase write \<and> dumped_v1 view mem ss ds base sz lma c"
  "\<lambda>base sz c. read_dump_v1 (area view (flash c) (unat base) (unat sz))"
  for sp view erase and "write" :: "'f flash_write"
  by unfold_locales

text \<open>
  A run that came to its end: the build identifier is kept, the blocks on the console load to the
  sections, and the flash holds an image of them if the partition is large enough.
\<close>

definition dump_complete ::
  "('a uart_scheme \<Rightarrow> (u32 \<times> bytes) list \<Rightarrow> 'a uart_scheme \<Rightarrow> bool) \<Rightarrow> ('c \<Rightarrow> (u32 \<times> bytes) list option) \<Rightarrow> u32 \<Rightarrow>
   dump_section list \<Rightarrow> memory \<Rightarrow> bytes \<Rightarrow> 'a uart_scheme \<times> 'c \<Rightarrow> (bytes \<times> 'a uart_scheme \<times> 'c) option \<Rightarrow> bool" where
  "dump_complete displays reader sz secs mem build_id start result = (case result of None \<Rightarrow> False
     | Some (kept, out, c) \<Rightarrow> kept = build_id \<and>
         (\<exists>shown bs. out = printf ([13, 10] @ chars ''-+-+-+- BFLB COREDUMP END +-+-+-+'' @ [13, 10]) shown \<and>
            displays (print_build_id_fmt build_id (fst start)) bs shown \<and>
            (\<forall>m. load bs m = load (map (section_block mem) (active secs)) m)) \<and>
         (if table_size secs + 4096 \<le> unat sz then reader c = Some (map (section_block mem) (active secs)) else c = snd start))"

lemma dump_completeI:
  assumes "\<exists>out' bs c'. result = Some (build_id, printf ([13, 10] @ chars ''-+-+-+- BFLB COREDUMP END +-+-+-+'' @ [13, 10]) out', c') \<and>
      displays (print_build_id_fmt build_id out) bs out' \<and> (\<forall>m. load bs m = load (map (section_block mem) (active secs)) m) \<and>
      (if table_size secs + 4096 \<le> unat sz then reader c' = Some (map (section_block mem) (active secs)) else c' = st)"
  shows "dump_complete displays reader sz secs mem build_id (out, st) result"
proof -
  from assms obtain out' bs c' where r: "result = Some (build_id, printf ([13, 10] @ chars ''-+-+-+- BFLB COREDUMP END +-+-+-+'' @ [13, 10]) out', c')"
    and d: "displays (print_build_id_fmt build_id out) bs out'" "\<forall>m. load bs m = load (map (section_block mem) (active secs)) m"
    and i: "if table_size secs + 4096 \<le> unat sz then reader c' = Some (map (section_block mem) (active secs)) else c' = st"
    by blast
  show ?thesis unfolding dump_complete_def r option.case prod.case fst_conv snd_conv
    by (intro conjI exI [of _ out'] exI [of _ bs] refl d i)
qed

text \<open>
  C3: a core dump of a table with an end marker comes to its end, keeps the build identifier, shows on
  the console blocks that load to the sections, and, if the partition is large enough, leaves in
  flash a file from which a reader gets exactly the sections: a core file in ELF (with its program
  headers and section headers in agreement) or an image of the first format.  If the partition is too
  small, the flash is left alone.
\<close>

theorem core_dump_run:
  assumes dev: "healthy_flash view erase write" and t: "terminated secs" and id: "length elf_build_id = 20"
    and len: "\<forall>s \<in> set (active secs). unat (sec_len s) \<le> 2 ^ 32 - 1024" and size: "table_size secs + 4096 < 2 ^ 32"
    and top: "unat addr + unat sz < 2 ^ 32" and n: "length (active secs) \<le> 54"
    and c: "console out" "offset_len st = 0" "seg_num st = 0"
    and v1: "console out1" "stack_word sp" "\<forall>s \<in> set (active secs). aligned_region (sec_addr s) (sec_len s)"
  shows "dump_complete srec_displays (\<lambda>c. read_elf (area view (flash c) (unat addr) (unat sz))) sz secs mem elf_build_id (out, st)
      (bl_coredump_run (core_partition_init addr sz) erase (coredump_print mem) (hooks_v2 write) secs mem elf_build_id (out, st)) \<and>
    dump_complete block_displays (\<lambda>c. read_dump_v1 (area view (flash c) (unat addr) (unat sz))) sz secs mem elf_build_id (out1, st1)
      (bl_coredump_run (core_partition_init addr sz) erase (coredump_print_v1 sp mem) (hooks_v1 write) secs mem elf_build_id (out1, st1))"
proof
  let ?p = "core_partition_init addr sz"
  have p: "coredump_flash_addr ?p = addr" "coredump_flash_size ?p = sz" by (simp_all add: core_partition_init_def)
  have fits: "table_size secs + 4096 \<le> unat sz \<Longrightarrow> holds_elf (active secs) addr sz"
    "table_size secs + 4096 \<le> unat sz \<Longrightarrow> holds_v1 (active secs) addr sz"
    using top n active_size [of secs] by (simp_all add: holds_elf_def holds_v1_def)
  have er: "area view (snd (erase addr sz f)) (unat addr) (unat sz) = blank (unat sz)" for f by (rule area_erase [OF dev])
  have e2: "healthy_flash view erase write \<and> erased_elf view (coredump_flash_addr ?p) (coredump_flash_size ?p)
      (st\<lparr>flash := snd (erase (coredump_flash_addr ?p) (coredump_flash_size ?p) (flash st))\<rparr>)"
    using dev er c by (simp add: p erased_elf_def erased_at_def)
  have e1: "healthy_flash view erase write \<and> erased_at view (coredump_flash_addr ?p) (coredump_flash_size ?p)
      (st1\<lparr>flash := snd (erase (coredump_flash_addr ?p) (coredump_flash_size ?p) (flash st1))\<rparr>)"
    using dev er by (simp add: p erased_at_def)
  have l2: "\<forall>s \<in> set (active secs). True \<and> unat (sec_len s) \<le> 2 ^ 32 - 1024"
    and l1: "\<forall>s \<in> set (active secs). (stack_word sp \<and> aligned_region (sec_addr s) (sec_len s)) \<and> unat (sec_len s) \<le> 2 ^ 32 - 1024"
    using len v1 by simp_all
  show "dump_complete srec_displays (\<lambda>c. read_elf (area view (flash c) (unat addr) (unat sz))) sz secs mem elf_build_id (out, st)
      (bl_coredump_run ?p erase (coredump_print mem) (hooks_v2 write) secs mem elf_build_id (out, st))"
    by (rule dump_completeI) (rule srec_elf.run [where p = ?p and erase = erase and erasea = erase and c = st and mem = mem, OF t c(1) id l2 size e2, unfolded p, OF fits(1)])
  show "dump_complete block_displays (\<lambda>c. read_dump_v1 (area view (flash c) (unat addr) (unat sz))) sz secs mem elf_build_id (out1, st1)
      (bl_coredump_run ?p erase (coredump_print_v1 sp mem) (hooks_v1 write) secs mem elf_build_id (out1, st1))"
    by (rule dump_completeI) (rule base64_v1.run [where p = ?p and erase = erase and erasea = erase and c = st1 and mem = mem, OF t v1(1) id l1 size e1, unfolded p, OF fits(2)])
qed

definition sample_erase :: "u32 \<Rightarrow> u32 \<Rightarrow> (nat \<Rightarrow> u8) \<Rightarrow> int \<times> (nat \<Rightarrow> u8)" where
  "sample_erase a n f = (0, \<lambda>x. if touched (unat a) (unat n) x then 0xFF else f x)"

definition sample_write :: "u32 \<Rightarrow> bytes \<Rightarrow> (nat \<Rightarrow> u8) \<Rightarrow> int \<times> (nat \<Rightarrow> u8)" where
  "sample_write a d f = (0, \<lambda>x. if unat a \<le> x \<and> x < unat a + length d then f x AND d ! (x - unat a) else f x)"

lemma sample_healthy: "healthy_flash (\<lambda>f. f) sample_erase sample_write"
  by (simp add: healthy_flash_def sample_erase_def sample_write_def)

definition sample_table :: "dump_section list" where
  "sample_table = [\<lparr>sec_addr = 0x62FC0000, sec_len = 2048\<rparr>, \<lparr>sec_addr = 0x22010000, sec_len = 0\<rparr>,
     \<lparr>sec_addr = 0x22020000, sec_len = 100\<rparr>, \<lparr>sec_addr = 0xFFFFFFFF, sec_len = 0\<rparr>]"

definition sample_elf_state :: "(nat \<Rightarrow> u8) elf_state" where
  "sample_elf_state = \<lparr>flash = \<lambda>x. 0, elf_header = zero_ehdr, flash_addr_start = 0, offset_len = 0, seg_num = 0\<rparr>"

definition sample_dump :: "((bytes \<times> srec_encoder \<times> (nat \<Rightarrow> u8) elf_state) option)" where
  "sample_dump = bl_coredump_run (core_partition_init 0x3E8000 0x18000) sample_erase (coredump_print ucast) (hooks_v2 sample_write)
     sample_table ucast (replicate 20 7) (\<lparr>console = True, written = [], started = 0\<rparr>, sample_elf_state)"

theorem core_dump_run_witness:
  "dump_complete srec_displays (\<lambda>c. read_elf (area (\<lambda>f. f) (flash c) 0x3E8000 0x18000)) 0x18000 sample_table ucast (replicate 20 7)
     (\<lparr>console = True, written = [], started = 0\<rparr>, sample_elf_state) sample_dump"
proof -
  have a: "active sample_table = [\<lparr>sec_addr = 0x62FC0000, sec_len = 2048\<rparr>, \<lparr>sec_addr = 0x22020000, sec_len = 100\<rparr>]"
    by (simp add: sample_table_def)
  have "terminated sample_table" "table_size sample_table = 2148" by (simp_all add: sample_table_def)
  then show ?thesis
    using core_dump_run [where secs = sample_table and addr = "0x3E8000" and sz = "0x18000" and mem = ucast and st = sample_elf_state
        and ?st1.0 = "\<lparr>flash = \<lambda>x. 0\<rparr>" and sp = "0x42000000" and elf_build_id = "replicate 20 7"
        and out = "\<lparr>console = True, written = [], started = 0\<rparr>" and ?out1.0 = "\<lparr>console = True, written = [], initialized = 0\<rparr>",
      OF sample_healthy]
    by (simp add: a sample_dump_def sample_elf_state_def aligned_region_def stack_word_def)
qed

end
