(* ===== verification/Boot2.thy ===== *)
theory Boot2
  imports Partition
begin

text \<open>
  The copy of the partition table that the firmware keeps in memory,
  \<^verbatim>\<open>components/utils/bflb_mtd/bflb_boot2.c\<close> in its configuration for the BL616.

  The copy is taken by \<open>bflb_boot2_init\<close> and used from then on: all lookups by name see the table
  as it was at that time.  A C string is the object from its address on; without a terminator in it
  the comparison is \<open>None\<close>.  Nothing that is only printed is modelled.
\<close>

section \<open>Model\<close>

text \<open>The driver of the flash, \<^verbatim>\<open>drivers/lhal/include/bflb_flash.h\<close>: a parameter.\<close>

record 'f flash_driver =
  bflb_flash_erase :: "u32 \<Rightarrow> u32 \<Rightarrow> 'f \<Rightarrow> int \<times> 'f"
  bflb_flash_write :: "u32 \<Rightarrow> bytes \<Rightarrow> 'f \<Rightarrow> int \<times> 'f"
  bflb_flash_read :: "u32 \<Rightarrow> bytes \<Rightarrow> 'f \<Rightarrow> int \<times> bytes \<times> 'f"

definition PARTITION_MAGIC :: u32 where "PARTITION_MAGIC = 0x54504642"
definition PARTITION_FW_PART_NAME :: bytes where "PARTITION_FW_PART_NAME = [0x46, 0x57, 0]"
definition PARTITION_FW_PART_HEADER_SIZE :: u32 where "PARTITION_FW_PART_HEADER_SIZE = 0x1000"
definition FW_XIP_ADDRESS :: u32 where "FW_XIP_ADDRESS = 0xA0000000"

datatype boot2_error = EIO | ENOENT | ECANCELED | EINVAL | EFAULT

record boot2_state =
  partition_active_idx :: u8
  boot2_table :: bytes
  write_active_idx :: u8
  write_table :: bytes

text \<open>C's \<open>!x\<close>, as a value and as the number of a copy.\<close>

definition lnot :: "u8 \<Rightarrow> u8" where
  "lnot x = (if x = 0 then 1 else 0)"

definition copy_not :: "u8 \<Rightarrow> pt_table_id_type" where
  "copy_not x = (if x = 0 then PT_TABLE_ID_1 else PT_TABLE_ID_0)"

text \<open>\<open>(ptEntry->age)++\<close>\<close>

definition age_up :: "bytes \<Rightarrow> bytes" where
  "age_up e = poke e 32 (bytes32 (entry_age e + 1))"

definition bflb_boot2_update_ptable ::
  "'f pt_globals \<Rightarrow> bytes \<Rightarrow> boot2_state \<Rightarrow> 'f \<Rightarrow> (pt_table_error_type \<times> bytes \<times> boot2_state \<times> 'f) option" where
  "bflb_boot2_update_ptable g ptEntry b f = do {
     let b = b\<lparr>write_active_idx := partition_active_idx b, write_table := boot2_table b\<rparr>;
     let ptEntry = poke ptEntry 2 [lnot (active_index ptEntry)];
     let ptEntry = age_up ptEntry;
     (ret, t, f) \<leftarrow> pt_table_update_entry g (copy_not (write_active_idx b)) (Some (write_table b)) (Some ptEntry) f;
     t \<leftarrow> t;
     Some (ret, ptEntry, b\<lparr>write_table := t\<rparr>, f)
   }"

fun strcmp_eq :: "bytes \<Rightarrow> bytes \<Rightarrow> bool option" where
  "strcmp_eq (x # xs) (y # ys) = (if x \<noteq> y then Some False else if x = 0 then Some True else strcmp_eq xs ys)"
| "strcmp_eq xs ys = None"

definition find_name :: "bytes \<Rightarrow> bytes \<Rightarrow> nat option" where
  "find_name s name = find_entry (\<lambda>e. strcmp_eq (drop 3 e) name) s (unat (entryCnt s)) 0"

text \<open>The results \<open>*addr0\<close>, \<open>*addr1\<close>, \<open>*size0\<close>, \<open>*size1\<close> and \<open>*active\<close>.\<close>

definition bflb_boot2_partition_bus_addr :: "boot2_state \<Rightarrow> bytes \<Rightarrow> (boot2_error + u32 \<times> u32 \<times> u32 \<times> u32 \<times> u8) option" where
  "bflb_boot2_partition_bus_addr b name =
     (let s = boot2_table b in
      if PARTITION_MAGIC \<noteq> magicCode s then Some (Inl EIO)
      else do {
        i \<leftarrow> find_name s name;
        if unat (entryCnt s) = i then Some (Inl ENOENT)
        else do {
          let e = pt_entry s i;
          let addr0_t = start_address e 0;
          let addr1_t = start_address e 1;
          i \<leftarrow> find_name s PARTITION_FW_PART_NAME;
          if unat (entryCnt s) = i then Some (Inl ECANCELED)
          else
            let fw = pt_entry s i in
            if (addr0_t \<noteq> 0 \<and> addr0_t < start_address fw 0) \<or> (addr0_t \<noteq> 0 \<and> addr0_t < start_address fw 1) \<or>
               (addr1_t \<noteq> 0 \<and> addr1_t < start_address fw 0) \<or> (addr1_t \<noteq> 0 \<and> addr1_t < start_address fw 1)
            then Some (Inl EINVAL)
            else if 0 \<noteq> active_index fw \<and> 1 \<noteq> active_index fw then Some (Inl EFAULT)
            else
              let base = start_address fw (unat (active_index fw)) in
              Some (Inr (addr0_t - base - PARTITION_FW_PART_HEADER_SIZE + FW_XIP_ADDRESS,
                addr1_t - base - PARTITION_FW_PART_HEADER_SIZE + FW_XIP_ADDRESS, max_len e 0, max_len e 1, active_index e))
        }
      })"

definition bflb_boot2_partition_bus_addr_active :: "boot2_state \<Rightarrow> bytes \<Rightarrow> (boot2_error + u32 \<times> u32) option" where
  "bflb_boot2_partition_bus_addr_active b name = do {
     r \<leftarrow> bflb_boot2_partition_bus_addr b name;
     Some (case r of Inl e \<Rightarrow> Inl e | Inr (addr0, addr1, size0, size1, active) \<Rightarrow>
       Inr (if active \<noteq> 0 then addr1 else addr0, if active \<noteq> 0 then size1 else size0))
   }"

definition bflb_boot2_partition_bus_addr_inactive :: "boot2_state \<Rightarrow> bytes \<Rightarrow> (boot2_error + u32 \<times> u32) option" where
  "bflb_boot2_partition_bus_addr_inactive b name = do {
     r \<leftarrow> bflb_boot2_partition_bus_addr b name;
     Some (case r of Inl e \<Rightarrow> Inl e | Inr (addr0, addr1, size0, size1, active) \<Rightarrow>
       Inr (if active \<noteq> 0 then addr0 else addr1, if active \<noteq> 0 then size0 else size1))
   }"

definition bflb_boot2_partition_addr :: "boot2_state \<Rightarrow> bytes \<Rightarrow> (boot2_error + u32 \<times> u32 \<times> u32 \<times> u32 \<times> u8) option" where
  "bflb_boot2_partition_addr b name =
     (let s = boot2_table b in
      if PARTITION_MAGIC \<noteq> magicCode s then Some (Inl EIO)
      else do {
        i \<leftarrow> find_name s name;
        if unat (entryCnt s) = i then Some (Inl ENOENT)
        else
          let e = pt_entry s i in
          Some (Inr (start_address e 0, start_address e 1, max_len e 0, max_len e 1, active_index e))
      })"

definition bflb_boot2_partition_addr_active :: "boot2_state \<Rightarrow> bytes \<Rightarrow> (boot2_error + u32 \<times> u32) option" where
  "bflb_boot2_partition_addr_active b name = do {
     r \<leftarrow> bflb_boot2_partition_addr b name;
     Some (case r of Inl e \<Rightarrow> Inl e | Inr (addr0, addr1, size0, size1, active) \<Rightarrow>
       Inr (if active \<noteq> 0 then addr1 else addr0, if active \<noteq> 0 then size1 else size0))
   }"

definition bflb_boot2_partition_addr_inactive :: "boot2_state \<Rightarrow> bytes \<Rightarrow> (boot2_error + u32 \<times> u32) option" where
  "bflb_boot2_partition_addr_inactive b name = do {
     r \<leftarrow> bflb_boot2_partition_addr b name;
     Some (case r of Inl e \<Rightarrow> Inl e | Inr (addr0, addr1, size0, size1, active) \<Rightarrow>
       Inr (if active \<noteq> 0 then addr0 else addr1, if active \<noteq> 0 then size0 else size1))
   }"

definition bflb_boot2_get_active_partition :: "boot2_state \<Rightarrow> u8" where
  "bflb_boot2_get_active_partition b = partition_active_idx b"

definition bflb_boot2_get_active_entries_byname :: "boot2_state \<Rightarrow> bytes \<Rightarrow> bytes \<Rightarrow> (int \<times> bytes) option" where
  "bflb_boot2_get_active_entries_byname b name ptEntry = do {
     (ret, e) \<leftarrow> pt_table_get_active_entries_by_name (Some (boot2_table b)) (Some name) (Some ptEntry);
     e \<leftarrow> e;
     Some (if ret \<noteq> PT_ERROR_SUCCESS then - 1 else 0, e)
   }"

definition bflb_boot2_get_active_entries :: "boot2_state \<Rightarrow> int \<Rightarrow> bytes \<Rightarrow> (int \<times> bytes) option" where
  "bflb_boot2_get_active_entries b type ptEntry = do {
     (ret, e) \<leftarrow> pt_table_get_active_entries_by_id (Some (boot2_table b)) type (Some ptEntry);
     e \<leftarrow> e;
     Some (if ret \<noteq> PT_ERROR_SUCCESS then - 1 else 0, e)
   }"

text \<open>\<open>ptstuff\<close> are the contents of the two buffers on the stack.\<close>

definition use_driver :: "'f flash_driver \<Rightarrow> 'f pt_globals \<Rightarrow> 'f pt_globals" where
  "use_driver dev g = pt_table_set_flash_operation (Some (bflb_flash_erase dev)) (Some (bflb_flash_write dev)) (Some (bflb_flash_read dev)) g"

definition bflb_boot2_init ::
  "'f flash_driver \<Rightarrow> bytes \<times> bytes \<Rightarrow> 'f pt_globals \<Rightarrow> boot2_state \<Rightarrow> 'f \<Rightarrow> (int \<times> 'f pt_globals \<times> boot2_state \<times> 'f) option" where
  "bflb_boot2_init dev ptstuff g b f = do {
     let g = use_driver dev g;
     (active_id, s, f) \<leftarrow> pt_table_get_active_partition_need_lock g (Some ptstuff) f;
     (s0, s1) \<leftarrow> s;
     if active_id \<noteq> PT_TABLE_ID_INVALID then
       Some (0, g, b\<lparr>partition_active_idx := id_index active_id,
         boot2_table := (if active_id = PT_TABLE_ID_0 then s0 else s1)\<rparr>, f)
     else Some (- 1, g, b, f)
   }"

definition PT_MEDIA_TYPE_NAME :: bytes where "PT_MEDIA_TYPE_NAME = [0x6D, 0x66, 0x67, 0]"

text \<open>The two entries on the stack are \<open>e0\<close> and \<open>e1\<close>.\<close>

definition bflb_update_mfg_ptable :: "'f pt_globals \<Rightarrow> bytes \<Rightarrow> bytes \<Rightarrow> boot2_state \<Rightarrow> 'f \<Rightarrow> (boot2_state \<times> 'f) option" where
  "bflb_update_mfg_ptable g e0 e1 b f = do {
     (ret, fw) \<leftarrow> bflb_boot2_get_active_entries_byname b PARTITION_FW_PART_NAME e0;
     if 0 = ret then do {
       (ret, media) \<leftarrow> bflb_boot2_get_active_entries_byname b PT_MEDIA_TYPE_NAME e1;
       if 0 = ret \<and> start_address fw 1 = start_address media 0 then do {
         let media = poke media 3 (replicate 9 0);
         (ret, t, f) \<leftarrow> pt_table_update_entry g (copy_not (partition_active_idx b)) (Some (boot2_table b)) (Some media) f;
         t \<leftarrow> t;
         Some (b\<lparr>boot2_table := t\<rparr>, f)
       } else Some (b, f)
     } else Some (b, f)
   }"

end
