(* ===== verification/Mtd.thy ===== *)
theory Mtd
  imports Boot2
begin

text \<open>
  Partitions as devices, \<^verbatim>\<open>components/utils/bflb_mtd/bflb_mtd.c\<close> in its configuration for the BL616.

  A handle is found through the table that \<open>Boot2\<close> keeps in memory.  Whether \<open>malloc\<close> succeeds is
  an argument.  The results of the flash driver are dropped, as the code does.
\<close>

section \<open>Model\<close>

record mtd_handle =
  mtd_name :: bytes
  mtd_id :: int
  mtd_offset :: u32
  mtd_size :: u32
  mtd_xip_addr :: u32

text \<open>\<open>strlcpy\<close> of the C library: the new destination and the length of the source.\<close>

definition strlcpy :: "bytes \<Rightarrow> bytes \<Rightarrow> nat \<Rightarrow> (bytes \<times> nat) option" where
  "strlcpy dst src n = do {
     len \<leftarrow> strlen src;
     dst \<leftarrow> (if 0 < n then mem_write dst 0 (take (min len (n - 1)) src @ [0]) else Some dst);
     Some (dst, len)
   }"

text \<open>The source of a write is the object behind \<open>src\<close>; its bytes do not change during the write.\<close>

function mtd_write_copy2ram :: "'f flash_driver \<Rightarrow> u32 \<Rightarrow> bytes \<Rightarrow> u32 \<Rightarrow> 'f \<Rightarrow> (int \<times> 'f) option" where
  "mtd_write_copy2ram dev addr src len f =
     (if len > 0 then do {
        let len_tmp = (if len \<ge> 64 then 64 else len);
        buf_tmp \<leftarrow> mem_read src 0 (unat len_tmp);
        let (_, f) = bflb_flash_write dev addr buf_tmp f;
        mtd_write_copy2ram dev (addr + len_tmp) (drop (unat len_tmp) src) (len - len_tmp) f
      } else Some (0, f))"
  by pat_completeness auto
termination
proof (relation "measure (\<lambda>(dev, addr, src, len, f). unat len)")
  fix len k :: u32
  assume "0 < len" and "k = (if len \<ge> 64 then 64 else len)"
  then have "0 < k" "k \<le> len" by auto
  then have "unat (len - k) < unat len" by (simp add: unat_sub_le word_less_nat_alt word_le_nat_alt)
  then show "((dev, addr', src', len - k, f'), (dev, addr, src, len, f)) \<in> measure (\<lambda>(dev, addr, src, len, f). unat len)"
    for dev :: "'f flash_driver" and addr addr' src src' f f'
    by simp
qed simp

declare mtd_write_copy2ram.simps [simp del]

definition mtd_write :: "'f flash_driver \<Rightarrow> u32 \<Rightarrow> bytes \<Rightarrow> u32 \<Rightarrow> 'f \<Rightarrow> (int \<times> 'f) option" where
  "mtd_write dev addr src len f = do {
     d \<leftarrow> mem_read src 0 (unat len);
     let (_, f) = bflb_flash_write dev addr d f;
     Some (0, f)
   }"

definition bflb_sys_isxipaddr :: "u32 \<Rightarrow> bool" where
  "bflb_sys_isxipaddr addr =
     (addr AND 0xFF000000 = 0xA0000000 \<or> addr AND 0xFF000000 = 0xA1000000 \<or>
      addr AND 0xFF000000 = 0xA2000000 \<or> addr AND 0xFF000000 = 0xA3000000 \<or>
      addr AND 0xFF000000 = 0xA4000000 \<or> addr AND 0xFF000000 = 0xA5000000 \<or>
      addr AND 0xFF000000 = 0xA6000000 \<or> addr AND 0xFF000000 = 0xA7000000)"

definition bflb_mtd_init ::
  "'f flash_driver \<Rightarrow> bytes \<times> bytes \<Rightarrow> 'f pt_globals \<Rightarrow> boot2_state \<Rightarrow> 'f \<Rightarrow> ('f pt_globals \<times> boot2_state \<times> 'f) option" where
  "bflb_mtd_init dev ptstuff g b f = map_option snd (bflb_boot2_init dev ptstuff g b f)"

definition BFLB_MTD_OPEN_FLAG_BACKUP :: u32 where "BFLB_MTD_OPEN_FLAG_BACKUP = 1"
definition BFLB_MTD_OPEN_FLAG_BUSADDR :: u32 where "BFLB_MTD_OPEN_FLAG_BUSADDR = 2"

text \<open>The results of opening: an error, the loop that never ends, or a handle.\<close>

datatype mtd_opened = Open_Failed | Dead_Loop | Opened mtd_handle

text \<open>\<open>(ret = ...) || 0 == addr\<close>: no partition, or its address and size.\<close>

definition found :: "boot2_error + u32 \<times> u32 \<Rightarrow> (u32 \<times> u32) option" where
  "found r = (case r of Inl _ \<Rightarrow> None | Inr (addr, sz) \<Rightarrow> if 0 = addr then None else Some (addr, sz))"

definition bflb_mtd_open :: "bool \<Rightarrow> boot2_state \<Rightarrow> bytes \<Rightarrow> u32 \<Rightarrow> mtd_opened option" where
  "bflb_mtd_open malloc_ok b name flags =
     (if \<not> malloc_ok then Some Open_Failed
      else do {
        let handle_prv = \<lparr>mtd_name = replicate 16 0, mtd_id = 0, mtd_offset = 0, mtd_size = 0, mtd_xip_addr = 0\<rparr>;
        (n, _) \<leftarrow> strlcpy (mtd_name handle_prv) name 16;
        let handle_prv = handle_prv\<lparr>mtd_name := n\<rparr>;
        let backup = (flags AND BFLB_MTD_OPEN_FLAG_BACKUP \<noteq> 0);
        xip \<leftarrow> (if flags AND BFLB_MTD_OPEN_FLAG_BUSADDR \<noteq> 0 then
            map_option (\<lambda>r. map_option fst (found r))
              (if backup then bflb_boot2_partition_bus_addr_inactive b name else bflb_boot2_partition_bus_addr_active b name)
          else Some (Some 0));
        case xip of None \<Rightarrow> Some Dead_Loop
        | Some xip \<Rightarrow> do {
            let handle_prv = handle_prv\<lparr>mtd_xip_addr := xip\<rparr>;
            r \<leftarrow> (if backup then bflb_boot2_partition_addr_inactive b name else bflb_boot2_partition_addr_active b name);
            case found r of None \<Rightarrow> Some Dead_Loop
            | Some (addr, sz) \<Rightarrow> Some (Opened (handle_prv\<lparr>mtd_offset := addr, mtd_size := sz\<rparr>))
          }
      })"

text \<open>Closing frees the handle, which is a value here.\<close>

definition bflb_mtd_close :: "mtd_handle \<Rightarrow> int" where
  "bflb_mtd_close handle = 0"

record mtd_info =
  info_name :: bytes
  info_offset :: u32
  info_size :: u32
  info_xip_addr :: u32

definition bflb_mtd_info :: "mtd_handle \<Rightarrow> mtd_info \<Rightarrow> (int \<times> mtd_info) option" where
  "bflb_mtd_info handle info = do {
     (n, _) \<leftarrow> strlcpy (info_name info) (mtd_name handle) 16;
     Some (0, info\<lparr>info_name := n, info_offset := mtd_offset handle, info_size := mtd_size handle, info_xip_addr := mtd_xip_addr handle\<rparr>)
   }"

definition bflb_mtd_erase :: "'f flash_driver \<Rightarrow> mtd_handle \<Rightarrow> u32 \<Rightarrow> u32 \<Rightarrow> 'f \<Rightarrow> int \<times> 'f" where
  "bflb_mtd_erase dev handle addr sz f = (0, snd (bflb_flash_erase dev (mtd_offset handle + addr) sz f))"

definition bflb_mtd_erase_all :: "'f flash_driver \<Rightarrow> mtd_handle \<Rightarrow> 'f \<Rightarrow> int \<times> 'f" where
  "bflb_mtd_erase_all dev handle f = (0, snd (bflb_flash_erase dev (mtd_offset handle + 0) (mtd_size handle) f))"

text \<open>\<open>data\<close> is a pointer: its address and the object from there on.\<close>

definition bflb_mtd_write :: "'f flash_driver \<Rightarrow> mtd_handle \<Rightarrow> u32 \<Rightarrow> u32 \<Rightarrow> u32 \<times> bytes \<Rightarrow> 'f \<Rightarrow> (int \<times> 'f) option" where
  "bflb_mtd_write dev handle addr sz data f = do {
     let real_addr = mtd_offset handle + addr;
     (_, f) \<leftarrow> (if bflb_sys_isxipaddr (fst data) then mtd_write_copy2ram dev real_addr (snd data) sz f
               else mtd_write dev real_addr (snd data) sz f);
     Some (0, f)
   }"

definition bflb_mtd_read :: "'f flash_driver \<Rightarrow> mtd_handle \<Rightarrow> u32 \<Rightarrow> u32 \<Rightarrow> bytes \<Rightarrow> 'f \<Rightarrow> (int \<times> bytes \<times> 'f) option" where
  "bflb_mtd_read dev handle addr sz data f = do {
     d \<leftarrow> mem_read data 0 (unat sz);
     let (_, d, f) = bflb_flash_read dev (mtd_offset handle + addr) d f;
     data \<leftarrow> mem_write data 0 d;
     Some (0, data, f)
   }"

definition bflb_mtd_size :: "mtd_handle option \<Rightarrow> u32 \<Rightarrow> int \<times> u32" where
  "bflb_mtd_size handle sz = (case handle of None \<Rightarrow> (- 1, sz) | Some h \<Rightarrow> (0, mtd_size h))"

end
