(* ===== verification/Sha256.thy ===== *)
theory Sha256
  imports Stream_Digest
begin

text \<open>
  The SHA-256 of the firmware update, \<^verbatim>\<open>components/utils/bflb_ota/utils_sha256.c\<close> (without
  \<open>INFRA_SHA256_SMALLER\<close>), and the hash standard FIPS 180-4 as its specification.

  A context is the record of its fields; the two counters, the eight words of state and the 64
  bytes of the buffer are lists of that length.  Copies into the buffer and reads from the input
  that leave their object are \<open>None\<close>.
\<close>

section \<open>The code\<close>

record sha256_context =
  total :: "u32 list"
  state :: "u32 list"
  buffer :: bytes
  is224 :: int

definition GET_UINT32_BE :: "bytes \<Rightarrow> nat \<Rightarrow> u32" where
  "GET_UINT32_BE b i =
     push_bit 24 (ucast (b ! i)) OR push_bit 16 (ucast (b ! (i + 1))) OR push_bit 8 (ucast (b ! (i + 2))) OR ucast (b ! (i + 3))"

definition PUT_UINT32_BE :: "u32 \<Rightarrow> bytes" where
  "PUT_UINT32_BE n = [ucast (drop_bit 24 n), ucast (drop_bit 16 n), ucast (drop_bit 8 n), ucast n]"

definition utils_sha256_zeroize :: "sha256_context \<Rightarrow> sha256_context" where
  "utils_sha256_zeroize ctx = \<lparr>total = replicate 2 0, state = replicate 8 0, buffer = replicate 64 0, is224 = 0\<rparr>"

definition utils_sha256_init :: "sha256_context \<Rightarrow> sha256_context" where
  "utils_sha256_init ctx = \<lparr>total = replicate 2 0, state = replicate 8 0, buffer = replicate 64 0, is224 = 0\<rparr>"

definition utils_sha256_free :: "sha256_context option \<Rightarrow> sha256_context option" where
  "utils_sha256_free ctx = map_option utils_sha256_zeroize ctx"

definition utils_sha256_clone :: "sha256_context \<Rightarrow> sha256_context \<Rightarrow> sha256_context" where
  "utils_sha256_clone dst src = src"

definition utils_sha256_starts :: "sha256_context \<Rightarrow> sha256_context" where
  "utils_sha256_starts ctx =
     ctx\<lparr>total := [0, 0], is224 := 0,
       state := [0x6A09E667, 0xBB67AE85, 0x3C6EF372, 0xA54FF53A, 0x510E527F, 0x9B05688C, 0x1F83D9AB, 0x5BE0CD19]\<rparr>"

definition K256 :: "u32 list" where
  "K256 =
    [0x428A2F98, 0x71374491, 0xB5C0FBCF, 0xE9B5DBA5, 0x3956C25B, 0x59F111F1,
     0x923F82A4, 0xAB1C5ED5, 0xD807AA98, 0x12835B01, 0x243185BE, 0x550C7DC3,
     0x72BE5D74, 0x80DEB1FE, 0x9BDC06A7, 0xC19BF174, 0xE49B69C1, 0xEFBE4786,
     0x0FC19DC6, 0x240CA1CC, 0x2DE92C6F, 0x4A7484AA, 0x5CB0A9DC, 0x76F988DA,
     0x983E5152, 0xA831C66D, 0xB00327C8, 0xBF597FC7, 0xC6E00BF3, 0xD5A79147,
     0x06CA6351, 0x14292967, 0x27B70A85, 0x2E1B2138, 0x4D2C6DFC, 0x53380D13,
     0x650A7354, 0x766A0ABB, 0x81C2C92E, 0x92722C85, 0xA2BFE8A1, 0xA81A664B,
     0xC24B8B70, 0xC76C51A3, 0xD192E819, 0xD6990624, 0xF40E3585, 0x106AA070,
     0x19A4C116, 0x1E376C08, 0x2748774C, 0x34B0BCB5, 0x391C0CB3, 0x4ED8AA4A,
     0x5B9CCA4F, 0x682E6FF3, 0x748F82EE, 0x78A5636F, 0x84C87814, 0x8CC70208,
     0x90BEFFFA, 0xA4506CEB, 0xBEF9A3F7, 0xC67178F2]"

definition SHR :: "u32 \<Rightarrow> nat \<Rightarrow> u32" where
  "SHR x n = drop_bit n (x AND 0xFFFFFFFF)"

definition ROTR :: "u32 \<Rightarrow> nat \<Rightarrow> u32" where
  "ROTR x n = SHR x n OR push_bit (32 - n) x"

definition S0 :: "u32 \<Rightarrow> u32" where "S0 x = ROTR x 7 XOR ROTR x 18 XOR SHR x 3"
definition S1 :: "u32 \<Rightarrow> u32" where "S1 x = ROTR x 17 XOR ROTR x 19 XOR SHR x 10"
definition S2 :: "u32 \<Rightarrow> u32" where "S2 x = ROTR x 2 XOR ROTR x 13 XOR ROTR x 22"
definition S3 :: "u32 \<Rightarrow> u32" where "S3 x = ROTR x 6 XOR ROTR x 11 XOR ROTR x 25"

definition F0 :: "u32 \<Rightarrow> u32 \<Rightarrow> u32 \<Rightarrow> u32" where "F0 x y z = (x AND y) OR (z AND (x OR y))"
definition F1 :: "u32 \<Rightarrow> u32 \<Rightarrow> u32 \<Rightarrow> u32" where "F1 x y z = z XOR (x AND (y XOR z))"

text \<open>\<open>W[t] = ...\<close>; the working array has 64 words.\<close>

definition sha256_R :: "u32 list \<Rightarrow> nat \<Rightarrow> u32 list" where
  "sha256_R W t = W[t := S1 (W ! (t - 2)) + W ! (t - 7) + S0 (W ! (t - 15)) + W ! (t - 16)]"

text \<open>The macro \<open>P\<close>, on the words \<open>a\<close> to \<open>h\<close> of the array \<open>A\<close>.\<close>

definition sha256_P :: "u32 list \<Rightarrow> nat \<Rightarrow> nat \<Rightarrow> nat \<Rightarrow> nat \<Rightarrow> nat \<Rightarrow> nat \<Rightarrow> nat \<Rightarrow> nat \<Rightarrow> u32 \<Rightarrow> u32 \<Rightarrow> u32 list" where
  "sha256_P A a b c d e f g h x k =
     (let temp1 = A ! h + S3 (A ! e) + F1 (A ! e) (A ! f) (A ! g) + k + x;
        temp2 = S2 (A ! a) + F0 (A ! a) (A ! b) (A ! c)
      in A[d := A ! d + temp1, h := temp1 + temp2])"

definition octet_first :: "u32 list \<Rightarrow> nat \<Rightarrow> u32 list \<Rightarrow> u32 list" where
  "octet_first W i A =
     (let
        A = sha256_P A 0 1 2 3 4 5 6 7 (W ! (i + 0)) (K256 ! (i + 0));
        A = sha256_P A 7 0 1 2 3 4 5 6 (W ! (i + 1)) (K256 ! (i + 1));
        A = sha256_P A 6 7 0 1 2 3 4 5 (W ! (i + 2)) (K256 ! (i + 2));
        A = sha256_P A 5 6 7 0 1 2 3 4 (W ! (i + 3)) (K256 ! (i + 3));
        A = sha256_P A 4 5 6 7 0 1 2 3 (W ! (i + 4)) (K256 ! (i + 4));
        A = sha256_P A 3 4 5 6 7 0 1 2 (W ! (i + 5)) (K256 ! (i + 5));
        A = sha256_P A 2 3 4 5 6 7 0 1 (W ! (i + 6)) (K256 ! (i + 6));
        A = sha256_P A 1 2 3 4 5 6 7 0 (W ! (i + 7)) (K256 ! (i + 7))
      in A)"

definition octet_rest :: "nat \<Rightarrow> u32 list \<times> u32 list \<Rightarrow> u32 list \<times> u32 list" where
  "octet_rest i WA =
     (let (W, A) = WA;
        W = sha256_R W (i + 0); A = sha256_P A 0 1 2 3 4 5 6 7 (W ! (i + 0)) (K256 ! (i + 0));
        W = sha256_R W (i + 1); A = sha256_P A 7 0 1 2 3 4 5 6 (W ! (i + 1)) (K256 ! (i + 1));
        W = sha256_R W (i + 2); A = sha256_P A 6 7 0 1 2 3 4 5 (W ! (i + 2)) (K256 ! (i + 2));
        W = sha256_R W (i + 3); A = sha256_P A 5 6 7 0 1 2 3 4 (W ! (i + 3)) (K256 ! (i + 3));
        W = sha256_R W (i + 4); A = sha256_P A 4 5 6 7 0 1 2 3 (W ! (i + 4)) (K256 ! (i + 4));
        W = sha256_R W (i + 5); A = sha256_P A 3 4 5 6 7 0 1 2 (W ! (i + 5)) (K256 ! (i + 5));
        W = sha256_R W (i + 6); A = sha256_P A 2 3 4 5 6 7 0 1 (W ! (i + 6)) (K256 ! (i + 6));
        W = sha256_R W (i + 7); A = sha256_P A 1 2 3 4 5 6 7 0 (W ! (i + 7)) (K256 ! (i + 7))
      in (W, A))"

fun loop_first :: "u32 list \<Rightarrow> nat \<Rightarrow> nat \<Rightarrow> u32 list \<Rightarrow> u32 list" where
  "loop_first W i 0 A = A"
| "loop_first W i (Suc left) A = loop_first W (i + 8) left (octet_first W i A)"

fun loop_rest :: "nat \<Rightarrow> nat \<Rightarrow> u32 list \<times> u32 list \<Rightarrow> u32 list \<times> u32 list" where
  "loop_rest i 0 WA = WA"
| "loop_rest i (Suc left) WA = loop_rest (i + 8) left (octet_rest i WA)"

text \<open>The words of \<open>W\<close> from 16 on have no contents before they are written.\<close>

definition utils_sha256_process :: "sha256_context \<Rightarrow> bytes \<Rightarrow> sha256_context" where
  "utils_sha256_process ctx data =
     (let A = map (\<lambda>i. state ctx ! i) [0..<8];
        W = map (\<lambda>i. GET_UINT32_BE data (4 * i)) [0..<16] @ replicate 48 0;
        A = loop_first W 0 2 A;
        (W, A) = loop_rest 16 6 (W, A)
      in ctx\<lparr>state := map (\<lambda>i. state ctx ! i + A ! i) [0..<8]\<rparr>)"

text \<open>The loop of \<open>utils_sha256_process\<close> under \<open>INFRA_SHA256_SMALLER\<close>: one round at a time, moving the words.\<close>

definition smaller_step :: "bytes \<Rightarrow> nat \<Rightarrow> u32 list \<times> u32 list \<Rightarrow> u32 list \<times> u32 list" where
  "smaller_step data i WA =
     (let (W, A) = WA;
        W = (if i < 16 then W[i := GET_UINT32_BE data (4 * i)] else sha256_R W i);
        A = sha256_P A 0 1 2 3 4 5 6 7 (W ! i) (K256 ! i);
        temp1 = A ! 7;
        A = A[7 := A ! 6]; A = A[6 := A ! 5]; A = A[5 := A ! 4]; A = A[4 := A ! 3];
        A = A[3 := A ! 2]; A = A[2 := A ! 1]; A = A[1 := A ! 0]; A = A[0 := temp1]
      in (W, A))"

fun smaller_loop :: "bytes \<Rightarrow> nat \<Rightarrow> nat \<Rightarrow> u32 list \<times> u32 list \<Rightarrow> u32 list \<times> u32 list" where
  "smaller_loop data i 0 WA = WA"
| "smaller_loop data i (Suc left) WA = smaller_loop data (i + 1) left (smaller_step data i WA)"

definition utils_sha256_process_smaller :: "sha256_context \<Rightarrow> bytes \<Rightarrow> sha256_context" where
  "utils_sha256_process_smaller ctx data =
     (let A = map (\<lambda>i. state ctx ! i) [0..<8];
        (W, A) = smaller_loop data 0 64 (replicate 64 0, A)
      in ctx\<lparr>state := map (\<lambda>i. state ctx ! i + A ! i) [0..<8]\<rparr>)"

function process_blocks :: "sha256_context \<Rightarrow> bytes \<Rightarrow> u32 \<Rightarrow> (sha256_context \<times> bytes \<times> u32) option" where
  "process_blocks ctx input ilen =
     (if ilen \<ge> 64 then
        do {
          block \<leftarrow> mem_read input 0 64;
          process_blocks (utils_sha256_process ctx block) (drop 64 input) (ilen - 64)
        }
      else Some (ctx, input, ilen))"
  by pat_completeness auto
termination
  by (relation "measure (\<lambda>(ctx, input, ilen). unat ilen)") (auto simp: unat_sub_le word_le_nat_alt)

declare process_blocks.simps [simp del]

definition add_total :: "u32 list \<Rightarrow> u32 \<Rightarrow> u32 list" where
  "add_total t ilen =
     (let t = t[0 := t ! 0 + ilen]; t = t[0 := t ! 0 AND 0xFFFFFFFF]
      in if t ! 0 < ilen then t[1 := t ! 1 + 1] else t)"

definition update_rest :: "sha256_context \<Rightarrow> bytes \<Rightarrow> u32 \<Rightarrow> u32 \<Rightarrow> sha256_context option" where
  "update_rest ctx input ilen left = do {
     (ctx, input, ilen) \<leftarrow> process_blocks ctx input ilen;
     if ilen > 0 then do {
       rest \<leftarrow> mem_read input 0 (unat ilen);
       buf \<leftarrow> mem_write (buffer ctx) (unat left) rest;
       Some (ctx\<lparr>buffer := buf\<rparr>)
     } else Some ctx
   }"

definition utils_sha256_update :: "sha256_context \<Rightarrow> bytes \<Rightarrow> u32 \<Rightarrow> sha256_context option" where
  "utils_sha256_update ctx input ilen =
     (if ilen = 0 then Some ctx
      else do {
        let left = total ctx ! 0 AND 0x3F;
        let fill = 64 - left;
        let ctx = ctx\<lparr>total := add_total (total ctx) ilen\<rparr>;
        if left \<noteq> 0 \<and> ilen \<ge> fill then do {
          head \<leftarrow> mem_read input 0 (unat fill);
          buf \<leftarrow> mem_write (buffer ctx) (unat left) head;
          let ctx = utils_sha256_process (ctx\<lparr>buffer := buf\<rparr>) buf;
          update_rest ctx (drop (unat fill) input) (ilen - fill) 0
        } else update_rest ctx input ilen left
      })"

definition sha256_padding :: bytes where
  "sha256_padding = 0x80 # replicate 63 0"

definition utils_sha256_finish :: "sha256_context \<Rightarrow> (bytes \<times> sha256_context) option" where
  "utils_sha256_finish ctx =
     (let high = drop_bit 29 (total ctx ! 0) OR push_bit 3 (total ctx ! 1);
        low = push_bit 3 (total ctx ! 0);
        msglen = PUT_UINT32_BE high @ PUT_UINT32_BE low;
        last = total ctx ! 0 AND 0x3F;
        padn = (if last < 56 then 56 - last else 120 - last)
      in do {
        ctx \<leftarrow> utils_sha256_update ctx sha256_padding padn;
        ctx \<leftarrow> utils_sha256_update ctx msglen 8;
        Some (concat (map (\<lambda>i. PUT_UINT32_BE (state ctx ! i)) (if is224 ctx = 0 then [0..<8] else [0..<7])), ctx)
      })"

definition utils_sha256 :: "bytes \<Rightarrow> u32 \<Rightarrow> bytes option" where
  "utils_sha256 input ilen =
     (let ctx = utils_sha256_starts (utils_sha256_init \<lparr>total = [], state = [], buffer = [], is224 = 0\<rparr>) in
      do {
        ctx \<leftarrow> utils_sha256_update ctx input ilen;
        (output, ctx) \<leftarrow> utils_sha256_finish ctx;
        Some output
      })"

section \<open>The standard\<close>

text \<open>FIPS 180-4, sections 4.1.2, 5.1.1 and 6.2.\<close>

definition rotr :: "u32 \<Rightarrow> nat \<Rightarrow> u32" where
  "rotr x n = drop_bit n x OR push_bit (32 - n) x"

definition Ch :: "u32 \<Rightarrow> u32 \<Rightarrow> u32 \<Rightarrow> u32" where
  "Ch x y z = (x AND y) XOR (NOT x AND z)"

definition Maj :: "u32 \<Rightarrow> u32 \<Rightarrow> u32 \<Rightarrow> u32" where
  "Maj x y z = (x AND y) XOR (x AND z) XOR (y AND z)"

definition big_sigma0 :: "u32 \<Rightarrow> u32" where "big_sigma0 x = rotr x 2 XOR rotr x 13 XOR rotr x 22"
definition big_sigma1 :: "u32 \<Rightarrow> u32" where "big_sigma1 x = rotr x 6 XOR rotr x 11 XOR rotr x 25"
definition small_sigma0 :: "u32 \<Rightarrow> u32" where "small_sigma0 x = rotr x 7 XOR rotr x 18 XOR drop_bit 3 x"
definition small_sigma1 :: "u32 \<Rightarrow> u32" where "small_sigma1 x = rotr x 17 XOR rotr x 19 XOR drop_bit 10 x"

definition be_word :: "bytes \<Rightarrow> u32" where
  "be_word bs = foldl (\<lambda>w b. push_bit 8 w OR ucast b) 0 bs"

fun schedule :: "bytes \<Rightarrow> nat \<Rightarrow> u32" where
  "schedule M t =
     (if t < 16 then be_word (take 4 (drop (4 * t) M))
      else small_sigma1 (schedule M (t - 2)) + schedule M (t - 7) + small_sigma0 (schedule M (t - 15)) + schedule M (t - 16))"

declare schedule.simps [simp del]

type_synonym vars = "u32 \<times> u32 \<times> u32 \<times> u32 \<times> u32 \<times> u32 \<times> u32 \<times> u32"

definition hash_round :: "u32 \<Rightarrow> u32 \<Rightarrow> vars \<Rightarrow> vars" where
  "hash_round w k = (\<lambda>(a, b, c, d, e, f, g, h).
     let T1 = h + big_sigma1 e + Ch e f g + k + w; T2 = big_sigma0 a + Maj a b c
     in (T1 + T2, a, b, c, d + T1, e, f, g))"

fun hash_rounds :: "bytes \<Rightarrow> nat \<Rightarrow> nat \<Rightarrow> vars \<Rightarrow> vars" where
  "hash_rounds M t 0 v = v"
| "hash_rounds M t (Suc n) v = hash_rounds M (Suc t) n (hash_round (schedule M t) (K256 ! t) v)"

definition add_vars :: "vars \<Rightarrow> vars \<Rightarrow> vars" where
  "add_vars = (\<lambda>(a, b, c, d, e, f, g, h) (a', b', c', d', e', f', g', h').
     (a + a', b + b', c + c', d + d', e + e', f + f', g + g', h + h'))"

definition hash_block :: "bytes \<Rightarrow> vars \<Rightarrow> vars" where
  "hash_block M v = add_vars v (hash_rounds M 0 64 v)"

text \<open>All whole blocks of a message.\<close>

function hash_blocks :: "vars \<Rightarrow> bytes \<Rightarrow> vars" where
  "hash_blocks v xs = (if length xs < 64 then v else hash_blocks (hash_block (take 64 xs) v) (drop 64 xs))"
  by pat_completeness auto
termination
  by (relation "measure (\<lambda>(v, xs). length xs)") auto

declare hash_blocks.simps [simp del]

definition hash_initial :: vars where
  "hash_initial = (0x6A09E667, 0xBB67AE85, 0x3C6EF372, 0xA54FF53A, 0x510E527F, 0x9B05688C, 0x1F83D9AB, 0x5BE0CD19)"

definition be_bytes64 :: "nat \<Rightarrow> bytes" where
  "be_bytes64 n = map (\<lambda>i. of_nat (n div 256 ^ (7 - i))) [0..<8]"

text \<open>A 1 bit, the fewest zeros that leave room for the length in bits, and that length.\<close>

definition hash_padding :: "nat \<Rightarrow> bytes" where
  "hash_padding n = 0x80 # replicate ((119 - n mod 64) mod 64) 0 @ be_bytes64 (8 * n)"

definition be_bytes32 :: "u32 \<Rightarrow> bytes" where
  "be_bytes32 w = map (\<lambda>i. ucast (drop_bit (8 * (3 - i)) w)) [0..<4]"

definition sha256 :: "bytes \<Rightarrow> bytes" where
  "sha256 xs = (case hash_blocks hash_initial (xs @ hash_padding (length xs)) of (a, b, c, d, e, f, g, h) \<Rightarrow>
     concat (map be_bytes32 [a, b, c, d, e, f, g, h]))"

section \<open>Rounds\<close>

lemma SHR_eq: "SHR x n = drop_bit n x"
proof -
  have "(0xFFFFFFFF :: u32) = mask 32" by (simp add: mask_numeral)
  then have "x AND 0xFFFFFFFF = x" by (simp only: flip: take_bit_eq_mask) (rule take_bit_word_eq_self, simp)
  then show ?thesis by (simp add: SHR_def)
qed

lemma ROTR_eq: "ROTR x n = rotr x n"
  by (simp add: ROTR_def rotr_def SHR_eq)

lemma sha_functions: "S0 = small_sigma0" "S1 = small_sigma1" "S2 = big_sigma0" "S3 = big_sigma1"
  by (simp_all add: fun_eq_iff S0_def S1_def S2_def S3_def small_sigma0_def small_sigma1_def big_sigma0_def big_sigma1_def
      ROTR_eq SHR_eq)

lemma F0_Maj: "F0 x y z = Maj x y z"
  unfolding F0_def Maj_def by (rule bit_word_eqI) (auto simp: bit_and_iff bit_or_iff bit_xor_iff)

lemma F1_Ch: "F1 x y z = Ch x y z"
  unfolding F1_def Ch_def by (rule bit_word_eqI) (auto simp: bit_and_iff bit_not_iff bit_xor_iff)

text \<open>
  Instead of moving the eight variables, the code lets them change roles: before step \<open>j\<close> of eight,
  \<open>a\<close> is the word \<open>-j\<close> of the array.
\<close>

definition roles :: "nat \<Rightarrow> u32 list \<Rightarrow> vars" where
  "roles j A = (A ! ((8 - j) mod 8), A ! ((9 - j) mod 8), A ! ((10 - j) mod 8), A ! ((11 - j) mod 8),
     A ! ((12 - j) mod 8), A ! ((13 - j) mod 8), A ! ((14 - j) mod 8), A ! ((15 - j) mod 8))"

lemma length_sha256_P [simp]: "length (sha256_P A a b c d e f g h x k) = length A"
  by (simp add: sha256_P_def Let_def)

lemma roles_P:
  "length A = 8 \<Longrightarrow> roles 1 (sha256_P A 0 1 2 3 4 5 6 7 x k) = hash_round x k (roles 0 A)"
  "length A = 8 \<Longrightarrow> roles 2 (sha256_P A 7 0 1 2 3 4 5 6 x k) = hash_round x k (roles 1 A)"
  "length A = 8 \<Longrightarrow> roles 3 (sha256_P A 6 7 0 1 2 3 4 5 x k) = hash_round x k (roles 2 A)"
  "length A = 8 \<Longrightarrow> roles 4 (sha256_P A 5 6 7 0 1 2 3 4 x k) = hash_round x k (roles 3 A)"
  "length A = 8 \<Longrightarrow> roles 5 (sha256_P A 4 5 6 7 0 1 2 3 x k) = hash_round x k (roles 4 A)"
  "length A = 8 \<Longrightarrow> roles 6 (sha256_P A 3 4 5 6 7 0 1 2 x k) = hash_round x k (roles 5 A)"
  "length A = 8 \<Longrightarrow> roles 7 (sha256_P A 2 3 4 5 6 7 0 1 x k) = hash_round x k (roles 6 A)"
  "length A = 8 \<Longrightarrow> roles 0 (sha256_P A 1 2 3 4 5 6 7 0 x k) = hash_round x k (roles 7 A)"
  by (simp_all add: roles_def sha256_P_def hash_round_def Let_def sha_functions F0_Maj F1_Ch)

lemma length_octet_first [simp]: "length (octet_first W i A) = length A"
  by (simp add: octet_first_def Let_def)

lemma hash_rounds_8: "hash_rounds M i 8 v = hash_round (schedule M (i + 7)) (K256 ! (i + 7)) (hash_round (schedule M (i + 6)) (K256 ! (i + 6)) (hash_round (schedule M (i + 5)) (K256 ! (i + 5)) (hash_round (schedule M (i + 4)) (K256 ! (i + 4)) (hash_round (schedule M (i + 3)) (K256 ! (i + 3)) (hash_round (schedule M (i + 2)) (K256 ! (i + 2)) (hash_round (schedule M (i + 1)) (K256 ! (i + 1)) (hash_round (schedule M (i + 0)) (K256 ! (i + 0)) v)))))))"
  by (simp add: numeral_eq_Suc)

lemma hash_rounds_add: "hash_rounds M t (m + n) v = hash_rounds M (t + m) n (hash_rounds M t m v)"
  by (induction m arbitrary: t v) simp_all

text \<open>The first \<open>t\<close> words of the message schedule are in the array.\<close>

definition scheduled :: "bytes \<Rightarrow> nat \<Rightarrow> u32 list \<Rightarrow> bool" where
  "scheduled M t W = (length W = 64 \<and> (\<forall>s < t. W ! s = schedule M s))"

lemma sha256_R_scheduled: "scheduled M t W \<Longrightarrow> 16 \<le> t \<Longrightarrow> t < 64 \<Longrightarrow> t' = t + 1 \<Longrightarrow> scheduled M t' (sha256_R W t)"
  by (auto simp: scheduled_def sha256_R_def less_Suc_eq schedule.simps [of M t] sha_functions)

lemma octet_first_rounds:
  "length A = 8 \<Longrightarrow> scheduled M 16 W \<Longrightarrow> i + 8 \<le> 16 \<Longrightarrow> roles 0 (octet_first W i A) = hash_rounds M i 8 (roles 0 A)"
  unfolding octet_first_def Let_def hash_rounds_8 by (simp add: roles_P scheduled_def del: One_nat_def)

lemma loop_first_rounds:
  "length A = 8 \<Longrightarrow> scheduled M 16 W \<Longrightarrow> i + 8 * n \<le> 16 \<Longrightarrow>
    length (loop_first W i n A) = 8 \<and> roles 0 (loop_first W i n A) = hash_rounds M i (8 * n) (roles 0 A)"
proof (induction n arbitrary: i A)
  case (Suc n)
  have "8 * Suc n = 8 + 8 * n" by simp
  then show ?case
    using Suc.IH [of "octet_first W i A" "i + 8"] Suc.prems
    by (simp only: loop_first.simps hash_rounds_add length_octet_first octet_first_rounds)
qed simp

lemma octet_rest_rounds:
  assumes "scheduled M i W" and "16 \<le> i" and "i + 8 \<le> 64" and A: "length A = 8"
  obtains W' A' where "octet_rest i (W, A) = (W', A')" "scheduled M (i + 8) W'" "length A' = 8"
    "roles 0 A' = hash_rounds M i 8 (roles 0 A)"
proof -
  define W1 where "W1 = sha256_R W (i + 0)"
  define W2 where "W2 = sha256_R W1 (i + 1)"
  define W3 where "W3 = sha256_R W2 (i + 2)"
  define W4 where "W4 = sha256_R W3 (i + 3)"
  define W5 where "W5 = sha256_R W4 (i + 4)"
  define W6 where "W6 = sha256_R W5 (i + 5)"
  define W7 where "W7 = sha256_R W6 (i + 6)"
  define W8 where "W8 = sha256_R W7 (i + 7)"
  have w0: "scheduled M (i + 0) W" using assms(1) by simp
  have w1: "scheduled M (i + 1) W1"
    unfolding W1_def by (rule sha256_R_scheduled [OF w0]) (use assms(2,3) in simp_all)
  have w2: "scheduled M (i + 2) W2"
    unfolding W2_def by (rule sha256_R_scheduled [OF w1]) (use assms(2,3) in simp_all)
  have w3: "scheduled M (i + 3) W3"
    unfolding W3_def by (rule sha256_R_scheduled [OF w2]) (use assms(2,3) in simp_all)
  have w4: "scheduled M (i + 4) W4"
    unfolding W4_def by (rule sha256_R_scheduled [OF w3]) (use assms(2,3) in simp_all)
  have w5: "scheduled M (i + 5) W5"
    unfolding W5_def by (rule sha256_R_scheduled [OF w4]) (use assms(2,3) in simp_all)
  have w6: "scheduled M (i + 6) W6"
    unfolding W6_def by (rule sha256_R_scheduled [OF w5]) (use assms(2,3) in simp_all)
  have w7: "scheduled M (i + 7) W7"
    unfolding W7_def by (rule sha256_R_scheduled [OF w6]) (use assms(2,3) in simp_all)
  have w8: "scheduled M (i + 8) W8"
    unfolding W8_def by (rule sha256_R_scheduled [OF w7]) (use assms(2,3) in simp_all)
  have v: "W1 ! (i + 0) = schedule M (i + 0)" "W2 ! (i + 1) = schedule M (i + 1)" "W3 ! (i + 2) = schedule M (i + 2)" "W4 ! (i + 3) = schedule M (i + 3)" "W5 ! (i + 4) = schedule M (i + 4)" "W6 ! (i + 5) = schedule M (i + 5)" "W7 ! (i + 6) = schedule M (i + 6)" "W8 ! (i + 7) = schedule M (i + 7)"
    using w1 w2 w3 w4 w5 w6 w7 w8 by (simp_all add: scheduled_def)
  obtain A' where o: "octet_rest i (W, A) = (W8, A')" "length A' = 8" "roles 0 A' = hash_rounds M i 8 (roles 0 A)"
    unfolding octet_rest_def Let_def prod.case W1_def [symmetric] W2_def [symmetric] W3_def [symmetric] W4_def [symmetric]
      W5_def [symmetric] W6_def [symmetric] W7_def [symmetric] W8_def [symmetric] v hash_rounds_8
    using A by (simp add: roles_P del: One_nat_def)
  show ?thesis by (rule that [OF o(1) w8 o(2,3)])
qed

lemma loop_rest_rounds:
  "scheduled M i W \<Longrightarrow> 16 \<le> i \<Longrightarrow> i + 8 * n \<le> 64 \<Longrightarrow> length A = 8 \<Longrightarrow>
    \<exists>W' A'. loop_rest i n (W, A) = (W', A') \<and> length A' = 8 \<and> roles 0 A' = hash_rounds M i (8 * n) (roles 0 A)"
proof (induction n arbitrary: i W A)
  case (Suc n)
  obtain W1 A1 where o: "octet_rest i (W, A) = (W1, A1)" "scheduled M (i + 8) W1" "length A1 = 8"
    "roles 0 A1 = hash_rounds M i 8 (roles 0 A)"
    using octet_rest_rounds [of M i W A] Suc.prems by auto
  have "8 * Suc n = 8 + 8 * n" by simp
  then show ?case
    using Suc.IH [OF o(2) _ _ o(3)] Suc.prems o by (simp only: loop_rest.simps hash_rounds_add)
qed simp

section \<open>Blocks\<close>

lemma take_four: "k + 4 \<le> length M \<Longrightarrow> take 4 (drop k M) = [M ! k, M ! (k + 1), M ! (k + 2), M ! (k + 3)]"
  by (rule nth_equalityI) (auto simp: less_Suc_eq numeral_eq_Suc)

lemma GET_be_word: "k + 4 \<le> length M \<Longrightarrow> GET_UINT32_BE M k = be_word (take 4 (drop k M))"
  unfolding take_four be_word_def GET_UINT32_BE_def
  by (rule bit_word_eqI) (auto simp: take_four bit_or_iff bit_push_bit_iff bit_ucast_iff)

lemma initial_schedule:
  assumes "length M = 64"
  shows "scheduled M 16 (map (\<lambda>i. GET_UINT32_BE M (4 * i)) [0..<16] @ replicate 48 0)"
proof -
  have "(map (\<lambda>i. GET_UINT32_BE M (4 * i)) [0..<16] @ replicate 48 0) ! s = schedule M s" if "s < 16" for s
  proof -
    have "(map (\<lambda>i. GET_UINT32_BE M (4 * i)) [0..<16] @ replicate 48 0) ! s = map (\<lambda>i. GET_UINT32_BE M (4 * i)) [0..<16] ! s"
      using that by (subst nth_append) simp
    also have "\<dots> = GET_UINT32_BE M (4 * s)" using that by (subst nth_map_upt) simp_all
    finally show ?thesis using GET_be_word [of "4 * s" M] that assms schedule.simps [of M s] by simp
  qed
  then show ?thesis by (simp add: scheduled_def)
qed

lemma roles_sum:
  "length A = 8 \<Longrightarrow> roles 0 (map (\<lambda>i. s ! i + A ! i) [0..<8]) = add_vars (roles 0 s) (roles 0 A)"
proof -
  have "map f [0..<8] ! j = f j" if "j < 8" for f :: "nat \<Rightarrow> u32" and j using that by simp
  then show ?thesis by (simp add: roles_def add_vars_def numeral_2_eq_2 del: upt_rec_numeral)
qed

lemma process_view:
  assumes "length M = 64" and "length (state ctx) = 8"
  obtains st where "utils_sha256_process ctx M = ctx\<lparr>state := st\<rparr>" "length st = 8"
    "roles 0 st = hash_block M (roles 0 (state ctx))"
proof -
  let ?W = "map (\<lambda>i. GET_UINT32_BE M (4 * i)) [0..<16] @ replicate 48 0"
  define A1 where "A1 = loop_first ?W 0 2 (state ctx)"
  have copy: "map (\<lambda>i. state ctx ! i) [0..<8] = state ctx" using map_nth [of "state ctx"] assms(2) by simp
  note w = initial_schedule [OF assms(1)]
  have a1: "length A1 = 8" "roles 0 A1 = hash_rounds M 0 16 (roles 0 (state ctx))"
    using loop_first_rounds [OF assms(2) w, of 0 2] by (simp_all add: A1_def)
  obtain W' A' where r: "loop_rest 16 6 (?W, A1) = (W', A')" "length A' = 8" "roles 0 A' = hash_rounds M 16 48 (roles 0 A1)"
    using loop_rest_rounds [OF w _ _ a1(1), of 6] by auto
  have "hash_rounds M 0 (16 + 48) (roles 0 (state ctx)) = roles 0 A'"
    unfolding hash_rounds_add r(3) a1(2) by simp
  then have b: "hash_block M (roles 0 (state ctx)) = add_vars (roles 0 (state ctx)) (roles 0 A')"
    by (simp add: hash_block_def)
  show ?thesis
  proof (rule that)
    show "utils_sha256_process ctx M = ctx\<lparr>state := map (\<lambda>i. state ctx ! i + A' ! i) [0..<8]\<rparr>"
      unfolding utils_sha256_process_def copy Let_def using r(1) by (simp only: A1_def prod.case)
    show "roles 0 (map (\<lambda>i. state ctx ! i + A' ! i) [0..<8]) = hash_block M (roles 0 (state ctx))"
      unfolding roles_sum [OF r(2)] b ..
  qed simp
qed

lemma smaller_step_round:
  assumes "scheduled M i W" and "i < 64" and A: "length A = 8" and M: "length M = 64"
  obtains W' A' where "smaller_step M i (W, A) = (W', A')" "scheduled M (i + 1) W'" "length A' = 8"
    "roles 0 A' = hash_round (schedule M i) (K256 ! i) (roles 0 A)"
proof -
  define W1 where "W1 = (if i < 16 then W[i := GET_UINT32_BE M (4 * i)] else sha256_R W i)"
  have w: "scheduled M (i + 1) W1"
  proof (cases "i < 16")
    case True
    then have "GET_UINT32_BE M (4 * i) = schedule M i"
      using GET_be_word [of "4 * i" M] M schedule.simps [of M i] by simp
    then show ?thesis using assms(1) True by (auto simp: W1_def scheduled_def less_Suc_eq)
  next
    case False
    then show ?thesis using sha256_R_scheduled [OF assms(1) _ assms(2), of "i + 1"] by (simp add: W1_def)
  qed
  then have v: "W1 ! i = schedule M i" by (simp add: scheduled_def)
  define A1 where "A1 = sha256_P A 0 1 2 3 4 5 6 7 (schedule M i) (K256 ! i)"
  have l1: "length A1 = 8" using A by (simp add: A1_def sha256_P_def Let_def)
  obtain A' where a: "smaller_step M i (W, A) = (W1, A')" "length A' = 8" "roles 0 A' = roles 1 A1"
    unfolding smaller_step_def Let_def prod.case W1_def [symmetric] v A1_def [symmetric]
    using l1 by (simp add: roles_def)
  have "roles 1 A1 = hash_round (schedule M i) (K256 ! i) (roles 0 A)" unfolding A1_def by (rule roles_P(1) [OF A])
  with a w show ?thesis by (intro that) simp_all
qed

lemma smaller_loop_rounds:
  "scheduled M i W \<Longrightarrow> i + n \<le> 64 \<Longrightarrow> length A = 8 \<Longrightarrow> length M = 64 \<Longrightarrow>
    \<exists>W' A'. smaller_loop M i n (W, A) = (W', A') \<and> length A' = 8 \<and> roles 0 A' = hash_rounds M i n (roles 0 A)"
proof (induction n arbitrary: i W A)
  case (Suc n)
  obtain W1 A1 where o: "smaller_step M i (W, A) = (W1, A1)" "scheduled M (i + 1) W1" "length A1 = 8"
    "roles 0 A1 = hash_round (schedule M i) (K256 ! i) (roles 0 A)"
    using smaller_step_round [of M i W A] Suc.prems by auto
  then show ?case using Suc.IH [OF o(2) _ o(3)] Suc.prems by simp
qed simp

lemma roles_0_inject: "length A = 8 \<Longrightarrow> length B = 8 \<Longrightarrow> roles 0 A = roles 0 B \<Longrightarrow> A = B"
proof (rule nth_equalityI)
  fix i assume A: "length A = 8" and e: "roles 0 A = roles 0 B" and i: "i < length A"
  then have "i = 0 \<or> i = 1 \<or> i = 2 \<or> i = 3 \<or> i = 4 \<or> i = 5 \<or> i = 6 \<or> i = 7" by linarith
  with e show "A ! i = B ! i" by (auto simp: roles_def)
qed simp

lemma process_smaller:
  assumes "length M = 64" and "length (state ctx) = 8"
  shows "utils_sha256_process_smaller ctx M = utils_sha256_process ctx M"
proof -
  have copy: "map (\<lambda>i. state ctx ! i) [0..<8] = state ctx" using map_nth [of "state ctx"] assms(2) by simp
  have "scheduled M 0 (replicate 64 0)" by (simp add: scheduled_def)
  then obtain W' A' where r: "smaller_loop M 0 64 (replicate 64 0, state ctx) = (W', A')" "length A' = 8"
      "roles 0 A' = hash_rounds M 0 64 (roles 0 (state ctx))"
    using smaller_loop_rounds [OF _ _ assms(2,1)] by fastforce
  obtain st where p: "utils_sha256_process ctx M = ctx\<lparr>state := st\<rparr>" "length st = 8"
      "roles 0 st = hash_block M (roles 0 (state ctx))"
    using process_view [OF assms] .
  have "roles 0 (map (\<lambda>i. state ctx ! i + A' ! i) [0..<8]) = roles 0 st"
    unfolding roles_sum [OF r(2)] p(3) hash_block_def r(3) ..
  then have "map (\<lambda>i. state ctx ! i + A' ! i) [0..<8] = st" using roles_0_inject [OF _ p(2)] by simp
  then show ?thesis
    unfolding utils_sha256_process_smaller_def copy Let_def p(1) using r(1) by (simp only: prod.case)
qed

lemma hash_blocks_short: "length xs < 64 \<Longrightarrow> hash_blocks v xs = v"
  by (simp add: hash_blocks.simps)

lemma hash_blocks_block: "length b = 64 \<Longrightarrow> hash_blocks v (b @ xs) = hash_blocks (hash_block b v) xs"
  by (simp add: hash_blocks.simps [of v "b @ xs"])

text \<open>The bytes behind the last whole block.\<close>

definition tail :: "bytes \<Rightarrow> bytes" where
  "tail xs = drop (length xs - length xs mod 64) xs"

lemma length_tail [simp]: "length (tail xs) = length xs mod 64"
  by (simp add: tail_def)

lemma tail_short: "length xs < 64 \<Longrightarrow> tail xs = xs"
  by (simp add: tail_def)

lemma tail_block: "length b = 64 \<Longrightarrow> tail (b @ xs) = tail xs"
proof -
  assume b: "length b = 64"
  have "64 + length xs - length xs mod 64 = 64 + (length xs - length xs mod 64)"
    using mod_less_eq_dividend [of "length xs" 64] by linarith
  with b show ?thesis by (simp add: tail_def)
qed

lemma hash_blocks_append: "hash_blocks v (xs @ ys) = hash_blocks (hash_blocks v xs) (tail xs @ ys) \<and> tail (xs @ ys) = tail (tail xs @ ys)"
proof (induction v xs rule: hash_blocks.induct)
  case (1 v xs)
  show ?case
  proof (cases "length xs < 64")
    case True
    then show ?thesis by (simp add: hash_blocks_short tail_short)
  next
    case False
    let ?b = "take 64 xs" and ?r = "drop 64 xs"
    have b: "length ?b = 64" "xs = ?b @ ?r" using False by simp_all
    have t: "tail xs = tail ?r" using tail_block [OF b(1), of ?r] by simp
    have "hash_blocks v (?b @ (?r @ ys)) = hash_blocks (hash_block ?b v) (?r @ ys)" by (rule hash_blocks_block [OF b(1)])
    moreover have "hash_blocks v xs = hash_blocks (hash_block ?b v) ?r" using hash_blocks_block [OF b(1), of v ?r] by simp
    moreover have "tail (xs @ ys) = tail (?r @ ys)" using tail_block [OF b(1), of "?r @ ys"] by (metis append.assoc b(2))
    ultimately show ?thesis using "1.IH" [OF False] by (simp add: t flip: append_assoc)
  qed
qed

section \<open>Contexts\<close>

lemma process_blocks_view:
  "length (state ctx) = 8 \<Longrightarrow> unat ilen \<le> length input \<Longrightarrow>
   \<exists>st. process_blocks ctx input ilen = Some (ctx\<lparr>state := st\<rparr>, drop (unat ilen - unat ilen mod 64) input, ilen mod 64) \<and>
     length st = 8 \<and> roles 0 st = hash_blocks (roles 0 (state ctx)) (take (unat ilen) input)"
proof (induction ctx input ilen rule: process_blocks.induct)
  case (1 ctx input ilen)
  show ?case
  proof (cases "ilen \<ge> 64")
    case False
    then have "unat ilen < 64" by (simp add: word_le_nat_alt)
    then have "ilen mod 64 = ilen" by (simp add: word_unat_eq_iff unat_mod)
    with False \<open>unat ilen < 64\<close> "1.prems" show ?thesis
      by (intro exI [of _ "state ctx"]) (simp add: process_blocks.simps hash_blocks_short)
  next
    case True
    then have n: "64 \<le> unat ilen" by (simp add: word_le_nat_alt)
    have sub: "unat (ilen - 64) = unat ilen - 64" using True by (simp add: unat_sub_le)
    obtain st where p: "utils_sha256_process ctx (take 64 input) = ctx\<lparr>state := st\<rparr>" "length st = 8"
        "roles 0 st = hash_block (take 64 input) (roles 0 (state ctx))"
      using process_view [of "take 64 input" ctx] n "1.prems" by auto
    have len: "length (state (ctx\<lparr>state := st\<rparr>)) = 8" "unat (ilen - 64) \<le> length (drop 64 input)"
      using p(2) sub "1.prems" by simp_all
    have m: "mem_read input 0 64 = Some (take 64 input)" using n "1.prems" by (simp add: mem_read_def)
    have k: "(ilen - 64) mod 64 = ilen mod 64" "(unat ilen - 64) mod 64 = unat ilen mod 64"
      "unat ilen - 64 - unat ilen mod 64 + 64 = unat ilen - unat ilen mod 64"
      using sub n by (simp_all add: word_unat_eq_iff unat_mod le_mod_geq)
    obtain st' where r: "process_blocks (ctx\<lparr>state := st\<rparr>) (drop 64 input) (ilen - 64) =
        Some (ctx\<lparr>state := st\<rparr>\<lparr>state := st'\<rparr>, drop (unat ilen - 64 - (unat ilen - 64) mod 64) (drop 64 input), (ilen - 64) mod 64)"
      "length st' = 8" "roles 0 st' = hash_blocks (roles 0 st) (take (unat ilen - 64) (drop 64 input))"
      using "1.IH" [OF True m, unfolded p(1), OF len] by (auto simp: sub)
    have "take (unat ilen) input = take 64 input @ take (unat ilen - 64) (drop 64 input)"
      using n by (metis le_add_diff_inverse take_add)
    then have h: "hash_blocks (roles 0 (state ctx)) (take (unat ilen) input) = roles 0 st'"
      using hash_blocks_block [of "take 64 input"] n "1.prems" r(3) p(3) by simp
    have "process_blocks ctx input ilen = process_blocks (ctx\<lparr>state := st\<rparr>) (drop 64 input) (ilen - 64)"
      using True by (simp add: process_blocks.simps [of ctx input ilen] m p(1))
    with r h k show ?thesis by (intro exI [of _ st']) simp
  qed
qed

lemma tail_take: "n \<le> length xs \<Longrightarrow> tail (take n xs) = take (n mod 64) (drop (n - n mod 64) xs)"
proof -
  assume "n \<le> length xs"
  moreover have "n - (n - n mod 64) = n mod 64" using mod_less_eq_dividend [of n 64] by simp
  ultimately show ?thesis by (simp add: tail_def drop_take min_def)
qed

text \<open>Whole blocks are hashed, the rest is put in front of the buffer.\<close>

lemma update_rest_view:
  assumes "length (state ctx) = 8" and "unat ilen \<le> length input" and "length (buffer ctx) = 64"
  shows "\<exists>ctx'. update_rest ctx input ilen 0 = Some ctx' \<and> is224 ctx' = is224 ctx \<and> total ctx' = total ctx \<and>
    length (state ctx') = 8 \<and> length (buffer ctx') = 64 \<and>
    roles 0 (state ctx') = hash_blocks (roles 0 (state ctx)) (take (unat ilen) input) \<and>
    take (unat ilen mod 64) (buffer ctx') = tail (take (unat ilen) input)"
proof -
  let ?n = "unat ilen"
  let ?rest = "tail (take ?n input)"
  obtain st where p: "process_blocks ctx input ilen = Some (ctx\<lparr>state := st\<rparr>, drop (?n - ?n mod 64) input, ilen mod 64)"
      "length st = 8" "roles 0 st = hash_blocks (roles 0 (state ctx)) (take ?n input)"
    using process_blocks_view [OF assms(1,2)] by blast
  have um: "unat (ilen mod 64) = ?n mod 64" by (simp add: unat_mod)
  have lr: "length ?rest = ?n mod 64" using assms(2) by simp
  show ?thesis
  proof (cases "?n mod 64 = 0")
    case True
    then have "\<not> ilen mod 64 > 0" by (simp add: word_less_nat_alt um)
    moreover have "?rest = []" using lr True by (metis length_0_conv)
    ultimately show ?thesis using True p assms(3) by (simp add: update_rest_def)
  next
    case False
    then have pos: "ilen mod 64 > 0" by (simp add: word_less_nat_alt um)
    have rd: "mem_read (drop (?n - ?n mod 64) input) 0 (?n mod 64) = Some ?rest"
      using assms(2) mod_less_eq_dividend [of ?n 64] by (simp add: mem_read_def tail_take del: mod_less_eq_dividend)
    have wr: "mem_write (buffer ctx) 0 ?rest = Some (?rest @ drop (?n mod 64) (buffer ctx))"
      using assms(3) lr by (simp add: mem_write_def)
    show ?thesis
      using p pos rd wr lr assms(3) by (simp add: update_rest_def um)
  qed
qed

text \<open>What a context knows of the bytes \<open>xs\<close> it has absorbed.\<close>

definition sha_absorbed :: "sha256_context \<Rightarrow> bytes \<Rightarrow> bool" where
  "sha_absorbed ctx xs =
     (is224 ctx = 0 \<and> length (total ctx) = 2 \<and> unat (total ctx ! 0) + 2 ^ 32 * unat (total ctx ! 1) = length xs \<and>
      length (state ctx) = 8 \<and> roles 0 (state ctx) = hash_blocks hash_initial xs \<and>
      length (buffer ctx) = 64 \<and> take (length xs mod 64) (buffer ctx) = tail xs)"

lemma starts_absorbed: "sha_absorbed (utils_sha256_starts (utils_sha256_init ctx)) []"
  by (simp add: sha_absorbed_def utils_sha256_starts_def utils_sha256_init_def roles_def hash_initial_def
      hash_blocks_short tail_short numeral_2_eq_2)

lemma add_total_view:
  assumes "length t = 2" and "unat (t ! 0) + 2 ^ 32 * unat (t ! 1) + unat n < 2 ^ 64"
  shows "length (add_total t n) = 2 \<and>
    unat (add_total t n ! 0) + 2 ^ 32 * unat (add_total t n ! 1) = unat (t ! 0) + 2 ^ 32 * unat (t ! 1) + unat n"
proof -
  obtain a b where t: "t = [a, b]" using assms(1) by (auto simp: numeral_2_eq_2 length_Suc_conv)
  have m: "a + n AND 0xFFFFFFFF = a + n"
    using SHR_eq [of "a + n" 0] by (simp add: SHR_def)
  have s: "unat (a + n) = (if unat a + unat n < 4294967296 then unat a + unat n else unat a + unat n - 4294967296)"
  proof -
    have "unat (a + n) = (unat a + unat n) mod 2 ^ 32" by (simp add: unat_word_ariths)
    moreover have "unat a < 2 ^ 32" "unat n < 2 ^ 32" by simp_all
    moreover have "(x + y) mod m = (if x + y < m then x + y else x + y - m)" if "x < m" "y < m" for x y m :: nat
      using that by (simp add: le_mod_geq)
    ultimately show ?thesis by simp
  qed
  have "x + y - 4294967296 < y" if "x < 4294967296" "\<not> x + y < 4294967296" for x y :: nat using that by linarith
  then have lt: "(a + n < n) = (4294967296 \<le> unat a + unat n)"
    unfolding word_less_nat_alt s by auto
  show ?thesis
  proof (cases "a + n < n")
    case False
    with lt s show ?thesis by (simp add: add_total_def t m)
  next
    case True
    have "unat b + 1 < 2 ^ 32" using assms(2) True lt by (simp add: t)
    then have "unat (b + 1) = unat b + 1" using unat_plus_small [of b 1] by simp
    with True lt s show ?thesis by (simp add: add_total_def t m)
  qed
qed

lemma low_bits: "unat (x AND 0x3F) = unat x mod 64" for x :: u32
proof -
  have "x AND 0x3F = take_bit 6 x" by (simp add: take_bit_eq_mask mask_numeral)
  then show ?thesis by (simp add: unsigned_take_bit_eq take_bit_eq_mod unat_mod)
qed

lemma update_absorbed:
  assumes c: "sha_absorbed ctx xs" and n: "unat ilen \<le> length input" and l: "length xs + unat ilen < 2 ^ 64"
  shows "\<exists>ctx'. utils_sha256_update ctx input ilen = Some ctx' \<and> sha_absorbed ctx' (xs @ take (unat ilen) input)"
proof (cases "ilen = 0")
  case True
  with c show ?thesis by (simp add: utils_sha256_update_def)
next
  case ne: False
  let ?n = "unat ilen" and ?left = "total ctx ! 0 AND 0x3F" and ?b = "take (unat ilen) input"
  let ?k = "length xs mod 64"
  let ?c = "ctx\<lparr>total := add_total (total ctx) ilen\<rparr>"
  have c': "is224 ctx = 0" "length (total ctx) = 2" "unat (total ctx ! 0) + 2 ^ 32 * unat (total ctx ! 1) = length xs"
    "length (state ctx) = 8" "roles 0 (state ctx) = hash_blocks hash_initial xs" "length (buffer ctx) = 64"
    "take ?k (buffer ctx) = tail xs"
    using c by (simp_all add: sha_absorbed_def)
  have "length xs mod 64 = unat (total ctx ! 0) mod 64"
  proof -
    have "length xs = unat (total ctx ! 0) + 64 * (2 ^ 26 * unat (total ctx ! 1))" using c'(3) by simp
    then show ?thesis by (metis mod_mult_self2)
  qed
  then have left: "unat ?left = ?k" by (simp add: low_bits)
  have fill: "unat (64 - ?left) = 64 - ?k"
    using left by (subst unat_sub_le) (simp_all add: word_le_nat_alt)
  have t: "length (add_total (total ctx) ilen) = 2"
    "unat (add_total (total ctx) ilen ! 0) + 2 ^ 32 * unat (add_total (total ctx) ilen ! 1) = length xs + ?n"
    using add_total_view [OF c'(2), of ilen] c'(3) l by simp_all
  have hb: "hash_blocks hash_initial (xs @ ?b) = hash_blocks (hash_blocks hash_initial xs) (tail xs @ ?b)"
    "tail (xs @ ?b) = tail (tail xs @ ?b)" using hash_blocks_append by blast+
  show ?thesis
  proof (cases "?left \<noteq> 0 \<and> ilen \<ge> 64 - ?left")
    case True
    then have f: "64 - ?k \<le> ?n" by (simp add: word_le_nat_alt fill)
    let ?f = "64 - ?k"
    let ?buf = "tail xs @ take ?f input"
    have rd: "mem_read input 0 (unat (64 - ?left)) = Some (take ?f input)" using f n by (simp add: mem_read_def fill)
    have k: "?k < 64" by simp
    have lt: "length (take ?f input) = ?f" using f n by simp
    have wr: "mem_write (buffer ctx) (unat ?left) (take ?f input) = Some ?buf"
      using c'(6,7) k unfolding mem_write_def lt left by simp
    have lb: "length ?buf = 64" using lt k by simp
    obtain st where p: "utils_sha256_process (?c\<lparr>buffer := ?buf\<rparr>) ?buf = ?c\<lparr>buffer := ?buf, state := st\<rparr>" "length st = 8"
        "roles 0 st = hash_block ?buf (hash_blocks hash_initial xs)"
      using process_view [OF lb, of "?c\<lparr>buffer := ?buf\<rparr>"] c'(4,5) by auto
    have sub: "unat (ilen - (64 - ?left)) = ?n - ?f" using True by (simp add: unat_sub_le fill)
    let ?b2 = "take (?n - ?f) (drop ?f input)"
    let ?C = "?c\<lparr>buffer := ?buf, state := st\<rparr>"
    have pre: "length (state ?C) = 8" "unat (ilen - (64 - ?left)) \<le> length (drop ?f input)" "length (buffer ?C) = 64"
      using p(2) lb n f by (simp_all add: sub del: length_append)
    from update_rest_view [OF pre, unfolded sub] obtain ctx' where r0: "update_rest ?C (drop ?f input) (ilen - (64 - ?left)) 0 = Some ctx'"
      "is224 ctx' = is224 ?C" "total ctx' = total ?C" "length (state ctx') = 8" "length (buffer ctx') = 64"
      "roles 0 (state ctx') = hash_blocks (roles 0 (state ?C)) ?b2" "take ((?n - ?f) mod 64) (buffer ctx') = tail ?b2"
      by blast
    have r: "update_rest ?C (drop ?f input) (ilen - (64 - ?left)) 0 = Some ctx'"
      "is224 ctx' = 0" "total ctx' = add_total (total ctx) ilen" "length (state ctx') = 8" "length (buffer ctx') = 64"
      "roles 0 (state ctx') = hash_blocks (roles 0 st) ?b2" "take ((?n - ?f) mod 64) (buffer ctx') = tail ?b2"
      using r0 c'(1) by simp_all
    have split: "tail xs @ ?b = ?buf @ ?b2"
      using f by (metis append.assoc le_add_diff_inverse take_add)
    have "?k + ?n = (?n - ?f) + 64" using f k by linarith
    then have "(?k + ?n) mod 64 = (?n - ?f) mod 64" by (metis mod_add_self2)
    then have md: "(length xs + ?n) mod 64 = (?n - ?f) mod 64" by (simp add: mod_add_left_eq)
    have h: "hash_blocks hash_initial (xs @ ?b) = hash_blocks (roles 0 st) ?b2" "tail (xs @ ?b) = tail ?b2"
      unfolding hb split hash_blocks_block [OF lb] tail_block [OF lb] p(3) by (rule refl)+
    have "sha_absorbed ctx' (xs @ ?b)"
      using r(2-7) t n md unfolding sha_absorbed_def h by simp
    moreover have "utils_sha256_update ctx input ilen = Some ctx'"
      using ne True rd wr r(1) by (simp add: utils_sha256_update_def Let_def fill p(1))
    ultimately show ?thesis by blast
  next
    case stay: False
    show ?thesis
    proof (cases "?k = 0")
      case True
      then have "?left = 0" using left by (metis unat_eq_zero)
      obtain ctx' where r: "update_rest ?c input ilen 0 = Some ctx'"
        "is224 ctx' = 0" "total ctx' = add_total (total ctx) ilen" "length (state ctx') = 8" "length (buffer ctx') = 64"
        "roles 0 (state ctx') = hash_blocks (hash_blocks hash_initial xs) ?b" "take (?n mod 64) (buffer ctx') = tail ?b"
        using update_rest_view [of ?c ilen input] c' n by auto
      have "tail xs = []" using True by (metis length_tail length_0_conv)
      moreover have "(length xs + ?n) mod 64 = ?n mod 64" using True by (metis mod_add_left_eq add_0)
      ultimately have "sha_absorbed ctx' (xs @ ?b)"
        using r(2-5) t n unfolding sha_absorbed_def hb by (simp add: r(6,7))
      moreover have "utils_sha256_update ctx input ilen = Some ctx'"
        using ne \<open>?left = 0\<close> r(1) by (simp add: utils_sha256_update_def Let_def)
      ultimately show ?thesis by blast
    next
      case False
      then have "?left \<noteq> 0" using left by (metis unat_0)
      with stay have small: "?n < 64 - ?k" by (simp add: word_le_nat_alt fill)
      then have "?n < 64" by simp
      then have "\<not> ilen \<ge> 64" by (simp add: word_le_nat_alt)
      then have pb: "process_blocks ?c input ilen = Some (?c, input, ilen)" by (simp add: process_blocks.simps)
      have pos: "ilen > 0" using ne by (simp add: word_gt_0)
      let ?buf = "tail xs @ ?b @ drop (?k + ?n) (buffer ctx)"
      have rd: "mem_read input 0 ?n = Some ?b" using n by (simp add: mem_read_def)
      have wr: "mem_write (buffer ctx) (unat ?left) ?b = Some ?buf"
        using c'(6,7) small n by (simp add: mem_write_def left)
      have "length (tail xs @ ?b) < 64" using small n by simp
      then have "sha_absorbed (?c\<lparr>buffer := ?buf\<rparr>) (xs @ ?b)"
        using c' t n small unfolding sha_absorbed_def hb
        by (simp add: hash_blocks_short tail_short mod_add_left_eq [symmetric, of "length xs"])
      moreover have "utils_sha256_update ctx input ilen = Some (?c\<lparr>buffer := ?buf\<rparr>)"
        unfolding utils_sha256_update_def Let_def if_not_P [OF ne] if_not_P [OF stay] using pos rd wr pb
        by (simp add: update_rest_def)
      ultimately show ?thesis by blast
    qed
  qed
qed

section \<open>Digests\<close>

lemma PUT_of_nat: "PUT_UINT32_BE (of_nat x) = [of_nat (x div 2 ^ 24), of_nat (x div 2 ^ 16), of_nat (x div 2 ^ 8), of_nat x]"
proof -
  have byte: "(ucast (drop_bit k (of_nat x :: u32)) :: u8) = of_nat (x div 2 ^ k)" if "k \<le> 24" for k
    using that by (intro bit_word_eqI)
      (auto simp: bit_ucast_iff bit_drop_bit_eq bit_of_nat_iff simp flip: drop_bit_eq_div)
  show ?thesis
    using byte [of 24] byte [of 16] byte [of 8] byte [of 0] by (simp add: PUT_UINT32_BE_def)
qed

lemma upt_8: "[0..<8] = [0 :: nat, 1, 2, 3, 4, 5, 6, 7]"
  by (simp add: upt_rec)

lemma msglen_bytes:
  assumes "length t = 2" and "unat (t ! 0) + 2 ^ 32 * unat (t ! 1) = n"
  shows "PUT_UINT32_BE (drop_bit 29 (t ! 0) OR push_bit 3 (t ! 1)) @ PUT_UINT32_BE (push_bit 3 (t ! 0)) = be_bytes64 (8 * n)"
proof -
  have a: "unat (t ! 0) < 2 ^ 32" by simp
  then have "unat (t ! 0) = n mod 2 ^ 32" using assms(2) [symmetric] by simp
  then have low: "t ! 0 = of_nat n" by (simp add: word_unat_eq_iff unat_of_nat)
  from a have "unat (t ! 1) = n div 2 ^ 32" using assms(2) [symmetric] by simp
  then have high: "t ! 1 = of_nat (n div 2 ^ 32)" by (metis word_of_unat)
  have eight: "8 * n = push_bit 3 n" by (simp add: push_bit_eq_mult)
  have h: "drop_bit 29 (t ! 0) OR push_bit 3 (t ! 1) = of_nat (8 * n div 2 ^ 32)"
    unfolding eight low high drop_bit_eq_div [symmetric]
    by (rule bit_word_eqI)
      (auto simp: bit_or_iff bit_drop_bit_eq bit_push_bit_iff bit_of_nat_iff not_le)
  have l: "push_bit 3 (t ! 0) = of_nat (8 * n)"
    unfolding eight low
    by (rule bit_word_eqI) (auto simp: bit_push_bit_iff bit_of_nat_iff)
  show ?thesis
    unfolding h l PUT_of_nat be_bytes64_def div_mult2_eq [symmetric] power_add [symmetric] upt_8 list.map
    by simp
qed

lemma finish_view:
  assumes c: "sha_absorbed ctx xs" and l: "length xs < 2 ^ 61"
  shows "\<exists>ctx'. utils_sha256_finish ctx = Some (sha256 xs, ctx')"
proof -
  let ?k = "length xs mod 64" and ?last = "total ctx ! 0 AND 0x3F"
  have c': "is224 ctx = 0" "length (total ctx) = 2" "unat (total ctx ! 0) + 2 ^ 32 * unat (total ctx ! 1) = length xs"
    using c by (simp_all add: sha_absorbed_def)
  have "length xs mod 64 = unat (total ctx ! 0) mod 64"
  proof -
    have "length xs = unat (total ctx ! 0) + 64 * (2 ^ 26 * unat (total ctx ! 1))" using c'(3) by simp
    then show ?thesis by (metis mod_mult_self2)
  qed
  then have last: "unat ?last = ?k" by (simp add: low_bits)
  define padn where "padn = (if ?last < 56 then 56 - ?last else 120 - ?last)"
  have pn: "unat padn = Suc ((119 - ?k) mod 64)"
  proof (cases "?k < 56")
    case True
    then have "?last < 56" "?last \<le> 56" by (simp_all add: word_less_nat_alt word_le_nat_alt last)
    then have "unat padn = 56 - ?k" by (simp add: padn_def unat_sub_le last)
    moreover have "119 - ?k = (55 - ?k) + 64" using True by simp
    then have "(119 - ?k) mod 64 = 55 - ?k" by (metis mod_add_self2 mod_less less_imp_diff_less numeral_less_iff semiring_norm(76,78,79,80,81) )
    ultimately show ?thesis using True by linarith
  next
    case False
    have k: "?k < 64" by simp
    then have "\<not> ?last < 56" "?last \<le> 120" using False by (simp_all add: word_less_nat_alt word_le_nat_alt last)
    then have "unat padn = 120 - ?k" by (simp add: padn_def unat_sub_le last)
    then show ?thesis using False k by simp
  qed
  have pl: "unat padn \<le> 64" using pn by simp
  have pad: "take (unat padn) sha256_padding = 0x80 # replicate ((119 - ?k) mod 64) 0"
    using pl by (simp add: sha256_padding_def pn)
  define msg where "msg = PUT_UINT32_BE (drop_bit 29 (total ctx ! 0) OR push_bit 3 (total ctx ! 1)) @ PUT_UINT32_BE (push_bit 3 (total ctx ! 0))"
  have msg: "msg = be_bytes64 (8 * length xs)" unfolding msg_def by (rule msglen_bytes [OF c'(2,3)])
  have ml: "length msg = 8" by (simp add: msg_def PUT_UINT32_BE_def)
  have "unat padn \<le> length sha256_padding" using pl by (simp add: sha256_padding_def)
  then obtain c1 where u1: "utils_sha256_update ctx sha256_padding padn = Some c1"
      "sha_absorbed c1 (xs @ take (unat padn) sha256_padding)"
    using update_absorbed [OF c, of padn sha256_padding] l pl by auto
  obtain c2 where u2: "utils_sha256_update c1 msg 8 = Some c2"
      "sha_absorbed c2 ((xs @ take (unat padn) sha256_padding) @ take (unat (8 :: u32)) msg)"
    using update_absorbed [OF u1(2), of 8 msg] l pl ml by (auto simp: sha256_padding_def)
  have all: "(xs @ take (unat padn) sha256_padding) @ take (unat (8 :: u32)) msg = xs @ hash_padding (length xs)"
    unfolding pad msg hash_padding_def using ml msg by simp
  have st: "roles 0 (state c2) = hash_blocks hash_initial (xs @ hash_padding (length xs))" "is224 c2 = 0" "length (state c2) = 8"
    using u2(2) unfolding all by (simp_all add: sha_absorbed_def)
  have put: "PUT_UINT32_BE w = be_bytes32 w" for w
    by (simp add: PUT_UINT32_BE_def be_bytes32_def upt_rec numeral_eq_Suc)
  have out: "concat (map (\<lambda>i. PUT_UINT32_BE (state c2 ! i)) [0..<8]) = sha256 xs"
    unfolding sha256_def st(1) [symmetric] put by (simp add: roles_def upt_rec numeral_2_eq_2)
  have "utils_sha256_finish ctx = Some (concat (map (\<lambda>i. PUT_UINT32_BE (state c2 ! i)) [0..<8]), c2)"
    unfolding utils_sha256_finish_def Let_def padn_def [symmetric] msg_def [symmetric] using u1(1) u2(1) st(2) by simp
  then show ?thesis unfolding out by blast
qed

section \<open>The constants\<close>

text \<open>
  FIPS 180-4 takes the constants from the first 32 bits of the fractional parts of roots of primes:
  the bits of \<open>i\<close> and \<open>k\<close> are a root of \<open>p\<close>, rounded down.
\<close>

definition root_fraction :: "nat \<Rightarrow> nat \<Rightarrow> u32 \<Rightarrow> bool" where
  "root_fraction e p k =
     list_ex (\<lambda>i. (i * 2 ^ 32 + unat k) ^ e \<le> p * (2 ^ 32) ^ e \<and> p * (2 ^ 32) ^ e < (i * 2 ^ 32 + unat k + 1) ^ e) [0..<8]"

definition first_primes :: "nat list" where
  "first_primes = [2, 3, 5, 7, 11, 13, 17, 19, 23, 29, 31, 37, 41, 43, 47, 53, 59, 61, 67, 71, 73, 79, 83, 89, 97, 101, 103,
     107, 109, 113, 127, 131, 137, 139, 149, 151, 157, 163, 167, 173, 179, 181, 191, 193, 197, 199, 211, 223, 227, 229, 233,
     239, 241, 251, 257, 263, 269, 271, 277, 281, 283, 293, 307, 311]"

lemma K256_roots: "list_all2 (root_fraction 3) first_primes K256"
  unfolding K256_def first_primes_def list_all2_Cons list_all2_Nil root_fraction_def upt_8
  by (intro conjI TrueI) simp_all

lemma initial_roots: "list_all2 (root_fraction 2) (take 8 first_primes) (state (utils_sha256_starts ctx))"
  unfolding first_primes_def root_fraction_def upt_8
  by (simp add: utils_sha256_starts_def)

section \<open>Whole messages\<close>

definition sha256_absorb :: "sha256_context \<Rightarrow> bytes \<Rightarrow> sha256_context option" where
  "sha256_absorb ctx b = utils_sha256_update ctx b (of_nat (length b))"

definition sha256_digest :: "sha256_context \<Rightarrow> bytes option" where
  "sha256_digest ctx = map_option fst (utils_sha256_finish ctx)"

interpretation sha256_stream: stream_digest sha_absorbed sha256_absorb sha256_digest "\<lambda>xs. Some (sha256 xs)" "2 ^ 32" "2 ^ 61"
proof unfold_locales
  fix ctx xs and b :: bytes
  assume c: "sha_absorbed ctx xs" and b: "length b < 2 ^ 32" and l: "length xs + length b < 2 ^ 61"
  have "unat (of_nat (length b) :: u32) = length b" using b by (intro unat_of_nat_small) simp
  then show "\<exists>ctx'. sha256_absorb ctx b = Some ctx' \<and> sha_absorbed ctx' (xs @ b)"
    using update_absorbed [OF c, of "of_nat (length b)" b] l by (simp add: sha256_absorb_def)
next
  fix ctx xs
  assume "sha_absorbed ctx xs" and "length xs < 2 ^ 61"
  then show "sha256_digest ctx = Some (sha256 xs)"
    using finish_view by (fastforce simp: sha256_digest_def)
qed

lemma utils_sha256_one:
  assumes "unat ilen \<le> length input"
  shows "utils_sha256 input ilen = Some (sha256 (take (unat ilen) input))"
proof -
  let ?c0 = "utils_sha256_starts (utils_sha256_init \<lparr>total = [], state = [], buffer = [], is224 = 0\<rparr>)"
  have n: "unat ilen < 2 ^ 32" by simp
  have "(2 :: nat) ^ 32 < 2 ^ 64" by simp
  with n have "length ([] :: bytes) + unat ilen < 2 ^ 64" unfolding list.size add_0 by (rule less_trans)
  then obtain c1 where c1: "utils_sha256_update ?c0 input ilen = Some c1" "sha_absorbed c1 (take (unat ilen) input)"
    using update_absorbed [OF starts_absorbed assms] by fastforce
  moreover have small: "length (take (unat ilen) input) < 2 ^ 61" using less_trans [OF n, of "2 ^ 61"] assms by simp
  moreover obtain c2 where "utils_sha256_finish c1 = Some (sha256 (take (unat ilen) input), c2)"
    using finish_view [OF c1(2)] small by blast
  ultimately show ?thesis by (simp add: utils_sha256_def Let_def)
qed

text \<open>
  C8: both configurations hash a block alike, and \<open>utils_sha256\<close>, and a context started and fed any sequence of blocks of less than 4 GiB each
  and less than 2 to the 61 bytes in all, give the digest of FIPS 180-4, and the constants of the
  code are the fractional parts of the roots of the primes the standard takes them from.
\<close>

theorem sha256_fips:
  assumes "\<forall>b \<in> set blocks. length b < 2 ^ 32" and "length (concat blocks) < 2 ^ 61" and "unat ilen \<le> length input"
    and "length blk = 64" and "length (state st) = 8"
  shows "(case absorb_all sha256_absorb (utils_sha256_starts (utils_sha256_init ctx)) blocks of
        None \<Rightarrow> False | Some ctx' \<Rightarrow> sha256_digest ctx' = Some (sha256 (concat blocks))) \<and>
    utils_sha256 input ilen = Some (sha256 (take (unat ilen) input)) \<and>
    list_all2 (root_fraction 3) first_primes K256 \<and>
    list_all2 (root_fraction 2) (take 8 first_primes) (state (utils_sha256_starts ctx)) \<and>
    utils_sha256_process_smaller st blk = utils_sha256_process st blk"
  using process_smaller [OF assms(4,5)] sha256_stream.chunks_irrelevant [OF starts_absorbed [of ctx] assms(1,2)] utils_sha256_one [OF assms(3)]
    K256_roots initial_roots [of ctx]
  by (auto split: option.splits)

theorem sha256_fips_witness:
  "(case absorb_all sha256_absorb (utils_sha256_starts (utils_sha256_init \<lparr>total = [], state = [], buffer = [], is224 = 0\<rparr>))
        [[0x61], [], [0x62, 0x63]] of
      None \<Rightarrow> False | Some ctx' \<Rightarrow> sha256_digest ctx' = Some (sha256 (concat [[0x61], [], [0x62, 0x63]]))) \<and>
    utils_sha256 [0x61, 0x62, 0x63, 0] 3 = Some (sha256 [0x61, 0x62, 0x63])"
  using sha256_fips [of "[[0x61], [], [0x62, 0x63]]" 3 "[0x61, 0x62, 0x63, 0]" "replicate 64 7"
    "utils_sha256_starts \<lparr>total = [], state = [], buffer = [], is224 = 0\<rparr>" "\<lparr>total = [], state = [], buffer = [], is224 = 0\<rparr>"]
  by (simp add: utils_sha256_starts_def [of "\<lparr>total = [], state = [], buffer = [], is224 = 0\<rparr>"] del: absorb_all.simps)

end
