(* ===== verification/Ota.thy ===== *)
theory Ota
  imports Mtd Sha256
begin

text \<open>
  The firmware update, \<^verbatim>\<open>components/utils/bflb_ota/bflb_ota.c\<close>: an image is written to the slot that
  is not active, checked against the SHA-256 behind it, and made the active one by an update of the
  partition table.

  The world holds the variables of the update, of the partition table and of \<open>Boot2\<close>, and the
  flash.  Whether a \<open>malloc\<close> succeeds, and the contents of the buffers on the stack and from
  \<open>malloc\<close>, are arguments.  Text that is printed is not modelled; freed memory and handles are
  values that are dropped.  The dead loop of \<open>bflb_mtd_open\<close> is \<open>None\<close>, as undefined behaviour is.
\<close>

section \<open>Model\<close>

definition HOSAL_OTA_FILE_SIZE_MAX :: u32 where "HOSAL_OTA_FILE_SIZE_MAX = 0x100000"
definition BL_MTD_PARTITION_NAME_FW_DEFAULT :: bytes where "BL_MTD_PARTITION_NAME_FW_DEFAULT = [0x46, 0x57, 0]"

record bflb_ota_parm =
  ota_handle :: mtd_handle
  file_size :: u32
  sector_erased :: "u32 list"

record 'f ota_world =
  pt :: "'f pt_globals"
  boot2 :: boot2_state
  ota_parm :: "bflb_ota_parm option"
  nor :: 'f

partial_function (option) erase_loop :: "'f flash_driver \<Rightarrow> u32 \<Rightarrow> u32 \<Rightarrow> bflb_ota_parm \<Rightarrow> 'f \<Rightarrow> (int \<times> bflb_ota_parm \<times> 'f) option" where
  "erase_loop dev index end_index p f =
     (if index \<le> end_index then do {
        w \<leftarrow> mem_get (sector_erased p) (unat (index div 32));
        if w AND push_bit (unat (index mod 32)) 1 = 0 then do {
          let (ret, f) = bflb_mtd_erase dev (ota_handle p) (index * 4096) 4096 f;
          if ret \<noteq> 0 then Some (- 1, p, f)
          else erase_loop dev (index + 1) end_index
            (p\<lparr>sector_erased := (sector_erased p)[unat (index div 32) := w OR push_bit (unat (index mod 32)) 1]\<rparr>) f
        } else erase_loop dev (index + 1) end_index p f
      } else Some (0, p, f))"

definition bflb_ota_erase :: "'f flash_driver \<Rightarrow> u32 \<Rightarrow> u32 \<Rightarrow> bflb_ota_parm \<Rightarrow> 'f \<Rightarrow> (int \<times> bflb_ota_parm \<times> 'f) option" where
  "bflb_ota_erase dev offset len p f = erase_loop dev (offset div 4096) ((offset + len - 1) div 4096) p f"

text \<open>The table and the entry that the update starts from: \<open>Inl\<close> when there is none.\<close>

definition active_entry ::
  "bytes \<times> bytes \<Rightarrow> bytes \<Rightarrow> 'f ota_world \<Rightarrow> ((unit + pt_table_id_type \<times> bytes \<times> bytes) \<times> 'f ota_world) option" where
  "active_entry pt_table_stuff pt_fw_entry w = do {
     (aid, s, f) \<leftarrow> pt_table_get_active_partition_need_lock (pt w) (Some pt_table_stuff) (nor w);
     let w = w\<lparr>nor := f\<rparr>;
     if aid = PT_TABLE_ID_INVALID then Some (Inl (), w)
     else do {
       (s0, s1) \<leftarrow> s;
       let s = (if aid = PT_TABLE_ID_0 then s0 else s1);
       (ret, e) \<leftarrow> pt_table_get_active_entries_by_name (Some s) (Some BL_MTD_PARTITION_NAME_FW_DEFAULT) (Some pt_fw_entry);
       e \<leftarrow> e;
       if ret \<noteq> PT_ERROR_SUCCESS then Some (Inl (), w) else Some (Inr (aid, s, e), w)
     }
   }"

definition bflb_ota_start ::
  "'f flash_driver \<Rightarrow> bool \<times> bool \<Rightarrow> bytes \<times> bytes \<Rightarrow> bytes \<Rightarrow> u32 \<Rightarrow> 'f ota_world \<Rightarrow> (int \<times> 'f ota_world) option" where
  "bflb_ota_start dev mallocs pt_table_stuff pt_fw_entry sz w =
     (if ota_parm w \<noteq> None then Some (0, w)
      else if \<not> fst mallocs then Some (- 1, w)
      else do {
        let w = w\<lparr>pt := use_driver dev (pt w)\<rparr>;
        (r, w) \<leftarrow> active_entry pt_table_stuff pt_fw_entry w;
        case r of Inl _ \<Rightarrow> Some (- 1, w)
        | Inr (aid, s, e) \<Rightarrow> do {
            h \<leftarrow> bflb_mtd_open (snd mallocs) (boot2 w) BL_MTD_PARTITION_NAME_FW_DEFAULT BFLB_MTD_OPEN_FLAG_BACKUP;
            case h of Dead_Loop \<Rightarrow> None
            | Open_Failed \<Rightarrow> Some (- 1, w)
            | Opened h \<Rightarrow>
                let bin_size = max_len e (unat (lnot (active_index e))) in
                if sz > bin_size then Some (- 1, w)
                else Some (0, w\<lparr>ota_parm := Some \<lparr>ota_handle = h, file_size = sz, sector_erased = replicate 8 0\<rparr>\<rparr>)
          }
      })"

text \<open>\<open>buf\<close> is a pointer that may be \<open>NULL\<close>: its address and the object from there on.\<close>

definition bflb_ota_update :: "'f flash_driver \<Rightarrow> u32 \<Rightarrow> u32 \<Rightarrow> (u32 \<times> bytes) option \<Rightarrow> u32 \<Rightarrow> 'f ota_world \<Rightarrow> (int \<times> 'f ota_world) option" where
  "bflb_ota_update dev filesize offset buf buf_len w =
     (case ota_parm w of None \<Rightarrow> Some (- 1, w)
      | Some p \<Rightarrow>
          (case buf of None \<Rightarrow> Some (- 1, w)
           | Some b \<Rightarrow>
               if filesize > file_size p \<or> offset + buf_len > file_size p \<or> buf_len = 0 then Some (- 1, w)
               else do {
                 (ret, p, f) \<leftarrow> bflb_ota_erase dev offset buf_len p (nor w);
                 let w = w\<lparr>ota_parm := Some p, nor := f\<rparr>;
                 if ret \<noteq> 0 then Some (- 1, w)
                 else do {
                   (ret, f) \<leftarrow> bflb_mtd_write dev (ota_handle p) offset buf_len b (nor w);
                   let w = w\<lparr>nor := f\<rparr>;
                   if ret \<noteq> 0 then Some (- 1, w) else Some (ret, w)
                 }
               }))"

definition CHECK_IMG_BUF_SIZE :: u32 where "CHECK_IMG_BUF_SIZE = 512"

text \<open>The loop over the image; the result is \<open>Inl\<close> when a read fails.\<close>

function hash_loop ::
  "'f flash_driver \<Rightarrow> mtd_handle \<Rightarrow> u32 \<Rightarrow> u32 \<Rightarrow> bytes \<Rightarrow> sha256_context \<Rightarrow> 'f \<Rightarrow> ((unit + u32 \<times> sha256_context) \<times> 'f) option" where
  "hash_loop dev h bin_size offset r_buf ctx f =
     (if offset < bin_size then do {
        let read_size = (if bin_size - offset \<ge> CHECK_IMG_BUF_SIZE then CHECK_IMG_BUF_SIZE else bin_size - offset);
        (ret, r_buf, f) \<leftarrow> bflb_mtd_read dev h offset read_size r_buf f;
        if ret \<noteq> 0 then Some (Inl (), f)
        else do {
          ctx \<leftarrow> utils_sha256_update ctx r_buf read_size;
          hash_loop dev h bin_size (offset + read_size) r_buf ctx f
        }
      } else Some (Inr (offset, ctx), f))"
  by pat_completeness auto
termination
proof (relation "measure (\<lambda>(dev, h, bin_size, offset, r_buf, ctx, f). unat (bin_size - offset))")
  fix n i k :: u32
  assume i: "i < n" and k: "k = (if n - i \<ge> CHECK_IMG_BUF_SIZE then CHECK_IMG_BUF_SIZE else n - i)"
  have "0 < k" "k \<le> n - i" using i by (auto simp: k CHECK_IMG_BUF_SIZE_def word_less_nat_alt unat_sub_le word_le_nat_alt)
  moreover have "n - (i + k) = (n - i) - k" by simp
  ultimately have "unat (n - (i + k)) < unat (n - i)" by (simp only: unat_sub_le word_less_nat_alt word_le_nat_alt)
  then show "((dev, h, n, i + k, b', c', f'), (dev, h, n, i, b, c, f)) \<in>
      measure (\<lambda>(dev, h, bin_size, offset, r_buf, ctx, f). unat (bin_size - offset))"
    for dev :: "'f flash_driver" and h b b' c c' f f'
    by simp
qed simp

declare hash_loop.simps [simp del]

text \<open>
  The check of the image, which \<open>bflb_ota_finish\<close> and \<open>bflb_ota_check\<close> contain with the same
  statements: \<open>False\<close> for each of its exits with an error.  \<open>malloc_ok\<close> and \<open>r_buf\<close> are those of the
  buffer, \<open>ctx\<close> is on the stack.
\<close>

definition check_image :: "'f flash_driver \<Rightarrow> bool \<Rightarrow> bytes \<Rightarrow> sha256_context \<Rightarrow> bflb_ota_parm \<Rightarrow> u32 \<Rightarrow> 'f \<Rightarrow> (bool \<times> 'f) option" where
  "check_image dev malloc_ok r_buf ctx p bin_size f =
     (let dst_sha = replicate 32 0 in
      if \<not> malloc_ok then Some (False, f)
      else do {
        let ctx = utils_sha256_starts (utils_sha256_init ctx);
        (r, f) \<leftarrow> hash_loop dev (ota_handle p) bin_size 0 r_buf ctx f;
        case r of Inl _ \<Rightarrow> Some (False, f)
        | Inr (offset, ctx) \<Rightarrow> do {
            (sha_check, ctx) \<leftarrow> utils_sha256_finish ctx;
            (_, dst_sha, f) \<leftarrow> bflb_mtd_read dev (ota_handle p) offset 32 dst_sha f;
            same \<leftarrow> memcmp_eq sha_check dst_sha 32;
            Some (same, f)
          }
      })"

text \<open>The entry of the new firmware, and its way to the other copy of the table; \<open>!aid\<close> is \<open>other_id\<close>.\<close>

definition next_entry :: "u32 \<Rightarrow> bytes \<Rightarrow> bytes" where
  "next_entry bin_size e =
     (let e = poke e 28 (bytes32 bin_size);
        e = poke e 2 [other_index (active_index e)]
      in age_up e)"

definition switch_firmware :: "pt_table_id_type \<Rightarrow> bytes \<Rightarrow> bytes \<Rightarrow> u32 \<Rightarrow> 'f ota_world \<Rightarrow> (int \<times> 'f ota_world) option" where
  "switch_firmware aid s e bin_size w = do {
     (status, _, f) \<leftarrow> pt_table_update_entry (pt w) (other_id aid) (Some s) (Some (next_entry bin_size e)) (nor w);
     Some (0, w\<lparr>nor := f, ota_parm := None\<rparr>)
   }"

definition bflb_ota_finish ::
  "'f flash_driver \<Rightarrow> bool \<Rightarrow> bytes \<times> bytes \<Rightarrow> bytes \<Rightarrow> bytes \<Rightarrow> sha256_context \<Rightarrow> u8 \<Rightarrow> 'f ota_world \<Rightarrow> (int \<times> 'f ota_world) option" where
  "bflb_ota_finish dev malloc_ok pt_table_stuff pt_fw_entry r_buf ctx check_hash w =
     (case ota_parm w of None \<Rightarrow> Some (- 1, w)
      | Some p \<Rightarrow>
          if file_size p \<le> 32 then Some (- 1, w\<lparr>ota_parm := None\<rparr>)
          else do {
            let bin_size = file_size p - 32;
            (r, w) \<leftarrow> active_entry pt_table_stuff pt_fw_entry w;
            case r of Inl _ \<Rightarrow> Some (- 1, w\<lparr>ota_parm := None\<rparr>)
            | Inr (aid, s, e) \<Rightarrow> do {
                (ok, f) \<leftarrow> (if check_hash \<noteq> 0 then check_image dev malloc_ok r_buf ctx p bin_size (nor w) else Some (True, nor w));
                let w = w\<lparr>nor := f\<rparr>;
                if \<not> ok then Some (- 1, w\<lparr>ota_parm := None\<rparr>) else switch_firmware aid s e bin_size w
              }
          })"

definition bflb_ota_read :: "'f flash_driver \<Rightarrow> u32 \<Rightarrow> bytes option \<Rightarrow> u32 \<Rightarrow> 'f ota_world \<Rightarrow> (int \<times> bytes option \<times> 'f ota_world) option" where
  "bflb_ota_read dev offset buf buf_len w =
     (case ota_parm w of None \<Rightarrow> Some (- 1, buf, w)
      | Some p \<Rightarrow>
          (case buf of None \<Rightarrow> Some (- 1, buf, w)
           | Some b \<Rightarrow>
               if offset + buf_len > file_size p \<or> buf_len = 0 then Some (- 1, buf, w)
               else do {
                 (ret, b, f) \<leftarrow> bflb_mtd_read dev (ota_handle p) offset buf_len b (nor w);
                 Some (ret, Some b, w\<lparr>nor := f\<rparr>)
               }))"

definition bflb_ota_check :: "'f flash_driver \<Rightarrow> bool \<Rightarrow> bytes \<Rightarrow> sha256_context \<Rightarrow> 'f ota_world \<Rightarrow> (int \<times> 'f ota_world) option" where
  "bflb_ota_check dev malloc_ok r_buf ctx w =
     (case ota_parm w of None \<Rightarrow> Some (- 1, w)
      | Some p \<Rightarrow>
          if file_size p \<le> 32 then Some (- 1, w\<lparr>ota_parm := None\<rparr>)
          else do {
            (ok, f) \<leftarrow> check_image dev malloc_ok r_buf ctx p (file_size p - 32) (nor w);
            let w = w\<lparr>nor := f\<rparr>;
            if \<not> ok then Some (- 1, w\<lparr>ota_parm := None\<rparr>) else Some (0, w)
          })"

definition bflb_ota_apply :: "bytes \<times> bytes \<Rightarrow> bytes \<Rightarrow> 'f ota_world \<Rightarrow> (int \<times> 'f ota_world) option" where
  "bflb_ota_apply pt_table_stuff pt_fw_entry w =
     (case ota_parm w of None \<Rightarrow> Some (- 1, w)
      | Some p \<Rightarrow>
          if file_size p \<le> 32 then Some (- 1, w\<lparr>ota_parm := None\<rparr>)
          else do {
            let bin_size = file_size p - 32;
            (r, w) \<leftarrow> active_entry pt_table_stuff pt_fw_entry w;
            case r of Inl _ \<Rightarrow> Some (- 1, w\<lparr>ota_parm := None\<rparr>)
            | Inr (aid, s, e) \<Rightarrow> switch_firmware aid s e bin_size w
          })"

definition bflb_ota_abort :: "'f ota_world \<Rightarrow> 'f ota_world" where
  "bflb_ota_abort w = (if ota_parm w \<noteq> None then w\<lparr>ota_parm := None\<rparr> else w)"

end
