(* ===== verification/Ota_Update.thy ===== *)
theory Ota_Update
  imports Ota
begin

text \<open>
  What the firmware update achieves: the upload in pieces, the check of the image, the switch to
  the new firmware, and the whole update from the boot on.
\<close>

section \<open>The flash through its driver\<close>

text \<open>A driver of a healthy NOR flash, whose reads return the bytes at the addresses.\<close>

definition nor_driver :: "('f \<Rightarrow> nat \<Rightarrow> u8) \<Rightarrow> 'f flash_driver \<Rightarrow> bool" where
  "nor_driver view dev =
     (healthy_flash view (bflb_flash_erase dev) (bflb_flash_write dev) \<and>
      (\<forall>a buf f. bflb_flash_read dev a buf f = (0, map (view f) [unat a..<unat a + length buf], f)))"

lemma nor_driver_flash:
  assumes "nor_driver view dev"
  shows "nor_flash view (use_driver dev g)"
proof -
  let ?e = "bflb_flash_erase dev" and ?w = "bflb_flash_write dev"
  have e: "\<And>a n f. fst (?e a n f) = 0" "\<And>a n f x. view (snd (?e a n f)) x = (if touched (unat a) (unat n) x then 0xFF else view f x)"
    and w: "\<And>a d f. fst (?w a d f) = 0" "\<And>a d f x. view (snd (?w a d f)) x =
           (if unat a \<le> x \<and> x < unat a + length d then view f x AND d ! (x - unat a) else view f x)"
    using assms by (simp_all add: nor_driver_def healthy_flash_def)
  show ?thesis
    unfolding nor_flash_def use_driver_def pt_table_set_flash_operation_def
  proof (intro exI conjI)
    show "\<forall>a n f x. case ?e a n f of (ret, f') \<Rightarrow>
         (\<not> touched (unat a) (unat n) x \<longrightarrow> view f' x = view f x) \<and>
         (ret = 0 \<and> touched (unat a) (unat n) x \<longrightarrow> view f' x = 0xFF)"
      using e by (simp add: split_beta)
    show "\<forall>a d f x. case ?w a d f of (ret, f') \<Rightarrow>
         (\<not> (unat a \<le> x \<and> x < unat a + length d) \<longrightarrow> view f' x = view f x) \<and>
         (ret = 0 \<and> unat a \<le> x \<and> x < unat a + length d \<longrightarrow> view f' x = view f x AND d ! (x - unat a))"
      using w by (simp add: split_beta)
    show "\<forall>a buf f. bflb_flash_read dev a buf f = (0, map (view f) [unat a..<unat a + length buf], f)"
      using assms by (simp add: nor_driver_def)
  qed simp_all
qed

lemma use_driver_read:
  assumes "nor_flash view (use_driver dev g)"
  shows "bflb_flash_read dev a buf f = (0, map (view f) [unat a..<unat a + length buf], f)"
  using assms by (auto simp: nor_flash_def use_driver_def pt_table_set_flash_operation_def)

lemma use_driver_twice [simp]: "use_driver dev (use_driver dev g) = use_driver dev g"
  by (simp add: use_driver_def pt_table_set_flash_operation_def)

lemma area_add: "area view f b (m + n) = area view f b m @ area view f (b + m) n"
proof -
  have "[b..<b + m + n] = [b..<b + m] @ [b + m..<b + m + n]" by (rule upt_add_eq_append) simp
  then show ?thesis by (simp only: area_def map_append add.assoc [symmetric])
qed

lemma mtd_read_eq:
  assumes nor: "nor_flash view (use_driver dev g)" and "unat (mtd_offset h) + unat addr < 2 ^ 32" and "unat n \<le> length data"
  shows "bflb_mtd_read dev h addr n data f =
    Some (0, area view f (unat (mtd_offset h) + unat addr) (unat n) @ drop (unat n) data, f)"
proof -
  have "unat (mtd_offset h + addr) = unat (mtd_offset h) + unat addr" using assms(2) by (intro unat_plus_small) simp
  then show ?thesis
    using assms(3) by (simp add: bflb_mtd_read_def mem_simps use_driver_read [OF nor] area_def)
qed

section \<open>The check of the image\<close>

lemma hash_loop_eq:
  assumes nor: "nor_flash view (use_driver dev g)" and fits: "unat (mtd_offset h) + unat n \<le> 2 ^ 32"
  shows "offset \<le> n \<Longrightarrow> length r_buf = 512 \<Longrightarrow> sha_absorbed ctx (area view f (unat (mtd_offset h)) (unat offset)) \<Longrightarrow>
    \<exists>ctx'. hash_loop dev h n offset r_buf ctx f = Some (Inr (n, ctx'), f) \<and>
      sha_absorbed ctx' (area view f (unat (mtd_offset h)) (unat n))"
proof (induction "unat (n - offset)" arbitrary: offset r_buf ctx rule: less_induct)
  case less
  let ?b = "unat (mtd_offset h)"
  show ?case
  proof (cases "offset < n")
    case False
    then have "offset = n" using less.prems(1) by simp
    then show ?thesis using less.prems(3) by (simp add: hash_loop.simps [of _ _ _ n])
  next
    case True
    define k where "k = (if n - offset \<ge> CHECK_IMG_BUF_SIZE then CHECK_IMG_BUF_SIZE else n - offset)"
    have sub: "unat (n - offset) = unat n - unat offset" using less.prems(1) by (simp add: unat_sub_le)
    have k: "0 < unat k" "unat k \<le> unat n - unat offset" "unat k \<le> 512"
      using True sub by (auto simp: k_def CHECK_IMG_BUF_SIZE_def word_le_nat_alt word_less_nat_alt)
    have on: "unat offset < unat n" using True by (simp add: word_less_nat_alt)
    have ok: "unat (offset + k) = unat offset + unat k"
    proof (intro unat_plus_small)
      have "unat offset + unat k \<le> unat n" using k on by simp
      then show "unat offset + unat k < 2 ^ LENGTH(32)" using below_u32(2) by simp
    qed
    let ?d = "area view f (?b + unat offset) (unat k)"
    let ?r = "?d @ drop (unat k) r_buf"
    have rd: "bflb_mtd_read dev h offset k r_buf f = Some (0, ?r, f)"
      by (rule mtd_read_eq [OF nor]) (use fits on k less.prems(2) in simp_all)
    have "unat n < 2 ^ 61" by (rule less_trans [OF unat_u32_less]) simp
    then obtain ctx1 where c1: "utils_sha256_update ctx ?r k = Some ctx1" "sha_absorbed ctx1 (area view f ?b (unat offset) @ ?d)"
      using update_absorbed [OF less.prems(3), of k ?r] k on by auto
    have c1': "sha_absorbed ctx1 (area view f ?b (unat (offset + k)))" using c1(2) by (simp add: ok area_add)
    have lr: "length ?r = 512" using less.prems(2) k by simp
    have on': "offset + k \<le> n" using k on ok by (simp add: word_le_nat_alt)
    have "unat (n - (offset + k)) < unat (n - offset)" using on' k on ok sub by (simp add: unat_sub_le)
    from less.hyps [OF this on' lr c1'] show ?thesis
      using True rd c1(1) by (simp add: hash_loop.simps [of _ _ _ offset] k_def [symmetric] Let_def)
  qed
qed

lemma check_image_eq:
  assumes nor: "nor_flash view (use_driver dev g)" and fits: "unat (mtd_offset (ota_handle p)) + unat n + 32 \<le> 2 ^ 32"
    and "length r_buf = 512"
  shows "check_image dev malloc_ok r_buf ctx p n f =
    Some (malloc_ok \<and> sha256 (area view f (unat (mtd_offset (ota_handle p))) (unat n)) =
        area view f (unat (mtd_offset (ota_handle p)) + unat n) 32, f)"
proof (cases malloc_ok)
  case True
  let ?b = "unat (mtd_offset (ota_handle p))"
  have "sha_absorbed (utils_sha256_starts (utils_sha256_init ctx)) (area view f ?b (unat (0 :: u32)))"
    using starts_absorbed [of ctx] by (simp add: area_def)
  then obtain c where c: "hash_loop dev (ota_handle p) n 0 r_buf (utils_sha256_starts (utils_sha256_init ctx)) f = Some (Inr (n, c), f)"
      "sha_absorbed c (area view f ?b (unat n))"
    using hash_loop_eq [OF nor _ _ assms(3), of "ota_handle p" n 0] fits by auto
  have "unat n < 2 ^ 61" by (rule less_trans [OF unat_u32_less]) simp
  then obtain c' where fin: "utils_sha256_finish c = Some (sha256 (area view f ?b (unat n)), c')"
    using finish_view [OF c(2)] by auto
  have rd: "bflb_mtd_read dev (ota_handle p) n 32 (replicate 32 0) f = Some (0, area view f (?b + unat n) 32, f)"
    by (subst mtd_read_eq [OF nor]) (use fits in simp_all)
  have "length (sha256 xs) = 32" for xs
    by (auto simp: sha256_def be_bytes32_def split: prod.splits)
  then show ?thesis using True c(1) fin rd by (simp add: check_image_def memcmp_eq_def)
qed (simp add: check_image_def)

section \<open>Entries by name\<close>

definition cname :: "bytes \<Rightarrow> bytes" where
  "cname s = takeWhile (\<lambda>b. b \<noteq> 0) s"

lemma strlen_eq: "0 \<in> set s \<Longrightarrow> strlen s = Some (length (cname s))"
  by (induction s) (auto simp: cname_def)

lemma strcmp_cname: "0 \<in> set s \<Longrightarrow> 0 \<in> set t \<Longrightarrow> strcmp_eq s t = Some (cname s = cname t)"
  by (induction s t rule: strcmp_eq.induct) (auto simp: cname_def)

lemma cname_append: "0 \<in> set s \<Longrightarrow> cname (s @ t) = cname s"
  by (auto simp: cname_def)

lemma take_cname: "n = length (cname s) \<Longrightarrow> take n s = cname s"
  by (simp add: cname_def takeWhile_eq_take [symmetric])

text \<open>The names of all entries are terminated.\<close>

definition well_named :: "bytes \<Rightarrow> bool" where
  "well_named s = (\<forall>e \<in> set (entries s). 0 \<in> set (entry_name e))"

lemma name_at:
  assumes "length s = 596" and "valid_table s" and "well_named s" and j: "j < unat (entryCnt s)"
  shows "0 \<in> set (drop 3 (drop (16 + j * 36) s))" "cname (drop 3 (drop (16 + j * 36) s)) = cname (entry_name (pt_entry s j))"
proof -
  have "unat (entryCnt s) \<le> 16" using assms(2) by (simp add: valid_table_def PT_ENTRY_MAX_def)
  then have split: "drop 3 (drop (16 + j * 36) s) = entry_name (pt_entry s j) @ drop (12 + (16 + j * 36)) s"
    using j assms(1) append_take_drop_id [of 9 "drop 3 (drop (16 + j * 36) s)"]
    by (simp add: entry_name_def pt_entry_def slice_slice) (simp add: slice_def add.commute)
  moreover have "0 \<in> set (entry_name (pt_entry s j))"
    using assms(3) j nth_mem [of j "entries s"] by (simp add: well_named_def nth_entries)
  ultimately show "0 \<in> set (drop 3 (drop (16 + j * 36) s))" "cname (drop 3 (drop (16 + j * 36) s)) = cname (entry_name (pt_entry s j))"
    by (simp_all add: cname_append)
qed

lemma find_entries:
  assumes "length s = 596" and "valid_table s"
    and "\<And>j. j < unat (entryCnt s) \<Longrightarrow> match (drop (16 + j * 36) s) = Some (P (pt_entry s j))"
  obtains k where "find_entry match s (unat (entryCnt s)) 0 = Some k" "k \<le> unat (entryCnt s)"
    "find P (entries s) = (if k < unat (entryCnt s) then Some (pt_entry s k) else None)"
proof -
  let ?n = "unat (entryCnt s)"
  have "?n \<le> PT_ENTRY_MAX" using assms(2) by (simp add: valid_table_def)
  then obtain k where k: "find_entry match s ?n 0 = Some k" "k \<le> ?n" "\<forall>j. 0 \<le> j \<and> j < k \<longrightarrow> \<not> P (pt_entry s j)"
      "k < ?n \<longrightarrow> P (pt_entry s k)"
    using find_entry_spec [of 0 ?n match s "\<lambda>j. P (pt_entry s j)"] assms(3) by auto
  have "find P (entries s) = (if k < length (entries s) then Some (entries s ! k) else None)"
    by (rule find_first) (use k(2-4) in \<open>auto simp: nth_entries\<close>)
  then show ?thesis using that [OF k(1,2)] by (simp add: nth_entries split: if_splits)
qed

definition named :: "bytes \<Rightarrow> bytes \<Rightarrow> bool" where
  "named name e = (cname (entry_name e) = cname name)"

lemma by_name_eq:
  assumes "length s = 596" and "valid_table s" and "well_named s" and "0 \<in> set name"
  shows "pt_table_get_active_entries_by_name (Some s) (Some name) (Some old) =
    Some (lookup_result (find (named name) (entries s)) old)"
proof -
  let ?match = "\<lambda>e. do {
            n \<leftarrow> strlen (drop 3 e);
            if n = length (cname name) then memcmp_eq (drop 3 e) name (length (cname name)) else Some False
          }"
  have "?match (drop (16 + j * 36) s) = Some (named name (pt_entry s j))" if "j < unat (entryCnt s)" for j
  proof -
    let ?e = "drop 3 (drop (16 + j * 36) s)"
    note nm = name_at [OF assms(1-3) that]
    have len: "length (cname x) \<le> length x" for x by (simp add: cname_def length_takeWhile_le)
    have "named name (pt_entry s j) = (cname ?e = cname name)" by (simp only: named_def nm(2))
    moreover have "memcmp_eq ?e name (length (cname name)) = Some (cname ?e = cname name)"
      if "length (cname ?e) = length (cname name)"
      using that len [of ?e] len [of name] take_cname [of "length (cname name)" ?e] take_cname [of "length (cname name)" name]
      by (simp add: memcmp_eq_def del: drop_drop)
    ultimately show ?thesis using strlen_eq [OF nm(1)] by (auto simp del: drop_drop)
  qed
  from find_entries [OF assms(1,2), of ?match, OF this] obtain k where
    "find_entry ?match s (unat (entryCnt s)) 0 = Some k" "k \<le> unat (entryCnt s)"
    "find (named name) (entries s) = (if k < unat (entryCnt s) then Some (pt_entry s k) else None)"
    by blast
  then show ?thesis
    by (simp add: pt_table_get_active_entries_by_name_def strlen_eq [OF assms(4)] lookup_result_def)
qed

lemma find_name_eq:
  assumes "length s = 596" and "valid_table s" and "well_named s" and "0 \<in> set name"
  obtains k where "find_name s name = Some k" "k \<le> unat (entryCnt s)"
    "find (named name) (entries s) = (if k < unat (entryCnt s) then Some (pt_entry s k) else None)"
proof -
  have "strcmp_eq (drop 3 (drop (16 + j * 36) s)) name = Some (named name (pt_entry s j))" if "j < unat (entryCnt s)" for j
    using strcmp_cname [OF name_at(1) [OF assms(1-3) that] assms(4)] name_at(2) [OF assms(1-3) that] by (simp only: named_def)
  from find_entries [OF assms(1,2), of "\<lambda>e. strcmp_eq (drop 3 e) name", OF this] show ?thesis
    using that by (simp only: find_name_def) blast
qed

text \<open>The firmware entry of a table, and its two slots.\<close>

definition firmware :: "bytes \<Rightarrow> bytes option" where
  "firmware s = find (named BL_MTD_PARTITION_NAME_FW_DEFAULT) (entries s)"

definition active_slot :: "bytes \<Rightarrow> u32" where
  "active_slot e = start_address e (unat (active_index e))"

definition spare_slot :: "bytes \<Rightarrow> u32" where
  "spare_slot e = start_address e (unat (lnot (active_index e)))"

lemma firmware_entry: "firmware s = Some e \<Longrightarrow> e \<in> set (entries s) \<and> cname (entry_name e) = [0x46, 0x57]"
  by (auto simp: firmware_def find_Some_iff named_def BL_MTD_PARTITION_NAME_FW_DEFAULT_def cname_def)

lemma fw_name_ends: "0 \<in> set BL_MTD_PARTITION_NAME_FW_DEFAULT"
  by (simp add: BL_MTD_PARTITION_NAME_FW_DEFAULT_def)

lemma spare_addr_eq:
  assumes "length (boot2_table b) = 596" and "valid_table (boot2_table b)" and "well_named (boot2_table b)"
    and fw: "firmware (boot2_table b) = Some e" and "active_index e \<in> {0, 1}"
  shows "bflb_boot2_partition_addr_inactive b BL_MTD_PARTITION_NAME_FW_DEFAULT =
    Some (Inr (spare_slot e, max_len e (unat (lnot (active_index e)))))"
proof -
  obtain k where k: "find_name (boot2_table b) BL_MTD_PARTITION_NAME_FW_DEFAULT = Some k" "k \<le> unat (entryCnt (boot2_table b))"
    "firmware (boot2_table b) = (if k < unat (entryCnt (boot2_table b)) then Some (pt_entry (boot2_table b) k) else None)"
    using find_name_eq [OF assms(1-3) fw_name_ends] unfolding firmware_def by blast
  then have "k < unat (entryCnt (boot2_table b))" "pt_entry (boot2_table b) k = e" using fw by (auto split: if_splits)
  moreover have "magicCode (boot2_table b) = PARTITION_MAGIC"
    using assms(2) by (simp add: valid_table_def BFLB_PT_MAGIC_CODE_def PARTITION_MAGIC_def)
  ultimately show ?thesis
    using k(1) assms(5)
    by (auto simp: bflb_boot2_partition_addr_inactive_def bflb_boot2_partition_addr_def spare_slot_def lnot_def)
qed

lemma open_spare:
  assumes "length (boot2_table b) = 596" and "valid_table (boot2_table b)" and "well_named (boot2_table b)"
    and "firmware (boot2_table b) = Some e" and "active_index e \<in> {0, 1}" and "spare_slot e \<noteq> 0"
  obtains h where "bflb_mtd_open True b BL_MTD_PARTITION_NAME_FW_DEFAULT BFLB_MTD_OPEN_FLAG_BACKUP = Some (Opened h)"
    "mtd_offset h = spare_slot e"
proof -
  obtain n where "strlcpy (replicate 16 0) BL_MTD_PARTITION_NAME_FW_DEFAULT 16 = Some n"
    by (simp add: strlcpy_def BL_MTD_PARTITION_NAME_FW_DEFAULT_def mem_simps)
  then show ?thesis
    using spare_addr_eq [OF assms(1-5)] assms(6) that
    by (cases n) (simp add: bflb_mtd_open_def found_def BFLB_MTD_OPEN_FLAG_BACKUP_def BFLB_MTD_OPEN_FLAG_BUSADDR_def Let_def)
qed

section \<open>The switch to the new firmware\<close>

definition good_table :: "bytes \<Rightarrow> bool" where
  "good_table s = (valid_table s \<and> well_named s \<and> distinct (map entry_type (entries s)) \<and> age s \<noteq> - 1)"

lemma entry_length:
  assumes "length s = 596" and "valid_table s" and "e \<in> set (entries s)"
  shows "length e = 36"
proof -
  have "unat (entryCnt s) \<le> PT_ENTRY_MAX" using assms(2) by (simp add: valid_table_def)
  then show ?thesis using assms(1,3) entry_at(1) [OF assms(1)] by (auto simp: entries_def)
qed

lemma next_entry_fields:
  assumes "length e = 36"
  shows "length (next_entry n e) = 36" "entry_type (next_entry n e) = entry_type e" "entry_name (next_entry n e) = entry_name e"
    "active_index (next_entry n e) = other_index (active_index e)" "entry_len (next_entry n e) = n"
    "entry_age (next_entry n e) = entry_age e + 1"
    "k < 2 \<Longrightarrow> start_address (next_entry n e) k = start_address e k" "k < 2 \<Longrightarrow> max_len (next_entry n e) k = max_len e k"
proof -
  define e1 where "e1 = poke e 28 (bytes32 n)"
  define e2 where "e2 = poke e1 2 [other_index (active_index e1)]"
  have n: "next_entry n e = poke e2 32 (bytes32 (entry_age e2 + 1))" by (simp add: next_entry_def age_up_def e2_def e1_def Let_def)
  have l1: "length e1 = 36" using assms by (simp add: e1_def byte_simps)
  then have l2: "length e2 = 36" by (simp add: e2_def byte_simps)
  show "length (next_entry n e) = 36" using l2 by (simp add: n byte_simps)
  have a1: "active_index e1 = active_index e" using assms by (simp add: e1_def active_index_def nth_poke byte_simps)
  show "entry_type (next_entry n e) = entry_type e" using assms l1 l2
    by (simp add: n e2_def entry_type_def nth_poke byte_simps) (simp add: e1_def nth_poke byte_simps)
  show "active_index (next_entry n e) = other_index (active_index e)" using l1 l2 a1
    by (simp add: n active_index_def [of "poke e2 _ _"] nth_poke byte_simps) (simp add: e2_def nth_poke byte_simps)
  show "entry_name (next_entry n e) = entry_name e" using assms l1 l2
    by (simp add: n e2_def entry_name_def byte_simps) (simp add: e1_def byte_simps)
  show "entry_len (next_entry n e) = n" using assms l1 l2
    by (simp add: n e2_def entry_len_def byte_simps) (simp add: e1_def byte_simps)
  show "entry_age (next_entry n e) = entry_age e + 1" using assms l1 l2
    by (simp add: n entry_age_def byte_simps) (simp add: e2_def byte_simps, simp add: e1_def byte_simps)
  show "start_address (next_entry n e) k = start_address e k" if "k < 2" using that assms l1 l2
    by (simp add: n e2_def start_address_def byte_simps) (simp add: e1_def byte_simps)
  show "max_len (next_entry n e) k = max_len e k" if "k < 2" using that assms l1 l2
    by (simp add: n e2_def max_len_def byte_simps) (simp add: e1_def byte_simps)
qed

lemma upd_entry_types: "entry_type e \<in> entry_type ` set es \<Longrightarrow> map entry_type (upd_entry e es) = map entry_type es"
  by (induction es) auto

lemma upd_entry_set: "set (upd_entry e es) \<subseteq> insert e (set es)"
  by (induction es) auto

text \<open>What the boot loader starts: the address and the length of the firmware of the active copy.\<close>

definition boots :: "('f \<Rightarrow> nat \<Rightarrow> u8) \<Rightarrow> 'f \<Rightarrow> (u32 \<times> u32) option" where
  "boots view f = (if active_at view f = PT_TABLE_ID_INVALID then None
     else map_option (\<lambda>e. (active_slot e, entry_len e)) (firmware (copy_at view f (active_at view f))))"

text \<open>A table to start from: the active copy, its firmware entry, and a flash without room for doubt.\<close>

definition ready :: "('f \<Rightarrow> nat \<Rightarrow> u8) \<Rightarrow> 'f \<Rightarrow> bytes \<Rightarrow> bytes \<Rightarrow> bool" where
  "ready view f s e = (active_at view f \<noteq> PT_TABLE_ID_INVALID \<and> copy_at view f (active_at view f) = s \<and> good_table s \<and>
     firmware s = Some e \<and> active_index e \<in> {0, 1})"

lemma readyD:
  assumes "ready view f s e"
  shows "length s = 596" "valid_table s" "well_named s" "length e = 36"
proof -
  show s: "length s = 596" "valid_table s" "well_named s" using assms by (auto simp: ready_def good_table_def)
  show "length e = 36" using entry_length [OF s(1,2)] firmware_entry assms by (simp add: ready_def)
qed

lemma boots_ready: "ready view f s e \<Longrightarrow> boots view f = Some (active_slot e, entry_len e)"
  by (auto simp: boots_def ready_def)

lemma find_upd_found:
  "distinct (map entry_type es) \<Longrightarrow> find P es = Some e \<Longrightarrow> P e' \<Longrightarrow> entry_type e' = entry_type e \<Longrightarrow> find P (upd_entry e' es) = Some e'"
proof (induction es)
  case (Cons x xs)
  show ?case
  proof (cases "P x")
    case True
    then show ?thesis using Cons.prems by simp
  next
    case False
    then have "find P xs = Some e" using Cons.prems(2) by simp
    then have "entry_type e \<in> entry_type ` set xs" by (auto simp: find_Some_iff)
    then have "entry_type x \<noteq> entry_type e'" using Cons.prems(1,4) by auto
    then show ?thesis using False Cons by simp
  qed
qed simp

lemma switch_entry:
  assumes nor: "nor_flash view g" and i: "active_at view f = i" "i \<noteq> PT_TABLE_ID_INVALID" and s: "copy_at view f i = s"
    and good: "good_table s" and fw: "firmware s = Some e"
  obtains status t f' where "pt_table_update_entry g (other_id i) (Some s) (Some (next_entry n e)) f = Some (status, t, f')"
    "copy_at view f' i = s" "\<And>x. x < 0xE000 \<or> 0x10000 \<le> x \<Longrightarrow> view f' x = view f x"
    "status = PT_ERROR_SUCCESS \<or> status = PT_ERROR_FALSH_WRITE"
    "status = PT_ERROR_SUCCESS \<Longrightarrow> active_at view f' = other_id i \<and> firmware (copy_at view f' (other_id i)) = Some (next_entry n e)"
    "status = PT_ERROR_SUCCESS \<Longrightarrow> age s \<noteq> - 2 \<Longrightarrow> active_index e \<in> {0, 1} \<Longrightarrow> \<exists>s'. ready view f' s' (next_entry n e)"
proof -
  let ?e = "next_entry n e"
  have len: "length s = 596" using s by (simp flip: s)
  have v: "valid_table s" and ag: "age s \<noteq> - 1" and dist: "distinct (map entry_type (entries s))"
    using good by (simp_all add: good_table_def)
  have e: "e \<in> set (entries s)" using firmware_entry [OF fw] by simp
  note fields = next_entry_fields [OF entry_length [OF len v e], where n = n]
  have room: "\<not> full_for s ?e" using e fields(2) by (auto simp: full_for_def)
  have oi: "other_id i \<noteq> PT_TABLE_ID_INVALID" "i \<noteq> other_id i" using i(2) by (auto simp: other_id_def)
  from update_entry_runs [OF nor len v fields(1) oi(1) room] obtain err s' f' where r:
    "pt_table_update_entry g (other_id i) (Some s) (Some ?e) f = Some (err, Some s', f')"
    "length s' = 596" "valid_table s'" "entries s' = upd_entry ?e (entries s)" "age s' = age s + 1"
    "err = PT_ERROR_SUCCESS \<or> err = PT_ERROR_FALSH_WRITE" "err = PT_ERROR_SUCCESS \<Longrightarrow> copy_at view f' (other_id i) = s'"
    "\<And>x. x < unat (table_address (other_id i)) \<or> unat (table_address (other_id i)) + 4096 \<le> x \<Longrightarrow> view f' x = view f x"
    by blast
  have "copy_at view f' i = copy_at view f i" by (rule flash_tables_apart [OF i(2) oi(1,2)]) (rule r(8))
  then have same: "copy_at view f' i = s" using s by simp
  have nm: "named BL_MTD_PARTITION_NAME_FW_DEFAULT e \<longleftrightarrow> named BL_MTD_PARTITION_NAME_FW_DEFAULT ?e"
    by (simp add: named_def fields(3))
  have "named BL_MTD_PARTITION_NAME_FW_DEFAULT e" using fw by (auto simp: firmware_def find_Some_iff)
  then have f': "firmware s' = Some ?e"
    using find_upd_found [OF dist fw [unfolded firmware_def] _ fields(2)] nm by (simp add: firmware_def r(4))
  show ?thesis
  proof (rule that [OF r(1) same _ r(6)])
    show "view f' x = view f x" if "x < 0xE000 \<or> 0x10000 \<le> x" for x
      using that by (intro r(8)) (auto simp: other_id_def table_addresses split: if_splits)
    have switched: "active_at view f' = other_id i" "copy_at view f' (other_id i) = s'" if "err = PT_ERROR_SUCCESS"
    proof -
      show new: "copy_at view f' (other_id i) = s'" by (rule r(7) [OF that])
      have "age s < age s'" unfolding r(5) by (rule age_grows [OF ag])
      then show "active_at view f' = other_id i"
        using same new v r(3) i(2) by (cases i) (auto simp: other_id_def active_id_def)
    qed
    then show "active_at view f' = other_id i \<and> firmware (copy_at view f' (other_id i)) = Some ?e" if "err = PT_ERROR_SUCCESS"
      using that f' by simp
    show "\<exists>s'. ready view f' s' ?e" if "err = PT_ERROR_SUCCESS" "age s \<noteq> - 2" "active_index e \<in> {0, 1}"
    proof -
      have "age s' \<noteq> - 1"
      proof
        assume "age s' = - 1"
        then have "age s = - 1 - 1" unfolding r(5) by (simp only: eq_diff_eq)
        then show False using that(2) by simp
      qed
      moreover have "distinct (map entry_type (entries s'))"
        unfolding r(4) using dist e fields(2) by (subst upd_entry_types) auto
      moreover have "well_named s'"
        using good upd_entry_set [of ?e "entries s"] e fields(3) unfolding good_table_def well_named_def r(4) by auto
      ultimately have "good_table s'" using r(3) by (simp add: good_table_def)
      moreover have "active_index ?e \<in> {0, 1}" by (simp add: fields(4) other_index_def)
      ultimately show ?thesis
        using switched [OF that(1)] f' oi(1) by (intro exI [of _ s']) (simp add: ready_def)
    qed
  qed
qed

lemma active_entry_eq:
  assumes nor: "nor_flash view (pt w)" and r: "ready view (nor w) s e" and "length b0 = 596" "length b1 = 596"
  shows "active_entry (b0, b1) eb w = Some (Inr (active_at view (nor w), s, e), w)"
proof -
  note d = readyD [OF r]
  have "pt_table_get_active_entries_by_name (Some s) (Some BL_MTD_PARTITION_NAME_FW_DEFAULT) (Some eb) = Some (PT_ERROR_SUCCESS, Some e)"
    using by_name_eq [OF d(1-3) fw_name_ends, of eb] r by (simp add: ready_def firmware_def lookup_result_def)
  then show ?thesis
    using need_lock_eq [OF nor assms(3,4), of "nor w"] r
    by (cases "active_at view (nor w)") (auto simp: active_entry_def ready_def)
qed

lemma next_entry_boots:
  assumes "length e = 36" and "active_index e \<in> {0, 1}"
  shows "active_slot (next_entry n e) = spare_slot e"
proof -
  have "other_index (active_index e) = lnot (active_index e)" "unat (lnot (active_index e)) < 2"
    using assms(2) by (auto simp: other_index_def lnot_def)
  then show ?thesis using next_entry_fields(4,7) [OF assms(1)] by (simp add: active_slot_def spare_slot_def)
qed

lemma finish_runs:
  assumes nor: "nor_flash view (pt w)" "use_driver dev (pt w) = pt w" and p: "ota_parm w = Some p" "32 < file_size p"
    and r: "ready view (nor w) s e" and base: "unat (mtd_offset (ota_handle p)) = base" "base + unat (file_size p) \<le> 2 ^ 32"
    and bufs: "length b0 = 596" "length b1 = 596" "length r_buf = 512"
    and ok: "ok = (check_hash \<noteq> 0 \<longrightarrow> malloc_ok \<and> sha256 (area view (nor w) base (unat (file_size p) - 32)) =
        area view (nor w) (base + (unat (file_size p) - 32)) 32)"
  obtains res w' where "bflb_ota_finish dev malloc_ok (b0, b1) eb r_buf ctx check_hash w = Some (res, w')" "ota_parm w' = None"
    "copy_at view (nor w') (active_at view (nor w)) = s" "\<And>x. x < 0xE000 \<or> 0x10000 \<le> x \<Longrightarrow> view (nor w') x = view (nor w) x"
    "\<not> ok \<Longrightarrow> res = - 1 \<and> nor w' = nor w"
    "ok \<Longrightarrow> res = 0 \<and> (\<exists>status t. pt_table_update_entry (pt w) (other_id (active_at view (nor w))) (Some s)
        (Some (next_entry (file_size p - 32) e)) (nor w) = Some (status, t, nor w') \<and>
        (status = PT_ERROR_SUCCESS \<or> status = PT_ERROR_FALSH_WRITE) \<and>
        (status = PT_ERROR_SUCCESS \<longrightarrow> boots view (nor w') = Some (spare_slot e, file_size p - 32) \<and>
          (age s \<noteq> - 2 \<longrightarrow> (\<exists>s'. ready view (nor w') s' (next_entry (file_size p - 32) e)))))"
    "pt w' = pt w" "boot2 w' = boot2 w"
proof -
  let ?i = "active_at view (nor w)" and ?n = "file_size p - 32"
  have n: "unat ?n = unat (file_size p) - 32" using p(2) by (simp add: unat_sub_le)
  have n32: "32 < unat (file_size p)" using p(2) by (simp add: word_less_nat_alt)
  have ae: "active_entry (b0, b1) eb w = Some (Inr (?i, s, e), w)" by (rule active_entry_eq [OF nor(1) r bufs(1,2)])
  have ci: "check_image dev malloc_ok r_buf ctx p ?n (nor w) = Some (malloc_ok \<and> sha256 (area view (nor w) base (unat (file_size p) - 32)) =
        area view (nor w) (base + (unat (file_size p) - 32)) 32, nor w)"
    using check_image_eq [of view dev "pt w" p ?n r_buf malloc_ok ctx "nor w"] nor base n n32 bufs(3) by simp
  have chk: "(if check_hash \<noteq> 0 then check_image dev malloc_ok r_buf ctx p ?n (nor w) else Some (True, nor w)) = Some (ok, nor w)"
    by (simp add: ci ok)
  have w: "w\<lparr>nor := nor w\<rparr> = w" by simp
  have fin: "bflb_ota_finish dev malloc_ok (b0, b1) eb r_buf ctx check_hash w =
      (if ok then switch_firmware ?i s e ?n w else Some (- 1, w\<lparr>ota_parm := None\<rparr>))"
    using p(1) chk not_le [of "file_size p" 32, THEN iffD2, OF p(2)] by (simp add: bflb_ota_finish_def ae Let_def)
  show ?thesis
  proof (cases ok)
    case False
    then show ?thesis
      by (intro that [of "- 1" "w\<lparr>ota_parm := None\<rparr>"]) (use fin r in \<open>simp_all add: ready_def\<close>)
  next
    case True
    have i: "?i \<noteq> PT_TABLE_ID_INVALID" "copy_at view (nor w) ?i = s" "good_table s" "firmware s = Some e"
      using r by (simp_all add: ready_def)
    from switch_entry [OF nor(1) refl i, of ?n] obtain status t f' where sw:
      "pt_table_update_entry (pt w) (other_id ?i) (Some s) (Some (next_entry ?n e)) (nor w) = Some (status, t, f')"
      "copy_at view f' ?i = s" "\<And>x. x < 0xE000 \<or> 0x10000 \<le> x \<Longrightarrow> view f' x = view (nor w) x"
      "status = PT_ERROR_SUCCESS \<or> status = PT_ERROR_FALSH_WRITE"
      "status = PT_ERROR_SUCCESS \<Longrightarrow> active_at view f' = other_id ?i \<and> firmware (copy_at view f' (other_id ?i)) = Some (next_entry ?n e)"
      "status = PT_ERROR_SUCCESS \<Longrightarrow> age s \<noteq> - 2 \<Longrightarrow> active_index e \<in> {0, 1} \<Longrightarrow> \<exists>s'. ready view f' s' (next_entry ?n e)"
      by blast
    have b: "boots view f' = Some (spare_slot e, ?n)" if "status = PT_ERROR_SUCCESS"
      using sw(5) [OF that] next_entry_boots [OF readyD(4) [OF r], of ?n] next_entry_fields(5) [OF readyD(4) [OF r], of ?n] r
      by (simp add: boots_def ready_def other_id_def)
    show ?thesis
    proof (rule that [of 0 "w\<lparr>nor := f', ota_parm := None\<rparr>"])
      show "bflb_ota_finish dev malloc_ok (b0, b1) eb r_buf ctx check_hash w = Some (0, w\<lparr>nor := f', ota_parm := None\<rparr>)"
        using True fin sw(1) by (simp add: switch_firmware_def)
    qed (use True sw b r in \<open>auto simp: ready_def\<close>)
  qed
qed

lemma area_cong: "(\<And>x. b \<le> x \<Longrightarrow> x < b + n \<Longrightarrow> view f x = view f' x) \<Longrightarrow> area view f b n = area view f' b n"
  by (simp add: area_def)

section \<open>The upload\<close>

definition erased :: "bflb_ota_parm \<Rightarrow> nat \<Rightarrow> bool" where
  "erased p i = bit (sector_erased p ! (i div 32)) (i mod 32)"

text \<open>
  Between two updates: the sectors marked in the bitmap hold the bytes of the file at the places
  \<open>C\<close> that have been written and are erased elsewhere, and all written places are in such sectors.
\<close>

definition uploading :: "('f \<Rightarrow> nat \<Rightarrow> u8) \<Rightarrow> nat \<Rightarrow> bytes \<Rightarrow> nat set \<Rightarrow> bflb_ota_parm \<Rightarrow> 'f \<Rightarrow> bool" where
  "uploading view base file C p f =
     (length (sector_erased p) = 8 \<and>
      (\<forall>i < 0x100000. erased p (i div 4096) \<longrightarrow> view f (base + i) = (if i \<in> C then file ! i else 0xFF)) \<and>
      (\<forall>i \<in> C. erased p (i div 4096)))"

lemma test_bit: "w AND 2 ^ k = 0 \<longleftrightarrow> \<not> bit w k" for w :: u32
  by (rule and_exp_eq_0_iff_not_bit)

lemma erased_set:
  assumes "length (sector_erased p) = 8" and "k < 256"
  shows "erased (p\<lparr>sector_erased := (sector_erased p)[k div 32 := sector_erased p ! (k div 32) OR push_bit (k mod 32) 1]\<rparr>) j
    \<longleftrightarrow> j = k \<or> erased p j"
proof -
  have k: "k div 32 < 8" "k mod 32 < 32" using assms(2) by (simp_all add: less_mult_imp_div_less)
  have eq: "j = k \<longleftrightarrow> j div 32 = k div 32 \<and> j mod 32 = k mod 32" by (metis div_mult_mod_eq)
  show ?thesis
    using k assms(1) by (auto simp: erased_def nth_list_update bit_or_iff bit_exp_iff eq)
qed

lemma div_mod_small: "k < 256 \<Longrightarrow> unat (of_nat k div 32 :: u32) = k div 32 \<and> unat (of_nat k mod 32 :: u32) = k mod 32"
  by (simp add: unat_div unat_mod unat_of_nat_small)

lemma erase_sector:
  assumes dev: "nor_driver view dev" and h: "unat (mtd_offset h) = base" "base mod 4096 = 0" "base + 0x100000 \<le> 2 ^ 32" and k: "k < 256"
  obtains f' where "bflb_mtd_erase dev h (of_nat k * 4096) 4096 f = (0, f')"
    "\<And>x. view f' x = (if base + k * 4096 \<le> x \<and> x < base + k * 4096 + 4096 then 0xFF else view f x)"
proof -
  have "unat (of_nat k * 4096 :: u32) = k * 4096" using k by (simp add: unat_of_nat_small unat_mult_lem [THEN iffD1])
  then have a: "unat (mtd_offset h + of_nat k * 4096) = base + k * 4096"
    using h k by (subst unat_plus_small) simp_all
  have m: "(base + k * 4096) mod 4096 = 0" using h(2) by (simp add: mod_add_left_eq [symmetric])
  have "\<forall>a n f x. view (snd (bflb_flash_erase dev a n f)) x = (if touched (unat a) (unat n) x then 0xFF else view f x)"
    using dev by (simp add: nor_driver_def healthy_flash_def)
  then show ?thesis
    using that [of "snd (bflb_flash_erase dev (mtd_offset h + of_nat k * 4096) 4096 f)"] sector_touched [OF m, of 4096]
    by (simp add: bflb_mtd_erase_def a)
qed

lemma erase_loop_runs:
  assumes dev: "nor_driver view dev" and base: "base mod 4096 = 0" "base + 0x100000 \<le> 2 ^ 32" and e: "unat end_index < 256"
  shows "a \<le> Suc (unat end_index) \<Longrightarrow> unat (mtd_offset (ota_handle p)) = base \<Longrightarrow> uploading view base file C p f \<Longrightarrow>
    \<exists>p' f'. erase_loop dev (of_nat a) end_index p f = Some (0, p', f') \<and> uploading view base file C p' f' \<and>
      (\<forall>j. a \<le> j \<and> j \<le> unat end_index \<longrightarrow> erased p' j) \<and> (\<forall>j. erased p j \<longrightarrow> erased p' j) \<and>
      ota_handle p' = ota_handle p \<and> file_size p' = file_size p \<and>
      (\<forall>x. x < base \<or> base + 0x100000 \<le> x \<longrightarrow> view f' x = view f x)"
proof (induction "Suc (unat end_index) - a" arbitrary: a p f)
  case 0
  then have "a = Suc (unat end_index)" by simp
  then have "unat (of_nat a :: u32) = Suc (unat end_index)" using e by (intro trans [OF unat_of_nat_small]) simp_all
  then have "\<not> of_nat a \<le> end_index" by (simp add: word_le_nat_alt)
  then show ?case using 0 by (subst erase_loop.simps) auto
next
  case (Suc n)
  then have a: "a \<le> unat end_index" "a < 256" using e by simp_all
  then have "unat (of_nat a :: u32) = a" by (intro unat_of_nat_small) simp
  then have le: "of_nat a \<le> end_index" using a by (simp add: word_le_nat_alt)
  have nx: "of_nat a + 1 = (of_nat (Suc a) :: u32)" by simp
  have len: "length (sector_erased p) = 8" using Suc.prems(3) by (simp add: uploading_def)
  have g: "mem_get (sector_erased p) (a div 32) = Some (sector_erased p ! (a div 32))"
    using a len by (simp add: mem_simps less_mult_imp_div_less)
  note dm = div_mod_small [OF a(2)]
  have n: "n = Suc (unat end_index) - Suc a" using Suc.hyps(2) by simp
  show ?case
  proof (cases "erased p a")
    case True
    have "erase_loop dev (of_nat a) end_index p f = erase_loop dev (of_nat (Suc a)) end_index p f"
      using le g dm True nx by (subst erase_loop.simps) (simp add: test_bit erased_def del: of_nat_Suc)
    moreover obtain p' f' where "erase_loop dev (of_nat (Suc a)) end_index p f = Some (0, p', f')" "uploading view base file C p' f'"
      "\<forall>j. Suc a \<le> j \<and> j \<le> unat end_index \<longrightarrow> erased p' j" "\<forall>j. erased p j \<longrightarrow> erased p' j"
      "ota_handle p' = ota_handle p" "file_size p' = file_size p" "\<forall>x. x < base \<or> base + 0x100000 \<le> x \<longrightarrow> view f' x = view f x"
      using Suc.hyps(1) [OF n _ Suc.prems(2,3)] a(1) by auto
    ultimately show ?thesis using True by (metis Suc_leI le_neq_implies_less)
  next
    case False
    obtain f1 where f1: "bflb_mtd_erase dev (ota_handle p) (of_nat a * 4096) 4096 f = (0, f1)"
        "\<And>x. view f1 x = (if base + a * 4096 \<le> x \<and> x < base + a * 4096 + 4096 then 0xFF else view f x)"
      using erase_sector [OF dev Suc.prems(2) base a(2)] by blast
    define p1 where "p1 = p\<lparr>sector_erased := (sector_erased p)[a div 32 := sector_erased p ! (a div 32) OR push_bit (a mod 32) 1]\<rparr>"
    have er: "erased p1 j \<longleftrightarrow> j = a \<or> erased p j" for j unfolding p1_def by (rule erased_set [OF len a(2)])
    have up: "uploading view base file C p1 f1"
    proof -
      have "view f1 (base + i) = (if i \<in> C then file ! i else 0xFF)" if "i < 0x100000" "erased p1 (i div 4096)" for i
      proof (cases "i div 4096 = a")
        case True
        then have "i \<notin> C" using False Suc.prems(3) by (auto simp: uploading_def)
        moreover have "a * 4096 \<le> i" "i < a * 4096 + 4096" using True by auto
        ultimately show ?thesis by (simp add: f1(2))
      next
        case other: False
        then have "\<not> (a * 4096 \<le> i \<and> i < a * 4096 + 4096)" by auto
        moreover have "erased p (i div 4096)" using that(2) other er by simp
        ultimately show ?thesis using Suc.prems(3) that(1) by (auto simp: uploading_def f1(2))
      qed
      then show ?thesis using Suc.prems(3) len er by (auto simp: uploading_def p1_def)
    qed
    have "erase_loop dev (of_nat a) end_index p f = erase_loop dev (of_nat (Suc a)) end_index p1 f1"
      using le g dm False f1(1) nx by (subst erase_loop.simps) (simp add: test_bit erased_def p1_def Let_def del: of_nat_Suc)
    moreover have "unat (mtd_offset (ota_handle p1)) = base" using Suc.prems(2) by (simp add: p1_def)
    then obtain p' f' where "erase_loop dev (of_nat (Suc a)) end_index p1 f1 = Some (0, p', f')" "uploading view base file C p' f'"
      "\<forall>j. Suc a \<le> j \<and> j \<le> unat end_index \<longrightarrow> erased p' j" "\<forall>j. erased p1 j \<longrightarrow> erased p' j"
      "ota_handle p' = ota_handle p1" "file_size p' = file_size p1" "\<forall>x. x < base \<or> base + 0x100000 \<le> x \<longrightarrow> view f' x = view f1 x"
      using Suc.hyps(1) [OF n _ _ up] a(1) by auto
    moreover have "view f1 x = view f x" if "x < base \<or> base + 0x100000 \<le> x" for x using that a(2) by (auto simp: f1(2))
    ultimately show ?thesis using er by (metis (no_types, lifting) Suc_leI bflb_ota_parm.select_convs(1,2) bflb_ota_parm.surjective bflb_ota_parm.update_convs(3) le_neq_implies_less p1_def)
  qed
qed

text \<open>Both ways of writing, in one piece or through a buffer, program the same bytes.\<close>

definition programmed :: "('f \<Rightarrow> nat \<Rightarrow> u8) \<Rightarrow> nat \<Rightarrow> bytes \<Rightarrow> 'f \<Rightarrow> 'f \<Rightarrow> bool" where
  "programmed view a d f f' = (\<forall>x. view f' x = (if a \<le> x \<and> x < a + length d then view f x AND d ! (x - a) else view f x))"

lemma driver_write:
  "nor_driver view dev \<Longrightarrow> programmed view (unat a) d f (snd (bflb_flash_write dev a d f))"
  by (simp add: nor_driver_def healthy_flash_def programmed_def)

lemma programmed_append:
  assumes "programmed view a d f f1" and "programmed view (a + length d) e f1 f2"
  shows "programmed view a (d @ e) f f2"
  using assms by (auto simp: programmed_def nth_append)

lemma copy2ram_programs:
  assumes dev: "nor_driver view dev"
  shows "unat addr + unat len \<le> 2 ^ 32 \<Longrightarrow> unat len \<le> length src \<Longrightarrow>
    \<exists>f'. mtd_write_copy2ram dev addr src len f = Some (0, f') \<and> programmed view (unat addr) (take (unat len) src) f f'"
proof (induction "unat len" arbitrary: addr src len f rule: less_induct)
  case less
  show ?case
  proof (cases "len > 0")
    case False
    then have "len = 0" by (simp add: word_gt_0)
    then show ?thesis by (auto simp: mtd_write_copy2ram.simps [of _ _ _ 0] programmed_def)
  next
    case True
    define k where "k = (if len \<ge> 64 then 64 else len)"
    have "k \<le> len" "0 < k" using True by (auto simp: k_def)
    then have k: "unat k \<le> unat len" "0 < unat k" by (simp_all add: word_le_nat_alt word_less_nat_alt)
    let ?d = "take (unat k) src"
    define f1 where "f1 = snd (bflb_flash_write dev addr ?d f)"
    have p1: "programmed view (unat addr) ?d f f1" unfolding f1_def by (rule driver_write [OF dev])
    have sub: "unat (len - k) = unat len - unat k" using k by (simp add: unat_sub_le word_le_nat_alt)
    have step: "mtd_write_copy2ram dev addr src len f = mtd_write_copy2ram dev (addr + k) (drop (unat k) src) (len - k) f1"
      using \<open>len > 0\<close> less.prems(2) k
      by (simp add: mtd_write_copy2ram.simps [of _ _ _ len] k_def [symmetric] Let_def mem_simps f1_def split_beta)
    show ?thesis
    proof (cases "len = k")
      case True
      then have "mtd_write_copy2ram dev addr src len f = Some (0, f1)"
        unfolding step by (simp add: mtd_write_copy2ram.simps [of _ _ _ 0])
      then show ?thesis using p1 True by simp
    next
      case False
      then have "unat len \<noteq> unat k" by (simp add: word_unat_eq_iff)
      then have lt: "unat k < unat len" using k by linarith
      have a: "unat (addr + k) = unat addr + unat k" using lt less.prems(1) by (intro unat_plus_small) simp
      have "unat (len - k) < unat len" "unat (addr + k) + unat (len - k) \<le> 2 ^ 32" "unat (len - k) \<le> length (drop (unat k) src)"
        using sub k a less.prems by (simp_all add: diff_le_mono)
      from less.hyps [OF this] obtain f2 where "mtd_write_copy2ram dev (addr + k) (drop (unat k) src) (len - k) f1 = Some (0, f2)"
        "programmed view (unat (addr + k)) (take (unat (len - k)) (drop (unat k) src)) f1 f2"
        by blast
      moreover have "take (unat len) src = ?d @ take (unat (len - k)) (drop (unat k) src)"
        using k by (simp add: sub flip: take_add)
      moreover have "length ?d = unat k" using less.prems(2) k by simp
      ultimately show ?thesis unfolding step using programmed_append [OF p1] a by auto
    qed
  qed
qed

lemma mtd_write_programs:
  assumes "nor_driver view dev" and "unat (mtd_offset h) + unat addr + unat n \<le> 2 ^ 32" and "unat n \<le> length (snd b)" and "0 < unat n"
  obtains f' where "bflb_mtd_write dev h addr n b f = Some (0, f')"
    "programmed view (unat (mtd_offset h) + unat addr) (take (unat n) (snd b)) f f'"
proof -
  have a: "unat (mtd_offset h + addr) = unat (mtd_offset h) + unat addr" using assms(2,4) by (intro unat_plus_small) simp
  obtain f' where "(if bflb_sys_isxipaddr (fst b) then mtd_write_copy2ram dev (mtd_offset h + addr) (snd b) n f
      else mtd_write dev (mtd_offset h + addr) (snd b) n f) = Some (0, f')"
    "programmed view (unat (mtd_offset h) + unat addr) (take (unat n) (snd b)) f f'"
  proof (cases "bflb_sys_isxipaddr (fst b)")
    case True
    then show ?thesis using that copy2ram_programs [OF assms(1), of "mtd_offset h + addr" n "snd b" f] a assms(2,3) by auto
  next
    case False
    then show ?thesis
      using that driver_write [OF assms(1), of "mtd_offset h + addr" "take (unat n) (snd b)" f] a assms(3)
      by (simp add: mtd_write_def mem_simps split_beta)
  qed
  then show ?thesis using that by (simp add: bflb_mtd_write_def)
qed

lemma and_self_ones: "b AND b = (b :: u8)" "0xFF AND b = (b :: u8)"
  by (simp_all add: and_ones)

lemma update_runs:
  assumes dev: "nor_driver view dev" and base: "base mod 4096 = 0" "base + 0x100000 \<le> 2 ^ 32" and flen: "length file \<le> 0x100000"
    and p: "ota_parm w = Some p" "unat (mtd_offset (ota_handle p)) = base" "unat (file_size p) = length file"
    and up: "uploading view base file C p (nor w)"
    and d: "d \<noteq> []" "off + length d \<le> length file" "d = slice file off (length d)"
  obtains w' p' where "bflb_ota_update dev (file_size p) (of_nat off) (Some (ptr, d)) (of_nat (length d)) w = Some (0, w')"
    "ota_parm w' = Some p'" "ota_handle p' = ota_handle p" "file_size p' = file_size p"
    "uploading view base file (C \<union> {off..<off + length d}) p' (nor w')"
    "\<And>x. x < base \<or> base + 0x100000 \<le> x \<Longrightarrow> view (nor w') x = view (nor w) x" "pt w' = pt w" "boot2 w' = boot2 w"
proof -
  have u: "unat (of_nat off :: u32) = off" "unat (of_nat (length d) :: u32) = length d"
    using d(2) flen by (auto intro!: unat_of_nat_small)
  have l: "0 < length d" using d(1) by simp
  have sum: "unat (of_nat off + of_nat (length d) :: u32) = off + length d"
    using u d(2) flen by (subst unat_plus_small) simp_all
  have "unat (of_nat off + of_nat (length d) - 1 :: u32) = off + length d - 1"
    using sum l by (subst unat_sub_le) (simp_all add: word_le_nat_alt Suc_le_eq del: length_greater_0_conv)
  then have e: "unat ((of_nat off + of_nat (length d) - 1) div 4096 :: u32) = (off + length d - 1) div 4096" by (simp add: unat_div)
  have s: "(of_nat off div 4096 :: u32) = of_nat (off div 4096)"
    using u(1) by (intro word_of_unat) (simp add: unat_div)
  have ge: "off div 4096 \<le> (off + length d - 1) div 4096" "(off + length d - 1) div 4096 < 256"
    using l d(2) flen by (auto intro!: div_le_mono simp: div_less_iff_less_mult simp del: length_greater_0_conv)
  let ?last = "(of_nat off + of_nat (length d) - 1) div 4096 :: u32"
  have "unat ?last < 256" "off div 4096 \<le> Suc (unat ?last)" using ge e by simp_all
  from erase_loop_runs [OF dev base this p(2) up] obtain p1 f1 where
    "erase_loop dev (of_nat (off div 4096)) ?last p (nor w) = Some (0, p1, f1)"
    "uploading view base file C p1 f1" "\<And>j. off div 4096 \<le> j \<Longrightarrow> j \<le> unat ?last \<Longrightarrow> erased p1 j"
    "ota_handle p1 = ota_handle p" "file_size p1 = file_size p" "\<And>x. x < base \<or> base + 0x100000 \<le> x \<Longrightarrow> view f1 x = view (nor w) x"
    by blast
  note er = this(1) [folded s, folded bflb_ota_erase_def] this(2) this(3) [unfolded e] this(4-6)
  obtain f2 where wr: "bflb_mtd_write dev (ota_handle p1) (of_nat off) (of_nat (length d)) (ptr, d) f1 = Some (0, f2)"
    "programmed view (base + off) d f1 f2"
    using mtd_write_programs [OF dev, of "ota_handle p1" "of_nat off" "of_nat (length d)" "(ptr, d)" f1] u p(2) er(4) d(2) flen base l by auto
  have "view f2 (base + i) = (if i \<in> C \<union> {off..<off + length d} then file ! i else 0xFF)"
    if i: "i < 0x100000" "erased p1 (i div 4096)" for i
  proof -
    have "view f1 (base + i) = (if i \<in> C then file ! i else 0xFF)" using er(2) i by (simp add: uploading_def)
    moreover have "d ! (i - off) = file ! i" if "off \<le> i" "i < off + length d"
      by (subst d(3), subst nth_slice) (use that d(2) in simp_all)
    ultimately show ?thesis using wr(2) by (auto simp: programmed_def and_self_ones)
  qed
  moreover have "erased p1 (i div 4096)" if "i \<in> C \<union> {off..<off + length d}" for i
  proof (cases "i \<in> C")
    case True
    then show ?thesis using er(2) by (simp add: uploading_def)
  next
    case False
    then have "off \<le> i" "i \<le> off + length d - 1" using that by auto
    then show ?thesis by (intro er(3) div_le_mono)
  qed
  moreover have "length (sector_erased p1) = 8" using er(2) by (simp add: uploading_def)
  ultimately have up': "uploading view base file (C \<union> {off..<off + length d}) p1 f2" unfolding uploading_def by blast
  have keep: "view f2 x = view (nor w) x" if "x < base \<or> base + 0x100000 \<le> x" for x
    using that wr(2) er(6) [of x] d(2) flen by (auto simp: programmed_def)
  have "\<not> (file_size p < of_nat off + of_nat (length d))" "of_nat (length d) \<noteq> (0 :: u32)"
    using sum p(3) d(2) l u(2) by (auto simp: word_less_nat_alt)
  then have run: "bflb_ota_update dev (file_size p) (of_nat off) (Some (ptr, d)) (of_nat (length d)) w = Some (0, w\<lparr>ota_parm := Some p1, nor := f2\<rparr>)"
    using p(1) er(1) wr(1) by (simp add: bflb_ota_update_def not_less [symmetric])
  show ?thesis by (rule that [OF run, of p1]) (use er(4,5) up' keep in simp_all)
qed

text \<open>A client that sends pieces of the file, each with the address of its buffer, and stops at the first error.\<close>

fun upload :: "'f flash_driver \<Rightarrow> u32 \<Rightarrow> (u32 \<times> nat \<times> bytes) list \<Rightarrow> 'f ota_world \<Rightarrow> (int \<times> 'f ota_world) option" where
  "upload dev sz [] w = Some (0, w)"
| "upload dev sz ((ptr, off, d) # ps) w = do {
     (ret, w) \<leftarrow> bflb_ota_update dev sz (of_nat off) (Some (ptr, d)) (of_nat (length d)) w;
     if ret \<noteq> 0 then Some (ret, w) else upload dev sz ps w
   }"

definition pieces_of :: "bytes \<Rightarrow> (u32 \<times> nat \<times> bytes) list \<Rightarrow> bool" where
  "pieces_of file ps = (\<forall>(ptr, off, d) \<in> set ps. d \<noteq> [] \<and> off + length d \<le> length file \<and> d = slice file off (length d))"

definition sent :: "(u32 \<times> nat \<times> bytes) list \<Rightarrow> nat set" where
  "sent ps = (\<Union>(ptr, off, d) \<in> set ps. {off..<off + length d})"

lemma upload_runs:
  assumes dev: "nor_driver view dev" and base: "base mod 4096 = 0" "base + 0x100000 \<le> 2 ^ 32" and flen: "length file \<le> 0x100000"
    and sz: "unat sz = length file"
  shows "pieces_of file ps \<Longrightarrow> ota_parm w = Some p \<Longrightarrow> unat (mtd_offset (ota_handle p)) = base \<Longrightarrow> file_size p = sz \<Longrightarrow>
    uploading view base file C p (nor w) \<Longrightarrow>
    \<exists>w' p'. upload dev sz ps w = Some (0, w') \<and> ota_parm w' = Some p' \<and> ota_handle p' = ota_handle p \<and> file_size p' = sz \<and>
      uploading view base file (C \<union> sent ps) p' (nor w') \<and>
      (\<forall>x. x < base \<or> base + 0x100000 \<le> x \<longrightarrow> view (nor w') x = view (nor w) x) \<and> pt w' = pt w \<and> boot2 w' = boot2 w"
proof (induction ps arbitrary: w p C)
  case Nil
  then show ?case by (simp add: sent_def)
next
  case (Cons c ps)
  obtain ptr off d where c: "c = (ptr, off, d)" by (cases c)
  have d: "d \<noteq> []" "off + length d \<le> length file" "d = slice file off (length d)" and ps: "pieces_of file ps"
    using Cons.prems(1) by (auto simp: pieces_of_def c)
  have "unat (file_size p) = length file" using Cons.prems(4) sz by simp
  from update_runs [OF dev base flen Cons.prems(2,3) this Cons.prems(5) d] obtain w1 p1 where w1:
    "bflb_ota_update dev sz (of_nat off) (Some (ptr, d)) (of_nat (length d)) w = Some (0, w1)"
    "ota_parm w1 = Some p1" "ota_handle p1 = ota_handle p" "file_size p1 = sz"
    "uploading view base file (C \<union> {off..<off + length d}) p1 (nor w1)"
    "\<And>x. x < base \<or> base + 0x100000 \<le> x \<Longrightarrow> view (nor w1) x = view (nor w) x" "pt w1 = pt w" "boot2 w1 = boot2 w"
    using Cons.prems(4) by metis
  have "unat (mtd_offset (ota_handle p1)) = base" using w1(3) Cons.prems(3) by simp
  from Cons.IH [OF ps w1(2) this w1(4,5)] obtain w2 p2 where w2: "upload dev sz ps w1 = Some (0, w2)" "ota_parm w2 = Some p2"
    "ota_handle p2 = ota_handle p1" "file_size p2 = sz" "uploading view base file (C \<union> {off..<off + length d} \<union> sent ps) p2 (nor w2)"
    "\<And>x. x < base \<or> base + 0x100000 \<le> x \<Longrightarrow> view (nor w2) x = view (nor w1) x" "pt w2 = pt w1" "boot2 w2 = boot2 w1"
    by blast
  moreover have "C \<union> {off..<off + length d} \<union> sent ps = C \<union> sent (c # ps)" by (auto simp: sent_def c)
  ultimately show ?case using w1 by (intro exI [of _ w2] exI [of _ p2]) (simp add: c)
qed

section \<open>Whole updates\<close>

lemma driver_succeeds:
  assumes dev: "nor_driver view dev" and r: "pt_table_update_entry (use_driver dev g) i s e f = Some (status, t, f')"
  shows "status \<noteq> PT_ERROR_FALSH_WRITE"
proof -
  have e: "fst (bflb_flash_erase dev a n f) = 0" and w: "fst (bflb_flash_write dev a d f) = 0" for a n d f
    using dev by (simp_all add: nor_driver_def healthy_flash_def)
  show ?thesis
    using r unfolding pt_table_update_entry_def use_driver_def pt_table_set_flash_operation_def
    by (auto simp: Let_def split_beta e w bind_eq_Some_conv split: option.splits if_splits)
qed

lemma tables_cong:
  assumes "\<And>x. x < 0x10000 \<Longrightarrow> view f' x = view f x"
  shows "copy_at view f' i = copy_at view f i"
proof -
  have "unat (table_address i) + 596 \<le> 0x10000" by (simp add: table_address_def table_addresses)
  then show ?thesis using assms by (simp add: flash_table_def)
qed

lemma boots_cong:
  assumes "\<And>x. x < 0x10000 \<Longrightarrow> view f' x = view f x"
  shows "ready view f' s e = ready view f s e" "boots view f' = boots view f"
proof -
  have c: "copy_at view f' i = copy_at view f i" for i by (rule tables_cong) (rule assms)
  show "ready view f' s e = ready view f s e" "boots view f' = boots view f" by (simp_all only: ready_def boots_def c)
qed

lemma start_runs:
  assumes dev: "nor_driver view dev" and "ota_parm w = None" and r: "ready view (nor w) s e"
    and b: "length (boot2_table (boot2 w)) = 596" "valid_table (boot2_table (boot2 w))" "well_named (boot2_table (boot2 w))"
      "firmware (boot2_table (boot2 w)) = Some eb" "active_index eb \<in> {0, 1}" "spare_slot eb \<noteq> 0"
    and sz: "sz \<le> max_len e (unat (lnot (active_index e)))" and bufs: "length b0 = 596" "length b1 = 596"
  obtains h where "bflb_ota_start dev (True, True) (b0, b1) ebuf sz w = Some (0, w\<lparr>pt := use_driver dev (pt w),
      ota_parm := Some \<lparr>ota_handle = h, file_size = sz, sector_erased = replicate 8 0\<rparr>\<rparr>)" "mtd_offset h = spare_slot eb"
proof -
  obtain h where h: "bflb_mtd_open True (boot2 w) BL_MTD_PARTITION_NAME_FW_DEFAULT BFLB_MTD_OPEN_FLAG_BACKUP = Some (Opened h)"
      "mtd_offset h = spare_slot eb"
    using open_spare [OF b] by blast
  let ?w = "w\<lparr>pt := use_driver dev (pt w)\<rparr>"
  have "active_entry (b0, b1) ebuf ?w = Some (Inr (active_at view (nor w), s, e), ?w)"
    using active_entry_eq [of view ?w s e b0 b1 ebuf] nor_driver_flash [OF dev] r bufs by simp
  then have "bflb_ota_start dev (True, True) (b0, b1) ebuf sz w = Some (0, w\<lparr>pt := use_driver dev (pt w),
      ota_parm := Some \<lparr>ota_handle = h, file_size = sz, sector_erased = replicate 8 0\<rparr>\<rparr>)"
    using assms(2) h(1) sz by (simp add: bflb_ota_start_def Let_def not_less)
  with h(2) that show ?thesis by blast
qed

text \<open>A client that installs a file: start, upload, and finish with the check.\<close>

definition install ::
  "'f flash_driver \<Rightarrow> bytes \<times> bytes \<Rightarrow> bytes \<Rightarrow> bytes \<Rightarrow> sha256_context \<Rightarrow> u32 \<Rightarrow> (u32 \<times> nat \<times> bytes) list \<Rightarrow> 'f ota_world \<Rightarrow>
   (int \<times> 'f ota_world) option" where
  "install dev tables entry r_buf ctx sz ps w = do {
     (ret, w) \<leftarrow> bflb_ota_start dev (True, True) tables entry sz w;
     if ret \<noteq> 0 then Some (ret, w)
     else do {
       (ret, w) \<leftarrow> upload dev sz ps w;
       if ret \<noteq> 0 then Some (ret, w) else bflb_ota_finish dev True tables entry r_buf ctx 1 w
     }
   }"

lemma install_runs:
  assumes dev: "nor_driver view dev" and idle: "ota_parm w = None" and r: "ready view (nor w) s e"
    and b: "length (boot2_table (boot2 w)) = 596" "valid_table (boot2_table (boot2 w))" "well_named (boot2_table (boot2 w))"
      "firmware (boot2_table (boot2 w)) = Some eb" "active_index eb \<in> {0, 1}"
    and base: "unat (spare_slot eb) = base" "0x10000 \<le> base" "base mod 4096 = 0" "base + 0x100000 \<le> 2 ^ 32"
    and n: "n = length file" "32 < n" "n \<le> 0x100000" "n \<le> unat (max_len e (unat (lnot (active_index e))))"
    and ps: "pieces_of file ps" "sent ps = {..<n}" and bufs: "length b0 = 596" "length b1 = 596" "length r_buf = 512"
  obtains res w' where "install dev (b0, b1) ebuf r_buf ctx (of_nat n) ps w = Some (res, w')" "ota_parm w' = None"
    "area view (nor w') base n = file" "boot2 w' = boot2 w"
    "\<And>x. x < 0xE000 \<or> 0x10000 \<le> x \<and> (x < base \<or> base + 0x100000 \<le> x) \<Longrightarrow> view (nor w') x = view (nor w) x"
    "sha256 (take (n - 32) file) = drop (n - 32) file \<Longrightarrow> res = 0 \<and> boots view (nor w') = Some (spare_slot e, of_nat (n - 32)) \<and>
      (age s \<noteq> - 2 \<longrightarrow> (\<exists>s'. ready view (nor w') s' (next_entry (of_nat (n - 32)) e)))"
    "sha256 (take (n - 32) file) \<noteq> drop (n - 32) file \<Longrightarrow> res = - 1 \<and> boots view (nor w') = boots view (nor w)"
proof -
  let ?sz = "of_nat n :: u32"
  have u: "unat ?sz = n" using n(3) by (intro unat_of_nat_small) simp
  have "spare_slot eb \<noteq> 0" using base(1,2) by auto
  moreover have "?sz \<le> max_len e (unat (lnot (active_index e)))" using n(4) u by (simp add: word_le_nat_alt)
  ultimately obtain h where h: "bflb_ota_start dev (True, True) (b0, b1) ebuf ?sz w = Some (0, w\<lparr>pt := use_driver dev (pt w),
      ota_parm := Some \<lparr>ota_handle = h, file_size = ?sz, sector_erased = replicate 8 0\<rparr>\<rparr>)" "mtd_offset h = spare_slot eb"
    using start_runs [OF dev idle r b _ _ bufs(1,2)] by metis
  define p where "p = \<lparr>ota_handle = h, file_size = ?sz, sector_erased = replicate 8 0\<rparr>"
  define w1 where "w1 = w\<lparr>pt := use_driver dev (pt w), ota_parm := Some p\<rparr>"
  have p: "ota_parm w1 = Some p" "unat (mtd_offset (ota_handle p)) = base" "file_size p = ?sz"
    by (simp_all add: w1_def p_def h(2) base(1))
  have "erased p (i div 4096) = False" if "i < 0x100000" for i
    using that by (simp add: erased_def p_def less_mult_imp_div_less div_mult2_eq [symmetric])
  then have "uploading view base file {} p (nor w1)" by (simp add: uploading_def p_def)
  from upload_runs [OF dev base(3,4) _ _ ps(1) p this] n(1,3) u obtain w2 p2 where w2: "upload dev ?sz ps w1 = Some (0, w2)"
    "ota_parm w2 = Some p2" "ota_handle p2 = ota_handle p" "file_size p2 = ?sz" "uploading view base file (sent ps) p2 (nor w2)"
    "\<And>x. x < base \<or> base + 0x100000 \<le> x \<Longrightarrow> view (nor w2) x = view (nor w1) x" "pt w2 = pt w1" "boot2 w2 = boot2 w1"
    by auto
  have all: "view (nor w2) (base + i) = file ! i" if "i < n" for i
    using w2(5) that n(3) ps(2) by (auto simp: uploading_def)
  have A: "area view (nor w2) (base + i) k = slice file i k" if "i + k \<le> n" for i k
    using all that n(1) by (intro nth_equalityI) (simp_all add: length_slice nth_slice area_def add.assoc)
  have w2w: "view (nor w2) x = view (nor w) x" if "x < base \<or> base + 0x100000 \<le> x" for x
    using w2(6) [OF that] by (simp add: w1_def)
  then have low: "view (nor w2) x = view (nor w) x" if "x < 0x10000" for x using that base(2) by simp
  note bc = boots_cong [where view = view and f = "nor w" and f' = "nor w2", OF low]
  have r2: "ready view (nor w2) s e" using r bc(1) by blast
  have pt2: "pt w2 = use_driver dev (pt w)" using w2(7) by (simp add: w1_def)
  then have nor2: "nor_flash view (pt w2)" "use_driver dev (pt w2) = pt w2" using nor_driver_flash [OF dev] by simp_all
  have p2: "32 < file_size p2" "unat (mtd_offset (ota_handle p2)) = base" "base + unat (file_size p2) \<le> 2 ^ 32"
    using n(2,3) u base(4) p(2) w2(3,4) by (simp_all add: word_less_nat_alt)
  define ok where "ok = ((1 :: u8) \<noteq> 0 \<longrightarrow> True \<and> sha256 (area view (nor w2) base (unat (file_size p2) - 32)) =
        area view (nor w2) (base + (unat (file_size p2) - 32)) 32)"
  have "slice file 0 (n - 32) = take (n - 32) file" "slice file (n - 32) 32 = drop (n - 32) file" using n(1,2) by (simp_all add: slice_def)
  then have ok: "ok \<longleftrightarrow> sha256 (take (n - 32) file) = drop (n - 32) file"
    using A [of 0 "n - 32"] A [of "n - 32" 32] n(2) u by (simp add: ok_def w2(4))
  from finish_runs [OF nor2 w2(2) p2(1) r2 p2(2,3) bufs ok_def] obtain res w' where fin:
    "bflb_ota_finish dev True (b0, b1) ebuf r_buf ctx 1 w2 = Some (res, w')" "ota_parm w' = None"
    "\<And>x. x < 0xE000 \<or> 0x10000 \<le> x \<Longrightarrow> view (nor w') x = view (nor w2) x"
    "\<not> ok \<Longrightarrow> res = - 1 \<and> nor w' = nor w2"
    "ok \<Longrightarrow> res = 0 \<and> (\<exists>status t. pt_table_update_entry (pt w2) (other_id (active_at view (nor w2))) (Some s)
        (Some (next_entry (file_size p2 - 32) e)) (nor w2) = Some (status, t, nor w') \<and>
        (status = PT_ERROR_SUCCESS \<or> status = PT_ERROR_FALSH_WRITE) \<and>
        (status = PT_ERROR_SUCCESS \<longrightarrow> boots view (nor w') = Some (spare_slot e, file_size p2 - 32) \<and>
          (age s \<noteq> - 2 \<longrightarrow> (\<exists>s'. ready view (nor w') s' (next_entry (file_size p2 - 32) e)))))"
    "boot2 w' = boot2 w2"
    by metis
  have run: "install dev (b0, b1) ebuf r_buf ctx ?sz ps w = Some (res, w')"
    using h(1) w2(1) fin(1) by (simp add: install_def w1_def p_def)
  have "?sz - 32 = of_nat (n - 32)" using n(2) by (simp add: of_nat_diff)
  then have installed: "res = 0 \<and> boots view (nor w') = Some (spare_slot e, of_nat (n - 32)) \<and>
      (age s \<noteq> - 2 \<longrightarrow> (\<exists>s'. ready view (nor w') s' (next_entry (of_nat (n - 32)) e)))" if "ok"
    using fin(5) [OF that] driver_succeeds [OF dev] pt2 w2(4) by fastforce
  show ?thesis
  proof (rule that [OF run fin(2)])
    show "area view (nor w') base n = file"
    proof -
      have "area view (nor w') base n = area view (nor w2) base n" using fin(3) base(2) by (simp add: area_def)
      then show ?thesis using A [of 0 n] n(1) by (simp add: slice_all)
    qed
    show "view (nor w') x = view (nor w) x" if "x < 0xE000 \<or> 0x10000 \<le> x \<and> (x < base \<or> base + 0x100000 \<le> x)" for x
      using that fin(3) [of x] w2w [of x] base(2) by auto
    show "boot2 w' = boot2 w" using fin(6) w2(8) by (simp add: w1_def)
  qed (use ok installed fin(4) bc(2) in auto)
qed

end
