(* ===== verification/Ota_Run.thy ===== *)
theory Ota_Run
  imports Ota_Update
begin

text \<open>
  The properties of the firmware update: the end of an update, a whole update, and two updates
  without a restart in between.
\<close>

section \<open>A device to run on\<close>

definition sim_driver :: "(nat \<Rightarrow> u8) flash_driver" where
  "sim_driver =
     \<lparr>bflb_flash_erase = \<lambda>a n f. (0, \<lambda>x. if touched (unat a) (unat n) x then 0xFF else f x),
      bflb_flash_write = \<lambda>a d f. (0, \<lambda>x. if unat a \<le> x \<and> x < unat a + length d then f x AND d ! (x - unat a) else f x),
      bflb_flash_read = \<lambda>a buf f. (0, map f [unat a..<unat a + length buf], f)\<rparr>"

lemma sim_driver: "nor_driver (\<lambda>f. f) sim_driver"
  by (simp add: nor_driver_def healthy_flash_def sim_driver_def)

definition sample_entry :: bytes where
  "sample_entry = [0, 0, 0, 0x46, 0x57, 0, 0, 0, 0, 0, 0, 0] @ bytes32 0x10000 @ bytes32 0x110000 @ bytes32 0x100000 @ bytes32 0x100000 @
     bytes32 0x8000 @ bytes32 0"

lemma sample_entry:
  "length sample_entry = 36" "entry_name sample_entry = [0x46, 0x57, 0, 0, 0, 0, 0, 0, 0]" "active_index sample_entry = 0"
  "spare_slot sample_entry = 0x110000" "active_slot sample_entry = 0x10000" "max_len sample_entry 1 = 0x100000"
  "max_len sample_entry 0 = 0x100000" "entry_len sample_entry = 0x8000"
  by (simp_all add: sample_entry_def entry_name_def active_index_def slice_def spare_slot_def active_slot_def start_address_def max_len_def
      lnot_def entry_len_def le32_def bytes32_def)

lemma sample_flash:
  obtains s f where "ready (\<lambda>f. f) f s sample_entry" "age s = 1" "length s = 596" "good_table s" "firmware s = Some sample_entry"
proof -
  obtain s0 where s0: "length s0 = 596" "valid_table s0" "entryCnt s0 = 0" "age s0 = 0"
    using some_table [of 0 0] by (auto simp: PT_ENTRY_MAX_def)
  from update_bytes [OF s0(1,2) sample_entry(1), of 0] s0(3) obtain s where s: "length s = 596" "valid_table s"
    "entries s = upd_entry sample_entry (entries s0)" "age s = age s0 + 1"
    by (auto simp: PT_ENTRY_MAX_def)
  have "entries s0 = []" by (simp add: entries_def s0(3))
  then have ent: "entries s = [sample_entry]" by (simp add: s(3))
  have fw: "firmware s = Some sample_entry"
    by (simp add: firmware_def ent named_def sample_entry(2) cname_def BL_MTD_PARTITION_NAME_FW_DEFAULT_def)
  have good: "good_table s" using s(2,4) s0(4) by (simp add: good_table_def well_named_def ent sample_entry(2))
  define f :: "nat \<Rightarrow> u8" where "f = (\<lambda>x. if 0xE000 \<le> x \<and> x < 0xE000 + 596 then s ! (x - 0xE000) else 0)"
  have c0: "copy_at (\<lambda>f. f) f PT_TABLE_ID_0 = s"
    using map_offset [OF s(1), of "0xE000" 0] unfolding flash_table_def f_def table_address_ids table_addresses .
  have "copy_at (\<lambda>f. f) f PT_TABLE_ID_1 = replicate 596 0"
    unfolding flash_table_def f_def table_address_ids table_addresses by (rule map_elsewhere) simp
  then have "magicCode (copy_at (\<lambda>f. f) f PT_TABLE_ID_1) = 0"
    by (simp add: magicCode_def le32_def slice_def replicate_four)
  then have c1: "\<not> valid_table (copy_at (\<lambda>f. f) f PT_TABLE_ID_1)"
    by (simp add: valid_table_def BFLB_PT_MAGIC_CODE_def)
  have "active_at (\<lambda>f. f) f = PT_TABLE_ID_0" using c0 c1 s(2) by (simp add: active_id_def)
  then have "ready (\<lambda>f. f) f s sample_entry" using c0 good fw sample_entry(3) by (simp add: ready_def)
  then show ?thesis using that good fw s(1,4) s0(4) by simp
qed

section \<open>The end of an update\<close>


text \<open>A world after the start of an update of 40 bytes, on a flash that is 0 in the new slot.\<close>

definition sample_world :: "bytes \<Rightarrow> (nat \<Rightarrow> u8) \<Rightarrow> bflb_ota_parm option \<Rightarrow> (nat \<Rightarrow> u8) ota_world" where
  "sample_world s f p = \<lparr>pt = use_driver sim_driver nor_sim,
     boot2 = \<lparr>partition_active_idx = 0, boot2_table = s, write_active_idx = 0, write_table = s\<rparr>, ota_parm = p, nor = f\<rparr>"



section \<open>A whole update\<close>


text \<open>A file with its digest, and two pieces that overlap, the second one from flash.\<close>

definition sample_file :: bytes where
  "sample_file = [1, 2, 3] @ sha256 [1, 2, 3]"

definition sample_pieces :: "(u32 \<times> nat \<times> bytes) list" where
  "sample_pieces = [(0x62FC0000, 20, slice sample_file 20 15), (0xA0001000, 0, slice sample_file 0 25)]"

lemma sample_sent: "length sample_file = 35" "pieces_of sample_file sample_pieces" "sent sample_pieces = {..<35}"
  "sha256 (take 3 sample_file) = drop 3 sample_file"
proof -
  show l: "length sample_file = 35" by (auto simp: sample_file_def sha256_def be_bytes32_def split: prod.splits)
  show "pieces_of sample_file sample_pieces" "sent sample_pieces = {..<35}"
    using l by (auto simp: pieces_of_def sent_def sample_pieces_def length_slice) (simp_all add: slice_def)
  show "sha256 (take 3 sample_file) = drop 3 sample_file" by (simp add: sample_file_def)
qed


section \<open>Two updates without a restart\<close>

text \<open>
  C18: after a successful update the table in memory still has the old active slot, so a second
  update without a restart is written over the first one, while the table in flash is switched
  back: both updates report success, and the device then starts the old firmware's slot, whose
  bytes are those from before, with the length of the second image.
\<close>

theorem ota_two_updates:
  assumes dev: "nor_driver view dev" and idle: "ota_parm w = None" and r: "ready view (nor w) s e" and sync: "boot2_table (boot2 w) = s"
    and ag: "age s \<noteq> - 2" and base: "unat (spare_slot e) = base" "0x10000 \<le> base" "base mod 4096 = 0" "base + 0x100000 \<le> 2 ^ 32"
    and n: "n = length file" "32 < n" "n \<le> 0x100000" "n \<le> unat (max_len e (unat (lnot (active_index e))))"
    and ps: "pieces_of file ps" "sent ps = {..<n}" and ok: "sha256 (take (n - 32) file) = drop (n - 32) file"
    and n2: "n2 = length file2" "32 < n2" "n2 \<le> 0x100000" "n2 \<le> unat (max_len e (unat (active_index e)))"
    and ps2: "pieces_of file2 ps2" "sent ps2 = {..<n2}" and ok2: "sha256 (take (n2 - 32) file2) = drop (n2 - 32) file2"
    and old: "0x10000 \<le> unat (active_slot e)" "unat (active_slot e) + k \<le> base \<or> base + 0x100000 \<le> unat (active_slot e)"
    and bufs: "length b0 = 596" "length b1 = 596" "length r_buf = 512"
  shows "case install dev (b0, b1) ebuf r_buf ctx (of_nat n) ps w of None \<Rightarrow> False
    | Some (res1, w1) \<Rightarrow>
        res1 = 0 \<and> boots view (nor w1) = Some (spare_slot e, of_nat (n - 32)) \<and>
        (case install dev (b0, b1) ebuf r_buf ctx (of_nat n2) ps2 w1 of None \<Rightarrow> False
         | Some (res2, w2) \<Rightarrow>
             res2 = 0 \<and> area view (nor w2) base n2 = file2 \<and>
             boots view (nor w2) = Some (active_slot e, of_nat (n2 - 32)) \<and>
             area view (nor w2) (unat (active_slot e)) k = area view (nor w) (unat (active_slot e)) k)"
proof -
  have b: "length (boot2_table (boot2 w)) = 596" "valid_table (boot2_table (boot2 w))" "well_named (boot2_table (boot2 w))"
    "firmware (boot2_table (boot2 w)) = Some e" "active_index e \<in> {0, 1}"
    using readyD [OF r] r unfolding sync by (simp_all add: ready_def)
  from install_runs [OF dev idle r b base n ps bufs] obtain w1 s' where i:
    "install dev (b0, b1) ebuf r_buf ctx (of_nat n) ps w = Some (0, w1)" "ota_parm w1 = None" "boot2 w1 = boot2 w"
    "\<And>x. x < 0xE000 \<or> 0x10000 \<le> x \<and> (x < base \<or> base + 0x100000 \<le> x) \<Longrightarrow> view (nor w1) x = view (nor w) x"
    "boots view (nor w1) = Some (spare_slot e, of_nat (n - 32))" "ready view (nor w1) s' (next_entry (of_nat (n - 32)) e)"
    using ok ag by metis
  let ?e = "next_entry (of_nat (n - 32)) e"
  note f = next_entry_fields [OF readyD(4) [OF r], where n = "of_nat (n - 32)"]
  have ai: "unat (lnot (active_index ?e)) = unat (active_index e)" "unat (active_index e) < 2"
    using b(5) by (auto simp: f(4) other_index_def lnot_def)
  have sp: "spare_slot ?e = active_slot e" using f(7) ai by (simp add: spare_slot_def active_slot_def)
  have mx: "n2 \<le> unat (max_len ?e (unat (lnot (active_index ?e))))" using n2(4) f(8) ai by simp
  note b' = b [folded i(3)]
  from install_runs [OF dev i(2,6) b' base n2(1-3) mx ps2 bufs] obtain res2 w2 where j0:
    "install dev (b0, b1) ebuf r_buf ctx (of_nat n2) ps2 w1 = Some (res2, w2)" "ota_parm w2 = None" "area view (nor w2) base n2 = file2"
    "boot2 w2 = boot2 w1"
    "\<And>x. x < 0xE000 \<or> 0x10000 \<le> x \<and> (x < base \<or> base + 0x100000 \<le> x) \<Longrightarrow> view (nor w2) x = view (nor w1) x"
    "sha256 (take (n2 - 32) file2) = drop (n2 - 32) file2 \<Longrightarrow> res2 = 0 \<and> boots view (nor w2) = Some (spare_slot ?e, of_nat (n2 - 32)) \<and>
      (age s' \<noteq> - 2 \<longrightarrow> (\<exists>s''. ready view (nor w2) s'' (next_entry (of_nat (n2 - 32)) ?e)))"
    "sha256 (take (n2 - 32) file2) \<noteq> drop (n2 - 32) file2 \<Longrightarrow> res2 = - 1 \<and> boots view (nor w2) = boots view (nor w1)"
    by blast
  have j: "res2 = 0" "boots view (nor w2) = Some (active_slot e, of_nat (n2 - 32))"
    using j0(6) [OF ok2] unfolding sp by simp_all
  have "area view (nor w2) (unat (active_slot e)) k = area view (nor w) (unat (active_slot e)) k"
  proof (rule area_cong)
    fix x assume "unat (active_slot e) \<le> x" "x < unat (active_slot e) + k"
    then have "x < 0xE000 \<or> 0x10000 \<le> x \<and> (x < base \<or> base + 0x100000 \<le> x)" using old by linarith
    then show "view (nor w2) x = view (nor w) x" using i(4) j0(5) by simp
  qed
  then show ?thesis unfolding i(1) j0(1) option.case prod.case using i(5) j0(3) j by simp
qed

theorem ota_two_updates_witness:
  "\<exists>s f. boots (\<lambda>f. f) f = Some (0x10000, 0x8000) \<and>
    (case install sim_driver (replicate 596 0, replicate 596 0) [] (replicate 512 0) \<lparr>total = [], state = [], buffer = [], is224 = 0\<rparr>
        35 sample_pieces (sample_world s f None) of None \<Rightarrow> False
     | Some (res1, w1) \<Rightarrow>
        (case install sim_driver (replicate 596 0, replicate 596 0) [] (replicate 512 0) \<lparr>total = [], state = [], buffer = [], is224 = 0\<rparr>
            35 sample_pieces w1 of None \<Rightarrow> False
         | Some (res2, w2) \<Rightarrow> res1 = 0 \<and> res2 = 0 \<and> boots (\<lambda>f. f) (nor w2) = Some (0x10000, 3)))"
proof -
  obtain s f where s: "ready (\<lambda>f. f) f s sample_entry" "age s = 1" by (rule sample_flash)
  have "boots (\<lambda>f. f) f = Some (0x10000, 0x8000)" using boots_ready [OF s(1)] sample_entry(5,8) by simp
  moreover define w where "w = sample_world s f None"
  have w: "ota_parm w = None" "ready (\<lambda>f. f) (nor w) s sample_entry" "boot2_table (boot2 w) = s"
    using s(1) by (simp_all add: w_def sample_world_def)
  have base: "unat (spare_slot sample_entry) = 0x110000" "(0x10000 :: nat) \<le> 0x110000" "(0x110000 :: nat) mod 4096 = 0" "(0x110000 :: nat) + 0x100000 \<le> 2 ^ 32"
    by (simp_all add: sample_entry(4))
  have n: "35 = length sample_file" "(32 :: nat) < 35" "(35 :: nat) \<le> 0x100000" "35 \<le> unat (max_len sample_entry (unat (lnot (active_index sample_entry))))"
    by (simp_all add: sample_sent(1) sample_entry(3) sample_entry(6) [unfolded One_nat_def] lnot_def)
  have n2: "35 \<le> unat (max_len sample_entry (unat (active_index sample_entry)))" and ag: "age s \<noteq> - 2"
    and ok: "sha256 (take (35 - 32) sample_file) = drop (35 - 32) sample_file"
    and old: "0x10000 \<le> unat (active_slot sample_entry)"
      "unat (active_slot sample_entry) + 100 \<le> 0x110000 \<or> 0x110000 + 0x100000 \<le> unat (active_slot sample_entry)"
    using s(2) sample_sent(4) by (simp_all add: sample_entry(3,5,7))
  note run = ota_two_updates [where ebuf = "[]" and ctx = "\<lparr>total = [], state = [], buffer = [], is224 = 0\<rparr>",
      OF sim_driver w ag base n sample_sent(2,3) ok n(1-3) n2 sample_sent(2,3) ok old length_replicate [of 596 "0 :: u8"] length_replicate [of 596 "0 :: u8"] length_replicate [of 512 "0 :: u8"]]
  have "case install sim_driver (replicate 596 0, replicate 596 0) [] (replicate 512 0) \<lparr>total = [], state = [], buffer = [], is224 = 0\<rparr>
        35 sample_pieces w of None \<Rightarrow> False
     | Some (res1, w1) \<Rightarrow>
        (case install sim_driver (replicate 596 0, replicate 596 0) [] (replicate 512 0) \<lparr>total = [], state = [], buffer = [], is224 = 0\<rparr>
            35 sample_pieces w1 of None \<Rightarrow> False
         | Some (res2, w2) \<Rightarrow> res1 = 0 \<and> res2 = 0 \<and> boots (\<lambda>f. f) (nor w2) = Some (0x10000, 3))"
    using run by (simp split: option.split_asm option.split add: case_prod_beta sample_entry(5))
  then show ?thesis using calculation unfolding w_def by (intro exI [of _ s] exI [of _ f]) simp
qed

section \<open>Updates that leave their objects\<close>

text \<open>
  The bitmap has room for 1 MiB, but \<open>bflb_ota_start\<close> accepts any file that fits the slot: an update
  from there on reads the bitmap behind its end.
\<close>

lemma update_past_bitmap:
  assumes p: "ota_parm w = Some p" "length (sector_erased p) = 8" and off: "0x100000 \<le> unat offset"
    and fits: "unat offset + unat buf_len \<le> unat (file_size p)" "0 < unat buf_len" and "filesize \<le> file_size p"
  shows "bflb_ota_update dev filesize offset (Some b) buf_len w = None"
proof -
  have sum: "unat (offset + buf_len) = unat offset + unat buf_len"
    using fits(1) by (intro unat_plus_small) (simp add: below_u32(2))
  then have "unat (offset + buf_len - 1) = unat offset + unat buf_len - 1"
    using fits(2) by (subst unat_sub_le) (simp_all add: word_le_nat_alt)
  then have le: "offset div 4096 \<le> (offset + buf_len - 1) div 4096"
    using fits(2) by (simp add: word_le_nat_alt unat_div div_le_mono)
  have "256 \<le> unat offset div 4096" using div_le_mono [OF off, of 4096] by simp
  then have "8 \<le> unat offset div 4096 div 32" using div_le_mono [of 256 "unat offset div 4096" 32] by simp
  then have "mem_get (sector_erased p) (unat (offset div 4096 div 32)) = None"
    by (simp add: mem_get_def p(2) unat_div)
  then have "bflb_ota_erase dev offset buf_len p (nor w) = None"
    using le by (simp add: bflb_ota_erase_def erase_loop.simps [of _ "offset div 4096"])
  moreover have "\<not> file_size p < offset + buf_len" "buf_len \<noteq> 0"
    using fits sum by (auto simp: word_less_nat_alt)
  ultimately show ?thesis using p(1) assms(6) by (simp add: bflb_ota_update_def not_less)
qed

text \<open>
  The check of an update adds in 32 bits: an offset near the end of the address space passes it,
  no sector is erased, and the bytes are written from 4096 bytes before the slot on.
\<close>

lemma update_before_slot:
  assumes "ota_parm w = Some p" and "0 < file_size p" and "0x1001 \<le> length d"
  shows "bflb_ota_update dev 0 0xFFFFF000 (Some (0x62FC0000, d)) 0x1001 w =
    Some (0, w\<lparr>nor := snd (bflb_flash_write dev (mtd_offset (ota_handle p) + 0xFFFFF000) (take 0x1001 d) (nor w))\<rparr>)"
proof -
  have "bflb_ota_erase dev 0xFFFFF000 0x1001 p (nor w) = Some (0, p, nor w)"
    by (simp add: bflb_ota_erase_def erase_loop.simps)
  moreover have one: "(4294967297 :: u32) = 1" by (simp add: word_unat_eq_iff)
  have "\<not> file_size p < 4294967297" using assms(2) unfolding one by (simp add: word_less_nat_alt)
  moreover have "w\<lparr>ota_parm := Some p, nor := f\<rparr> = w\<lparr>nor := f\<rparr>" for f using assms(1) by (cases w) simp
  ultimately show ?thesis
    using assms(1,3) by (simp add: bflb_ota_update_def bflb_mtd_write_def bflb_sys_isxipaddr_def mtd_write_def mem_simps split_beta)
qed

end
