(* ===== verification/Romfs.thy ===== *)
theory Romfs
  imports Common_Mem Bytes_LE
begin

text \<open>
  The read-only file system of \<^verbatim>\<open>components/fs/romfs/bflb_romfs.c\<close>, in its configuration for the BL616.
  The image lies in the flash, which is mapped into memory, and is only read.  Addresses are
  32-bit words, 0 is \<open>NULL\<close>; an address that is not mapped, a word access that is not aligned and
  a loop that does not end are \<open>None\<close>.  A path is the bytes of a C string before its 0.  The file's variable
  \<open>romfs_root\<close> is an argument.  The messages of \<^verbatim>\<open>ROMFS_ERROR\<close> and \<^verbatim>\<open>ROMFS_WARN\<close> are not modelled.
\<close>

section \<open>Memory\<close>

fun load_bytes :: "mem \<Rightarrow> u32 \<Rightarrow> nat \<Rightarrow> bytes option" where
  "load_bytes m a 0 = Some []"
| "load_bytes m a (Suc n) = do { b \<leftarrow> m a; bs \<leftarrow> load_bytes m (a + 1) n; Some (b # bs) }"

definition load_word32 :: "mem \<Rightarrow> u32 \<Rightarrow> u32 option" where
  "load_word32 m a = do { (b0, b1, b2, b3) \<leftarrow> load32 m a; Some (le_word [b0, b1, b2, b3]) }"

partial_function (option) strlen_at :: "mem \<Rightarrow> u32 \<Rightarrow> u32 option" where
  "strlen_at m a = do {
     b \<leftarrow> m a;
     if b = 0 then Some 0 else do { n \<leftarrow> strlen_at m (a + 1); Some (n + 1) }
   }"

text \<open>\<open>memcmp(xs, a, n) == 0\<close> for the \<open>n\<close> bytes \<open>xs\<close>; all \<open>n\<close> bytes at \<open>a\<close> have to exist.\<close>

definition same_at :: "mem \<Rightarrow> u32 \<Rightarrow> bytes \<Rightarrow> bool option" where
  "same_at m a xs = do { ys \<leftarrow> load_bytes m a (length xs); Some (ys = xs) }"

text \<open>\<open>strncmp(a, xs, n) == 0\<close> for \<open>n\<close> bytes \<open>xs\<close> that are not 0: it stops at the first difference.\<close>

fun starts_at :: "mem \<Rightarrow> u32 \<Rightarrow> bytes \<Rightarrow> bool option" where
  "starts_at m a [] = Some True"
| "starts_at m a (x # xs) = do { b \<leftarrow> m a; if b = x then starts_at m (a + 1) xs else Some False }"

section \<open>Constants and types\<close>

definition FLASH_XIP_BASE :: u32 where "FLASH_XIP_BASE = 0xA0000000"

definition ROMFS_MOUNTPOINT :: bytes where "ROMFS_MOUNTPOINT = [0x2F, 0x72, 0x6F, 0x6D, 0x66, 0x73]"

definition ROMFS_MAX_NAME_LEN :: nat where "ROMFS_MAX_NAME_LEN = 64"

definition ROMFS_S_IFDIR :: u32 where "ROMFS_S_IFDIR = 0x0040000"

definition ROMFS_S_IFREG :: u32 where "ROMFS_S_IFREG = 0x0100000"

definition ALIGNUP16 :: "u32 \<Rightarrow> u32" where
  "ALIGNUP16 x = (x + 15) AND NOT 15"

definition U32HTONL :: "u32 \<Rightarrow> u32" where
  "U32HTONL x = push_bit 24 (x AND 0x000000ff) OR push_bit 8 (x AND 0x0000ff00) OR
     drop_bit 8 (x AND 0x00ff0000) OR drop_bit 24 (x AND 0xff000000)"

datatype romfh = ROMFH_HRD | ROMFH_DIR | ROMFH_REG | ROMFH_UNKNOW

datatype romfs_whence_t = ROMFS_SEEK_SET | ROMFS_SEEK_CUR | ROMFS_SEEK_END

record romfs_stat_t =
  st_mode :: u32
  st_size :: u32

record romfs_file_t =
  f_arg :: u32
  offset :: u32
  fd :: int

record romfs_filebuf_t =
  buf :: u32
  bufsize :: u32

record romfs_dirent_t =
  d_ino :: int
  d_type :: romfh
  d_name :: bytes

record romfs_dir_t =
  dir_start_addr :: u32
  dir_end_addr :: u32
  dir_cur_addr :: u32
  cur_dirent :: romfs_dirent_t

section \<open>Checking a path\<close>

definition is_path_ch :: "u8 \<Rightarrow> bool" where
  "is_path_ch ch =
     ((0x61 \<le> ch \<and> ch \<le> 0x7A) \<or> (0x41 \<le> ch \<and> ch \<le> 0x5A) \<or> (0x30 \<le> ch \<and> ch \<le> 0x39) \<or>
      ch = 0x2F \<or> ch = 0x2E \<or> ch = 0x5F \<or> ch = 0x2D)"

text \<open>The loop over the characters; \<open>i_old\<close> has no value before it is assigned.\<close>

fun filter_loop :: "bytes \<Rightarrow> nat \<Rightarrow> nat option \<Rightarrow> int option" where
  "filter_loop [] i i_old = Some 0"
| "filter_loop (ch # path) i i_old =
     (if \<not> is_path_ch ch then Some (- 2)
      else if ch \<noteq> 0x2F then filter_loop path (Suc i) i_old
      else if i \<noteq> 0 then
        (case i_old of None \<Rightarrow> None
         | Some old \<Rightarrow> if i = old then Some (- 3) else filter_loop path (Suc i) (Some i))
      else filter_loop path (Suc i) (Some i))"

definition filter_format :: "bytes \<Rightarrow> int option" where
  "filter_format path =
     (if take 6 path \<noteq> ROMFS_MOUNTPOINT then Some (- 1) else filter_loop path 0 None)"

section \<open>Headers\<close>

definition dirent_type :: "mem \<Rightarrow> u32 \<Rightarrow> romfh option" where
  "dirent_type m addr = do {
     w \<leftarrow> load_word32 m addr;
     Some (if U32HTONL w AND 7 = 0 then ROMFH_HRD
           else if U32HTONL w AND 7 = 2 then ROMFH_REG
           else if U32HTONL w AND 7 = 1 then ROMFH_DIR
           else ROMFH_UNKNOW)
   }"

definition dirent_hardfh :: "mem \<Rightarrow> u32 \<Rightarrow> u32 option" where
  "dirent_hardfh m addr = do { w \<leftarrow> load_word32 m addr; Some (U32HTONL w AND 0xFFFFFFF0) }"

definition dirent_childaddr :: "mem \<Rightarrow> u32 \<Rightarrow> u32 option" where
  "dirent_childaddr m addr = do { w \<leftarrow> load_word32 m (addr + 4); Some (U32HTONL w AND 0xFFFFFFF0) }"

definition dirent_size :: "mem \<Rightarrow> u32 \<Rightarrow> u32 option" where
  "dirent_size m addr = do { w \<leftarrow> load_word32 m (addr + 8); Some (U32HTONL w) }"

definition romfs_endaddr :: "mem \<Rightarrow> u32 \<Rightarrow> u32 option" where
  "romfs_endaddr m romfs_root = do { w \<leftarrow> load_word32 m (romfs_root + 8); Some (romfs_root + U32HTONL w) }"

text \<open>The address behind a header and its name, as it is computed in five places.\<close>

definition payload_of :: "mem \<Rightarrow> u32 \<Rightarrow> u32 option" where
  "payload_of m addr = do { n \<leftarrow> strlen_at m (addr + 16); Some (addr + ALIGNUP16 (n + 1) + 16) }"

text \<open>The result is the return value and \<open>romfs_root\<close>; \<open>img\<close> is what \<open>bflb_flash_get_image_offset\<close> returns.\<close>

definition romfs_mount :: "mem \<Rightarrow> u32 \<Rightarrow> u32 \<Rightarrow> (int \<times> u32) option" where
  "romfs_mount m img addr = do {
     let romfs_root = FLASH_XIP_BASE + addr - img;
     found \<leftarrow> starts_at m romfs_root [0x2D, 0x72, 0x6F, 0x6D, 0x31, 0x66, 0x73, 0x2D];
     Some (if \<not> found then - 1 else 0, romfs_root)
   }"

section \<open>Finding an entry\<close>

text \<open>The comparison of a name of \<open>file_info\<close>.\<close>

definition name_matches :: "mem \<Rightarrow> u32 \<Rightarrow> bytes \<Rightarrow> bool option" where
  "name_matches m addr path = do {
     eq \<leftarrow> same_at m (addr + 16) path;
     if eq then do { b \<leftarrow> m (addr + (16 + of_nat (length path))); Some (b = 0) } else Some False
   }"

text \<open>The loop of \<open>file_info\<close>: the return value, \<open>addr_start\<close> and \<open>addr_end\<close>.\<close>

partial_function (option) file_info_loop ::
  "mem \<Rightarrow> u32 \<Rightarrow> bytes \<Rightarrow> u32 \<Rightarrow> u32 \<Rightarrow> (int \<times> u32 \<times> u32) option" where
  "file_info_loop m romfs_root path addr_start addr_end = do {
     ty \<leftarrow> dirent_type m addr_start;
     hit \<leftarrow> (if ty = ROMFH_DIR \<or> ty = ROMFH_REG then name_matches m addr_start path else Some False);
     h \<leftarrow> dirent_hardfh m addr_start;
     if ty = ROMFH_DIR \<and> hit then
       Some (0, addr_start, if h = 0 then addr_end else romfs_root + h)
     else if ty = ROMFH_REG \<and> hit then
       Some (0, addr_start, romfs_root + h)
     else if ty = ROMFH_UNKNOW then
       Some (- 1, addr_start, addr_end)
     else do {
       let addr_start = romfs_root + h;
       if addr_start \<ge> addr_end then Some (- 1, addr_start, addr_end)
       else file_info_loop m romfs_root path addr_start addr_end
     }
   }"

text \<open>\<open>*p_addr_start_input\<close> and \<open>*p_addr_end_input\<close> are passed and returned; an error does not change them.\<close>

definition file_info :: "mem \<Rightarrow> u32 \<Rightarrow> bytes \<Rightarrow> u32 \<Rightarrow> u32 \<Rightarrow> (int \<times> u32 \<times> u32) option" where
  "file_info m romfs_root path start_in end_in =
     (if ROMFS_MAX_NAME_LEN < length path then Some (- 1, start_in, end_in)
      else do {
        addr_start \<leftarrow> (if start_in = romfs_root then do { p \<leftarrow> payload_of m romfs_root; Some (p + 64) }
                        else Some start_in);
        (ret, addr_start, addr_end) \<leftarrow> file_info_loop m romfs_root path addr_start end_in;
        if ret \<noteq> 0 then Some (ret, start_in, end_in) else Some (0, addr_start, addr_end)
      })"

text \<open>
  The loop of \<open>dirent_file\<close> over the components of a path.  A component that is not the last one
  is copied to a buffer of 65 bytes; with 65 bytes or more it has no room, or no 0 behind it.
\<close>

function path_loop ::
  "mem \<Rightarrow> u32 \<Rightarrow> bytes \<Rightarrow> u32 \<Rightarrow> u32 \<Rightarrow> bool \<Rightarrow> (int \<times> u32 \<times> u32) option" where
  "path_loop m romfs_root p_name addr_start addr_end need_enter_child =
     (if p_name = [] then Some (0, addr_start, addr_end)
      else do {
        (self, addr_start) \<leftarrow>
          (if need_enter_child then do {
             c \<leftarrow> dirent_childaddr m addr_start;
             Some (addr_start = romfs_root + c, romfs_root + c)
           } else Some (False, addr_start));
        if self then Some (- 2, addr_start, addr_end)
        else if 0x2F \<notin> set p_name then
          (if length p_name > ROMFS_MAX_NAME_LEN then Some (- 1, addr_start, addr_end)
           else do {
             (ret, addr_start, addr_end) \<leftarrow> file_info m romfs_root p_name addr_start addr_end;
             Some (if ret \<noteq> 0 then (- 1, addr_start, addr_end) else (0, addr_start, addr_end))
           })
        else do {
          let name = takeWhile (\<lambda>c. c \<noteq> 0x2F) p_name;
          if length name > ROMFS_MAX_NAME_LEN then None
          else do {
            (ret, addr_start, addr_end) \<leftarrow> file_info m romfs_root name addr_start addr_end;
            if ret \<noteq> 0 then Some (- 1, addr_start, addr_end)
            else path_loop m romfs_root (drop (Suc (length name)) p_name) addr_start addr_end True
          }
        }
      })"
  by auto
termination by (relation "measure (\<lambda>(_, _, p, _). length p)") auto

declare path_loop.simps [simp del]

text \<open>\<open>dirent_file\<close>: the addresses are set on success only, and unused otherwise.\<close>

definition dirent_file :: "mem \<Rightarrow> u32 \<Rightarrow> bytes \<Rightarrow> (int \<times> u32 \<times> u32) option" where
  "dirent_file m romfs_root path =
     (if length path < length ROMFS_MOUNTPOINT then Some (- 1, 0, 0)
      else if take 6 path \<noteq> ROMFS_MOUNTPOINT then Some (- 1, 0, 0)
      else let p_name = drop 6 path in
      if p_name \<noteq> [] \<and> hd p_name \<noteq> 0x2F then Some (- 1, 0, 0)
      else do {
        let p_name = (if p_name \<noteq> [] then drop 1 p_name else p_name);
        let addr_start = romfs_root;
        addr_end \<leftarrow> romfs_endaddr m romfs_root;
        (ret, addr_start, addr_end) \<leftarrow> path_loop m romfs_root p_name addr_start addr_end False;
        if ret \<noteq> 0 then Some (ret, 0, 0) else Some (0, addr_start, addr_end)
      })"

section \<open>Files\<close>

definition romfs_open :: "mem \<Rightarrow> u32 \<Rightarrow> romfs_file_t \<Rightarrow> bytes \<Rightarrow> (int \<times> romfs_file_t) option" where
  "romfs_open m romfs_root fp path =
     (if romfs_root = 0 then Some (- 1, fp)
      else do {
        f \<leftarrow> filter_format path;
        if f \<noteq> 0 then Some (- 1, fp)
        else do {
          (ret, start_addr, end_addr) \<leftarrow> dirent_file m romfs_root path;
          if ret \<noteq> 0 then Some (- 2, fp)
          else Some (0, fp\<lparr>f_arg := start_addr, offset := 0\<rparr>)
        }
      })"

definition romfs_close :: "romfs_file_t \<Rightarrow> int \<times> romfs_file_t" where
  "romfs_close fp = (- 1, fp\<lparr>f_arg := 0, offset := 0\<rparr>)"

text \<open>The size is an unsigned number that is returned as an \<open>int\<close>.\<close>

definition romfs_size :: "mem \<Rightarrow> romfs_file_t option \<Rightarrow> int option" where
  "romfs_size m fp = (case fp of None \<Rightarrow> Some (- 1) | Some fp \<Rightarrow> do { s \<leftarrow> dirent_size m (f_arg fp); Some (sint s) })"

text \<open>The buffer of the caller is passed and returned.\<close>

definition romfs_read :: "mem \<Rightarrow> romfs_file_t \<Rightarrow> bytes \<Rightarrow> u32 \<Rightarrow> (u32 \<times> bytes \<times> romfs_file_t) option" where
  "romfs_read m fp dst len = do {
     payload_buf \<leftarrow> payload_of m (f_arg fp);
     payload_size \<leftarrow> dirent_size m (f_arg fp);
     if offset fp \<ge> payload_size then Some (0, dst, fp)
     else if offset fp + len < payload_size then do {
       xs \<leftarrow> load_bytes m (payload_buf + offset fp) (unat len);
       dst \<leftarrow> mem_write dst 0 xs;
       Some (len, dst, fp\<lparr>offset := offset fp + len\<rparr>)
     } else do {
       let len = payload_size - offset fp;
       xs \<leftarrow> load_bytes m (payload_buf + offset fp) (unat len);
       dst \<leftarrow> mem_write dst 0 xs;
       Some (len, dst, fp\<lparr>offset := payload_size\<rparr>)
     }
   }"

definition romfs_getbuf :: "mem \<Rightarrow> romfs_file_t \<Rightarrow> romfs_filebuf_t option \<Rightarrow> (int \<times> romfs_filebuf_t option) option" where
  "romfs_getbuf m fp file_buf =
     (case file_buf of None \<Rightarrow> Some (- 1, None)
      | Some fb \<Rightarrow> do {
          p \<leftarrow> payload_of m (f_arg fp);
          s \<leftarrow> dirent_size m (f_arg fp);
          Some (0, Some (fb\<lparr>buf := p, bufsize := s\<rparr>))
        })"

text \<open>\<open>off\<close> is an \<open>int\<close>, and all arithmetic on it is unsigned; the result is a \<open>size_t\<close>.\<close>

definition romfs_lseek ::
  "mem \<Rightarrow> romfs_file_t option \<Rightarrow> u32 \<Rightarrow> romfs_whence_t \<Rightarrow> (u32 \<times> romfs_file_t option) option" where
  "romfs_lseek m fp off whence =
     (case fp of None \<Rightarrow> Some (- 1, None)
      | Some fp \<Rightarrow> do {
          payload_size \<leftarrow> dirent_size m (f_arg fp);
          if whence = ROMFS_SEEK_SET \<and> sint off < 0 then Some (- 2, Some fp)
          else if whence = ROMFS_SEEK_END \<and> sint off > 0 then Some (- 3, Some fp)
          else let tmp = (case whence of ROMFS_SEEK_SET \<Rightarrow> off
                          | ROMFS_SEEK_END \<Rightarrow> off + payload_size
                          | ROMFS_SEEK_CUR \<Rightarrow> off + offset fp) in
          if tmp > payload_size then Some (- 5, Some fp)
          else Some (tmp, Some (fp\<lparr>offset := tmp\<rparr>))
        })"

definition romfs_stat :: "mem \<Rightarrow> u32 \<Rightarrow> bytes \<Rightarrow> romfs_stat_t \<Rightarrow> (int \<times> romfs_stat_t) option" where
  "romfs_stat m romfs_root path st = do {
     (res, start_addr, end_addr) \<leftarrow> dirent_file m romfs_root path;
     if res \<noteq> 0 then Some (- 1, st)
     else if start_addr = romfs_root then Some (0, st\<lparr>st_size := 0\<rparr>)
     else do {
       ty \<leftarrow> dirent_type m start_addr;
       if ty = ROMFH_DIR then Some (0, st\<lparr>st_size := 0, st_mode := ROMFS_S_IFDIR\<rparr>)
       else if ty = ROMFH_REG then do {
         s \<leftarrow> dirent_size m start_addr;
         Some (0, st\<lparr>st_size := s, st_mode := ROMFS_S_IFREG\<rparr>)
       } else Some (- 2, st)
     }
   }"

section \<open>Directories\<close>

text \<open>\<open>memset(dp, 0, sizeof(romfs_dir_t))\<close>\<close>

definition cleared_dir :: romfs_dir_t where
  "cleared_dir = \<lparr>dir_start_addr = 0, dir_end_addr = 0, dir_cur_addr = 0,
     cur_dirent = \<lparr>d_ino = 0, d_type = ROMFH_HRD, d_name = replicate 65 0\<rparr>\<rparr>"

definition romfs_opendir :: "mem \<Rightarrow> u32 \<Rightarrow> romfs_dir_t option \<Rightarrow> bytes \<Rightarrow> (int \<times> romfs_dir_t option) option" where
  "romfs_opendir m romfs_root dp path =
     (if romfs_root = 0 then Some (- 1, dp)
      else if dp = None then Some (- 2, None)
      else do {
        let dp = cleared_dir;
        (res, start_addr, end_addr) \<leftarrow> dirent_file m romfs_root path;
        if res = 0 then
          if start_addr = romfs_root then do {
            p \<leftarrow> payload_of m romfs_root;
            Some (0, Some (dp\<lparr>dir_start_addr := p + 64, dir_end_addr := end_addr, dir_cur_addr := 0\<rparr>))
          } else do {
            c \<leftarrow> dirent_childaddr m start_addr;
            if c = 0 then Some (- 3, Some dp)
            else Some (0, Some (dp\<lparr>dir_start_addr := romfs_root + c, dir_end_addr := end_addr, dir_cur_addr := 0\<rparr>))
          }
        else Some (- 4, Some dp)
      })"

text \<open>The inner loop of \<open>romfs_readdir\<close>: the entry it stops at, or \<open>Inl\<close> of where it gives up.\<close>

partial_function (option) skip_loop :: "mem \<Rightarrow> u32 \<Rightarrow> u32 \<Rightarrow> u32 \<Rightarrow> u32 \<Rightarrow> (u32 + u32) option" where
  "skip_loop m romfs_root dir_start dir_end cur =
     (if cur \<ge> dir_end \<or> cur < dir_start then Some (Inl cur)
      else do {
        h \<leftarrow> dirent_hardfh m cur;
        if h = 0 then Some (Inr cur)
        else if cur = 0 then Some (Inl cur)
        else do {
          ty \<leftarrow> dirent_type m cur;
          if ty = ROMFH_DIR \<or> ty = ROMFH_REG then Some (Inr cur)
          else skip_loop m romfs_root dir_start dir_end (romfs_root + h)
        }
      })"

definition is_dots :: "bytes \<Rightarrow> bool" where
  "is_dots name =
     ((name ! 0 = 0x2E \<and> name ! 1 = 0x2E \<and> name ! 2 = 0) \<or> (name ! 0 = 0x2E \<and> name ! 1 = 0))"

text \<open>\<open>strlcpy\<close> to \<open>d_name\<close>: at most 64 bytes and a 0.\<close>

definition copy_name :: "mem \<Rightarrow> u32 \<Rightarrow> bytes \<Rightarrow> bytes option" where
  "copy_name m src dst = do {
     n \<leftarrow> strlen_at m src;
     xs \<leftarrow> load_bytes m src (min (unat n) ROMFS_MAX_NAME_LEN);
     mem_write dst 0 (xs @ [0])
   }"

text \<open>The outer loop: whether there is an entry, and the directory, whose entry has its name.\<close>

partial_function (option) readdir_loop :: "mem \<Rightarrow> u32 \<Rightarrow> romfs_dir_t \<Rightarrow> (bool \<times> romfs_dir_t) option" where
  "readdir_loop m romfs_root dir = do {
     at \<leftarrow> (if dir_cur_addr dir = 0 then Some (Inr (dir_start_addr dir))
            else if dir_cur_addr dir \<ge> dir_end_addr dir then Some (Inl (dir_cur_addr dir))
            else skip_loop m romfs_root (dir_start_addr dir) (dir_end_addr dir) (dir_cur_addr dir));
     case at of
       Inl cur \<Rightarrow> Some (False, dir\<lparr>dir_cur_addr := cur\<rparr>)
     | Inr cur \<Rightarrow> do {
         name \<leftarrow> copy_name m (cur + 16) (d_name (cur_dirent dir));
         h \<leftarrow> dirent_hardfh m cur;
         let dir = dir\<lparr>dir_cur_addr := (if h = 0 then dir_end_addr dir else romfs_root + h),
                       cur_dirent := (cur_dirent dir)\<lparr>d_name := name\<rparr>\<rparr>;
         if is_dots name then readdir_loop m romfs_root dir else Some (True, dir)
       }
   }"

definition romfs_readdir :: "mem \<Rightarrow> u32 \<Rightarrow> romfs_dir_t option \<Rightarrow> (romfs_dirent_t option \<times> romfs_dir_t option) option" where
  "romfs_readdir m romfs_root dir =
     (case dir of None \<Rightarrow> Some (None, None)
      | Some dir \<Rightarrow> do {
          (found, dir) \<leftarrow> readdir_loop m romfs_root dir;
          if \<not> found then Some (None, Some dir)
          else do {
            ty \<leftarrow> dirent_type m (dir_cur_addr dir);
            let ent = (cur_dirent dir)\<lparr>d_type := (if ty = ROMFH_DIR \<or> ty = ROMFH_REG then ty
                                                  else d_type (cur_dirent dir))\<rparr>;
            Some (Some ent, Some (dir\<lparr>cur_dirent := ent\<rparr>))
          }
        })"

definition romfs_closedir :: "romfs_dir_t option \<Rightarrow> int" where
  "romfs_closedir dir = (if dir = None then - 1 else 0)"

end
