(* ===== verification/Romfs_Image.thy ===== *)
theory Romfs_Image
  imports Romfs
begin

text \<open>
  What an image of the read-only file system holds: a tree of files and directories.
  \<open>romfs_image\<close> relates the bytes of an image to its tree, after the layout that
  \<^verbatim>\<open>components/fs/romfs/genromfs/genromfs.c\<close> writes; \<open>lookup\<close>, \<open>listing\<close> and \<open>cursor_run\<close> are what the
  operations mean on the tree.
\<close>

section \<open>Trees\<close>

text \<open>Entries of other kinds are hard links (kind 0), symbolic links, devices, sockets and pipes.\<close>

datatype romfs_node = File bytes bytes | Dir bytes "romfs_node list" | Other u32 bytes

fun node_name :: "romfs_node \<Rightarrow> bytes" where
  "node_name (File nm d) = nm"
| "node_name (Dir nm es) = nm"
| "node_name (Other ty nm) = nm"

fun node_type :: "romfs_node \<Rightarrow> romfh" where
  "node_type (File nm d) = ROMFH_REG"
| "node_type (Dir nm es) = ROMFH_DIR"
| "node_type (Other ty nm) = (if ty = 0 then ROMFH_HRD else ROMFH_UNKNOW)"

text \<open>Links are passed over; an entry of a special kind ends the search.\<close>

fun find_entry :: "bytes \<Rightarrow> romfs_node list \<Rightarrow> romfs_node option" where
  "find_entry nm [] = None"
| "find_entry nm (Other ty n # es) = (if ty = 0 then find_entry nm es else None)"
| "find_entry nm (e # es) = (if node_name e = nm then Some e else find_entry nm es)"

text \<open>A path that goes on behind the name of a file is a case of its own.\<close>

datatype found = Found romfs_node | Missing | Through_file

fun lookup :: "romfs_node list \<Rightarrow> bytes list \<Rightarrow> found" where
  "lookup es [] = Missing"
| "lookup es [c] = (case find_entry c es of None \<Rightarrow> Missing | Some e \<Rightarrow> Found e)"
| "lookup es (c # cs) =
     (case find_entry c es of
        None \<Rightarrow> Missing
      | Some (Dir nm fs) \<Rightarrow> lookup fs cs
      | Some _ \<Rightarrow> Through_file)"

fun join_path :: "bytes list \<Rightarrow> bytes" where
  "join_path [] = []"
| "join_path [c] = c"
| "join_path (c # cs) = c @ 0x2F # join_path cs"

definition romfs_path :: "bytes list \<Rightarrow> bytes" where
  "romfs_path cs = ROMFS_MOUNTPOINT @ 0x2F # join_path cs"

definition plain_name :: "bytes \<Rightarrow> bool" where
  "plain_name c = (c \<noteq> [] \<and> length c \<le> 64 \<and> (\<forall>x\<in>set c. is_path_ch x \<and> x \<noteq> 0x2F))"

section \<open>Images\<close>

definition readable :: "mem \<Rightarrow> u32 \<Rightarrow> nat \<Rightarrow> bool" where
  "readable m a n = (load_bytes m a n \<noteq> None)"

definition str_at :: "mem \<Rightarrow> u32 \<Rightarrow> bytes \<Rightarrow> bool" where
  "str_at m a s = (0 \<notin> set s \<and> load_bytes m a (Suc (length s)) = Some (s @ [0]))"

definition hdr_next :: "mem \<Rightarrow> u32 \<Rightarrow> u32" where
  "hdr_next m a = (case dirent_hardfh m a of None \<Rightarrow> 0 | Some h \<Rightarrow> h)"

definition hdr_child :: "mem \<Rightarrow> u32 \<Rightarrow> u32" where
  "hdr_child m a = (case dirent_childaddr m a of None \<Rightarrow> 0 | Some c \<Rightarrow> c)"

text \<open>A header with its name; 80 bytes can be read there, as in any flash behind its last header.\<close>

definition header :: "mem \<Rightarrow> u32 \<Rightarrow> u32 \<Rightarrow> bytes \<Rightarrow> bool" where
  "header m a ty nm =
     (aligned4 a \<and> readable m a 80 \<and> str_at m (a + 16) nm \<and>
      (case load_word32 m a of None \<Rightarrow> False | Some w \<Rightarrow> U32HTONL w AND 7 = ty))"

text \<open>
  \<open>node_at m root lim off e\<close>: the header of \<open>e\<close> is at the offset \<open>off\<close> of the image, in a directory
  that ends at the offset \<open>lim\<close>.  A directory reaches to the header behind it, or to the end of
  its parent.  \<open>entries_at m root lim off es\<close>: the chain of entries that starts at \<open>off\<close>.
\<close>

fun node_at :: "mem \<Rightarrow> u32 \<Rightarrow> u32 \<Rightarrow> u32 \<Rightarrow> romfs_node \<Rightarrow> bool"
  and entries_at :: "mem \<Rightarrow> u32 \<Rightarrow> u32 \<Rightarrow> u32 \<Rightarrow> romfs_node list \<Rightarrow> bool" where
  "node_at m root lim off (File nm d) =
     (header m (root + off) 2 nm \<and> hdr_child m (root + off) = 0 \<and> int (length d) < 2 ^ 32 \<and>
      dirent_size m (root + off) = Some (of_nat (length d)) \<and>
      load_bytes m (root + off + ALIGNUP16 (of_nat (length nm) + 1) + 16) (length d) = Some d)"
| "node_at m root lim off (Dir nm es) =
     (header m (root + off) 1 nm \<and>
      (let c = hdr_child m (root + off);
         next = hdr_next m (root + off);
         lim = (if next = 0 then lim else next)
       in if es = [] then c = off else off < c \<and> entries_at m root lim c es))"
| "node_at m root lim off (Other ty nm) = (header m (root + off) ty nm \<and> ty \<noteq> 1 \<and> ty \<noteq> 2)"
| "entries_at m root lim off [] = False"
| "entries_at m root lim off (e # es) =
     (off < lim \<and> node_at m root lim off e \<and>
      (let next = hdr_next m (root + off) in
       if es = [] then next = 0 else off < next \<and> entries_at m root lim next es))"

text \<open>Behind the header of the image and its name, the entries \<open>.\<close> and \<open>..\<close> of the root take 32 bytes each.\<close>

definition first_entry :: "bytes \<Rightarrow> u32" where
  "first_entry vol = ALIGNUP16 (of_nat (length vol) + 1) + 16 + 64"

definition romfs_image :: "mem \<Rightarrow> u32 \<Rightarrow> bytes \<Rightarrow> romfs_node list \<Rightarrow> bool" where
  "romfs_image m root vol es =
     (root \<noteq> 0 \<and> aligned4 root \<and>
      load_bytes m root 8 = Some [0x2D, 0x72, 0x6F, 0x6D, 0x31, 0x66, 0x73, 0x2D] \<and>
      str_at m (root + 16) vol \<and>
      (case dirent_size m root of None \<Rightarrow> False
       | Some sz \<Rightarrow> root \<le> root + sz \<and> load_word32 m (root + sz) \<noteq> None \<and>
           first_entry vol \<noteq> 0 \<and> entries_at m root sz (first_entry vol) es))"

section \<open>Memory\<close>

lemma load_bytes_nth:
  "load_bytes m a n = Some xs \<longleftrightarrow> length xs = n \<and> (\<forall>i<n. m (a + of_nat i) = Some (xs ! i))"
proof (induction n arbitrary: a xs)
  case (Suc n)
  show ?case
  proof (cases xs)
    case (Cons x ys)
    have "load_bytes m a (Suc n) = Some xs \<longleftrightarrow> m a = Some x \<and> load_bytes m (a + 1) n = Some ys"
      by (auto simp: Cons split: Option.bind_split)
    also have "\<dots> \<longleftrightarrow> length xs = Suc n \<and> (\<forall>i<Suc n. m (a + of_nat i) = Some (xs ! i))"
      by (auto simp: Suc.IH Cons All_less_Suc2 nth_Cons' add.assoc less_Suc_eq_0_disj)
    finally show ?thesis .
  qed (auto split: Option.bind_split)
qed auto

lemma readable_nth: "readable m a n = (\<forall>i<n. m (a + of_nat i) \<noteq> None)"
proof
  assume "readable m a n"
  then show "\<forall>i<n. m (a + of_nat i) \<noteq> None"
    by (auto simp: readable_def load_bytes_nth)
next
  assume r: "\<forall>i<n. m (a + of_nat i) \<noteq> None"
  have "load_bytes m a n = Some (map (\<lambda>i. the (m (a + of_nat i))) [0..<n])"
    using r by (auto simp: load_bytes_nth)
  then show "readable m a n" by (simp add: readable_def)
qed

lemma readable_part: "readable m a n \<Longrightarrow> i + k \<le> n \<Longrightarrow> readable m (a + of_nat i) k"
  by (auto simp: readable_nth add.assoc simp flip: of_nat_add)

lemma load_bytes_readable: "load_bytes m a n = Some xs \<Longrightarrow> readable m a n"
  by (simp add: readable_def)

lemma load_word32_readable: "aligned4 a \<Longrightarrow> readable m a n \<Longrightarrow> 4 \<le> n \<Longrightarrow> load_word32 m a \<noteq> None"
proof -
  assume a: "aligned4 a" and r: "readable m a n" "4 \<le> n"
  have "m (a + of_nat i) \<noteq> None" if "i < 4" for i
    using r that by (auto simp: readable_nth)
  from this [of 0] this [of 1] this [of 2] this [of 3] a show ?thesis
    by (auto simp: load_word32_def load32_def)
qed

lemma str_at_nth:
  "str_at m a s = (0 \<notin> set s \<and> (\<forall>i \<le> length s. m (a + of_nat i) = Some ((s @ [0]) ! i)))"
  by (simp only: str_at_def load_bytes_nth) (auto simp: less_Suc_eq_le)

lemma strlen_at_str: "str_at m a s \<Longrightarrow> strlen_at m a = Some (of_nat (length s))"
proof (induction s arbitrary: a)
  case Nil
  then show ?case by (subst strlen_at.simps) (simp add: str_at_nth)
next
  case (Cons x s)
  then have x: "0 \<notin> set (x # s)" "\<And>i. i \<le> Suc (length s) \<Longrightarrow> m (a + of_nat i) = Some ((x # s @ [0]) ! i)"
    by (simp_all add: str_at_nth)
  from x(2) [of "Suc i" for i] x(1) have "str_at m (a + 1) s" by (auto simp: str_at_nth add.assoc)
  with x(1) x(2) [of 0] have x: "m a = Some x" "x \<noteq> 0" "str_at m (a + 1) s" by auto
  from Cons.IH [OF x(3)] x(1,2) show ?case by (subst strlen_at.simps) (simp add: add.commute)
qed

text \<open>Comparing with the name of a header compares the whole names.\<close>

lemma name_matches_eq:
  assumes s: "str_at m (a + 16) s" and r: "readable m (a + 16) (length nm)" and nm: "0 \<notin> set nm"
  shows "name_matches m a nm = Some (nm = s)"
proof -
  obtain ys where ys: "load_bytes m (a + 16) (length nm) = Some ys"
    using r by (auto simp: readable_def)
  then have y: "length ys = length nm" "\<And>i. i < length nm \<Longrightarrow> m (a + 16 + of_nat i) = Some (ys ! i)"
    by (auto simp: load_bytes_nth)
  have sy: "ys ! i = (s @ [0]) ! i" if "i < length nm" "i \<le> length s" for i
    using y(2) [OF that(1)] s that(2) by (simp add: str_at_nth)
  have 0: "0 \<notin> set s" using s by (simp add: str_at_def)
  have len: "length nm \<le> length s" if "ys = nm"
  proof (rule ccontr)
    assume "\<not> length nm \<le> length s"
    then have "nm ! length s = 0" "length s < length nm" using sy [of "length s"] that by auto
    with nm show False by (metis nth_mem)
  qed
  show ?thesis
  proof (cases "ys = nm")
    case True
    from len [OF True] have n: "nm = take (length nm) s"
      using sy True by (intro nth_equalityI) (auto simp: nth_append)
    have b: "m (a + (16 + of_nat (length nm))) = Some ((s @ [0]) ! length nm)"
      using s len [OF True] by (simp add: str_at_nth add.assoc)
    have "(s @ [0]) ! length nm = 0 \<longleftrightarrow> nm = s"
    proof
      assume z: "(s @ [0]) ! length nm = 0"
      have "length nm = length s"
      proof (rule ccontr)
        assume "length nm \<noteq> length s"
        with len [OF True] have "length nm < length s" by simp
        with z have "0 \<in> set s" by (auto simp: nth_append in_set_conv_nth)
        with 0 show False by simp
      qed
      with n show "nm = s" by simp
    qed simp
    with ys b True show ?thesis by (simp add: name_matches_def same_at_def)
  next
    case False
    have "nm \<noteq> s" using False sy y(1) by (metis nth_append nth_equalityI order_less_imp_le)
    with False ys show ?thesis by (simp add: name_matches_def same_at_def)
  qed
qed

section \<open>Headers\<close>

lemma header_facts:
  assumes "header m a ty nm"
  shows "dirent_type m a =
      Some (if ty = 0 then ROMFH_HRD else if ty = 2 then ROMFH_REG else if ty = 1 then ROMFH_DIR else ROMFH_UNKNOW)"
    and "dirent_hardfh m a = Some (hdr_next m a)"
    and "dirent_childaddr m a = Some (hdr_child m a)"
    and "0 \<notin> set c \<Longrightarrow> length c \<le> 64 \<Longrightarrow> name_matches m a c = Some (c = nm)"
    and "strlen_at m (a + 16) = Some (of_nat (length nm))"
proof -
  have h: "aligned4 a" "readable m a 80" "str_at m (a + 16) nm"
    using assms by (simp_all add: header_def)
  obtain w where w: "load_word32 m a = Some w" "U32HTONL w AND 7 = ty"
    using assms by (auto simp: header_def split: option.splits)
  then show "dirent_type m a =
      Some (if ty = 0 then ROMFH_HRD else if ty = 2 then ROMFH_REG else if ty = 1 then ROMFH_DIR else ROMFH_UNKNOW)"
    by (simp add: dirent_type_def)
  show "dirent_hardfh m a = Some (hdr_next m a)"
    using w by (simp add: dirent_hardfh_def hdr_next_def)
  have "load_word32 m (a + 4) \<noteq> None"
    using load_word32_readable [OF aligned4_add [OF h(1)]] readable_part [OF h(2), of 4 4] by simp
  then show "dirent_childaddr m a = Some (hdr_child m a)"
    by (auto simp: dirent_childaddr_def hdr_child_def)
  show "strlen_at m (a + 16) = Some (of_nat (length nm))"
    using h(3) by (rule strlen_at_str)
  show "name_matches m a c = Some (c = nm)" if "0 \<notin> set c" "length c \<le> 64"
    using name_matches_eq [OF h(3) _ that(1)] readable_part [OF h(2), of 16 "length c"] that(2) by simp
qed

lemma node_header:
  assumes "node_at m root lim off e"
  obtains ty where "header m (root + off) ty (node_name e)"
    "(if ty = 0 then ROMFH_HRD else if ty = 2 then ROMFH_REG else if ty = 1 then ROMFH_DIR else ROMFH_UNKNOW) = node_type e"
proof (cases e)
  case (File nm d)
  with assms that [of 2] show ?thesis by simp
next
  case (Dir nm es)
  with assms that [of 1] show ?thesis by simp
next
  case (Other ty nm)
  with assms that [of ty] show ?thesis by simp
qed

lemma node_facts:
  assumes "node_at m root lim off e"
  shows "dirent_type m (root + off) = Some (node_type e)"
    and "dirent_hardfh m (root + off) = Some (hdr_next m (root + off))"
    and "dirent_childaddr m (root + off) = Some (hdr_child m (root + off))"
    and "0 \<notin> set c \<Longrightarrow> length c \<le> 64 \<Longrightarrow> name_matches m (root + off) c = Some (c = node_name e)"
    and "strlen_at m (root + off + 16) = Some (of_nat (length (node_name e)))"
proof -
  obtain ty where h: "header m (root + off) ty (node_name e)"
    and t: "(if ty = 0 then ROMFH_HRD else if ty = 2 then ROMFH_REG else if ty = 1 then ROMFH_DIR else ROMFH_UNKNOW) = node_type e"
    using assms by (rule node_header)
  show "dirent_type m (root + off) = Some (node_type e)"
    using header_facts(1) [OF h] unfolding t .
  show "dirent_hardfh m (root + off) = Some (hdr_next m (root + off))"
    "dirent_childaddr m (root + off) = Some (hdr_child m (root + off))"
    "strlen_at m (root + off + 16) = Some (of_nat (length (node_name e)))"
    by (rule header_facts [OF h])+
  show "name_matches m (root + off) c = Some (c = node_name e)" if "0 \<notin> set c" "length c \<le> 64"
    by (rule header_facts(4) [OF h that])
qed

text \<open>The header of the image itself is of no kind that a search knows: it ends the search.\<close>

lemma root_facts:
  assumes "romfs_image m root vol es"
  shows "dirent_type m root = Some ROMFH_UNKNOW" "dirent_hardfh m root \<noteq> None"
    "payload_of m root = Some (root + ALIGNUP16 (of_nat (length vol) + 1) + 16)"
proof -
  have b: "\<And>i. i < 8 \<Longrightarrow> m (root + of_nat i) = Some ([0x2D, 0x72, 0x6F, 0x6D, 0x31, 0x66, 0x73, 0x2D] ! i)"
    and a: "aligned4 root"
    using assms by (auto simp: romfs_image_def load_bytes_nth)
  from b [of 0] b [of 1] b [of 2] b [of 3] a
  have w: "load_word32 m root = Some (le_word [0x2D, 0x72, 0x6F, 0x6D])"
    by (simp add: load_word32_def load32_def)
  have "U32HTONL (le_word [0x2D, 0x72, 0x6F, 0x6D]) AND 7 = 5"
    by code_simp
  with w show "dirent_type m root = Some ROMFH_UNKNOW" "dirent_hardfh m root \<noteq> None"
    by (simp_all add: dirent_type_def dirent_hardfh_def)
  show "payload_of m root = Some (root + ALIGNUP16 (of_nat (length vol) + 1) + 16)"
    using assms strlen_at_str [of m "root + 16" vol] by (simp add: romfs_image_def payload_of_def)
qed

section \<open>Searching a directory\<close>

lemma unat_root_off: "unat root + unat lim < 2 ^ 32 \<Longrightarrow> off \<le> lim \<Longrightarrow> unat (root + off) = unat root + unat off"
  for root off lim :: u32
  by (rule unat_plus_small) (simp add: word_le_nat_alt)

lemma root_off_less:
  fixes root off lim :: u32
  assumes "unat root + unat lim < 2 ^ 32" "off \<le> lim"
  shows "root + off < root + lim \<longleftrightarrow> off < lim" "root \<le> root + off" "off' \<le> off \<Longrightarrow> root + off' \<le> root + off"
  using assms unat_root_off [OF assms] unat_root_off [OF assms(1) order_refl]
    unat_root_off [OF assms(1), of off']
  by (simp_all add: word_less_nat_alt word_le_nat_alt)

text \<open>What is known of an entry that a search has found: its place, and the end of its directory.\<close>

definition found_at :: "mem \<Rightarrow> u32 \<Rightarrow> u32 \<Rightarrow> u32 \<Rightarrow> u32 \<Rightarrow> romfs_node \<Rightarrow> u32 \<Rightarrow> bool" where
  "found_at m root lim off o' e fin =
     (off \<le> o' \<and> o' < lim \<and> node_at m root lim o' e \<and> hdr_next m (root + o') < lim \<and>
      (hdr_next m (root + o') \<noteq> 0 \<longrightarrow> load_word32 m (root + hdr_next m (root + o')) \<noteq> None) \<and>
      fin = (if hdr_next m (root + o') = 0 \<and> node_type e = ROMFH_DIR then root + lim
             else root + hdr_next m (root + o')))"

text \<open>The end of a directory, and that it can be looked at there.\<close>

definition dir_limit :: "mem \<Rightarrow> u32 \<Rightarrow> u32 \<Rightarrow> bool" where
  "dir_limit m root lim = (unat root + unat lim < 2 ^ 32 \<and> load_word32 m (root + lim) \<noteq> None)"

lemma entries_readable: "entries_at m root lim off es \<Longrightarrow> load_word32 m (root + off) \<noteq> None"
  by (cases es; cases "load_word32 m (root + off)") (auto dest!: node_facts(1) simp: dirent_type_def)

lemma find_entry_Cons:
  "find_entry nm (e # es) =
     (if node_type e = ROMFH_UNKNOW then None
      else if node_type e \<noteq> ROMFH_HRD \<and> node_name e = nm then Some e
      else find_entry nm es)"
  by (cases e) auto

lemma file_info_loop_unknow:
  "dirent_type m a = Some ROMFH_UNKNOW \<Longrightarrow> dirent_hardfh m a \<noteq> None \<Longrightarrow>
   file_info_loop m root nm a b = Some (- 1, a, b)"
  by (subst file_info_loop.simps) auto

lemma file_info_loop_find:
  assumes root: "dirent_type m root = Some ROMFH_UNKNOW" "dirent_hardfh m root \<noteq> None"
    and lim: "unat root + unat lim < 2 ^ 32" and nm: "0 \<notin> set nm" "length nm \<le> 64"
    and es: "entries_at m root lim off es"
  shows "case find_entry nm es of
      None \<Rightarrow> \<exists>a b. file_info_loop m root nm (root + off) (root + lim) = Some (- 1, a, b)
    | Some e \<Rightarrow> \<exists>o' fin. file_info_loop m root nm (root + off) (root + lim) = Some (0, root + o', fin) \<and>
        found_at m root lim off o' e fin"
  using es
proof (induction es arbitrary: off)
  case (Cons e es)
  let ?h = "hdr_next m (root + off)"
  have e: "off < lim" "node_at m root lim off e" and next0: "es = [] \<Longrightarrow> ?h = 0"
    and next1: "es \<noteq> [] \<Longrightarrow> off < ?h" "es \<noteq> [] \<Longrightarrow> entries_at m root lim ?h es"
    using Cons.prems by (simp_all add: Let_def split: if_splits)
  note n = node_facts [OF e(2)]
  have h: "?h < lim"
    using next0 next1(2) e(1) le_less_trans [OF word_zero_le e(1)] by (cases es) (auto simp: Let_def)
  have lt: "\<not> root + lim \<le> root + ?h"
    using root_off_less(1) [OF lim, of ?h] h by (simp add: not_le)
  show ?case
  proof (cases "find_entry nm (e # es) = Some e \<and> node_name e = nm \<and> node_type e \<in> {ROMFH_DIR, ROMFH_REG}")
    case True
    then have f: "file_info_loop m root nm (root + off) (root + lim) =
        Some (0, root + off, if ?h = 0 \<and> node_type e = ROMFH_DIR then root + lim else root + ?h)"
      using n nm by (subst file_info_loop.simps) auto
    have "?h \<noteq> 0 \<longrightarrow> load_word32 m (root + ?h) \<noteq> None"
      using next0 next1(2) entries_readable by (cases "es = []") auto
    with True e h f show ?thesis by (auto simp: found_at_def)
  next
    case False
    show ?thesis
    proof (cases "node_type e = ROMFH_UNKNOW")
      case True
      then have "file_info_loop m root nm (root + off) (root + lim) = Some (- 1, root + off, root + lim)"
        using n by (intro file_info_loop_unknow) simp_all
      with True show ?thesis by (simp add: find_entry_Cons)
    next
      case nt: False
      with False have other: "node_type e \<noteq> ROMFH_HRD \<Longrightarrow> node_name e \<noteq> nm"
        by (cases "node_type e") (auto simp: find_entry_Cons)
      then have f: "file_info_loop m root nm (root + off) (root + lim) =
          file_info_loop m root nm (root + ?h) (root + lim)"
        using n nt nm lt by (subst file_info_loop.simps) (cases "node_type e", auto)
      have g: "find_entry nm (e # es) = find_entry nm es"
        using other nt by (cases "node_type e") (auto simp: find_entry_Cons)
      show ?thesis
      proof (cases "es = []")
        case True
        with f g next0 show ?thesis by (simp add: file_info_loop_unknow [OF root])
      next
        case es: False
        from Cons.IH [OF next1(2) [OF es]] next1(1) [OF es] show ?thesis
          unfolding f g found_at_def by (auto split: option.splits)
      qed
    qed
  qed
qed simp

lemma no_wrap_sum: "a \<le> a + b \<longleftrightarrow> unat a + unat b < 2 ^ 32" for a b :: u32
  using no_olen_add_nat [of a b] by simp

lemma image_size:
  assumes "romfs_image m root vol es"
  obtains sz where "dirent_size m root = Some sz" "dir_limit m root sz" "entries_at m root sz (first_entry vol) es"
  using assms by (auto simp: romfs_image_def dir_limit_def no_wrap_sum split: option.splits)

lemma first_entry_pos: "romfs_image m root vol es \<Longrightarrow> first_entry vol \<noteq> 0"
  by (auto simp: romfs_image_def split: option.splits)

text \<open>Where \<open>file_info\<close> starts: at the image, which stands for its first entry, or at an entry.\<close>

definition search_from :: "mem \<Rightarrow> u32 \<Rightarrow> bytes \<Rightarrow> u32 \<Rightarrow> u32 \<Rightarrow> romfs_node list \<Rightarrow> bool" where
  "search_from m root vol lim a es =
     (\<exists>off. off \<noteq> 0 \<and> (a = root + off \<or> a = root \<and> off = first_entry vol) \<and> entries_at m root lim off es)"

lemma file_info_find:
  assumes img: "romfs_image m root vol tree" and lim: "unat root + unat lim < 2 ^ 32"
    and nm: "plain_name nm" and a: "search_from m root vol lim a es"
  shows "case find_entry nm es of
      None \<Rightarrow> file_info m root nm a (root + lim) = Some (- 1, a, root + lim)
    | Some e \<Rightarrow> \<exists>off o' fin. file_info m root nm a (root + lim) = Some (0, root + o', fin) \<and>
        off \<noteq> 0 \<and> found_at m root lim off o' e fin"
proof -
  obtain off where off: "off \<noteq> 0" "a = root + off \<or> a = root \<and> off = first_entry vol" "entries_at m root lim off es"
    using a by (auto simp: search_from_def)
  have start: "(if a = root then do { p \<leftarrow> payload_of m root; Some (p + 64) } else Some a) = Some (root + off)"
    using off(1,2) root_facts(3) [OF img] by (auto simp: first_entry_def add_ac)
  have n: "0 \<notin> set nm" "length nm \<le> 64" "\<not> ROMFS_MAX_NAME_LEN < length nm"
    using nm by (auto simp: plain_name_def ROMFS_MAX_NAME_LEN_def is_path_ch_def)
  have "file_info m root nm a (root + lim) = do {
      (ret, x, y) \<leftarrow> file_info_loop m root nm (root + off) (root + lim);
      if ret \<noteq> 0 then Some (ret, a, root + lim) else Some (0, x, y) }"
    using n(3) by (simp only: file_info_def if_False start bind.bind_lunit)
  then show ?thesis
    using file_info_loop_find [OF root_facts(1,2) [OF img] lim n(1,2) off(3)] off(1)
    by (auto split: option.splits)
qed

section \<open>Following a path\<close>

text \<open>Where a path goes on: in the root, or in a directory whose entry has been found.\<close>

definition dir_pos :: "mem \<Rightarrow> u32 \<Rightarrow> bytes \<Rightarrow> u32 \<Rightarrow> bool \<Rightarrow> u32 \<Rightarrow> romfs_node list \<Rightarrow> bool" where
  "dir_pos m root vol lim need a es =
     (if need then \<exists>off c. a = root + off \<and> dirent_childaddr m a = Some c \<and>
        (if es = [] then c = off else off < c \<and> entries_at m root lim c es)
      else a = root \<and> first_entry vol \<noteq> 0 \<and> es \<noteq> [] \<and> entries_at m root lim (first_entry vol) es)"

lemma enter_dir:
  assumes "dir_pos m root vol lim need a es"
  obtains
    (empty) b where "es = []" "(if need then do { c \<leftarrow> dirent_childaddr m a; Some (a = root + c, root + c) } else Some (False, a))
        = Some (True, b)"
  | (search) b where "es \<noteq> []" "(if need then do { c \<leftarrow> dirent_childaddr m a; Some (a = root + c, root + c) } else Some (False, a))
        = Some (False, b)" "search_from m root vol lim b es"
proof (cases "es = []")
  case True
  with assms empty show ?thesis by (auto simp: dir_pos_def split: if_splits)
next
  case False
  show ?thesis
  proof (cases need)
    case True
    then obtain off c where c: "a = root + off" "dirent_childaddr m a = Some c" "off < c" "entries_at m root lim c es"
      using assms False by (auto simp: dir_pos_def)
    from c(3) have "c \<noteq> 0" by auto
    with c have "search_from m root vol lim (root + c) es" by (auto simp: search_from_def)
    with c True False search [of "root + c"] show ?thesis by auto
  next
    case n: False
    then have "search_from m root vol lim a es" using assms by (auto simp: dir_pos_def search_from_def)
    with n False search [of a] show ?thesis by simp
  qed
qed

text \<open>A directory that has been found is where the path goes on, up to the end that was reported.\<close>

lemma found_dir_pos:
  assumes f: "found_at m root lim off o' (Dir nm fs) fin" and lim: "dir_limit m root lim"
  obtains lim' where "fin = root + lim'" "dir_limit m root lim'" "dir_pos m root vol lim' True (root + o') fs"
proof -
  let ?h = "hdr_next m (root + o')"
  let ?l = "if ?h = 0 then lim else ?h"
  have n: "node_at m root lim o' (Dir nm fs)" "?h < lim" "fin = root + ?l"
    using f by (auto simp: found_at_def)
  have l: "dir_limit m root ?l"
    using lim n(2) f by (auto simp: dir_limit_def found_at_def word_less_nat_alt)
  have "dir_pos m root vol ?l True (root + o') fs"
    using n(1) node_facts(3) [OF n(1)] by (auto simp: dir_pos_def Let_def)
  with that n(3) l show ?thesis by blast
qed

text \<open>One round of the loop, for the last name of a path and for a name that a slash follows.\<close>

lemma path_last:
  assumes c: "plain_name c"
    and e: "(if need then do { c \<leftarrow> dirent_childaddr m a; Some (a = root + c, root + c) } else Some (False, a)) = Some (self, a')"
  shows "path_loop m root c a b need =
     (if self then Some (- 2, a', b)
      else do { (ret, a, b) \<leftarrow> file_info m root c a' b; Some (if ret \<noteq> 0 then (- 1, a, b) else (0, a, b)) })"
proof -
  have c: "c \<noteq> []" "0x2F \<notin> set c" "\<not> ROMFS_MAX_NAME_LEN < length c"
    using assms by (auto simp: plain_name_def ROMFS_MAX_NAME_LEN_def)
  show ?thesis
    by (subst path_loop.simps)
      (simp only: c e if_False if_True not_False_eq_True bind.bind_lunit prod.case)
qed

lemma path_middle:
  assumes c: "plain_name c"
    and e: "(if need then do { c \<leftarrow> dirent_childaddr m a; Some (a = root + c, root + c) } else Some (False, a)) = Some (self, a')"
  shows "path_loop m root (c @ 0x2F # rest) a b need =
     (if self then Some (- 2, a', b)
      else do { (ret, a, b) \<leftarrow> file_info m root c a' b;
        if ret \<noteq> 0 then Some (- 1, a, b) else path_loop m root rest a b True })"
proof -
  have c: "\<And>x. x \<in> set c \<Longrightarrow> x \<noteq> 0x2F" "\<not> ROMFS_MAX_NAME_LEN < length c"
    using assms by (auto simp: plain_name_def ROMFS_MAX_NAME_LEN_def)
  have t: "takeWhile (\<lambda>c. c \<noteq> 0x2F) (c @ 0x2F # rest) = c"
    using c(1) by (simp add: takeWhile_append2)
  have d: "c @ 0x2F # rest \<noteq> []" "\<not> 0x2F \<notin> set (c @ 0x2F # rest)" "drop (Suc (length c)) (c @ 0x2F # rest) = rest"
    by simp_all
  show ?thesis
    by (subst path_loop.simps)
      (simp only: c(2) t d e Let_def if_False if_True not_False_eq_True bind.bind_lunit prod.case)
qed

lemma path_loop_lookup:
  assumes img: "romfs_image m root vol tree" and "dir_limit m root lim"
    and "\<forall>c\<in>set cs. plain_name c" "cs \<noteq> []" "dir_pos m root vol lim need a es"
  shows "case lookup es cs of
      Found e \<Rightarrow> \<exists>lim' off o' fin. path_loop m root (join_path cs) a (root + lim) need = Some (0, root + o', fin) \<and>
        off \<noteq> 0 \<and> found_at m root lim' off o' e fin \<and> dir_limit m root lim'
    | Missing \<Rightarrow> \<exists>r a' b. path_loop m root (join_path cs) a (root + lim) need = Some (r, a', b) \<and> r \<noteq> 0
    | Through_file \<Rightarrow> True"
  using assms(2-)
proof (induction es cs arbitrary: lim need a rule: lookup.induct)
  case (2 es c)
  then have c: "plain_name c" and lim: "unat root + unat lim < 2 ^ 32" by (simp_all add: dir_limit_def)
  from 2(4) show ?case
  proof (cases rule: enter_dir)
    case (empty b)
    then have "path_loop m root (join_path [c]) a (root + lim) need = Some (- 2, b, root + lim)"
      using path_last [OF c empty(2), of "root + lim"] by simp
    with empty show ?thesis by simp
  next
    case (search b)
    note p = path_last [OF c search(2), of "root + lim"]
    show ?thesis
      using file_info_find [OF img lim c search(3)] p 2(1)
      by (auto split: option.splits) blast
  qed
next
  case (3 es c c' cs)
  then have c: "plain_name c" and lim: "unat root + unat lim < 2 ^ 32" by (simp_all add: dir_limit_def)
  have rest: "\<forall>c\<in>set (c' # cs). plain_name c" "c' # cs \<noteq> []" using 3(3) by simp_all
  have j: "join_path (c # c' # cs) = c @ 0x2F # join_path (c' # cs)" by simp
  from 3(5) show ?case
  proof (cases rule: enter_dir)
    case (empty b)
    then have "path_loop m root (join_path (c # c' # cs)) a (root + lim) need = Some (- 2, b, root + lim)"
      using path_middle [OF c empty(2), of "join_path (c' # cs)" "root + lim"] by simp
    with empty show ?thesis by simp
  next
    case (search b)
    note p = path_middle [OF c search(2), of "join_path (c' # cs)" "root + lim", folded j]
    note f = file_info_find [OF img lim c search(3)]
    show ?thesis
    proof (cases "find_entry c es")
      case None
      with f p show ?thesis by simp
    next
      case (Some e)
      show ?thesis
      proof (cases e)
        case (Dir nm fs)
        with f Some obtain off o' fin where
          i: "file_info m root c b (root + lim) = Some (0, root + o', fin)" "found_at m root lim off o' (Dir nm fs) fin"
          by auto
        obtain lim' where l: "fin = root + lim'" "dir_limit m root lim'" "dir_pos m root vol lim' True (root + o') fs"
          using found_dir_pos [OF i(2) 3(2)] by blast
        have eq: "path_loop m root (join_path (c # c' # cs)) a (root + lim) need =
            path_loop m root (join_path (c' # cs)) (root + o') (root + lim') True"
          using p i(1) l(1) by simp
        have "lookup es (c # c' # cs) = lookup fs (c' # cs)" using Some Dir by simp
        with 3(1) [OF Some Dir l(2) rest l(3)] show ?thesis unfolding eq by simp
      qed (simp_all add: Some)
    qed
  qed
qed simp

section \<open>The operations on paths\<close>

text \<open>The check for two slashes in a row never fires: the position of the last one is never the current one.\<close>

lemma filter_loop_eq:
  "old < i \<Longrightarrow> filter_loop p i (Some old) = Some (if \<forall>c\<in>set p. is_path_ch c then 0 else - 2)"
  by (induction p arbitrary: i old) auto

lemma filter_format_eq:
  "filter_format p = Some (if take 6 p \<noteq> ROMFS_MOUNTPOINT then - 1
     else if \<forall>c\<in>set p. is_path_ch c then 0 else - 2)"
proof (cases p)
  case Nil
  then show ?thesis by (simp add: filter_format_def ROMFS_MOUNTPOINT_def)
next
  case (Cons c q)
  show ?thesis
  proof (cases "take 6 p = ROMFS_MOUNTPOINT")
    case True
    with Cons have "c = 0x2F" by (simp add: ROMFS_MOUNTPOINT_def)
    with Cons True filter_loop_eq [of 0 1 q] show ?thesis by (simp add: filter_format_def)
  qed (simp add: filter_format_def)
qed

lemma romfs_path_facts:
  "take 6 (romfs_path cs) = ROMFS_MOUNTPOINT" "drop 6 (romfs_path cs) = 0x2F # join_path cs"
  "length (romfs_path cs) = 7 + length (join_path cs)"
  by (simp_all add: romfs_path_def ROMFS_MOUNTPOINT_def)

lemma join_path_chars: "\<forall>c\<in>set cs. plain_name c \<Longrightarrow> x \<in> set (join_path cs) \<Longrightarrow> is_path_ch x"
  by (induction cs rule: join_path.induct) (auto simp: plain_name_def is_path_ch_def)

lemma filter_romfs_path: "\<forall>c\<in>set cs. plain_name c \<Longrightarrow> filter_format (romfs_path cs) = Some 0"
  using join_path_chars [of cs]
  by (auto simp: filter_format_eq romfs_path_facts) (auto simp: romfs_path_def ROMFS_MOUNTPOINT_def is_path_ch_def)

lemma endaddr_size: "dirent_size m root = Some sz \<Longrightarrow> romfs_endaddr m root = Some (root + sz)"
  by (auto simp: dirent_size_def romfs_endaddr_def split: Option.bind_splits)

lemma dirent_file_path:
  assumes "dirent_size m root = Some sz"
  shows "dirent_file m root (romfs_path cs) = do {
     (ret, a, b) \<leftarrow> path_loop m root (join_path cs) root (root + sz) False;
     if ret \<noteq> 0 then Some (ret, 0, 0) else Some (0, a, b) }"
proof -
  from endaddr_size [OF assms] show ?thesis
    by (simp add: dirent_file_def romfs_path_facts ROMFS_MOUNTPOINT_def [THEN arg_cong [of _ _ length]])
qed

lemma dirent_file_lookup:
  assumes img: "romfs_image m root vol es" and cs: "\<forall>c\<in>set cs. plain_name c" "cs \<noteq> []"
  shows "case lookup es cs of
      Found e \<Rightarrow> \<exists>lim off o' fin. dirent_file m root (romfs_path cs) = Some (0, root + o', fin) \<and>
        off \<noteq> 0 \<and> found_at m root lim off o' e fin \<and> dir_limit m root lim
    | Missing \<Rightarrow> \<exists>r a b. dirent_file m root (romfs_path cs) = Some (r, a, b) \<and> r \<noteq> 0
    | Through_file \<Rightarrow> True"
proof -
  obtain sz where sz: "dirent_size m root = Some sz" "dir_limit m root sz"
      "entries_at m root sz (first_entry vol) es"
    using image_size [OF img] by blast
  then have "dir_pos m root vol sz False root es"
    using first_entry_pos [OF img] by (cases es) (auto simp: dir_pos_def)
  from path_loop_lookup [OF img sz(2) cs this] show ?thesis
    unfolding dirent_file_path [OF sz(1)] by (auto split: found.splits) blast
qed

end
