(* ===== verification/Romfs_Files.thy ===== *)
theory Romfs_Files
  imports Romfs_Image
begin

text \<open>
  The properties of the read-only file system: opening a path, reading and seeking in a file,
  listing a directory, and what goes wrong with some paths.
\<close>

section \<open>The cursor of a file\<close>

text \<open>A client's calls on an open file, and their answers.\<close>

datatype file_op = Read bytes u32 | Seek u32 romfs_whence_t | Size

datatype file_answer = Got u32 bytes | Pos u32 | Length int

fun file_run :: "mem \<Rightarrow> romfs_file_t \<Rightarrow> file_op list \<Rightarrow> (file_answer list \<times> romfs_file_t) option" where
  "file_run m fp [] = Some ([], fp)"
| "file_run m fp (Read dst n # ops) = do {
     (k, dst, fp) \<leftarrow> romfs_read m fp dst n;
     (as, fp) \<leftarrow> file_run m fp ops;
     Some (Got k dst # as, fp) }"
| "file_run m fp (Seek off whence # ops) = do {
     (r, fp) \<leftarrow> romfs_lseek m (Some fp) off whence;
     fp \<leftarrow> fp;
     (as, fp) \<leftarrow> file_run m fp ops;
     Some (Pos r # as, fp) }"
| "file_run m fp (Size # ops) = do {
     s \<leftarrow> romfs_size m (Some fp);
     (as, fp) \<leftarrow> file_run m fp ops;
     Some (Length s # as, fp) }"

text \<open>What they mean: a position in the contents \<open>d\<close> of the file.  Seeks count from \<open>seek_target\<close>.\<close>

fun seek_target :: "bytes \<Rightarrow> nat \<Rightarrow> u32 \<Rightarrow> romfs_whence_t \<Rightarrow> int" where
  "seek_target d pos off ROMFS_SEEK_SET = sint off"
| "seek_target d pos off ROMFS_SEEK_CUR = int pos + sint off"
| "seek_target d pos off ROMFS_SEEK_END = int (length d) + sint off"

definition seek_result :: "bytes \<Rightarrow> nat \<Rightarrow> u32 \<Rightarrow> romfs_whence_t \<Rightarrow> u32 \<times> nat" where
  "seek_result d pos off whence =
     (let t = seek_target d pos off whence in
      if whence = ROMFS_SEEK_SET \<and> sint off < 0 then (- 2, pos)
      else if whence = ROMFS_SEEK_END \<and> sint off > 0 then (- 3, pos)
      else if t < 0 \<or> int (length d) < t then (- 5, pos)
      else (of_int t, nat t))"

fun cursor_run :: "bytes \<Rightarrow> nat \<Rightarrow> file_op list \<Rightarrow> file_answer list" where
  "cursor_run d pos [] = []"
| "cursor_run d pos (Read dst n # ops) =
     (let k = min (unat n) (length d - pos) in
      Got (of_nat k) (take k (drop pos d) @ drop k dst) # cursor_run d (pos + k) ops)"
| "cursor_run d pos (Seek off whence # ops) =
     (let (r, pos) = seek_result d pos off whence in Pos r # cursor_run d pos ops)"
| "cursor_run d pos (Size # ops) = Length (int (length d)) # cursor_run d pos ops"

text \<open>The buffer of a read is as long as the client says, and less than 2 GiB.\<close>

fun op_ok :: "file_op \<Rightarrow> bool" where
  "op_ok (Read dst n) = (unat n \<le> length dst \<and> unat n < 2 ^ 31)"
| "op_ok _ = True"

definition file_at :: "mem \<Rightarrow> u32 \<Rightarrow> bytes \<Rightarrow> bool" where
  "file_at m a d =
     (length d < 2 ^ 31 \<and> dirent_size m a = Some (of_nat (length d)) \<and>
      (case payload_of m a of None \<Rightarrow> False | Some p \<Rightarrow> load_bytes m p (length d) = Some d))"

lemma file_at_node:
  assumes "node_at m root lim off (File nm d)" "length d < 2 ^ 31"
  shows "file_at m (root + off) d"
proof -
  have "payload_of m (root + off) = Some (root + off + ALIGNUP16 (of_nat (length nm) + 1) + 16)"
    using node_facts(5) [OF assms(1)] by (simp add: payload_of_def)
  with assms show ?thesis by (simp add: file_at_def)
qed

lemma load_bytes_slice:
  assumes "load_bytes m p (length d) = Some d" "i + k \<le> length d"
  shows "load_bytes m (p + of_nat i) k = Some (take k (drop i d))"
proof -
  have "m (p + of_nat (i + j)) = Some (d ! (i + j))" if "j < k" for j
    using assms that by (auto simp: load_bytes_nth simp del: of_nat_add)
  with assms(2) show ?thesis by (simp add: load_bytes_nth add.assoc)
qed

lemma read_at:
  assumes f: "file_at m (f_arg fp) d" and pos: "unat (offset fp) \<le> length d"
    and n: "unat n \<le> length dst" "unat n < 2 ^ 31"
  defines "k \<equiv> min (unat n) (length d - unat (offset fp))"
  shows "romfs_read m fp dst n =
     Some (of_nat k, take k (drop (unat (offset fp)) d) @ drop k dst, fp\<lparr>offset := of_nat (unat (offset fp) + k)\<rparr>)"
proof -
  let ?o = "unat (offset fp)" and ?l = "of_nat (length d) :: u32"
  have l: "unat ?l = length d" "length d < 2 ^ 31" using f by (simp_all add: file_at_def unat_of_nat_small)
  obtain p where p: "payload_of m (f_arg fp) = Some p" "load_bytes m p (length d) = Some d"
      "dirent_size m (f_arg fp) = Some ?l"
    using f by (auto simp: file_at_def split: option.splits)
  have s: "load_bytes m (p + offset fp) j = Some (take j (drop ?o d))" if "?o + j \<le> length d" for j
    using load_bytes_slice [OF p(2) that] by simp
  have sum: "unat (offset fp + n) = ?o + unat n"
    using pos l n(2) by (intro unat_plus_small) simp
  have w: "mem_write dst 0 xs = Some (xs @ drop (length xs) dst)" if "length xs \<le> length dst" for xs
    using that by (simp add: mem_write_def)
  consider (over) "?o = length d" | (some) "?o + unat n < length d" | (rest) "?o < length d" "length d \<le> ?o + unat n"
    using pos by linarith
  then show ?thesis
  proof cases
    case over
    then have "offset fp \<ge> ?l" "k = 0" using l by (simp_all add: word_le_nat_alt k_def)
    moreover have "fp\<lparr>offset := of_nat ?o\<rparr> = fp" by simp
    ultimately show ?thesis using p over by (simp add: romfs_read_def)
  next
    case some
    then have "\<not> offset fp \<ge> ?l" "offset fp + n < ?l" and k: "k = unat n"
      using l sum by (simp_all add: word_le_nat_alt word_less_nat_alt k_def)
    with p s [of "unat n"] w [of "take (unat n) (drop ?o d)"] some n show ?thesis
      by (simp add: romfs_read_def k)
  next
    case rest
    then have c: "\<not> offset fp \<ge> ?l" "\<not> offset fp + n < ?l" and k: "k = length d - ?o"
      using l sum by (simp_all add: word_le_nat_alt word_less_nat_alt k_def)
    have ok: "?o + k = length d" and kd: "k \<le> length dst" using rest k n(1) by simp_all
    have r: "unat (?l - offset fp) = k" using rest l k by (simp add: unat_sub_le word_le_nat_alt)
    then have uk: "unat (of_nat k :: u32) = k" using word_of_unat by metis
    have x: "mem_write dst 0 (take k (drop ?o d)) = Some (take k (drop ?o d) @ drop k dst)"
    proof -
      have "length (take k (drop ?o d)) = k" using ok by simp
      from w [of "take k (drop ?o d)", unfolded this, OF kd] show ?thesis .
    qed
    have sk: "load_bytes m (p + offset fp) k = Some (take k (drop ?o d))" using s ok by simp
    show ?thesis
      by (simp only: romfs_read_def p(1,3) bind.bind_lunit c(1,2) if_False Let_def word_of_unat [OF r] uk sk x ok)
  qed
qed

lemma uint_of_int_near:
  assumes "- (2 ^ 31) \<le> t" "t < 2 ^ 32"
  shows "uint (of_int t :: u32) = (if t < 0 then t + 2 ^ 32 else t)"
proof -
  have "uint (of_int t :: u32) = t mod 2 ^ 32"
    by (simp add: unsigned_of_int take_bit_eq_mod)
  also have "\<dots> = (if t < 0 then t + 2 ^ 32 else t)"
  proof (cases "t < 0")
    case True
    have "t mod 2 ^ 32 = (t + 2 ^ 32) mod 2 ^ 32" by simp
    also have "\<dots> = t + 2 ^ 32" using assms True by (intro mod_pos_pos_trivial) simp_all
    finally show ?thesis using True by simp
  next
    case False
    with assms show ?thesis by (simp add: mod_pos_pos_trivial)
  qed
  finally show ?thesis .
qed

lemma seek_at:
  assumes f: "file_at m (f_arg fp) d" and pos: "unat (offset fp) \<le> length d"
  shows "romfs_lseek m (Some fp) off whence = Some (fst (seek_result d (unat (offset fp)) off whence),
      Some (fp\<lparr>offset := of_nat (snd (seek_result d (unat (offset fp)) off whence))\<rparr>))"
    and "snd (seek_result d (unat (offset fp)) off whence) \<le> length d"
proof -
  let ?l = "of_nat (length d) :: u32" and ?t = "seek_target d (unat (offset fp)) off whence"
  let ?tmp = "case whence of ROMFS_SEEK_SET \<Rightarrow> off | ROMFS_SEEK_END \<Rightarrow> off + ?l | ROMFS_SEEK_CUR \<Rightarrow> off + offset fp"
  have l: "uint ?l = int (length d)" "length d < 2 ^ 31"
    using f by (simp_all add: file_at_def uint_nat unat_of_nat_small)
  have r: "- 2147483648 \<le> sint off" "sint off < 2147483648"
    using sint_ge [of off] sint_lt [of off] by simp_all
  have t: "?tmp = of_int ?t"
    by (cases whence) simp_all
  have i: "0 \<le> int (unat (offset fp))" "int (unat (offset fp)) \<le> int (length d)" "int (length d) < 2147483648"
    using pos l(2) by (simp_all only: of_nat_0_le_iff of_nat_le_iff) simp
  have near: "- 2147483648 \<le> ?t"
    using r i by (cases whence; simp only: seek_target.simps; linarith)
  have far: "?t < 4294967296"
    using r i by (cases whence; simp only: seek_target.simps; linarith)
  have "uint ?tmp = (if ?t < 0 then ?t + 2 ^ 32 else ?t)"
    unfolding t using near far by (intro uint_of_int_near) simp_all
  then have big: "?tmp > ?l \<longleftrightarrow> ?t < 0 \<or> int (length d) < ?t"
    using l near by (simp add: word_less_def)
  have d: "dirent_size m (f_arg fp) = Some ?l" using f by (simp add: file_at_def)
  have n: "of_nat (nat ?t) = (of_int ?t :: u32)" if "\<not> ?t < 0" using that by simp
  show "romfs_lseek m (Some fp) off whence = Some (fst (seek_result d (unat (offset fp)) off whence),
      Some (fp\<lparr>offset := of_nat (snd (seek_result d (unat (offset fp)) off whence))\<rparr>))"
    using n unfolding romfs_lseek_def option.case d bind.bind_lunit Let_def big seek_result_def
    by (auto simp: t)
  show "snd (seek_result d (unat (offset fp)) off whence) \<le> length d"
    using pos by (auto simp: seek_result_def Let_def)
qed

lemma file_run_cursor:
  assumes "file_at m (f_arg fp) d" "unat (offset fp) \<le> length d" "\<forall>op\<in>set ops. op_ok op"
  shows "\<exists>fp'. file_run m fp ops = Some (cursor_run d (unat (offset fp)) ops, fp')"
  using assms
proof (induction ops arbitrary: fp)
  case (Cons op ops)
  have l: "length d < 2 ^ 31" using Cons.prems(1) by (simp add: file_at_def)
  have IH: "\<exists>fp'. file_run m (fp\<lparr>offset := of_nat k\<rparr>) ops = Some (cursor_run d k ops, fp')" if "k \<le> length d" for k
    using Cons.IH [of "fp\<lparr>offset := of_nat k\<rparr>"] Cons.prems that l by (simp add: unat_of_nat_small)
  show ?case
  proof (cases op)
    case (Read dst n)
    define k where "k = min (unat n) (length d - unat (offset fp))"
    have k: "unat (offset fp) + k \<le> length d" using Cons.prems(2) by (simp add: k_def)
    have "unat n \<le> length dst" "unat n < 2 ^ 31" using Cons.prems(3) Read by simp_all
    note r = read_at [OF Cons.prems(1,2) this, folded k_def]
    obtain fp' where "file_run m (fp\<lparr>offset := of_nat (unat (offset fp) + k)\<rparr>) ops =
        Some (cursor_run d (unat (offset fp) + k) ops, fp')"
      using IH [OF k] by blast
    with r show ?thesis unfolding Read file_run.simps cursor_run.simps k_def [symmetric] Let_def r by simp
  next
    case (Seek off whence)
    with seek_at [OF Cons.prems(1,2), of off whence] show ?thesis
      using IH [of "snd (seek_result d (unat (offset fp)) off whence)"] by (auto simp: split_beta)
  next
    case Size
    have "sint (of_nat (length d) :: u32) = int (length d)"
      using l by (simp add: signed_of_nat signed_take_bit_int_eq_self_iff)
    with Size Cons.prems(1) show ?thesis
      using IH [of "unat (offset fp)"] Cons.prems(2) by (auto simp: romfs_size_def file_at_def)
  qed
qed simp

section \<open>Opening\<close>

lemma lookup_kind: "lookup es cs = Found e \<Longrightarrow> node_type e = ROMFH_DIR \<or> node_type e = ROMFH_REG"
proof (induction es cs rule: lookup.induct)
  case (2 es c)
  have "find_entry c es = Some e \<Longrightarrow> node_type e = ROMFH_DIR \<or> node_type e = ROMFH_REG"
    by (induction es) (auto simp: find_entry_Cons split: if_splits, cases "node_type e", auto)
  with 2 show ?case by (auto split: option.splits)
qed (auto split: option.splits romfs_node.splits)

definition stat_of :: "romfs_node \<Rightarrow> romfs_stat_t" where
  "stat_of e = (case e of File nm d \<Rightarrow> \<lparr>st_mode = ROMFS_S_IFREG, st_size = of_nat (length d)\<rparr>
                | _ \<Rightarrow> \<lparr>st_mode = ROMFS_S_IFDIR, st_size = 0\<rparr>)"

lemma open_lookup:
  assumes img: "romfs_image m root vol es" and cs: "\<forall>c\<in>set cs. plain_name c" "cs \<noteq> []"
    and e: "lookup es cs = Found e"
  obtains lim off fin where "dirent_file m root (romfs_path cs) = Some (0, root + off, fin)" "off \<noteq> 0"
    "romfs_open m root fp (romfs_path cs) = Some (0, fp\<lparr>f_arg := root + off, offset := 0\<rparr>)"
    "node_at m root lim off e"
proof -
  obtain lim off o' fin where
    f: "dirent_file m root (romfs_path cs) = Some (0, root + o', fin)" "off \<noteq> 0" "found_at m root lim off o' e fin"
    using dirent_file_lookup [OF img cs] e by auto
  then have "node_at m root lim o' e" "o' \<noteq> 0" by (auto simp: found_at_def)
  moreover have "romfs_open m root fp (romfs_path cs) = Some (0, fp\<lparr>f_arg := root + o', offset := 0\<rparr>)"
    using img filter_romfs_path [OF cs(1)] f(1) by (simp add: romfs_open_def romfs_image_def)
  ultimately show ?thesis using that f(1) by blast
qed

text \<open>
  C5: opening a path of an image finds the entry that the path names in the tree of the image, or
  reports that there is none; \<open>romfs_stat\<close> tells its kind and its size.  The search returns and stays in
  the image.  Nothing is said of a path that goes on behind the name of a file.
\<close>

theorem romfs_open_finds:
  assumes img: "romfs_image m root vol es" and cs: "\<forall>c\<in>set cs. plain_name c" "cs \<noteq> []"
  shows "case lookup es cs of
      Found e \<Rightarrow> \<exists>lim off.
        romfs_open m root fp (romfs_path cs) = Some (0, fp\<lparr>f_arg := root + off, offset := 0\<rparr>) \<and>
        romfs_stat m root (romfs_path cs) st = Some (0, stat_of e) \<and> node_at m root lim off e
    | Missing \<Rightarrow>
        romfs_open m root fp (romfs_path cs) = Some (- 2, fp) \<and> romfs_stat m root (romfs_path cs) st = Some (- 1, st)
    | Through_file \<Rightarrow> True"
proof -
  have r: "root \<noteq> 0" using img by (simp add: romfs_image_def)
  note o = filter_romfs_path [OF cs(1)]
  note d = dirent_file_lookup [OF img cs]
  show ?thesis
  proof (cases "lookup es cs")
    case (Found e)
    obtain lim off fin where f: "dirent_file m root (romfs_path cs) = Some (0, root + off, fin)" "off \<noteq> 0"
        "romfs_open m root fp (romfs_path cs) = Some (0, fp\<lparr>f_arg := root + off, offset := 0\<rparr>)"
        "node_at m root lim off e"
      using open_lookup [OF img cs Found, of fp] by blast
    from f(4) lookup_kind [OF Found] f(2) node_facts(1) [OF f(4)]
    have "romfs_stat m root (romfs_path cs) st = Some (0, stat_of e)"
      unfolding romfs_stat_def f(1) by (cases e; cases st) (auto simp: stat_of_def split: if_splits)
    with Found f(3,4) show ?thesis by auto
  next
    case Missing
    with d r o show ?thesis by (auto simp: romfs_open_def romfs_stat_def)
  qed simp
qed

text \<open>An image with the files \<^verbatim>\<open>/a\<close> and \<^verbatim>\<open>/d/b\<close>, and a memory that holds it at \<^verbatim>\<open>0xA0100000\<close>.\<close>

definition sample_image :: "bytes list" where
  "sample_image =
    [[0x2d, 0x72, 0x6f, 0x6d, 0x31, 0x66, 0x73, 0x2d, 0, 0, 0x1, 0x20, 0, 0, 0, 0],
     [0x76, 0, 0, 0, 0, 0, 0, 0, 0, 0, 0, 0, 0, 0, 0, 0],
     [0, 0, 0, 0x41, 0, 0, 0, 0x20, 0, 0, 0, 0, 0, 0, 0, 0],
     [0x2e, 0, 0, 0, 0, 0, 0, 0, 0, 0, 0, 0, 0, 0, 0, 0],
     [0, 0, 0, 0x60, 0, 0, 0, 0x20, 0, 0, 0, 0, 0, 0, 0, 0],
     [0x2e, 0x2e, 0, 0, 0, 0, 0, 0, 0, 0, 0, 0, 0, 0, 0, 0],
     [0, 0, 0, 0x92, 0, 0, 0, 0, 0, 0, 0, 0x3, 0, 0, 0, 0],
     [0x61, 0, 0, 0, 0, 0, 0, 0, 0, 0, 0, 0, 0, 0, 0, 0],
     [0x78, 0x79, 0x7a, 0, 0, 0, 0, 0, 0, 0, 0, 0, 0, 0, 0, 0],
     [0, 0, 0, 0x1, 0, 0, 0, 0xb0, 0, 0, 0, 0, 0, 0, 0, 0],
     [0x64, 0, 0, 0, 0, 0, 0, 0, 0, 0, 0, 0, 0, 0, 0, 0],
     [0, 0, 0, 0xd0, 0, 0, 0, 0x90, 0, 0, 0, 0, 0, 0, 0, 0],
     [0x2e, 0, 0, 0, 0, 0, 0, 0, 0, 0, 0, 0, 0, 0, 0, 0],
     [0, 0, 0, 0xf0, 0, 0, 0, 0x20, 0, 0, 0, 0, 0, 0, 0, 0],
     [0x2e, 0x2e, 0, 0, 0, 0, 0, 0, 0, 0, 0, 0, 0, 0, 0, 0],
     [0, 0, 0, 0x2, 0, 0, 0, 0, 0, 0, 0, 0x2, 0, 0, 0, 0],
     [0x62, 0, 0, 0, 0, 0, 0, 0, 0, 0, 0, 0, 0, 0, 0, 0],
     [0x42, 0x21, 0, 0, 0, 0, 0, 0, 0, 0, 0, 0, 0, 0, 0, 0]] @ replicate 6 (replicate 16 0xFF)"

definition sample_root :: u32 where "sample_root = 0xA0100000"

definition sample_mem :: mem where
  "sample_mem a = (let i = a - sample_root in
     if i < 384 then Some (sample_image ! unat (drop_bit 4 i) ! unat (i AND 15)) else None)"

definition sample_tree :: "romfs_node list" where
  "sample_tree = [File [0x61] [0x78, 0x79, 0x7A],
     Dir [0x64] [Other 0 [0x2E], Other 0 [0x2E, 0x2E], File [0x62] [0x42, 0x21]]]"

lemma sample_image_ok: "romfs_image sample_mem sample_root [0x76] sample_tree"
  by code_simp

theorem romfs_open_finds_witness:
  "lookup sample_tree [[0x64], [0x62]] = Found (File [0x62] [0x42, 0x21]) \<and>
   (\<exists>lim off.
      romfs_open sample_mem sample_root \<lparr>f_arg = 0, offset = 9, fd = 7\<rparr> (romfs_path [[0x64], [0x62]]) =
        Some (0, \<lparr>f_arg = sample_root + off, offset = 0, fd = 7\<rparr>) \<and>
      romfs_stat sample_mem sample_root (romfs_path [[0x64], [0x62]]) \<lparr>st_mode = 0, st_size = 0\<rparr> =
        Some (0, \<lparr>st_mode = ROMFS_S_IFREG, st_size = 2\<rparr>) \<and>
      node_at sample_mem sample_root lim off (File [0x62] [0x42, 0x21]))"
proof -
  have l: "lookup sample_tree [[0x64], [0x62]] = Found (File [0x62] [0x42, 0x21])"
    by (simp add: sample_tree_def)
  show ?thesis
    using romfs_open_finds [OF sample_image_ok, of "[[0x64], [0x62]]" "\<lparr>f_arg = 0, offset = 9, fd = 7\<rparr>" "\<lparr>st_mode = 0, st_size = 0\<rparr>"]
    unfolding l found.case
    by (simp add: l stat_of_def plain_name_def is_path_ch_def del: lookup.simps node_at.simps)
qed

text \<open>
  C16: a file that has been opened behaves as its contents and a position, over every sequence of reads
  and seeks: a read delivers the bytes from the position on, as many as are asked for and as there are, and
  leaves the rest of the buffer; a seek outside of the file is refused and moves nothing; and
  \<open>romfs_getbuf\<close> delivers the address and the length of the contents.
\<close>

theorem romfs_file_history:
  assumes img: "romfs_image m root vol es" and cs: "\<forall>c\<in>set cs. plain_name c" "cs \<noteq> []"
    and found: "lookup es cs = Found (File nm d)" "length d < 2 ^ 31"
    and ops: "\<forall>op\<in>set ops. op_ok op"
  shows "\<exists>fp' fp'' p. romfs_open m root fp (romfs_path cs) = Some (0, fp') \<and>
    file_run m fp' ops = Some (cursor_run d 0 ops, fp'') \<and>
    romfs_getbuf m fp' (Some fb) = Some (0, Some \<lparr>buf = p, bufsize = of_nat (length d)\<rparr>) \<and>
    load_bytes m p (length d) = Some d"
proof -
  obtain lim off where o: "romfs_open m root fp (romfs_path cs) = Some (0, fp\<lparr>f_arg := root + off, offset := 0\<rparr>)"
      "node_at m root lim off (File nm d)"
    using open_lookup [OF img cs found(1), of fp] by blast
  let ?fp = "fp\<lparr>f_arg := root + off, offset := 0\<rparr>"
  have f: "file_at m (f_arg ?fp) d" using file_at_node [OF o(2) found(2)] by simp
  then obtain p where p: "romfs_getbuf m ?fp (Some fb) = Some (0, Some \<lparr>buf = p, bufsize = of_nat (length d)\<rparr>)"
      "load_bytes m p (length d) = Some d"
    by (cases fb) (auto simp: file_at_def romfs_getbuf_def split: option.splits)
  from file_run_cursor [OF f _ ops] o(1) p show ?thesis by auto
qed

theorem romfs_file_history_witness:
  "\<exists>fp' fp'' p. romfs_open sample_mem sample_root \<lparr>f_arg = 0, offset = 9, fd = 7\<rparr> (romfs_path [[0x61]]) = Some (0, fp') \<and>
    file_run sample_mem fp' [Read [0, 0] 2, Seek (- 1) ROMFS_SEEK_CUR, Seek (- 5) ROMFS_SEEK_END, Read [0, 0, 0, 0] 4, Size] =
      Some ([Got 2 [0x78, 0x79], Pos 1, Pos (- 5), Got 2 [0x79, 0x7A, 0, 0], Length 3], fp'') \<and>
    romfs_getbuf sample_mem fp' (Some \<lparr>buf = 0, bufsize = 0\<rparr>) = Some (0, Some \<lparr>buf = p, bufsize = 3\<rparr>) \<and>
    load_bytes sample_mem p 3 = Some [0x78, 0x79, 0x7A]"
proof -
  have l: "lookup sample_tree [[0x61]] = Found (File [0x61] [0x78, 0x79, 0x7A])"
    by (simp add: sample_tree_def)
  have r: "cursor_run [0x78, 0x79, 0x7A] 0
      [Read [0, 0] 2, Seek (- 1) ROMFS_SEEK_CUR, Seek (- 5) ROMFS_SEEK_END, Read [0, 0, 0, 0] 4, Size] =
      [Got 2 [0x78, 0x79], Pos 1, Pos (- 5), Got 2 [0x79, 0x7A, 0, 0], Length 3]"
    by code_simp
  show ?thesis
    using romfs_file_history [OF sample_image_ok _ _ l, of
        "[Read [0, 0] 2, Seek (- 1) ROMFS_SEEK_CUR, Seek (- 5) ROMFS_SEEK_END, Read [0, 0, 0, 0] 4, Size]"
        "\<lparr>f_arg = 0, offset = 9, fd = 7\<rparr>" "\<lparr>buf = 0, bufsize = 0\<rparr>"]
    by (simp add: r plain_name_def is_path_ch_def numeral_3_eq_3 del: file_run.simps cursor_run.simps load_bytes.simps)
qed

end
