(* ===== verification/Romfs_Dirs.thy ===== *)
theory Romfs_Dirs
  imports Romfs_Files
begin

text \<open>
  Listing a directory of the read-only file system, and the paths on which the search goes wrong.
\<close>

section \<open>The listing of a directory\<close>

definition dots :: "bytes set" where
  "dots = {[0x2E], [0x2E, 0x2E]}"

text \<open>
  What the calls of \<open>romfs_readdir\<close> return, one after the other: the name, cut to 64 bytes, and the
  kind.  \<open>first\<close> says whether the list is the whole directory; \<open>te\<close> is what the word behind the
  directory looks like as a kind, and \<open>p\<close> the kind that was returned before.
\<close>

fun listing :: "bool \<Rightarrow> romfh \<Rightarrow> romfh \<Rightarrow> romfs_node list \<Rightarrow> (bytes \<times> romfh) list" where
  "listing first te p [] = []"
| "listing first te p (e # es) =
     (let t = (case es of [] \<Rightarrow> te | f # _ \<Rightarrow> node_type f);
        q = (if t = ROMFH_DIR \<or> t = ROMFH_REG then t else p)
      in if (first \<or> es = [] \<or> node_type e = ROMFH_DIR \<or> node_type e = ROMFH_REG) \<and> node_name e \<notin> dots
         then (take 64 (node_name e), q) # listing False te q es
         else listing False te p es)"

definition seen :: "romfs_dirent_t \<Rightarrow> bytes \<times> romfh" where
  "seen e = (takeWhile (\<lambda>c. c \<noteq> 0) (d_name e), d_type e)"

fun readdir_run :: "mem \<Rightarrow> u32 \<Rightarrow> nat \<Rightarrow> romfs_dir_t \<Rightarrow> ((bytes \<times> romfh) option list \<times> romfs_dir_t) option" where
  "readdir_run m root 0 dir = Some ([], dir)"
| "readdir_run m root (Suc k) dir = do {
     (e, dir) \<leftarrow> romfs_readdir m root (Some dir);
     dir \<leftarrow> dir;
     (es, dir) \<leftarrow> readdir_run m root k dir;
     Some (map_option seen e # es, dir) }"

text \<open>Where an open directory stands: before its first entry, or before the rest \<open>es\<close> of its entries.\<close>

definition dir_at :: "mem \<Rightarrow> u32 \<Rightarrow> u32 \<Rightarrow> u32 \<Rightarrow> bool \<Rightarrow> romfs_node list \<Rightarrow> romfs_dir_t \<Rightarrow> bool" where
  "dir_at m root start lim first es dir =
     (dir_start_addr dir = root + start \<and> dir_end_addr dir = root + lim \<and> length (d_name (cur_dirent dir)) = 65 \<and>
      (if first then dir_cur_addr dir = 0 \<and> entries_at m root lim start es
       else if es = [] then dir_cur_addr dir = root + lim
       else \<exists>off. start \<le> off \<and> dir_cur_addr dir = root + off \<and> entries_at m root lim off es))"

lemma length_str:
  assumes "str_at m a s"
  shows "length s < 2 ^ 32"
proof (rule ccontr)
  assume "\<not> length s < 2 ^ 32"
  then have l: "2 ^ 32 \<le> length s" by simp
  define j where "j = length s mod 2 ^ 32"
  have "j < 2 ^ 32" by (simp add: j_def)
  with l have j: "j < length s" by linarith
  have w: "(of_nat j :: u32) = of_nat (length s)"
    by (simp add: word_of_nat_eq_iff take_bit_eq_mod j_def)
  have n: "0 \<notin> set s" "\<And>i. i \<le> length s \<Longrightarrow> m (a + of_nat i) = Some ((s @ [0]) ! i)"
    using assms by (simp_all add: str_at_nth)
  have "s ! j = 0" using n(2) [of j] n(2) [of "length s"] j unfolding w by (simp add: nth_append)
  with j n(1) nth_mem [OF j] show False by simp
qed

lemma copy_name_str:
  assumes s: "str_at m a s" and d: "length dst = 65"
  obtains r where "copy_name m a dst = Some (take 64 s @ 0 # r)" "length (take 64 s @ 0 # r) = 65"
proof -
  have n: "unat (of_nat (length s) :: u32) = length s"
    using length_str [OF s] by (simp add: unat_of_nat_small)
  let ?k = "min (length s) 64"
  have "load_bytes m a ?k = Some (take 64 s)"
    using s by (auto simp: str_at_nth load_bytes_nth nth_append)
  then have "copy_name m a dst = Some ((take 64 s @ [0]) @ drop (Suc ?k) dst)"
    using d strlen_at_str [OF s] by (simp add: copy_name_def n ROMFS_MAX_NAME_LEN_def mem_write_def)
  with that [of "drop (Suc ?k) dst"] d show ?thesis by simp
qed

lemma is_dots_name:
  assumes "0 \<notin> set s"
  shows "is_dots (take 64 s @ 0 # r) = (s \<in> dots)"
proof -
  consider "s = []" | a where "s = [a]" | a b where "s = [a, b]" | a b c t where "s = a # b # c # t"
    by (metis remdups_adj.cases)
  then show ?thesis
    using assms by cases (auto simp: is_dots_def dots_def)
qed

lemma seen_name: "0 \<notin> set s \<Longrightarrow> takeWhile (\<lambda>c. c \<noteq> 0) (take 64 s @ 0 # r) = take 64 s"
  by (subst takeWhile_append2) (auto dest: in_set_takeD)

lemma entries_Cons:
  assumes es: "entries_at m root lim off (e # es)" and lim: "dir_limit m root lim" and root: "root \<noteq> 0"
  shows "node_at m root lim off e" "off < lim" "hdr_next m (root + off) = 0 \<longleftrightarrow> es = []"
    and "es \<noteq> [] \<Longrightarrow> off < hdr_next m (root + off) \<and> entries_at m root lim (hdr_next m (root + off)) es"
    and "root + off < root + lim" "root + off \<noteq> 0" "start \<le> off \<Longrightarrow> root + start \<le> root + off"
proof -
  show e: "node_at m root lim off e" "off < lim" using es by simp_all
  show n: "es \<noteq> [] \<Longrightarrow> off < hdr_next m (root + off) \<and> entries_at m root lim (hdr_next m (root + off)) es"
    using es by (simp add: Let_def)
  show "hdr_next m (root + off) = 0 \<longleftrightarrow> es = []"
    using es n by (cases "es = []") (auto simp: Let_def)
  have l: "unat root + unat lim < 2 ^ 32" "off \<le> lim" using lim e(2) by (simp_all add: dir_limit_def)
  show "root + off < root + lim" "start \<le> off \<Longrightarrow> root + start \<le> root + off"
    using root_off_less [OF l] e(2) by simp_all
  show "root + off \<noteq> 0" using root_off_less(2) [OF l] root by (metis word_le_0_iff)
qed

definition shown :: "bool \<Rightarrow> romfs_node \<Rightarrow> romfs_node list \<Rightarrow> bool" where
  "shown first e es = (first \<or> es = [] \<or> node_type e = ROMFH_DIR \<or> node_type e = ROMFH_REG)"

text \<open>The entry that a call looks at: the first one, or what the inner loop stops at.\<close>

definition pick :: "mem \<Rightarrow> u32 \<Rightarrow> romfs_dir_t \<Rightarrow> (u32 + u32) option" where
  "pick m root dir =
     (if dir_cur_addr dir = 0 then Some (Inr (dir_start_addr dir))
      else if dir_cur_addr dir \<ge> dir_end_addr dir then Some (Inl (dir_cur_addr dir))
      else skip_loop m root (dir_start_addr dir) (dir_end_addr dir) (dir_cur_addr dir))"

lemma readdir_loop_pick:
  "pick m root dir = Some (Inl c) \<Longrightarrow> readdir_loop m root dir = Some (False, dir\<lparr>dir_cur_addr := c\<rparr>)"
  "pick m root dir = Some (Inr c) \<Longrightarrow> readdir_loop m root dir = do {
     name \<leftarrow> copy_name m (c + 16) (d_name (cur_dirent dir));
     h \<leftarrow> dirent_hardfh m c;
     let dir = dir\<lparr>dir_cur_addr := (if h = 0 then dir_end_addr dir else root + h),
                   cur_dirent := (cur_dirent dir)\<lparr>d_name := name\<rparr>\<rparr>;
     if is_dots name then readdir_loop m root dir else Some (True, dir) }"
  unfolding pick_def by (subst readdir_loop.simps; simp)+

lemma pick_shown:
  assumes d: "dir_at m root start lim first (e # es) dir" and lim: "dir_limit m root lim" and root: "root \<noteq> 0"
    and s: "shown first e es"
  obtains off where "pick m root dir = Some (Inr (root + off))" "start \<le> off" "entries_at m root lim off (e # es)"
proof (cases first)
  case True
  with d that [of start] show ?thesis by (auto simp: dir_at_def pick_def)
next
  case False
  then obtain off where o: "start \<le> off" "dir_cur_addr dir = root + off" "entries_at m root lim off (e # es)"
      and r: "dir_start_addr dir = root + start" "dir_end_addr dir = root + lim"
    using d by (auto simp: dir_at_def)
  note c = entries_Cons [OF o(3) lim root] and n = node_facts [OF entries_Cons(1) [OF o(3) lim root]]
  have "skip_loop m root (root + start) (root + lim) (root + off) = Some (Inr (root + off))"
    using s False c(3,5,6) c(7) [OF o(1)] n(1,2) by (subst skip_loop.simps) (auto simp: shown_def)
  with o r c(5,6) that [of off] show ?thesis by (simp add: pick_def not_le)
qed

lemma pick_hidden:
  assumes d: "dir_at m root start lim first (e # es) dir" and lim: "dir_limit m root lim" and root: "root \<noteq> 0"
    and s: "\<not> shown first e es"
  obtains h where "dir_at m root start lim False es (dir\<lparr>dir_cur_addr := h\<rparr>)"
    "pick m root dir = pick m root (dir\<lparr>dir_cur_addr := h\<rparr>)"
proof -
  obtain off where o: "start \<le> off" "dir_cur_addr dir = root + off" "entries_at m root lim off (e # es)"
      and r: "dir_start_addr dir = root + start" "dir_end_addr dir = root + lim" "length (d_name (cur_dirent dir)) = 65"
    using d s by (auto simp: dir_at_def shown_def)
  note c = entries_Cons [OF o(3) lim root] and n = node_facts [OF entries_Cons(1) [OF o(3) lim root]]
  let ?h = "hdr_next m (root + off)"
  have h: "es \<noteq> []" "?h \<noteq> 0" "off < ?h" "entries_at m root lim ?h es"
    using s c(3,4) by (auto simp: shown_def)
  obtain f fs where f: "es = f # fs" using h(1) by (cases es) auto
  note c2 = entries_Cons [OF h(4) [unfolded f] lim root]
  have le: "start \<le> ?h" using o(1) h(3) by simp
  have "skip_loop m root (root + start) (root + lim) (root + off) = skip_loop m root (root + start) (root + lim) (root + ?h)"
    using s c(5,6) c(7) [OF o(1)] n(1,2) h(2) by (subst skip_loop.simps) (auto simp: shown_def)
  then have "pick m root dir = pick m root (dir\<lparr>dir_cur_addr := root + ?h\<rparr>)"
    using o(2) r c(6) c2(6) c(5) [folded not_le] c2(5) [folded not_le] by (simp add: pick_def)
  moreover have "dir_at m root start lim False es (dir\<lparr>dir_cur_addr := root + ?h\<rparr>)"
    using r h le by (auto simp: dir_at_def)
  ultimately show ?thesis by (rule that [rotated])
qed

text \<open>One call: on an entry that is passed over, on one that is returned, and at the end.\<close>

lemma readdir_hidden:
  assumes "dir_at m root start lim first (e # es) dir" "dir_limit m root lim" "root \<noteq> 0" "\<not> shown first e es"
  obtains dir' where "dir_at m root start lim False es dir'" "cur_dirent dir' = cur_dirent dir"
    "readdir_loop m root dir = readdir_loop m root dir'"
proof -
  obtain h where h: "dir_at m root start lim False es (dir\<lparr>dir_cur_addr := h\<rparr>)"
      "pick m root dir = pick m root (dir\<lparr>dir_cur_addr := h\<rparr>)"
    using pick_hidden [OF assms] by blast
  have "readdir_loop m root dir = readdir_loop m root (dir\<lparr>dir_cur_addr := h\<rparr>)"
    unfolding readdir_loop.simps [of m root dir, folded pick_def]
      readdir_loop.simps [of m root "dir\<lparr>dir_cur_addr := h\<rparr>", folded pick_def]
    using h(2) by (auto split: sum.splits Option.bind_split)
  with h(1) that [of "dir\<lparr>dir_cur_addr := h\<rparr>"] show ?thesis by simp
qed

lemma readdir_shown:
  assumes d: "dir_at m root start lim first (e # es) dir" and lim: "dir_limit m root lim" and root: "root \<noteq> 0"
    and s: "shown first e es"
  obtains dir' where "dir_at m root start lim False es dir'" "d_type (cur_dirent dir') = d_type (cur_dirent dir)"
    "takeWhile (\<lambda>c. c \<noteq> 0) (d_name (cur_dirent dir')) = take 64 (node_name e)"
    "readdir_loop m root dir = (if node_name e \<in> dots then readdir_loop m root dir' else Some (True, dir'))"
    "es \<noteq> [] \<Longrightarrow> dirent_type m (dir_cur_addr dir') = Some (node_type (hd es))"
    "es = [] \<Longrightarrow> dir_cur_addr dir' = root + lim"
proof -
  obtain off where o: "pick m root dir = Some (Inr (root + off))" "start \<le> off" "entries_at m root lim off (e # es)"
    using pick_shown [OF assms] by blast
  note c = entries_Cons [OF o(3) lim root]
  let ?h = "hdr_next m (root + off)" and ?nm = "node_name e"
  obtain ty where "header m (root + off) ty ?nm" using node_header [OF c(1)] by blast
  then have str: "str_at m (root + off + 16) ?nm" by (simp add: header_def)
  then have 0: "0 \<notin> set ?nm" by (simp add: str_at_def)
  have r: "dir_start_addr dir = root + start" "dir_end_addr dir = root + lim" "length (d_name (cur_dirent dir)) = 65"
    using d by (simp_all add: dir_at_def)
  obtain q where q: "copy_name m (root + off + 16) (d_name (cur_dirent dir)) = Some (take 64 ?nm @ 0 # q)"
      "length (take 64 ?nm @ 0 # q) = 65"
    using copy_name_str [OF str r(3)] by blast
  let ?dir = "dir\<lparr>dir_cur_addr := (if ?h = 0 then root + lim else root + ?h),
      cur_dirent := (cur_dirent dir)\<lparr>d_name := take 64 ?nm @ 0 # q\<rparr>\<rparr>"
  have "dir_at m root start lim False es ?dir"
  proof (cases "es = []")
    case True
    with r q(2) c(3) show ?thesis by (simp add: dir_at_def)
  next
    case False
    from c(4) [OF this] have "off \<le> ?h" using less_imp_le by blast
    with o(2) have "start \<le> ?h" by (rule order_trans)
    with False r q(2) c(3,4) show ?thesis by (auto simp: dir_at_def)
  qed
  moreover have "readdir_loop m root dir = (if ?nm \<in> dots then readdir_loop m root ?dir else Some (True, ?dir))"
    using readdir_loop_pick(2) [OF o(1)] q(1) node_facts(2) [OF c(1)] is_dots_name [OF 0, of q] r(2)
    by (simp add: Let_def)
  moreover have "dirent_type m (dir_cur_addr ?dir) = Some (node_type (hd es))" if "es \<noteq> []"
    using that c(3,4) by (cases es) (auto dest: node_facts(1))
  moreover have "dir_cur_addr ?dir = root + lim" if "es = []" using that c(3) by simp
  ultimately show ?thesis
    using that [of ?dir] seen_name [OF 0, of q] by simp
qed

lemma readdir_over:
  assumes "dir_at m root start lim False [] dir" "root \<noteq> 0" "dir_limit m root lim"
  shows "romfs_readdir m root (Some dir) = Some (None, Some dir)"
proof -
  have "root \<le> root + lim" using assms(3) by (simp add: dir_limit_def no_wrap_sum)
  then have "root + lim \<noteq> 0" using assms(2) by (metis word_le_0_iff)
  then have "pick m root dir = Some (Inl (dir_cur_addr dir))"
    using assms(1) by (simp add: pick_def dir_at_def)
  from readdir_loop_pick(1) [OF this] show ?thesis by (simp add: romfs_readdir_def)
qed

lemma readdir_same:
  "readdir_loop m root dir = readdir_loop m root dir' \<Longrightarrow> romfs_readdir m root (Some dir) = romfs_readdir m root (Some dir')"
  by (simp add: romfs_readdir_def)

lemma readdir_run_same:
  assumes "readdir_loop m root dir = readdir_loop m root dir'"
    and "\<exists>dir''. readdir_run m root k dir' = Some (xs, dir'')"
  shows "\<exists>dir''. readdir_run m root k dir = Some (xs, dir'')"
  using assms(2) readdir_same [OF assms(1)] by (cases k) simp_all

text \<open>The calls return the listing, and then \<open>NULL\<close> for ever.\<close>

lemma readdir_run_listing:
  assumes lim: "dir_limit m root lim" and root: "root \<noteq> 0" and te: "dirent_type m (root + lim) = Some te"
    and d: "dir_at m root start lim first es dir"
  shows "\<exists>dir'. readdir_run m root k dir =
     Some (map Some (take k (listing first te (d_type (cur_dirent dir)) es)) @
           replicate (k - length (listing first te (d_type (cur_dirent dir)) es)) None, dir')"
  using d
proof (induction es arbitrary: first dir k)
  case Nil
  then have f: "first = False" by (auto simp: dir_at_def split: if_splits)
  show ?case
    using readdir_over [OF Nil [unfolded f] root lim] by (induction k) auto
next
  case (Cons e es)
  let ?p = "d_type (cur_dirent dir)"
  let ?t = "case es of [] \<Rightarrow> te | f # _ \<Rightarrow> node_type f"
  define q where "q = (if ?t = ROMFH_DIR \<or> ?t = ROMFH_REG then ?t else ?p)"
  show ?case
  proof (cases "shown first e es")
    case False
    then obtain dir' where d': "dir_at m root start lim False es dir'" "cur_dirent dir' = cur_dirent dir"
        "readdir_loop m root dir = readdir_loop m root dir'"
      using readdir_hidden [OF Cons.prems lim root] by blast
    have l: "listing first te ?p (e # es) = listing False te ?p es"
      using False by (auto simp: shown_def Let_def)
    show ?thesis
      unfolding l using Cons.IH [OF d'(1)] d'(2) by (intro readdir_run_same [OF d'(3)]) simp
  next
    case True
    obtain dir' where d': "dir_at m root start lim False es dir'" "d_type (cur_dirent dir') = ?p"
      "takeWhile (\<lambda>c. c \<noteq> 0) (d_name (cur_dirent dir')) = take 64 (node_name e)"
      "readdir_loop m root dir = (if node_name e \<in> dots then readdir_loop m root dir' else Some (True, dir'))"
      "es \<noteq> [] \<Longrightarrow> dirent_type m (dir_cur_addr dir') = Some (node_type (hd es))"
      "es = [] \<Longrightarrow> dir_cur_addr dir' = root + lim"
      using readdir_shown [OF Cons.prems lim root True] by blast
    show ?thesis
    proof (cases "node_name e \<in> dots")
      case True
      then have l: "listing first te ?p (e # es) = listing False te ?p es" by (simp add: Let_def)
      have s: "readdir_loop m root dir = readdir_loop m root dir'" using d'(4) True by simp
      show ?thesis
        unfolding l using Cons.IH [OF d'(1)] d'(2) by (intro readdir_run_same [OF s]) simp
    next
      case False
      have l: "listing first te ?p (e # es) = (take 64 (node_name e), q) # listing False te q es"
        using \<open>shown first e es\<close> False by (simp add: Let_def shown_def q_def)
      have t: "dirent_type m (dir_cur_addr dir') = Some ?t"
        using d'(5,6) te by (cases es) simp_all
      let ?ent = "(cur_dirent dir')\<lparr>d_type := q\<rparr>"
      have r: "romfs_readdir m root (Some dir) = Some (Some ?ent, Some (dir'\<lparr>cur_dirent := ?ent\<rparr>))"
        using d'(2,4) False t by (simp add: romfs_readdir_def Let_def q_def)
      have s: "seen ?ent = (take 64 (node_name e), q)" using d'(3) by (simp add: seen_def)
      have "dir_at m root start lim False es (dir'\<lparr>cur_dirent := ?ent\<rparr>)"
        using d'(1) by (simp add: dir_at_def)
      from Cons.IH [OF this, of "k - 1"] show ?thesis
        unfolding l by (cases k) (auto simp: r s)
    qed
  qed
qed

section \<open>Opening a directory\<close>

text \<open>The directory that a list of names stands for; no name at all is the mount point.\<close>

definition dir_found :: "romfs_node list \<Rightarrow> bytes list \<Rightarrow> found" where
  "dir_found es cs = (if cs = [] then Found (Dir [] es) else lookup es cs)"

definition dir_path :: "bytes list \<Rightarrow> bytes" where
  "dir_path cs = (if cs = [] then ROMFS_MOUNTPOINT else romfs_path cs)"

lemma dirent_file_mountpoint:
  assumes "dirent_size m root = Some sz"
  shows "dirent_file m root ROMFS_MOUNTPOINT = Some (0, root, root + sz)"
proof -
  note endaddr_size [OF assms]
  moreover have "path_loop m root [] root (root + sz) False = Some (0, root, root + sz)"
    by (subst path_loop.simps) simp
  ultimately show ?thesis by (simp add: dirent_file_def ROMFS_MOUNTPOINT_def)
qed

lemma opendir_dir:
  assumes img: "romfs_image m root vol es" and cs: "\<forall>c\<in>set cs. plain_name c"
    and f: "dir_found es cs = Found (Dir nm fs)" "fs \<noteq> []"
  obtains dir start lim where "romfs_opendir m root (Some dp) (dir_path cs) = Some (0, Some dir)"
    "dir_limit m root lim" "dir_at m root start lim True fs dir" "d_type (cur_dirent dir) = ROMFH_HRD"
proof (cases "cs = []")
  case True
  obtain sz where sz: "dirent_size m root = Some sz" "dir_limit m root sz" "entries_at m root sz (first_entry vol) es"
    using image_size [OF img] by blast
  let ?dir = "cleared_dir\<lparr>dir_start_addr := root + first_entry vol, dir_end_addr := root + sz, dir_cur_addr := 0\<rparr>"
  have "romfs_opendir m root (Some dp) (dir_path cs) = Some (0, Some ?dir)"
    using img True dirent_file_mountpoint [OF sz(1)] root_facts(3) [OF img]
    by (simp add: romfs_opendir_def dir_path_def romfs_image_def first_entry_def add_ac)
  moreover have "dir_at m root (first_entry vol) sz True fs ?dir"
    using sz(3) f True by (simp add: dir_at_def cleared_dir_def dir_found_def)
  ultimately show ?thesis using that [of ?dir sz "first_entry vol"] sz(2) by (simp add: cleared_dir_def)
next
  case False
  then obtain lim off o' fin where o: "dirent_file m root (romfs_path cs) = Some (0, root + o', fin)" "off \<noteq> 0"
      "found_at m root lim off o' (Dir nm fs) fin" "dir_limit m root lim"
    using dirent_file_lookup [OF img cs False] f(1) by (auto simp: dir_found_def)
  from o(2,3) have 0: "o' \<noteq> 0" by (auto simp: found_at_def)
  obtain lim' where l: "fin = root + lim'" "dir_limit m root lim'" "dir_pos m root vol lim' True (root + o') fs"
    using found_dir_pos [OF o(3,4)] by blast
  then obtain c where c: "dirent_childaddr m (root + o') = Some c" "o' < c" "entries_at m root lim' c fs"
    using f(2) by (auto simp: dir_pos_def)
  let ?dir = "cleared_dir\<lparr>dir_start_addr := root + c, dir_end_addr := fin, dir_cur_addr := 0\<rparr>"
  have "romfs_opendir m root (Some dp) (dir_path cs) = Some (0, Some ?dir)"
    using img False o(1) 0 c(1,2) by (auto simp: romfs_opendir_def dir_path_def romfs_image_def)
  moreover have "dir_at m root c lim' True fs ?dir"
    using c(3) l(1) by (simp add: dir_at_def cleared_dir_def)
  ultimately show ?thesis using that [of ?dir lim' c] l(2) by (simp add: cleared_dir_def)
qed

lemma opendir_refused:
  assumes img: "romfs_image m root vol es" and cs: "\<forall>c\<in>set cs. plain_name c"
  shows "dir_found es cs = Found (File nm d) \<Longrightarrow> romfs_opendir m root (Some dp) (dir_path cs) = Some (- 3, Some cleared_dir)"
    and "dir_found es cs = Missing \<Longrightarrow> romfs_opendir m root (Some dp) (dir_path cs) = Some (- 4, Some cleared_dir)"
proof -
  have r: "root \<noteq> 0" using img by (simp add: romfs_image_def)
  show "romfs_opendir m root (Some dp) (dir_path cs) = Some (- 3, Some cleared_dir)" if "dir_found es cs = Found (File nm d)"
  proof -
    have n: "cs \<noteq> []" "lookup es cs = Found (File nm d)" using that by (auto simp: dir_found_def split: if_splits)
    obtain lim off fin where o: "dirent_file m root (romfs_path cs) = Some (0, root + off, fin)" "off \<noteq> 0"
        "node_at m root lim off (File nm d)"
      using open_lookup [OF img cs n] by blast
    then have "dirent_childaddr m (root + off) = Some 0" using node_facts(3) [OF o(3)] by simp
    with r o(1,2) n(1) show ?thesis by (simp add: romfs_opendir_def dir_path_def)
  qed
  show "romfs_opendir m root (Some dp) (dir_path cs) = Some (- 4, Some cleared_dir)" if "dir_found es cs = Missing"
  proof -
    have n: "cs \<noteq> []" "lookup es cs = Missing" using that by (auto simp: dir_found_def split: if_splits)
    with dirent_file_lookup [OF img cs n(1)] r show ?thesis
      by (auto simp: romfs_opendir_def dir_path_def)
  qed
qed

text \<open>
  C17: opening a directory and reading it lists its entries in their order, without \<^verbatim>\<open>.\<close> and
  \<^verbatim>\<open>..\<close>, and then returns \<open>NULL\<close> for ever.  Hard links and special files are passed over, unless
  they stand first or last.  The kind that comes with a name is that of the entry behind it
  (for the last one, whatever follows the directory).  A file is refused with -3, a path that does not exist
  with -4.
\<close>

theorem romfs_readdir_lists:
  assumes img: "romfs_image m root vol es" and cs: "\<forall>c\<in>set cs. plain_name c"
  shows "case dir_found es cs of
      Found (Dir nm fs) \<Rightarrow> fs = [] \<or>
        (\<exists>dir te. romfs_opendir m root (Some dp) (dir_path cs) = Some (0, Some dir) \<and>
           (\<forall>k. \<exists>dir'. readdir_run m root k dir =
              Some (map Some (take k (listing True te ROMFH_HRD fs)) @
                    replicate (k - length (listing True te ROMFH_HRD fs)) None, dir')))
    | Found _ \<Rightarrow> romfs_opendir m root (Some dp) (dir_path cs) = Some (- 3, Some cleared_dir)
    | Missing \<Rightarrow> romfs_opendir m root (Some dp) (dir_path cs) = Some (- 4, Some cleared_dir)
    | Through_file \<Rightarrow> True"
proof (cases "dir_found es cs")
  case (Found e)
  have r: "root \<noteq> 0" using img by (simp add: romfs_image_def)
  show ?thesis
  proof (cases e)
    case (File nm d)
    with Found opendir_refused(1) [OF img cs] show ?thesis by simp
  next
    case (Dir nm fs)
    show ?thesis
    proof (cases "fs = []")
      case False
      obtain dir start lim where o: "romfs_opendir m root (Some dp) (dir_path cs) = Some (0, Some dir)"
          "dir_limit m root lim" "dir_at m root start lim True fs dir" "d_type (cur_dirent dir) = ROMFH_HRD"
        using opendir_dir [OF img cs Found [unfolded Dir] False] by blast
      obtain te where te: "dirent_type m (root + lim) = Some te"
        using o(2) by (auto simp: dir_limit_def dirent_type_def)
      show ?thesis
        using readdir_run_listing [OF o(2) r te o(3), unfolded o(4)] o(1) Found Dir by auto
    qed (simp add: Found Dir)
  next
    case (Other ty nm)
    with Found lookup_kind [of es cs e] have False
      by (auto simp: dir_found_def split: if_splits)
    then show ?thesis ..
  qed
qed (simp_all add: opendir_refused(2) [OF img cs])

theorem romfs_readdir_lists_witness:
  "\<exists>dir dir' t. romfs_opendir sample_mem sample_root (Some cleared_dir) ROMFS_MOUNTPOINT = Some (0, Some dir) \<and>
     readdir_run sample_mem sample_root 3 dir = Some ([Some ([0x61], ROMFH_DIR), Some ([0x64], t), None], dir')"
proof -
  have f: "dir_found sample_tree [] = Found (Dir [] sample_tree)" "dir_path [] = ROMFS_MOUNTPOINT" "sample_tree \<noteq> []"
    by (simp_all add: dir_found_def dir_path_def sample_tree_def)
  obtain dir te where d: "romfs_opendir sample_mem sample_root (Some cleared_dir) ROMFS_MOUNTPOINT = Some (0, Some dir)"
    "\<forall>k. \<exists>dir'. readdir_run sample_mem sample_root k dir = Some (map Some (take k (listing True te ROMFH_HRD sample_tree)) @
        replicate (k - length (listing True te ROMFH_HRD sample_tree)) None, dir')"
    using romfs_readdir_lists [OF sample_image_ok, of "[]" cleared_dir] f by auto
  obtain t where l: "listing True te ROMFH_HRD sample_tree = [([0x61], ROMFH_DIR), ([0x64], t)]"
    by (auto simp: sample_tree_def dots_def Let_def)
  from d(2) [rule_format, of 3] d(1) show ?thesis unfolding l by (auto simp del: readdir_run.simps)
qed

section \<open>Paths that are followed wrongly\<close>





end
